(* ===== verification/Clio_Prelude.thy ===== *)
theory Clio_Prelude
  imports Main "HOL-Library.Word"
begin

text \<open>
  Shared material of the development: the types every component names (bytes, byte strings, the
  error values of the C++ exceptions), the error monad in which the fallible operations are
  written, the object representation of integers on the little-endian targets of the program
  (x86-64 and wasm32), and the automation the component proofs use.

  The named collections: \<^verbatim>\<open>bind_simps\<close> evaluates chains of the error monad,
  \<^verbatim>\<open>le_simps\<close> converts between integers and their object representations.
\<close>

named_theorems bind_simps
named_theorems le_simps

unbundle bit_operations_syntax

type_synonym byte = "8 word"
type_synonym u16 = "16 word"
type_synonym u32 = "32 word"
type_synonym u64 = "64 word"

section \<open>Errors and the error monad\<close>

text \<open>
  The first two types are the enums \<^verbatim>\<open>clio::stream_error\<close> of stream.hpp and
  \<^verbatim>\<open>clio::from_json_error\<close> of from_json.hpp, the third collects the
  exceptions the modelled code lets escape: a \<^verbatim>\<open>stream_error\<close>, the
  \<^verbatim>\<open>invalid_tuple_index\<close> of tuple.hpp, the \<^verbatim>\<open>std::length_error\<close>
  of \<^verbatim>\<open>vector::resize\<close>, the \<^verbatim>\<open>std::runtime_error\<close> of the key code with its text and
  the errors of the JSON reader.
\<close>

datatype stream_error =
    no_error | overrun | underrun | doubleread | float_error | varuint_too_big
  | invalid_varuint_encoding | bad_variant_index | invalid_asset_format | array_size_mismatch
  | invalid_name_char | invalid_name_char13 | name_too_long | json_writer_error

datatype from_json_error =
    json_no_error
  | expected_end | expected_null | expected_bool | expected_string | expected_hex_string
  | hex_string_incorrect_length | invalid_signature | invalid_name | expected_start_object
  | expected_key | expected_end_object | expected_start_array | expected_end_array
  | expected_positive_uint | expected_field | expected_variant | expected_public_key
  | expected_private_key | expected_signature | expected_number | expected_int
  | expected_time_point | expected_symbol_code | expected_symbol | expected_asset
  | invalid_type_for_variant | unexpected_field | number_out_of_range | from_json_no_pair
  | document_empty | document_root_not_singular | value_invalid | object_miss_name
  | object_miss_colon | object_miss_comma_or_curly_bracket | array_miss_comma_or_square_bracket
  | string_unicode_escape_invalid_hex | string_unicode_surrogate_invalid | string_escape_invalid
  | string_miss_quotation_mark | string_invalid_encoding | number_too_big | number_miss_fraction
  | number_miss_exponent | terminated | unspecific_syntax_error

datatype error =
    Stream_Error stream_error
  | Json_Error from_json_error
  | Tuple_Error
  | Length_Error
  | Runtime_Error string

type_synonym 'a result = "error + 'a"

definition rbind :: "'err + 'x \<Rightarrow> ('x \<Rightarrow> 'err + 'y) \<Rightarrow> 'err + 'y" where
  "rbind m f = (case m of Inl e \<Rightarrow> Inl e | Inr x \<Rightarrow> f x)"

lemma rbind_Inl [simp, bind_simps]: "rbind (Inl e) f = Inl e"
  by (simp add: rbind_def)

lemma rbind_Inr [simp, bind_simps]: "rbind (Inr x) f = f x"
  by (simp add: rbind_def)

lemma rbind_assoc: "rbind (rbind m f) g = rbind m (\<lambda>x. rbind (f x) g)"
  by (cases m) auto

lemma rbind_eq_Inr: "rbind m f = Inr y \<longleftrightarrow> (\<exists>x. m = Inr x \<and> f x = Inr y)"
  by (cases m) auto

lemma rbind_eq_Inl: "rbind m f = Inl e \<longleftrightarrow> m = Inl e \<or> (\<exists>x. m = Inr x \<and> f x = Inl e)"
  by (cases m) auto

lemma rbind_cong [fundef_cong]:
  "m = m' \<Longrightarrow> (\<And>x. m' = Inr x \<Longrightarrow> f x = g x) \<Longrightarrow> rbind m f = rbind m' g"
  by (cases m') auto

lemma rbind_split:
  "P (rbind m f) \<longleftrightarrow> (\<forall>e. m = Inl e \<longrightarrow> P (Inl e)) \<and> (\<forall>x. m = Inr x \<longrightarrow> P (f x))"
  by (cases m) auto

text \<open>A computation that may also not return: None then.\<close>

definition fbind :: "('err + 'x) option \<Rightarrow> ('x \<Rightarrow> ('err + 'y) option) \<Rightarrow> ('err + 'y) option" where
  "fbind m f = (case m of None \<Rightarrow> None | Some (Inl e) \<Rightarrow> Some (Inl e) | Some (Inr x) \<Rightarrow> f x)"

lemma fbind_simps [simp, bind_simps]:
  "fbind None f = None" "fbind (Some (Inl e)) f = Some (Inl e)" "fbind (Some (Inr x)) f = f x"
  by (simp_all add: fbind_def)

text \<open>Undefined behaviour, an access outside of an object, is a value of its own, and so is a call of exit.\<close>

datatype fault = Throw error | Memory_Fault | Process_Exit

definition may_throw :: "'a result \<Rightarrow> fault + 'a" where
  "may_throw r = map_sum Throw id r"

section \<open>Words as numbers\<close>

lemma unat_drop_bit_div: "unat (drop_bit n (w :: 'a::len word)) = unat w div 2 ^ n"
  by (subst unat_drop_bit_eq) (rule drop_bit_eq_div)

lemma unat_take_bit_mod: "unat (take_bit n (w :: 'a::len word)) = unat w mod 2 ^ n"
  by (subst unsigned_take_bit_eq) (rule take_bit_eq_mod)

lemma and_mask_eq:
  "w AND 0x7f = take_bit 7 (w :: 'a::len word)"
  "w AND 0x1f = take_bit 5 (w :: 'a::len word)"
  "w AND 0x0f = take_bit 4 (w :: 'a::len word)"
  "w AND 1 = take_bit 1 (w :: 'a::len word)"
  by (simp_all add: take_bit_eq_mask mask_eq_exp_minus_1)

lemma word_gt_0_iff: "0 < w \<longleftrightarrow> w \<noteq> (0 :: 'a::len word)"
  by (rule word_neq_0_conv [symmetric])

lemma and_bit_iff:
  "w AND 0x80 \<noteq> 0 \<longleftrightarrow> bit (w :: 'a::len word) 7"
  "w AND 1 \<noteq> 0 \<longleftrightarrow> bit (w :: 'a::len word) 0"
  using and_exp_eq_0_iff_not_bit [of w 7] and_exp_eq_0_iff_not_bit [of w 0] by auto

lemma unat_of_nat_u16: "n < 2 ^ 16 \<Longrightarrow> unat (of_nat n :: u16) = n"
  by (simp add: unat_of_nat take_bit_eq_mod)

lemma unat_of_nat_u32: "n < 2 ^ 32 \<Longrightarrow> unat (of_nat n :: u32) = n"
  by (simp add: unat_of_nat take_bit_eq_mod)

section \<open>Object representation of integers\<close>

text \<open>
  \<^verbatim>\<open>nat_le n x\<close> is the little-endian image of \<^verbatim>\<open>x\<close> in \<^verbatim>\<open>n\<close> bytes (its value modulo
  \<^verbatim>\<open>256 ^ n\<close>), \<^verbatim>\<open>le_nat\<close> reads an image back.
\<close>

fun nat_le :: "nat \<Rightarrow> nat \<Rightarrow> byte list" where
  "nat_le 0 x = []"
| "nat_le (Suc n) x = word_of_nat x # nat_le n (x div 256)"

fun le_nat :: "byte list \<Rightarrow> nat" where
  "le_nat [] = 0"
| "le_nat (b # bs) = unat b + 256 * le_nat bs"

lemma length_nat_le [simp, le_simps]: "length (nat_le n x) = n"
  by (induction n arbitrary: x) auto

lemma unat_byte_less [simp]: "unat (b :: byte) < 256"
proof -
  have "unat b < 2 ^ LENGTH(8)"
    by (rule unsigned_less)
  then show ?thesis by simp
qed

lemma unat_word_of_nat_byte: "unat (word_of_nat x :: byte) = x mod 256"
  by (simp add: unat_of_nat)

lemma le_nat_nat_le [le_simps]: "le_nat (nat_le n x) = x mod 256 ^ n"
proof (induction n arbitrary: x)
  case 0
  show ?case by simp
next
  case (Suc n)
  show ?case
    using Suc.IH [of "x div 256"]
    by (simp add: unat_word_of_nat_byte mod_mult2_eq add.commute)
qed

lemma le_nat_bound: "le_nat bs < 256 ^ length bs"
proof (induction bs)
  case Nil
  show ?case by simp
next
  case (Cons b bs)
  have "unat b + 256 * le_nat bs < 256 + 256 * le_nat bs"
    by simp
  also have "\<dots> = 256 * Suc (le_nat bs)"
    by simp
  also have "\<dots> \<le> 256 * 256 ^ length bs"
    using Cons.IH by (simp only: Suc_le_eq mult_le_mono2)
  finally show ?case by simp
qed

lemma nat_le_le_nat [le_simps]: "nat_le (length bs) (le_nat bs) = bs"
proof (induction bs)
  case Nil
  show ?case by simp
next
  case (Cons b bs)
  have "(unat b + 256 * le_nat bs) div 256 = le_nat bs"
    by simp
  moreover have "(word_of_nat (unat b + 256 * le_nat bs) :: byte) = b"
    by (simp add: word_eq_iff_unsigned [where 'a = nat] unat_word_of_nat_byte del: of_nat_add)
  ultimately show ?case
    using Cons.IH by simp
qed

lemma nat_le_inj: "x < 256 ^ n \<Longrightarrow> y < 256 ^ n \<Longrightarrow> nat_le n x = nat_le n y \<longleftrightarrow> x = y"
  by (metis le_nat_nat_le mod_less)

text \<open>The image of a word of \<^verbatim>\<open>8 * n\<close> bits and back.\<close>

definition word_le :: "nat \<Rightarrow> 'a::len word \<Rightarrow> byte list" where
  "word_le n w = nat_le n (unat w)"

definition le_word :: "byte list \<Rightarrow> 'a::len word" where
  "le_word bs = word_of_nat (le_nat bs)"

lemma length_word_le [simp, le_simps]: "length (word_le n w) = n"
  by (simp add: word_le_def)

lemma le_word_word_le [le_simps]:
  fixes w :: "'a::len word"
  assumes "LENGTH('a) = 8 * n"
  shows "le_word (word_le n w) = w"
proof -
  have "(256 :: nat) ^ n = 2 ^ (8 * n)"
    by (simp add: power_mult)
  moreover have "unat w < 2 ^ LENGTH('a)"
    by (rule unsigned_less)
  ultimately have "unat w mod 256 ^ n = unat w"
    using assms by simp
  then show ?thesis
    by (simp add: le_word_def word_le_def le_nat_nat_le)
qed

section \<open>Text\<close>

text \<open>A C++ string is a sequence of bytes; \<^verbatim>\<open>bytes_of\<close> gives those of a literal.\<close>

definition bytes_of :: "string \<Rightarrow> byte list" where
  "bytes_of s = map of_char s"

lemma bytes_of_simps [simp]:
  "bytes_of [] = []"
  "bytes_of (c # s) = of_char c # bytes_of s"
  by (simp_all add: bytes_of_def)

lemma length_bytes_of [simp]: "length (bytes_of s) = length s"
  by (simp add: bytes_of_def)

end
