(* ===== verification/Clio_Stream.thy ===== *)
theory Clio_Stream
  imports Clio_Prelude
begin

text \<open>
  The streams of libraries/clio/include/clio/stream.hpp. Every serializer of clio is a template
  over a stream type; the operations below are the members those templates call.

  Output: \<^verbatim>\<open>vector_stream\<close> and \<^verbatim>\<open>string_stream\<close> append, \<^verbatim>\<open>size_stream\<close> only counts,
  \<^verbatim>\<open>fixed_buf_stream\<close> overwrites a buffer it was given and throws \<^verbatim>\<open>overrun\<close> at its end.
  What a serializer writes is the list of its \<^verbatim>\<open>stream.write\<close> calls in order, and
  \<^verbatim>\<open>run_writes\<close> executes such a list on any stream. The locale \<^verbatim>\<open>byte_sink\<close> states the
  contract all four share and proves that only the concatenation of the calls matters.

  Input: \<^verbatim>\<open>input_stream\<close> and \<^verbatim>\<open>check_input_stream\<close> hold two pointers into a buffer. The
  locale \<^verbatim>\<open>byte_source\<close> states that a stream's read implements reading from a plain byte
  list; decoders are written against the read operation and proved once over that contract.
\<close>

section \<open>Output streams\<close>

type_synonym writes = "byte list list"

definition vector_stream_write :: "byte list \<Rightarrow> byte list \<Rightarrow> byte list result" where
  "vector_stream_write src data = Inr (data @ src)"

definition string_stream_write :: "byte list \<Rightarrow> byte list \<Rightarrow> byte list result" where
  "string_stream_write src data = Inr (data @ src)"

definition size_stream_write :: "byte list \<Rightarrow> nat \<Rightarrow> nat result" where
  "size_stream_write src sz = Inr (sz + length src)"

text \<open>\<^verbatim>\<open>fb_begin\<close> is address 0 of the buffer \<^verbatim>\<open>fb_mem\<close>.\<close>

record fixed_buf_stream =
  fb_mem :: "byte list"
  fb_pos :: nat
  fb_end :: nat

definition fixed_buf_stream_new :: "byte list \<Rightarrow> nat \<Rightarrow> fixed_buf_stream" where
  "fixed_buf_stream_new mem n = \<lparr>fb_mem = mem, fb_pos = 0, fb_end = n\<rparr>"

definition memcpy :: "byte list \<Rightarrow> nat \<Rightarrow> byte list \<Rightarrow> byte list" where
  "memcpy mem p src = take p mem @ src @ drop (p + length src) mem"

definition fixed_buf_write_char :: "byte \<Rightarrow> fixed_buf_stream \<Rightarrow> fixed_buf_stream result" where
  "fixed_buf_write_char ch s =
     (if fb_pos s \<ge> fb_end s then Inl (Stream_Error overrun)
      else Inr (s\<lparr>fb_mem := (fb_mem s)[fb_pos s := ch], fb_pos := Suc (fb_pos s)\<rparr>))"

definition fixed_buf_write :: "byte list \<Rightarrow> fixed_buf_stream \<Rightarrow> fixed_buf_stream result" where
  "fixed_buf_write src s =
     (if fb_pos s + length src > fb_end s then Inl (Stream_Error overrun)
      else Inr (s\<lparr>fb_mem := memcpy (fb_mem s) (fb_pos s) src,
                  fb_pos := fb_pos s + length src\<rparr>))"

definition fixed_buf_skip :: "int \<Rightarrow> fixed_buf_stream \<Rightarrow> fixed_buf_stream result" where
  "fixed_buf_skip d s =
     (if int (fb_pos s) + d > int (fb_end s) \<or> int (fb_pos s) + d < 0
      then Inl (Stream_Error overrun)
      else Inr (s\<lparr>fb_pos := nat (int (fb_pos s) + d)\<rparr>))"

definition fixed_buf_remaining :: "fixed_buf_stream \<Rightarrow> nat" where
  "fixed_buf_remaining s = fb_end s - fb_pos s"

definition fixed_buf_consumed :: "fixed_buf_stream \<Rightarrow> nat" where
  "fixed_buf_consumed s = fb_pos s"

fun run_writes :: "(byte list \<Rightarrow> 's \<Rightarrow> 's result) \<Rightarrow> writes \<Rightarrow> 's \<Rightarrow> 's result" where
  "run_writes wr [] s = Inr s"
| "run_writes wr (c # cs) s = rbind (wr c s) (run_writes wr cs)"

subsection \<open>The contract of an output stream\<close>

locale byte_sink =
  fixes wr :: "byte list \<Rightarrow> 's \<Rightarrow> 's result"
    and sink_inv :: "'s \<Rightarrow> bool"
  assumes wr_nil: "sink_inv s \<Longrightarrow> wr [] s = Inr s"
    and wr_inv: "sink_inv s \<Longrightarrow> wr xs s = Inr s' \<Longrightarrow> sink_inv s'"
    and wr_append: "sink_inv s \<Longrightarrow> rbind (wr xs s) (wr ys) = wr (xs @ ys) s"
begin

lemma run_writes_concat: "sink_inv s \<Longrightarrow> run_writes wr cs s = wr (concat cs) s"
proof (induction cs arbitrary: s)
  case Nil
  then show ?case by (simp add: wr_nil)
next
  case (Cons c cs)
  have "run_writes wr (c # cs) s = rbind (wr c s) (wr (concat cs))"
    using Cons.IH wr_inv [OF Cons.prems] by (cases "wr c s") auto
  also have "\<dots> = wr (c @ concat cs) s"
    by (rule wr_append [OF Cons.prems])
  finally show ?case by simp
qed

lemma run_writes_append:
  "sink_inv s \<Longrightarrow> run_writes wr (as @ bs) s = rbind (run_writes wr as s) (run_writes wr bs)"
proof (induction as arbitrary: s)
  case Nil
  then show ?case by simp
next
  case (Cons a as)
  then show ?case
    using wr_inv [OF Cons.prems] by (cases "wr a s") auto
qed

end

text \<open>A stream that also reports how much it has taken, as the two-pass converters use it.\<close>

locale counting_sink = byte_sink +
  fixes consumed :: "'s \<Rightarrow> nat"
  assumes wr_consumed: "sink_inv s \<Longrightarrow> wr xs s = Inr s' \<Longrightarrow> consumed s' = consumed s + length xs"
begin

lemma run_writes_consumed:
  "sink_inv s \<Longrightarrow> run_writes wr cs s = Inr s' \<Longrightarrow> consumed s' = consumed s + length (concat cs)"
  by (simp only: run_writes_concat wr_consumed)

end

interpretation vs: byte_sink vector_stream_write "\<lambda>_. True"
  by unfold_locales (auto simp: vector_stream_write_def)

interpretation strs: byte_sink string_stream_write "\<lambda>_. True"
  by unfold_locales (auto simp: string_stream_write_def)

interpretation szs: counting_sink size_stream_write "\<lambda>_. True" "\<lambda>n. n"
  by unfold_locales (auto simp: size_stream_write_def)

definition fb_inv :: "fixed_buf_stream \<Rightarrow> bool" where
  "fb_inv s \<longleftrightarrow> fb_pos s \<le> fb_end s \<and> fb_end s \<le> length (fb_mem s)"

lemma length_memcpy: "p + length src \<le> length mem \<Longrightarrow> length (memcpy mem p src) = length mem"
  by (simp add: memcpy_def)

lemma memcpy_memcpy:
  "p + length xs + length ys \<le> length mem \<Longrightarrow>
   memcpy (memcpy mem p xs) (p + length xs) ys = memcpy mem p (xs @ ys)"
  by (simp add: memcpy_def ac_simps)

lemma nth_memcpy:
  assumes "p + length xs \<le> length m" "i < length m"
  shows "memcpy m p xs ! i = (if p \<le> i \<and> i < p + length xs then xs ! (i - p) else m ! i)"
  using assms by (auto simp: memcpy_def nth_append min_def)

lemma memcpy_Nil [simp]: "memcpy m p [] = m"
  by (simp add: memcpy_def)

lemma memcpy_swap:
  assumes "p + length xs \<le> q" "q + length ys \<le> length m"
  shows "memcpy (memcpy m q ys) p xs = memcpy (memcpy m p xs) q ys"
proof (rule nth_equalityI)
  show "length (memcpy (memcpy m q ys) p xs) = length (memcpy (memcpy m p xs) q ys)"
    using assms by (simp add: length_memcpy)
next
  fix i assume "i < length (memcpy (memcpy m q ys) p xs)"
  then have i: "i < length m" using assms by (simp add: length_memcpy)
  show "memcpy (memcpy m q ys) p xs ! i = memcpy (memcpy m p xs) q ys ! i"
    using assms i by (simp add: length_memcpy nth_memcpy)
qed

text \<open>Two cells written one after the other are the two cells side by side.\<close>

lemma memcpy_cells:
  assumes "p + length a + length b \<le> h" "h + length x + length y \<le> length m"
  shows "memcpy (memcpy (memcpy (memcpy m p a) h x) (p + length a) b) (h + length x) y =
         memcpy (memcpy m p (a @ b)) h (x @ y)"
proof -
  have "memcpy (memcpy (memcpy m p a) h x) (p + length a) b = memcpy (memcpy m p (a @ b)) h x"
    using assms memcpy_swap [of "p + length a" b h x "memcpy m p a"]
    by (simp add: length_memcpy memcpy_memcpy)
  then show ?thesis
    using assms by (simp add: length_memcpy memcpy_memcpy)
qed

lemma fixed_buf_write_inv: "fb_inv s \<Longrightarrow> fixed_buf_write xs s = Inr s' \<Longrightarrow> fb_inv s'"
  by (auto simp: fb_inv_def fixed_buf_write_def length_memcpy split: if_splits)

lemma fixed_buf_write_append:
  "fb_inv s \<Longrightarrow> rbind (fixed_buf_write xs s) (fixed_buf_write ys) = fixed_buf_write (xs @ ys) s"
  by (auto simp: fb_inv_def fixed_buf_write_def memcpy_memcpy split: rbind_split)

interpretation fbs: counting_sink fixed_buf_write fb_inv fixed_buf_consumed
proof unfold_locales
  show "fb_inv s \<Longrightarrow> fixed_buf_write [] s = Inr s" for s
    by (simp add: fb_inv_def fixed_buf_write_def memcpy_def)
  show "fb_inv s \<Longrightarrow> fixed_buf_write xs s = Inr s' \<Longrightarrow> fb_inv s'" for xs s s'
    by (rule fixed_buf_write_inv)
  show "fb_inv s \<Longrightarrow> rbind (fixed_buf_write xs s) (fixed_buf_write ys) = fixed_buf_write (xs @ ys) s"
    for xs ys s by (rule fixed_buf_write_append)
  show "fb_inv s \<Longrightarrow> fixed_buf_write xs s = Inr s' \<Longrightarrow>
      fixed_buf_consumed s' = fixed_buf_consumed s + length xs" for xs s s'
    by (auto simp: fixed_buf_write_def fixed_buf_consumed_def split: if_splits)
qed

lemma fixed_buf_write_char_eq:
  assumes "fb_inv s"
  shows "fixed_buf_write_char ch s = fixed_buf_write [ch] s"
proof (cases "fb_pos s < fb_end s")
  case True
  with assms have "fb_pos s < length (fb_mem s)"
    by (simp add: fb_inv_def)
  with True show ?thesis
    by (simp add: fixed_buf_write_char_def fixed_buf_write_def memcpy_def upd_conv_take_nth_drop)
next
  case False
  then show ?thesis
    by (simp add: fixed_buf_write_char_def fixed_buf_write_def)
qed

subsection \<open>The two-pass conversion\<close>

text \<open>
  \<^verbatim>\<open>convert_to_bin\<close>, \<^verbatim>\<open>convert_to_key\<close>, \<^verbatim>\<open>convert_to_json\<close> and \<^verbatim>\<open>to_protobuf\<close>
  all run a serializer on a \<^verbatim>\<open>size_stream\<close>, grow the result by that size and run it again on
  a \<^verbatim>\<open>fixed_buf_stream\<close> over the new part. The flag says whether the converter checks at the
  end that the buffer is full.
\<close>

definition two_pass :: "bool \<Rightarrow> writes \<Rightarrow> byte list \<Rightarrow> byte list result" where
  "two_pass check ws bin =
     rbind (run_writes size_stream_write ws 0) (\<lambda>sz.
     rbind (run_writes fixed_buf_write ws (fixed_buf_stream_new (replicate sz 0) sz)) (\<lambda>fbs.
     if check \<and> fb_pos fbs \<noteq> fb_end fbs then Inl (Stream_Error underrun)
     else Inr (bin @ fb_mem fbs)))"

lemma two_pass_concat: "two_pass check ws bin = Inr (bin @ concat ws)"
proof -
  let ?n = "length (concat ws)"
  let ?fb = "fixed_buf_stream_new (replicate ?n 0) ?n"
  have size: "run_writes size_stream_write ws 0 = Inr ?n"
    by (simp only: szs.run_writes_concat) (simp add: size_stream_write_def)
  have inv: "fb_inv ?fb"
    by (simp add: fb_inv_def fixed_buf_stream_new_def)
  have "run_writes fixed_buf_write ws ?fb = fixed_buf_write (concat ws) ?fb"
    by (rule fbs.run_writes_concat [OF inv])
  also have "\<dots> = Inr \<lparr>fb_mem = concat ws, fb_pos = ?n, fb_end = ?n\<rparr>"
    by (simp add: fixed_buf_write_def fixed_buf_stream_new_def memcpy_def)
  finally show ?thesis
    by (simp add: two_pass_def size)
qed

section \<open>Input streams\<close>

text \<open>
  Pointers are offsets into the buffer \<^verbatim>\<open>is_mem\<close>; \<^verbatim>\<open>size_t(end - pos)\<close> is the
  difference of the pointers modulo \<^verbatim>\<open>2 ^ 64\<close>.
\<close>

record input_stream =
  is_mem :: "byte list"
  is_pos :: nat
  is_end :: nat

definition input_stream_of :: "byte list \<Rightarrow> nat \<Rightarrow> nat \<Rightarrow> input_stream result" where
  "input_stream_of mem p e =
     (if e < p then Inl (Stream_Error overrun) else Inr \<lparr>is_mem = mem, is_pos = p, is_end = e\<rparr>)"

definition input_stream_vec :: "byte list \<Rightarrow> input_stream" where
  "input_stream_vec v = \<lparr>is_mem = v, is_pos = 0, is_end = length v\<rparr>"

definition is_remaining :: "'a input_stream_scheme \<Rightarrow> nat" where
  "is_remaining s = nat ((int (is_end s) - int (is_pos s)) mod 2 ^ 64)"

definition is_check_available :: "nat \<Rightarrow> 'a input_stream_scheme \<Rightarrow> unit result" where
  "is_check_available n s =
     (if n > is_remaining s then Inl (Stream_Error overrun) else Inr ())"

definition is_skip :: "nat \<Rightarrow> 'a input_stream_scheme \<Rightarrow> 'a input_stream_scheme result" where
  "is_skip n s =
     (if n > is_remaining s then Inl (Stream_Error overrun)
      else Inr (s\<lparr>is_pos := is_pos s + n\<rparr>))"

definition is_read ::
  "nat \<Rightarrow> 'a input_stream_scheme \<Rightarrow> (byte list \<times> 'a input_stream_scheme) result" where
  "is_read n s =
     (if n > is_remaining s then Inl (Stream_Error overrun)
      else Inr (take n (drop (is_pos s) (is_mem s)), s\<lparr>is_pos := is_pos s + n\<rparr>))"

text \<open>\<^verbatim>\<open>read_reuse_storage\<close> returns the pointer instead of a copy.\<close>

definition is_read_reuse_storage ::
  "nat \<Rightarrow> 'a input_stream_scheme \<Rightarrow> (nat \<times> 'a input_stream_scheme) result" where
  "is_read_reuse_storage n s =
     (if n > is_remaining s then Inl (Stream_Error overrun)
      else Inr (is_pos s, s\<lparr>is_pos := is_pos s + n\<rparr>))"

text \<open>\<^verbatim>\<open>check_input_stream\<close> does the same and counts the bytes read.\<close>

record check_input_stream = input_stream +
  total_read :: nat

definition check_read :: "nat \<Rightarrow> check_input_stream \<Rightarrow> (byte list \<times> check_input_stream) result" where
  "check_read n s =
     (if n > is_remaining s then Inl (Stream_Error overrun)
      else Inr (take n (drop (is_pos s) (is_mem s)),
                s\<lparr>is_pos := is_pos s + n, total_read := total_read s + n\<rparr>))"

definition check_checkread :: "nat \<Rightarrow> check_input_stream \<Rightarrow> check_input_stream result" where
  "check_checkread n s =
     (if n > is_remaining s then Inl (Stream_Error overrun)
      else Inr (s\<lparr>is_pos := is_pos s + n, total_read := total_read s + n\<rparr>))"

definition check_skip :: "nat \<Rightarrow> check_input_stream \<Rightarrow> check_input_stream result" where
  "check_skip n s =
     (if n > is_remaining s then Inl (Stream_Error overrun)
      else Inr (s\<lparr>is_pos := is_pos s + n, total_read := total_read s + n\<rparr>))"

text \<open>The abstract source: the bytes between \<^verbatim>\<open>pos\<close> and \<^verbatim>\<open>end\<close>.\<close>

definition source_read :: "nat \<Rightarrow> byte list \<Rightarrow> (byte list \<times> byte list) result" where
  "source_read n bs =
     (if n > length bs then Inl (Stream_Error overrun) else Inr (take n bs, drop n bs))"

definition is_view :: "'a input_stream_scheme \<Rightarrow> byte list" where
  "is_view s = take (is_end s - is_pos s) (drop (is_pos s) (is_mem s))"

definition is_inv :: "'a input_stream_scheme \<Rightarrow> bool" where
  "is_inv s \<longleftrightarrow> is_pos s \<le> is_end s \<and> is_end s \<le> length (is_mem s) \<and> length (is_mem s) < 2 ^ 64"

subsection \<open>The contract of an input stream\<close>

text \<open>
  \<^verbatim>\<open>sim_res view iv r r'\<close>: the outcome \<^verbatim>\<open>r\<close> on a stream is the outcome \<^verbatim>\<open>r'\<close> on
  the bytes it stands for, the same error or the same value with matching remainders.
\<close>

definition sim_res ::
  "('s \<Rightarrow> byte list) \<Rightarrow> ('s \<Rightarrow> bool) \<Rightarrow> ('a \<times> 's) result \<Rightarrow> ('a \<times> byte list) result \<Rightarrow> bool" where
  "sim_res view iv r r' \<longleftrightarrow>
     (case r of Inl e \<Rightarrow> r' = Inl e
      | Inr (x, s) \<Rightarrow> iv s \<and> r' = Inr (x, view s))"

lemma sim_res_Inl [simp]: "sim_res view iv (Inl e) r' \<longleftrightarrow> r' = Inl e"
  by (simp add: sim_res_def)

lemma sim_res_Inr [simp]:
  "sim_res view iv (Inr (x, s)) r' \<longleftrightarrow> iv s \<and> r' = Inr (x, view s)"
  by (simp add: sim_res_def)

lemma sim_res_value:
  "sim_res view iv r (Inr (x, rest)) \<Longrightarrow> \<exists>s. r = Inr (x, s) \<and> iv s \<and> view s = rest"
  by (auto simp: sim_res_def split: sum.splits prod.splits)

lemma sim_res_bind:
  assumes "sim_res view iv r r'"
    and "\<And>x s. iv s \<Longrightarrow> r = Inr (x, s) \<Longrightarrow> sim_res view iv (f (x, s)) (f' (x, view s))"
  shows "sim_res view iv (rbind r f) (rbind r' f')"
proof (cases r)
  case (Inl e)
  with assms(1) show ?thesis by simp
next
  case (Inr p)
  obtain x s where "p = (x, s)" by force
  with Inr assms show ?thesis by simp
qed

locale byte_source =
  fixes rd :: "nat \<Rightarrow> 's \<Rightarrow> (byte list \<times> 's) result"
    and view :: "'s \<Rightarrow> byte list"
    and iv :: "'s \<Rightarrow> bool"
  assumes rd_sim: "iv s \<Longrightarrow> sim_res view iv (rd n s) (source_read n (view s))"
begin

lemma rd_within:
  assumes "iv s" and "rd n s = Inr (xs, s')"
  shows "iv s' \<and> n \<le> length (view s) \<and> xs = take n (view s) \<and> view s' = drop n (view s)"
  using rd_sim [OF assms(1), of n] assms(2) by (auto simp: source_read_def split: if_splits)

lemma rd_overrun: "iv s \<Longrightarrow> length (view s) < n \<Longrightarrow> rd n s = Inl (Stream_Error overrun)"
  using rd_sim [of s n] by (cases "rd n s") (auto simp: source_read_def)

end

lemma is_remaining_inv: "is_inv s \<Longrightarrow> is_remaining s = is_end s - is_pos s"
  by (simp add: is_remaining_def is_inv_def mod_pos_pos_trivial)

lemma length_is_view: "is_inv s \<Longrightarrow> length (is_view s) = is_end s - is_pos s"
  by (auto simp: is_view_def is_inv_def)

lemma take_is_view: "n \<le> is_end s - is_pos s \<Longrightarrow> take n (is_view s) = take n (drop (is_pos s) (is_mem s))"
  by (simp add: is_view_def)

lemma drop_is_view:
  "drop n (is_view s) = take (is_end s - (is_pos s + n)) (drop (is_pos s + n) (is_mem s))"
  by (simp add: is_view_def drop_take add.commute)

lemma is_read_sim:
  assumes "is_inv s"
  shows "sim_res is_view is_inv (is_read n s) (source_read n (is_view s))"
proof (cases "is_end s - is_pos s < n")
  case True
  with assms show ?thesis
    by (simp add: is_read_def source_read_def is_remaining_inv length_is_view)
next
  case False
  with assms have "is_inv (s\<lparr>is_pos := is_pos s + n\<rparr>)"
    by (auto simp: is_inv_def)
  with False assms show ?thesis
    by (simp add: is_read_def source_read_def is_remaining_inv length_is_view take_is_view
        drop_is_view)
       (simp add: is_view_def)
qed

lemma check_read_sim:
  assumes "is_inv s"
  shows "sim_res is_view is_inv (check_read n s) (source_read n (is_view s))"
proof (cases "is_end s - is_pos s < n")
  case True
  with assms show ?thesis
    by (simp add: check_read_def source_read_def is_remaining_inv length_is_view)
next
  case False
  let ?s = "s\<lparr>is_pos := is_pos s + n, total_read := total_read s + n\<rparr>"
  from False assms have "is_inv ?s"
    by (auto simp: is_inv_def)
  with False assms show ?thesis
    by (simp add: check_read_def source_read_def is_remaining_inv length_is_view take_is_view
        drop_is_view)
       (simp add: is_view_def)
qed

interpretation src: byte_source source_read "\<lambda>bs. bs" "\<lambda>_. True"
  by unfold_locales (auto simp: source_read_def)

interpretation ist: byte_source is_read is_view is_inv
  by unfold_locales (rule is_read_sim)

interpretation chk: byte_source check_read is_view is_inv
  by unfold_locales (rule check_read_sim)

lemma is_view_vec [simp]: "is_view (input_stream_vec v) = v"
  by (simp add: is_view_def input_stream_vec_def)

lemma is_inv_vec [simp]: "is_inv (input_stream_vec v) \<longleftrightarrow> length v < 2 ^ 64"
  by (simp add: is_inv_def input_stream_vec_def)

lemma source_read_append [simp]: "source_read (length xs) (xs @ ys) = Inr (xs, ys)"
  by (simp add: source_read_def)

lemma source_read_append': "n = length xs \<Longrightarrow> source_read n (xs @ ys) = Inr (xs, ys)"
  by simp

lemma source_read_1_Cons [simp]:
  "source_read (Suc 0) (b # bs) = Inr ([b], bs)" "source_read 1 (b # bs) = Inr ([b], bs)"
  by (simp_all add: source_read_def)

lemma source_read_shrinks:
  "source_read n bs = Inr (xs, rest) \<Longrightarrow> bs = xs @ rest \<and> length xs = n"
  by (auto simp: source_read_def split: if_splits)

end
