(* ===== verification/Clio_Flatbuf.thy ===== *)
theory Clio_Flatbuf
  imports Clio_Stream
begin

text \<open>
  The flat buffers of clio (flatbuf.hpp): packing, unpacking, the check of untrusted bytes and the
  views that read a packed object in place. Strings, vectors, flat pointers and everything that holds
  one are replaced by an \<^verbatim>\<open>offset_ptr\<close>, the distance in bytes from the pointer itself to the packed
  object; all else lies in line.

  A C++ type is a \<^verbatim>\<open>flat_ty\<close>; the alternatives of a variant come with the hash of their type name
  (\<^verbatim>\<open>get_type_hashname\<close>). Types that contain themselves are not covered. A number of \<^verbatim>\<open>n\<close> bytes is its
  object representation.
\<close>

section \<open>Types and values\<close>

datatype flat_ty =
    FL_num nat
  | FL_string
  | FL_ptr
  | FL_vector flat_ty
  | FL_struct "flat_ty list"
  | FL_variant "(u64 \<times> flat_ty) list"

datatype flat_val =
    FV_num "byte list"
  | FV_string "byte list"
  | FV_ptr "byte list"
  | FV_vector "flat_val list"
  | FV_struct "flat_val list"
  | FV_variant nat flat_val

fun contains_offset :: "flat_ty \<Rightarrow> bool" where
  "contains_offset (FL_num n) \<longleftrightarrow> False"
| "contains_offset (FL_struct ts) \<longleftrightarrow> list_ex contains_offset ts"
| "contains_offset (FL_variant alts) \<longleftrightarrow> list_ex (\<lambda>(h, t). contains_offset t) alts"
| "contains_offset _ \<longleftrightarrow> True"

text \<open>The sizes are constants of the types; they are computed in 32 bits.\<close>

fun flatpack_size :: "flat_ty \<Rightarrow> nat" where
  "flatpack_size (FL_num n) = n"
| "flatpack_size (FL_struct ts) = sum_list (map (\<lambda>t. if contains_offset t then 4 else flatpack_size t) ts)"
| "flatpack_size (FL_variant alts) = 16"
| "flatpack_size _ = 4"

definition slot_size :: "flat_ty \<Rightarrow> nat" where
  "slot_size t = (if contains_offset t then 4 else flatpack_size t)"

text \<open>\<^verbatim>\<open>get_tuple_offset\<close>: where a member lies in its struct.\<close>

fun tuple_offset :: "nat \<Rightarrow> flat_ty list \<Rightarrow> nat" where
  "tuple_offset i [] = 0"
| "tuple_offset i (t # ts) = (if i = 0 then 0 else tuple_offset (i - 1) ts + (if contains_offset t then 4 else flatpack_size t))"

section \<open>Packing\<close>

text \<open>
  The two streams \<^verbatim>\<open>flatpack\<close> is instantiated with. \<^verbatim>\<open>skip\<close> of a size stream takes a 32-bit
  signed number.
\<close>

datatype pack_stream = Size_Stream nat | Buf_Stream fixed_buf_stream

definition ps_write :: "byte list \<Rightarrow> pack_stream \<Rightarrow> fault + pack_stream" where
  "ps_write src s =
     (case s of
        Size_Stream n \<Rightarrow> may_throw (map_sum id Size_Stream (size_stream_write src n))
      | Buf_Stream fb \<Rightarrow> may_throw (map_sum id Buf_Stream (fixed_buf_write src fb)))"

definition ps_size :: "pack_stream \<Rightarrow> nat" where
  "ps_size s = (case s of Size_Stream n \<Rightarrow> n | Buf_Stream fb \<Rightarrow> 0)"

definition size_stream_skip :: "nat \<Rightarrow> nat \<Rightarrow> nat" where
  "size_stream_skip n sz = nat ((int sz + sint (of_nat n :: u32)) mod 2 ^ 64)"

type_synonym flat_packer = "pack_stream \<Rightarrow> fault + u32 \<times> pack_stream"

text \<open>\<^verbatim>\<open>size_stream size_str; flatpack(member, size_str)\<close>.\<close>

definition measured :: "flat_packer \<Rightarrow> fault + nat" where
  "measured pack = rbind (pack (Size_Stream 0)) (\<lambda>(_, s). Inr (ps_size s))"

text \<open>
  The packed member goes \<^verbatim>\<open>offset\<close> bytes behind its pointer, which has just been written: a size stream
  skips it, a buffer gets a substream over the part.
\<close>

definition place :: "flat_packer \<Rightarrow> u32 \<Rightarrow> nat \<Rightarrow> pack_stream \<Rightarrow> fault + pack_stream" where
  "place pack offset sz s =
     (case s of
        Size_Stream n \<Rightarrow> Inr (Size_Stream (size_stream_skip sz n))
      | Buf_Stream fb \<Rightarrow>
          let sub = fb\<lparr>fb_pos := fb_pos fb + unat offset - 4, fb_end := fb_pos fb + unat offset - 4 + sz\<rparr>
          in if fb_end sub > fb_end fb then Inl (Throw (Stream_Error overrun))
             else
               rbind (pack (Buf_Stream sub)) (\<lambda>(_, s).
               Inr (case s of Buf_Stream sub \<Rightarrow> Buf_Stream (fb\<lparr>fb_mem := fb_mem sub\<rparr>) | Size_Stream n \<Rightarrow> Buf_Stream fb)))"

text \<open>\<^verbatim>\<open>member.size() == 0\<close>, for strings and vectors only.\<close>

definition empty_seq :: "flat_val \<Rightarrow> bool" where
  "empty_seq v \<longleftrightarrow> v = FV_string [] \<or> v = FV_vector []"

text \<open>
  One pointer with its object, in a vector or (\<^verbatim>\<open>in_struct\<close>) in a struct, where an offset of 0 ends the
  process. The two numbers are \<^verbatim>\<open>alloc_pos\<close> and \<^verbatim>\<open>cur_pos\<close>.
\<close>

definition pack_slot :: "bool \<Rightarrow> flat_packer \<Rightarrow> flat_val \<Rightarrow> u32 \<Rightarrow> u32 \<Rightarrow> pack_stream \<Rightarrow> fault + u32 \<times> u32 \<times> pack_stream" where
  "pack_slot in_struct pack v alloc cur s =
     (if empty_seq v then rbind (ps_write (word_le 4 (0 :: u32)) s) (\<lambda>s. Inr (alloc, cur + 4, s))
      else
        rbind (measured pack) (\<lambda>sz.
        if in_struct \<and> alloc - cur = 0 then Inl Process_Exit
        else
          rbind (ps_write (word_le 4 (alloc - cur)) s) (\<lambda>s.
          rbind (place pack (alloc - cur) sz s) (\<lambda>s. Inr (alloc + of_nat sz, cur + 4, s)))))"

text \<open>A variant whose alternative has no offset and at most 8 bytes is packed in line.\<close>

definition inline_alt :: "flat_ty \<Rightarrow> bool" where
  "inline_alt t \<longleftrightarrow> \<not> contains_offset t \<and> flatpack_size t \<le> 8"

text \<open>The numbers returned are \<^verbatim>\<open>cur_pos\<close>; the branch for variants leaves it at 0.\<close>

text \<open>A value that is not of the type does not exist in C++; it stands for no packing at all.\<close>

function flatpack :: "flat_ty \<Rightarrow> flat_val \<Rightarrow> flat_packer"
  and flatpack_ptrs :: "flat_ty \<Rightarrow> flat_val list \<Rightarrow> u32 \<Rightarrow> u32 \<Rightarrow> flat_packer"
  and flatpack_items :: "flat_ty \<Rightarrow> flat_val list \<Rightarrow> u32 \<Rightarrow> flat_packer"
  and flatpack_members :: "flat_ty list \<Rightarrow> flat_val list \<Rightarrow> u32 \<Rightarrow> u32 \<Rightarrow> flat_packer" where
  "flatpack ty (FV_num bs) s =
     (case ty of FL_num n \<Rightarrow> rbind (ps_write bs s) (\<lambda>s. Inr (of_nat n, s)) | _ \<Rightarrow> Inl Memory_Fault)"
| "flatpack ty (FV_ptr bs) s =
     (let size = of_nat (length bs) :: u32
      in rbind (ps_write (word_le 4 size) s) (\<lambda>s.
         if size \<noteq> 0 then rbind (ps_write bs s) (\<lambda>s. Inr (4, s)) else Inr (4, s)))"
| "flatpack ty (FV_string bs) s =
     (let size = of_nat (length bs) :: u32
      in rbind (ps_write (word_le 4 size) s) (\<lambda>s.
         if size \<noteq> 0
         then rbind (ps_write bs s) (\<lambda>s. rbind (ps_write [0] s) (\<lambda>s. Inr (4 + of_nat (length bs) + 1, s)))
         else Inr (4, s)))"
| "flatpack ty (FV_vector vs) s =
     (case ty of
        FL_vector t \<Rightarrow>
          let size = of_nat (length vs) :: u32
          in rbind (ps_write (word_le 4 size) s) (\<lambda>s.
             if contains_offset t then flatpack_ptrs t vs (4 + size * 4) 4 s
             else flatpack_items t vs 4 s)
      | _ \<Rightarrow> Inl Memory_Fault)"
| "flatpack ty (FV_struct vs) s =
     (case ty of
        FL_struct ts \<Rightarrow> flatpack_members ts vs (of_nat (flatpack_size (FL_struct ts))) 0 s
      | _ \<Rightarrow> Inl Memory_Fault)"
| "flatpack ty (FV_variant i v) s =
     (case ty of
        FL_variant alts \<Rightarrow>
          let (h, t) = alts ! i
          in if inline_alt t then
               rbind (flatpack t v (Buf_Stream (fixed_buf_stream_new (replicate 8 0) 8))) (\<lambda>(_, st).
               rbind (ps_write (word_le 8 h @ (case st of Buf_Stream fb \<Rightarrow> fb_mem fb | Size_Stream n \<Rightarrow> [])) s) (\<lambda>s.
               Inr (0, s)))
             else
               let offset = 16 - (0 + 12) :: u32
               in rbind (measured (\<lambda>s. flatpack t v s)) (\<lambda>sz.
                  rbind (ps_write (word_le 8 h @ word_le 4 (0 :: u32) @ word_le 4 offset) s) (\<lambda>s.
                  rbind (place (\<lambda>s. flatpack t v s) offset sz s) (\<lambda>s.
                  Inr (0, s))))
      | _ \<Rightarrow> Inl Memory_Fault)"
| "flatpack_ptrs t [] alloc cur s = Inr (cur, s)"
| "flatpack_ptrs t (v # vs) alloc cur s =
     rbind (pack_slot False (\<lambda>s. flatpack t v s) v alloc cur s) (\<lambda>(alloc, cur, s).
     flatpack_ptrs t vs alloc cur s)"
| "flatpack_items t [] cur s = Inr (cur, s)"
| "flatpack_items t (v # vs) cur s =
     rbind (flatpack t v s) (\<lambda>(n, s). flatpack_items t vs (cur + n) s)"
| "flatpack_members ts [] alloc cur s = Inr (cur, s)"
| "flatpack_members ts (v # vs) alloc cur s =
     (case ts of
        [] \<Rightarrow> Inr (cur, s)
      | t # ts \<Rightarrow>
          if contains_offset t then
            rbind (pack_slot True (\<lambda>s. flatpack t v s) v alloc cur s) (\<lambda>(alloc, cur, s).
            flatpack_members ts vs alloc cur s)
          else
            rbind (flatpack t v s) (\<lambda>(n, s). flatpack_members ts vs alloc (cur + n) s))"
  by pat_completeness auto

termination
  by (relation "measure (case_sum (case_sum (\<lambda>(t, v, s). size v) (\<lambda>(t, vs, alloc, cur, s). size_list size vs))
      (case_sum (\<lambda>(t, vs, cur, s). size_list size vs) (\<lambda>(ts, vs, alloc, cur, s). size_list size vs)))") auto

section \<open>Unpacking\<close>

text \<open>
  Into default constructed objects, as \<^verbatim>\<open>flat_ptr\<close> does. Unpacking a vector resizes it to the size it
  reads; a variant whose hash is none of the alternatives stays the first alternative.
\<close>

type_synonym flat_reader = "input_stream \<Rightarrow> fault + flat_val \<times> input_stream"

definition read_u32 :: "input_stream \<Rightarrow> fault + u32 \<times> input_stream" where
  "read_u32 s = rbind (may_throw (is_read 4 s)) (\<lambda>(bs, s). Inr (le_word bs, s))"

text \<open>\<^verbatim>\<open>input_stream in(stream.pos + ptr.offset - sizeof(ptr), stream.end)\<close>, with the pointer just read.\<close>

definition deref :: "u32 \<Rightarrow> input_stream \<Rightarrow> fault + input_stream" where
  "deref offset s = may_throw (input_stream_of (is_mem s) (is_pos s + unat offset - 4) (is_end s))"

text \<open>A member that is packed in line, or behind a pointer.\<close>

definition unpack_slot :: "bool \<Rightarrow> flat_reader \<Rightarrow> flat_reader" where
  "unpack_slot ptr unpack s =
     (if ptr then
        rbind (read_u32 s) (\<lambda>(offset, s).
        rbind (deref offset s) (\<lambda>sub.
        rbind (unpack sub) (\<lambda>(v, _). Inr (v, s))))
      else unpack s)"

primrec unpack_items :: "nat \<Rightarrow> flat_reader \<Rightarrow> input_stream \<Rightarrow> fault + flat_val list \<times> input_stream" where
  "unpack_items 0 unpack s = Inr ([], s)"
| "unpack_items (Suc n) unpack s =
     rbind (unpack s) (\<lambda>(v, s). rbind (unpack_items n unpack s) (\<lambda>(vs, s). Inr (v # vs, s)))"

fun unpack_members :: "flat_reader list \<Rightarrow> input_stream \<Rightarrow> fault + flat_val list \<times> input_stream" where
  "unpack_members [] s = Inr ([], s)"
| "unpack_members (unpack # us) s =
     rbind (unpack s) (\<lambda>(v, s). rbind (unpack_members us s) (\<lambda>(vs, s). Inr (v # vs, s)))"

text \<open>\<^verbatim>\<open>init_variant\<close>: the first alternative with the hash.\<close>

fun alt_index :: "u64 \<Rightarrow> (u64 \<times> 'a) list \<Rightarrow> nat option" where
  "alt_index type [] = None"
| "alt_index type ((h, t) # alts) = (if h = type then Some 0 else map_option Suc (alt_index type alts))"

definition init_variant :: "u64 \<Rightarrow> (u64 \<times> 'a) list \<Rightarrow> nat" where
  "init_variant type alts = (case alt_index type alts of Some i \<Rightarrow> i | None \<Rightarrow> 0)"

lemma size_alternative: "(h, t) \<in> set alts \<Longrightarrow> size t < Suc (size_list (size_prod (\<lambda>x. 0) size) alts)"
  using size_list_estimation' [of "(h, t)" alts "size t" "size_prod (\<lambda>x. 0) size"] by (simp add: less_Suc_eq_le)

function flatunpack :: "flat_ty \<Rightarrow> flat_reader" where
  "flatunpack (FL_num n) s = rbind (may_throw (is_read n s)) (\<lambda>(bs, s). Inr (FV_num bs, s))"
| "flatunpack FL_ptr s =
     rbind (read_u32 s) (\<lambda>(size, s).
     rbind (may_throw (is_read (unat size) s)) (\<lambda>(bs, s). Inr (FV_ptr bs, s)))"
| "flatunpack FL_string s =
     rbind (read_u32 s) (\<lambda>(size, s).
     rbind (may_throw (is_read (unat size) s)) (\<lambda>(bs, s).
     rbind (may_throw (is_skip 1 s)) (\<lambda>s. Inr (FV_string bs, s))))"
| "flatunpack (FL_vector t) s =
     rbind (read_u32 s) (\<lambda>(size, s).
     rbind (unpack_items (unat size) (unpack_slot (contains_offset t) (\<lambda>s. flatunpack t s)) s) (\<lambda>(vs, s).
     Inr (FV_vector vs, s)))"
| "flatunpack (FL_struct ts) s =
     rbind (unpack_members (map (\<lambda>t. unpack_slot (contains_offset t) (\<lambda>s. flatunpack t s)) ts) s) (\<lambda>(vs, s).
     Inr (FV_struct vs, s))"
| "flatunpack (FL_variant alts) s =
     rbind (may_throw (is_read 16 s)) (\<lambda>(fv, s).
     let i = init_variant (le_word (take 8 fv)) alts
     in if i < length alts then
          let t = snd (alts ! i)
          in if inline_alt t then
               rbind (flatunpack t (input_stream_vec (drop 8 fv))) (\<lambda>(v, _). Inr (FV_variant i v, s))
             else
               rbind (deref (le_word (drop 12 fv)) s) (\<lambda>sub.
               rbind (flatunpack t sub) (\<lambda>(v, _). Inr (FV_variant i v, s)))
        else Inl Memory_Fault)"
  by pat_completeness auto

termination
proof (relation "measure (size \<circ> fst)", goal_cases)
  case (4 alts s x fv s' i t)
  then show ?case using nth_mem [of i alts] size_alternative [of "fst (alts ! i)" "snd (alts ! i)" alts] by simp
next
  case (5 alts s x fv s' i t sub)
  then show ?case using nth_mem [of i alts] size_alternative [of "fst (alts ! i)" "snd (alts ! i)" alts] by simp
qed (auto simp: less_Suc_eq_le size_list_estimation')

section \<open>The check of untrusted bytes\<close>

text \<open>
  The loop over the pointers of a vector never moves \<^verbatim>\<open>ptr\<close>, and the size of a vector of objects in
  line is a product of 32-bit numbers. The branch for a struct without offsets does not compile, so the
  check exists for the types of \<^verbatim>\<open>checkable\<close> only; alternatives of a variant are unpacked.
\<close>

fun checkable :: "flat_ty \<Rightarrow> bool" where
  "checkable (FL_struct ts) \<longleftrightarrow> list_ex contains_offset ts \<and> list_all (\<lambda>t. contains_offset t \<longrightarrow> checkable t) ts"
| "checkable (FL_vector t) \<longleftrightarrow> contains_offset t \<longrightarrow> checkable t"
| "checkable _ \<longleftrightarrow> True"

primrec check_ptrs :: "nat \<Rightarrow> (input_stream \<Rightarrow> fault + input_stream) \<Rightarrow> input_stream \<Rightarrow> fault + unit" where
  "check_ptrs 0 check first = Inr ()"
| "check_ptrs (Suc n) check first =
     rbind (check first) (\<lambda>_. check_ptrs n check first)"

fun check_members :: "(input_stream \<Rightarrow> fault + input_stream) list \<Rightarrow> input_stream \<Rightarrow> fault + input_stream" where
  "check_members [] s = Inr s"
| "check_members (check # cs) s = rbind (check s) (check_members cs)"

fun flatcheck :: "flat_ty \<Rightarrow> input_stream \<Rightarrow> fault + input_stream" where
  "flatcheck (FL_num n) s = may_throw (is_skip n s)"
| "flatcheck FL_ptr s = rbind (read_u32 s) (\<lambda>(size, s). may_throw (is_skip (unat size) s))"
| "flatcheck FL_string s = rbind (read_u32 s) (\<lambda>(size, s). may_throw (is_skip (unat size) s))"
| "flatcheck (FL_vector t) s =
     rbind (read_u32 s) (\<lambda>(size, s).
     if contains_offset t then
       let start = is_pos s
       in rbind (may_throw (is_skip (unat size * 4) s)) (\<lambda>s'.
          rbind (check_ptrs (unat size) (\<lambda>first.
            rbind (may_throw (is_read 4 first)) (\<lambda>(bs, _).
            rbind (may_throw (input_stream_of (is_mem s) (start + unat (le_word bs :: u32)) (is_end s))) (\<lambda>sub.
            flatcheck t sub))) s) (\<lambda>_. Inr s'))
     else may_throw (is_skip (unat (size * of_nat (flatpack_size t))) s))"
| "flatcheck (FL_struct ts) s =
     check_members (map (\<lambda>t.
       if contains_offset t
       then (\<lambda>s. rbind (read_u32 s) (\<lambda>(offset, s). rbind (deref offset s) (\<lambda>sub. rbind (flatcheck t sub) (\<lambda>_. Inr s))))
       else (\<lambda>s. may_throw (is_skip (flatpack_size t) s))) ts) s"
| "flatcheck (FL_variant alts) s =
     rbind (may_throw (is_read 16 s)) (\<lambda>(fv, s).
     if alts = [] then Inl Memory_Fault
     else
       let t = snd (alts ! init_variant (le_word (take 8 fv)) alts)
       in if inline_alt t then Inr s
          else rbind (deref (le_word (drop 12 fv)) s) (\<lambda>sub. rbind (flatunpack t sub) (\<lambda>_. Inr s)))"

section \<open>Views\<close>

text \<open>
  A view is the address of the packed object. Its operations read the memory of the process without a
  check of their own, other than that of the index of a vector. An address outside of the buffer is a
  memory fault.
\<close>

definition mem_u32 :: "byte list \<Rightarrow> nat \<Rightarrow> fault + u32" where
  "mem_u32 mem a = (if a + 4 \<le> length mem then Inr (le_word (take 4 (drop a mem))) else Inl Memory_Fault)"

text \<open>\<^verbatim>\<open>offset_ptr::get\<close>; the view of a flat pointer starts behind its size. There is none for variants.\<close>

definition offset_get :: "flat_ty \<Rightarrow> byte list \<Rightarrow> nat \<Rightarrow> fault + nat" where
  "offset_get t mem p =
     rbind (mem_u32 mem p) (\<lambda>offset. Inr (if t = FL_ptr then p + unat offset + 4 else p + unat offset))"

definition view_member :: "flat_ty list \<Rightarrow> nat \<Rightarrow> byte list \<Rightarrow> nat \<Rightarrow> fault + nat" where
  "view_member ts i mem a =
     (let p = a + tuple_offset i ts
      in if contains_offset (ts ! i) then offset_get (ts ! i) mem p else Inr p)"

text \<open>Of a string or a vector.\<close>

definition view_size :: "byte list \<Rightarrow> nat \<Rightarrow> fault + nat" where
  "view_size mem a = rbind (mem_u32 mem a) (\<lambda>size. Inr (unat size))"

text \<open>\<^verbatim>\<open>data\<close> is a null pointer (None) for an empty string, \<^verbatim>\<open>c_str\<close> the string itself, whose size is 0.\<close>

definition view_data :: "byte list \<Rightarrow> nat \<Rightarrow> fault + nat option" where
  "view_data mem a = rbind (mem_u32 mem a) (\<lambda>size. Inr (if size \<noteq> 0 then Some (a + 4) else None))"

definition view_c_str :: "byte list \<Rightarrow> nat \<Rightarrow> fault + nat" where
  "view_c_str mem a = rbind (mem_u32 mem a) (\<lambda>size. Inr (if size \<noteq> 0 then a + 4 else a))"

text \<open>
  \<^verbatim>\<open>operator[]\<close>. The pointers of a vector are read as those of vectors, so the view of a flat pointer
  starts at its size here. The place of a struct is a 32-bit product. The elements of a vector of
  variants in line are taken for \<^verbatim>\<open>std::variant\<close> objects, which the packed bytes are not.
\<close>

definition view_element :: "flat_ty \<Rightarrow> nat \<Rightarrow> byte list \<Rightarrow> nat \<Rightarrow> fault + nat" where
  "view_element t index mem a =
     rbind (mem_u32 mem a) (\<lambda>size.
     if index \<ge> unat size then Inl (Throw (Stream_Error overrun))
     else if contains_offset t then offset_get (FL_vector t) mem (a + 4 + 4 * index)
     else
       (case t of
          FL_struct ts \<Rightarrow> Inr (a + 4 + unat (of_nat index * of_nat (flatpack_size t) :: u32))
        | FL_num n \<Rightarrow> Inr (a + 4 + index * n)
        | _ \<Rightarrow> Inl Memory_Fault))"

definition mem_u64 :: "byte list \<Rightarrow> nat \<Rightarrow> fault + u64" where
  "mem_u64 mem a = (if a + 8 \<le> length mem then Inr (le_word (take 8 (drop a mem))) else Inl Memory_Fault)"

text \<open>\<^verbatim>\<open>visit\<close> of a variant: the alternative and its address, or None when the visitor is not called.\<close>

definition view_visit :: "(u64 \<times> flat_ty) list \<Rightarrow> byte list \<Rightarrow> nat \<Rightarrow> fault + (nat \<times> nat) option" where
  "view_visit alts mem a =
     rbind (mem_u64 mem a) (\<lambda>type.
     case alt_index type alts of
       None \<Rightarrow> Inr None
     | Some i \<Rightarrow>
         if inline_alt (snd (alts ! i)) then Inr (Some (i, a + 8))
         else rbind (mem_u32 mem (a + 12)) (\<lambda>offset. Inr (Some (i, a + 12 + unat offset))))"

text \<open>\<^verbatim>\<open>index_from_type\<close> starts over with all the alternatives where it means the rest of them.\<close>

partial_function (option) index_from_type :: "u64 list \<Rightarrow> u64 \<Rightarrow> int option" where
  "index_from_type hashes type =
     (case hashes of
        [] \<Rightarrow> None
      | first # rest \<Rightarrow>
          if rest = [] then Some (if first \<noteq> type then 1 else 0)
          else if first = type then Some 0
          else Option.bind (index_from_type hashes type) (\<lambda>i. Some (1 + i)))"

section \<open>Flat pointers\<close>

text \<open>The constructor of \<^verbatim>\<open>flat_ptr\<close> packs twice, into a new array the second time; \<^verbatim>\<open>operator T\<close> unpacks.\<close>

definition flat_ptr_new :: "(nat \<Rightarrow> byte) \<Rightarrow> flat_ty \<Rightarrow> flat_val \<Rightarrow> fault + byte list" where
  "flat_ptr_new fresh t v =
     rbind (measured (flatpack t v)) (\<lambda>size.
     if size \<noteq> 0 then
       rbind (flatpack t v (Buf_Stream (fixed_buf_stream_new (map fresh [0..<size]) size))) (\<lambda>(_, s).
       Inr (case s of Buf_Stream fb \<Rightarrow> fb_mem fb | Size_Stream n \<Rightarrow> []))
     else Inr [])"

definition flat_ptr_value :: "flat_ty \<Rightarrow> byte list \<Rightarrow> fault + flat_val" where
  "flat_ptr_value t data = rbind (flatunpack t (input_stream_vec data)) (\<lambda>(v, _). Inr v)"

end
