(* ===== verification/Clio_Json_Text.thy ===== *)
theory Clio_Json_Text
  imports Clio_Prelude
begin

text \<open>
  The text of JSON scalars: how to_json.hpp writes integers, strings and hex data, how from_json.hpp
  reads integers and hex data, and how the vendored rapidjson reader (reader.h, encodings.h) reads a
  string. Bytes are characters; reading past the end of a text gives the terminating NUL.
\<close>

abbreviation ord :: "char \<Rightarrow> nat" where
  "ord c \<equiv> of_char c"

abbreviation chr :: "nat \<Rightarrow> char" where
  "chr n \<equiv> char_of n"

section \<open>UTF-8\<close>

text \<open>\<^verbatim>\<open>UTF8::GetRange\<close>, the table by its runs.\<close>

definition get_range :: "nat \<Rightarrow> nat" where
  "get_range c =
     (if c < 128 then 0 else if c < 144 then 0x10 else if c < 160 then 0x40 else if c < 192 then 0x20
      else if c < 194 then 8 else if c < 224 then 2 else if c = 224 then 10 else if c < 237 then 3
      else if c = 237 then 4 else if c < 240 then 3 else if c = 240 then 11 else if c < 244 then 6
      else if c = 244 then 5 else 8)"

text \<open>The masks the bytes after the first must meet; None is the default case.\<close>

definition tail_masks :: "nat \<Rightarrow> nat list option" where
  "tail_masks r =
     (if r = 2 then Some [0x70] else if r = 3 then Some [0x70, 0x70] else if r = 4 then Some [0x50, 0x70]
      else if r = 5 then Some [0x10, 0x70, 0x70] else if r = 6 then Some [0x70, 0x70, 0x70]
      else if r = 10 then Some [0x20, 0x70] else if r = 11 then Some [0x60, 0x70, 0x70] else None)"

definition peek :: "string \<Rightarrow> char" where
  "peek s = (case s of [] \<Rightarrow> CHR 0x00 | c # _ \<Rightarrow> c)"

fun tail_ok :: "nat list \<Rightarrow> string \<Rightarrow> bool" where
  "tail_ok [] s = True"
| "tail_ok (m # ms) s = (get_range (ord (peek s)) AND m \<noteq> 0 \<and> tail_ok ms (tl s))"

text \<open>\<^verbatim>\<open>UTF8::Validate\<close>: the number of bytes of a valid sequence at the start, None for an invalid one.\<close>

definition utf8_validate :: "string \<Rightarrow> nat option" where
  "utf8_validate s =
     (if ord (peek s) < 128 then Some 1
      else case tail_masks (get_range (ord (peek s))) of
        None \<Rightarrow> None
      | Some ms \<Rightarrow> if tail_ok ms (tl s) then Some (1 + length ms) else None)"

text \<open>\<^verbatim>\<open>UTF8::Encode\<close>.\<close>

definition utf8_encode :: "nat \<Rightarrow> string" where
  "utf8_encode cp =
     (if cp \<le> 0x7F then [chr cp]
      else if cp \<le> 0x7FF then [chr (0xC0 + cp div 64), chr (0x80 + cp mod 64)]
      else if cp \<le> 0xFFFF then [chr (0xE0 + cp div 4096), chr (0x80 + cp div 64 mod 64), chr (0x80 + cp mod 64)]
      else [chr (0xF0 + cp div 262144), chr (0x80 + cp div 4096 mod 64), chr (0x80 + cp div 64 mod 64),
            chr (0x80 + cp mod 64)])"

section \<open>Writing strings\<close>

definition hex_digits :: string where
  "hex_digits = ''0123456789ABCDEF''"

definition hex_digit :: "nat \<Rightarrow> char" where
  "hex_digit n = hex_digits ! n"

text \<open>\<^verbatim>\<open>stream_adaptor\<close>: at most four bytes of the segment, zeros after them. \<close>

definition stream_adaptor :: "string \<Rightarrow> string" where
  "stream_adaptor src = take 4 src"

text \<open>The inner loop: a segment without special characters.\<close>

function write_segment :: "string \<Rightarrow> string" where
  "write_segment seg =
     (if seg = [] then []
      else case utf8_validate (stream_adaptor seg) of
        Some n \<Rightarrow> take n seg @ write_segment (drop n seg)
      | None \<Rightarrow> CHR ''?'' # write_segment (tl seg))"
  by pat_completeness auto

termination
  by (relation "measure length")
    (auto simp: utf8_validate_def length_greater_0_conv [symmetric] simp del: length_greater_0_conv split: if_splits option.splits)

declare write_segment.simps [simp del]

definition plain_char :: "char \<Rightarrow> bool" where
  "plain_char c \<longleftrightarrow> c \<noteq> CHR 0x22 \<and> c \<noteq> CHR 0x5C \<and> ord c \<ge> 32 \<and> c \<noteq> CHR 0x7F"

definition escape_char :: "char \<Rightarrow> string" where
  "escape_char c =
     (if c = CHR 0x22 then [CHR 0x5C, CHR 0x22]
      else if c = CHR 0x5C then [CHR 0x5C, CHR 0x5C]
      else [CHR 0x5C, CHR ''u'', CHR ''0'', CHR ''0'', hex_digit (ord c div 16), hex_digit (ord c mod 16)])"

function string_body :: "string \<Rightarrow> string" where
  "string_body sv =
     write_segment (takeWhile plain_char sv) @
     (case dropWhile plain_char sv of
        [] \<Rightarrow> []
      | c # cs \<Rightarrow> escape_char c @ string_body cs)"
  by pat_completeness auto

termination
proof (relation "measure length")
  fix sv :: string and c cs
  assume "dropWhile plain_char sv = c # cs"
  then have "length (c # cs) \<le> length sv" by (metis length_dropWhile_le)
  then show "(cs, sv) \<in> measure length" by simp
qed simp

declare string_body.simps [simp del]

definition to_json_string :: "string \<Rightarrow> string" where
  "to_json_string sv = CHR 0x22 # string_body sv @ [CHR 0x22]"

section \<open>Reading strings\<close>

datatype parse_error =
    ParseErrorNone | ParseErrorDocumentEmpty | ParseErrorDocumentRootNotSingular | ParseErrorValueInvalid
  | ParseErrorObjectMissName | ParseErrorObjectMissColon | ParseErrorObjectMissCommaOrCurlyBracket
  | ParseErrorArrayMissCommaOrSquareBracket | ParseErrorStringUnicodeEscapeInvalidHex
  | ParseErrorStringUnicodeSurrogateInvalid | ParseErrorStringEscapeInvalid
  | ParseErrorStringMissQuotationMark | ParseErrorStringInvalidEncoding | ParseErrorNumberTooBig
  | ParseErrorNumberMissFraction | ParseErrorNumberMissExponent | ParseErrorTermination
  | ParseErrorUnspecificSyntaxError

fun convert_error :: "parse_error \<Rightarrow> from_json_error" where
  "convert_error ParseErrorNone = json_no_error"
| "convert_error ParseErrorDocumentEmpty = document_empty"
| "convert_error ParseErrorDocumentRootNotSingular = document_root_not_singular"
| "convert_error ParseErrorValueInvalid = value_invalid"
| "convert_error ParseErrorObjectMissName = object_miss_name"
| "convert_error ParseErrorObjectMissColon = object_miss_colon"
| "convert_error ParseErrorObjectMissCommaOrCurlyBracket = object_miss_comma_or_curly_bracket"
| "convert_error ParseErrorArrayMissCommaOrSquareBracket = array_miss_comma_or_square_bracket"
| "convert_error ParseErrorStringUnicodeEscapeInvalidHex = string_unicode_escape_invalid_hex"
| "convert_error ParseErrorStringUnicodeSurrogateInvalid = string_unicode_surrogate_invalid"
| "convert_error ParseErrorStringEscapeInvalid = string_escape_invalid"
| "convert_error ParseErrorStringMissQuotationMark = string_miss_quotation_mark"
| "convert_error ParseErrorStringInvalidEncoding = string_invalid_encoding"
| "convert_error ParseErrorNumberTooBig = number_too_big"
| "convert_error ParseErrorNumberMissFraction = number_miss_fraction"
| "convert_error ParseErrorNumberMissExponent = number_miss_exponent"
| "convert_error ParseErrorTermination = terminated"
| "convert_error ParseErrorUnspecificSyntaxError = unspecific_syntax_error"

definition hex_value :: "char \<Rightarrow> nat option" where
  "hex_value c =
     (let n = ord c
      in if 48 \<le> n \<and> n \<le> 57 then Some (n - 48)
         else if 65 \<le> n \<and> n \<le> 70 then Some (n - 55)
         else if 97 \<le> n \<and> n \<le> 102 then Some (n - 87) else None)"

fun parse_hex :: "nat \<Rightarrow> nat \<Rightarrow> string \<Rightarrow> (nat \<times> string) option" where
  "parse_hex 0 codepoint is = Some (codepoint, is)"
| "parse_hex (Suc n) codepoint is =
     (case hex_value (peek is) of
        None \<Rightarrow> None
      | Some d \<Rightarrow> parse_hex n (codepoint * 16 + d) (tl is))"

definition parse_hex4 :: "string \<Rightarrow> (nat \<times> string) option" where
  "parse_hex4 is = parse_hex 4 0 is"

text \<open>The table \<^verbatim>\<open>escape\<close> of one-character escapes.\<close>

definition simple_escape :: "char \<Rightarrow> char option" where
  "simple_escape e =
     (if e = CHR 0x22 \<or> e = CHR 0x2F \<or> e = CHR 0x5C then Some e
      else if e = CHR ''b'' then Some (CHR 0x08) else if e = CHR ''f'' then Some (CHR 0x0C)
      else if e = CHR ''n'' then Some (CHR 0x0A) else if e = CHR ''r'' then Some (CHR 0x0D)
      else if e = CHR ''t'' then Some (CHR 0x09) else None)"

text \<open>An escape, without its backslash: the bytes it stands for and the rest.\<close>

definition parse_escape :: "string \<Rightarrow> parse_error + string \<times> string" where
  "parse_escape is =
     (case simple_escape (peek is) of
        Some c \<Rightarrow> Inr ([c], tl is)
      | None \<Rightarrow>
          if peek is \<noteq> CHR ''u'' then Inl ParseErrorStringEscapeInvalid
          else
            (case parse_hex4 (tl is) of
               None \<Rightarrow> Inl ParseErrorStringUnicodeEscapeInvalidHex
             | Some (cp, is) \<Rightarrow>
                 if 0xD800 \<le> cp \<and> cp \<le> 0xDBFF then
                   if peek is \<noteq> CHR 0x5C \<or> peek (tl is) \<noteq> CHR ''u'' then Inl ParseErrorStringUnicodeSurrogateInvalid
                   else
                     (case parse_hex4 (tl (tl is)) of
                        None \<Rightarrow> Inl ParseErrorStringUnicodeEscapeInvalidHex
                      | Some (cp2, is) \<Rightarrow>
                          if cp2 < 0xDC00 \<or> cp2 > 0xDFFF then Inl ParseErrorStringUnicodeSurrogateInvalid
                          else Inr (utf8_encode ((cp - 0xD800) * 1024 + (cp2 - 0xDC00) + 0x10000), is))
                 else Inr (utf8_encode cp, is)))"

lemma parse_hex_rest: "parse_hex n cp is = Some (v, r) \<Longrightarrow> length r \<le> length is"
  by (induction n arbitrary: cp "is") (force split: option.splits)+

lemma parse_escape_rest: "parse_escape is = Inr (v, r) \<Longrightarrow> length r \<le> length is"
  unfolding parse_escape_def parse_hex4_def
  by (auto split: option.splits if_splits dest!: parse_hex_rest)

text \<open>\<^verbatim>\<open>ParseStringToStream\<close> with encoding validation, after the opening quote.\<close>

function parse_string :: "string \<Rightarrow> parse_error + string \<times> string" where
  "parse_string is =
     (if peek is = CHR 0x5C then
        (case parse_escape (tl is) of
           Inl e \<Rightarrow> Inl e
         | Inr (out, is) \<Rightarrow> map_sum id (map_prod (\<lambda>s. out @ s) id) (parse_string is))
      else if peek is = CHR 0x22 then Inr ([], tl is)
      else if ord (peek is) < 32 then
        Inl (if peek is = CHR 0x00 then ParseErrorStringMissQuotationMark else ParseErrorStringInvalidEncoding)
      else
        (case utf8_validate is of
           None \<Rightarrow> Inl ParseErrorStringInvalidEncoding
         | Some n \<Rightarrow> map_sum id (map_prod (\<lambda>s. take n is @ s) id) (parse_string (drop n is))))"
  by pat_completeness auto

termination
proof (relation "measure length", goal_cases)
  case (2 "is" x out r)
  then have "is \<noteq> []" by (auto simp: peek_def)
  with 2 parse_escape_rest [of "tl is"] show ?case by (cases "is") force+
next
  case (3 "is" n)
  then have "is \<noteq> []" "n \<noteq> 0" by (auto simp: peek_def utf8_validate_def split: if_splits option.splits)
  then show ?case by (simp add: length_greater_0_conv [symmetric] del: length_greater_0_conv)
qed simp

declare parse_string.simps [simp del]

section \<open>Strings written and read back\<close>

text \<open>A string with every invalid byte replaced.\<close>

function sanitize :: "string \<Rightarrow> string" where
  "sanitize s =
     (if s = [] then []
      else case utf8_validate s of
        Some n \<Rightarrow> take n s @ sanitize (drop n s)
      | None \<Rightarrow> CHR ''?'' # sanitize (tl s))"
  by pat_completeness auto

termination
  by (relation "measure length")
    (auto simp: utf8_validate_def length_greater_0_conv [symmetric] simp del: length_greater_0_conv split: if_splits option.splits)

declare sanitize.simps [simp del]

function utf8_valid :: "string \<Rightarrow> bool" where
  "utf8_valid s =
     (if s = [] then True
      else case utf8_validate s of Some n \<Rightarrow> utf8_valid (drop n s) | None \<Rightarrow> False)"
  by pat_completeness auto

termination
  by (relation "measure length")
    (auto simp: utf8_validate_def length_greater_0_conv [symmetric] simp del: length_greater_0_conv split: if_splits option.splits)

declare utf8_valid.simps [simp del]

lemma sanitize_valid: "utf8_valid s \<Longrightarrow> sanitize s = s"
proof (induction s rule: sanitize.induct)
  case (1 s)
  then show ?case
    by (subst sanitize.simps) (auto simp: utf8_valid.simps [of s] split: option.splits)
qed

text \<open>The encoder in one pass over the text.\<close>

function encode :: "string \<Rightarrow> string" where
  "encode s =
     (if s = [] then []
      else if \<not> plain_char (hd s) then escape_char (hd s) @ encode (tl s)
      else case utf8_validate s of
        Some n \<Rightarrow> take n s @ encode (drop n s)
      | None \<Rightarrow> CHR ''?'' # encode (tl s))"
  by pat_completeness auto

termination
  by (relation "measure length")
    (auto simp: utf8_validate_def length_greater_0_conv [symmetric] simp del: length_greater_0_conv split: if_splits option.splits)

declare encode.simps [simp del]

lemma get_range_ascii [simp]: "c < 128 \<Longrightarrow> get_range c = 0"
  by (simp add: get_range_def)

lemma special_ascii: "\<not> plain_char c \<Longrightarrow> ord c < 128"
  by (auto simp: plain_char_def)

text \<open>The check of the tail stops at an ASCII character, whatever comes after it.\<close>

lemma tail_ok_stop:
  "ord (peek u) < 128 \<Longrightarrow> ord (peek v) < 128 \<Longrightarrow> tail_ok ms (pre @ u) = tail_ok ms (pre @ v)"
proof (induction ms arbitrary: pre)
  case (Cons m ms)
  then show ?case by (cases pre) (auto simp: peek_def)
qed simp

lemma tail_ok_take: "length ms \<le> n \<Longrightarrow> tail_ok ms (take n s) = tail_ok ms s"
proof (induction ms arbitrary: n s)
  case (Cons m ms)
  then obtain k where "n = Suc k" by (cases n) auto
  with Cons show ?case by (cases s) (auto simp: peek_def)
qed simp

lemma tail_ok_high: "tail_ok ms s \<Longrightarrow> length ms \<le> length s \<and> (\<forall>c \<in> set (take (length ms) s). 128 \<le> ord c)"
proof (induction ms arbitrary: s)
  case (Cons m ms)
  then have "get_range (ord (peek s)) \<noteq> 0" by (cases "get_range (ord (peek s)) = 0") simp_all
  then have "128 \<le> ord (peek s)" by (auto simp: get_range_def split: if_splits)
  then obtain c t where "s = c # t" "128 \<le> ord c" by (cases s) (auto simp: peek_def)
  with Cons show ?case by auto
qed simp

lemma tail_masks_length: "tail_masks r = Some ms \<Longrightarrow> length ms \<le> 3"
  by (auto simp: tail_masks_def split: if_splits)

lemma validate_cases:
  assumes "utf8_validate (c # s) = Some n"
  shows "ord c < 128 \<and> n = 1 \<or> 128 \<le> ord c \<and> 1 \<le> n \<and> n \<le> Suc (length s) \<and> (\<forall>d \<in> set (take (n - 1) s). 128 \<le> ord d)"
proof (cases "ord c < 128")
  case False
  with assms obtain ms where "tail_ok ms s" "n = 1 + length ms"
    by (auto simp: utf8_validate_def peek_def split: option.splits if_splits)
  with tail_ok_high [of ms s] False show ?thesis by auto
qed (use assms in \<open>simp add: utf8_validate_def peek_def\<close>)

lemma plain_high: "128 \<le> ord c \<Longrightarrow> plain_char c"
  by (auto simp: plain_char_def)

lemma validate_stop:
  assumes "s \<noteq> []" "ord (peek u) < 128" "ord (peek v) < 128"
  shows "utf8_validate (s @ u) = utf8_validate (s @ v)"
  using assms tail_ok_stop [OF assms(2,3), of _ "tl s"]
  by (cases s) (auto simp: utf8_validate_def peek_def split: option.splits)

lemma validate_adaptor: "utf8_validate (stream_adaptor s) = utf8_validate s"
  using tail_ok_take [of _ 3 "tl s"] tail_masks_length
  by (cases s) (auto simp: utf8_validate_def stream_adaptor_def peek_def split: option.splits)

lemma validate_plain:
  assumes "utf8_validate s = Some n" "s \<noteq> []" "plain_char (hd s)"
  shows "0 < n \<and> n \<le> length s \<and> (\<forall>c \<in> set (take n s). plain_char c)"
proof -
  obtain c t where s: "s = c # t" using assms(2) by (cases s) auto
  from validate_cases [OF assms(1)[unfolded s]] assms(3) show ?thesis
    unfolding s by (cases n) (auto intro: plain_high)
qed

lemma encode_segment:
  "\<forall>c \<in> set p. plain_char c \<Longrightarrow> s = [] \<or> \<not> plain_char (hd s) \<Longrightarrow> encode (p @ s) = write_segment p @ encode s"
proof (induction p rule: write_segment.induct)
  case (1 p)
  show ?case
  proof (cases "p = []")
    case False
    have st: "ord (peek s) < 128" "ord (peek []) < 128"
      using 1(4) special_ascii by (cases s; force simp: peek_def)+
    have v: "utf8_validate (p @ s) = utf8_validate (stream_adaptor p)"
      using validate_stop [OF False st] validate_adaptor [of p] by simp
    have pl: "plain_char (hd (p @ s))" using 1(3) False by simp
    show ?thesis
    proof (cases "utf8_validate (stream_adaptor p)")
      case None
      then show ?thesis
        using 1(1)[OF False None] 1(3,4) False v pl
        by (subst encode.simps, subst write_segment.simps) (auto dest: list.set_sel(2) [rotated])
    next
      case (Some n)
      then have n: "0 < n" "n \<le> length p"
        using validate_plain [of p n] 1(3) False by (auto simp: validate_adaptor)
      show ?thesis
        using 1(2)[OF False Some] 1(3,4) False v pl Some n
        by (subst encode.simps, subst write_segment.simps) (auto dest: in_set_dropD)
    qed
  qed (simp add: write_segment.simps)
qed

text \<open>The two nested loops of the writer are the one pass.\<close>

lemma string_body_encode: "string_body s = encode s"
proof (induction s rule: string_body.induct)
  case (1 s)
  let ?r = "dropWhile plain_char s"
  have e: "encode s = write_segment (takeWhile plain_char s) @ encode ?r"
    using encode_segment [of "takeWhile plain_char s" ?r] hd_dropWhile [of plain_char s]
    by (auto dest: set_takeWhileD)
  show ?case
  proof (cases ?r)
    case Nil
    with e show ?thesis by (subst string_body.simps, simp only: Nil list.case) (simp add: encode.simps [of "[]"])
  next
    case (Cons c cs)
    then have "\<not> plain_char c" using hd_dropWhile [of plain_char s] by simp
    with 1 [OF Cons] Cons e show ?thesis by (subst string_body.simps) (simp add: encode.simps [of "c # cs"])
  qed
qed

lemma hex_value_digits: "list_all (\<lambda>n. hex_value (hex_digit n) = Some n) [0..<16]"
  by (simp add: upt_rec hex_digit_def hex_digits_def hex_value_def)

lemma hex_value_digit: "n < 16 \<Longrightarrow> hex_value (hex_digit n) = Some n"
  using hex_value_digits by (simp add: list_all_iff)

lemma parse_escape_char:
  assumes "\<not> plain_char c"
  shows "parse_escape (tl (escape_char c) @ r) = Inr ([c], r)"
proof (cases "c = CHR 0x22 \<or> c = CHR 0x5C")
  case True
  then show ?thesis by (auto simp: parse_escape_def escape_char_def simple_escape_def peek_def)
next
  case False
  have n: "ord c < 128" by (rule special_ascii [OF assms])
  have four: "4 = Suc (Suc (Suc (Suc 0)))" by simp
  have "hex_value (CHR ''0'') = Some 0" by (simp add: hex_value_def)
  then have "parse_hex4 ([CHR ''0'', CHR ''0'', hex_digit (ord c div 16), hex_digit (ord c mod 16)] @ r) = Some (ord c, r)"
    unfolding parse_hex4_def four using n by (simp add: hex_value_digit peek_def)
  with False n show ?thesis
    by (simp add: parse_escape_def escape_char_def simple_escape_def peek_def utf8_encode_def)
qed

lemma validate_prefix:
  assumes "utf8_validate s = Some n" "s \<noteq> []" "n \<le> length s"
  shows "utf8_validate (take n s @ u) = Some n"
proof -
  obtain c t where s: "s = c # t" using assms(2) by (cases s) auto
  have tail: "tail_ok ms (take (length ms) t @ u) = tail_ok ms t" if "length ms \<le> length t" for ms
    using tail_ok_take [of ms "length ms" "take (length ms) t @ u"] tail_ok_take [of ms "length ms" t] that
    by simp
  show ?thesis
    using assms tail unfolding s utf8_validate_def
    by (auto simp: peek_def split: if_splits option.splits)
qed

lemma parse_string_encode: "parse_string (encode s @ CHR 0x22 # r) = Inr (sanitize s, r)"
proof (induction s rule: encode.induct)
  case (1 s)
  show ?case
  proof (cases s)
    case Nil
    then show ?thesis
      by (subst encode.simps, subst parse_string.simps) (simp add: peek_def sanitize.simps [of "[]"])
  next
    case (Cons c t)
    show ?thesis
    proof (cases "plain_char c")
      case False
      have c: "utf8_validate s = Some 1" using special_ascii [OF False] Cons by (simp add: utf8_validate_def peek_def)
      have e: "escape_char c = CHR 0x5C # tl (escape_char c)" by (simp add: escape_char_def)
      have IH: "parse_string (encode t @ CHR 0x22 # r) = Inr (sanitize t, r)" using 1(1) Cons False by simp
      have en: "encode s = CHR 0x5C # tl (escape_char c) @ encode t"
        using Cons False e by (subst encode.simps) simp
      have sa: "sanitize s = c # sanitize t"
        using c Cons by (subst sanitize.simps) simp
      show ?thesis
        unfolding en sa
        by (subst parse_string.simps) (use parse_escape_char [OF False] IH in \<open>simp add: peek_def\<close>)
    next
      case True
      show ?thesis
      proof (cases "utf8_validate s")
        case None
        have "utf8_validate (CHR ''?'' # encode t @ CHR 0x22 # r) = Some 1"
          by (simp add: utf8_validate_def peek_def)
        moreover have "parse_string (encode t @ CHR 0x22 # r) = Inr (sanitize t, r)"
          using 1(2) Cons True None by simp
        moreover have "encode s = CHR ''?'' # encode t" "sanitize s = CHR ''?'' # sanitize t"
          using None Cons True by (subst encode.simps sanitize.simps; simp)+
        ultimately show ?thesis
          by (simp add: peek_def parse_string.simps [of "CHR ''?'' # _"])
      next
        case (Some n)
        have n: "0 < n" "n \<le> length s" using validate_plain [OF Some] Cons True by auto
        let ?u = "encode (drop n s) @ CHR 0x22 # r"
        have v: "utf8_validate (take n s @ ?u) = Some n" by (rule validate_prefix [OF Some]) (use Cons n in auto)
        have p: "peek (take n s @ ?u) = c" using n Cons by (cases n) (auto simp: peek_def)
        have "parse_string ?u = Inr (sanitize (drop n s), r)"
          using 1(3) Cons True Some by simp
        then have "parse_string (take n s @ ?u) = Inr (take n s @ sanitize (drop n s), r)"
          by (subst parse_string.simps) (use v p True n in \<open>auto simp: plain_char_def\<close>)
        then show ?thesis
          by (subst encode.simps, subst sanitize.simps) (use Some Cons True in simp)
      qed
    qed
  qed
qed

section \<open>Integers\<close>

text \<open>The limits of a C++ integer type of \<open>w\<close> bits.\<close>

definition int_min :: "bool \<Rightarrow> nat \<Rightarrow> int" where
  "int_min sg w = (if sg then - (2 ^ (w - 1)) else 0)"

definition int_max :: "bool \<Rightarrow> nat \<Rightarrow> int" where
  "int_max sg w = (if sg then 2 ^ (w - 1) - 1 else 2 ^ w - 1)"

text \<open>\<^verbatim>\<open>int_to_json\<close>: the digits are pushed last first and the buffer is reversed.\<close>

function push_digits :: "nat \<Rightarrow> string" where
  "push_digits uvalue =
     chr (48 + uvalue mod 10) # (if uvalue div 10 \<noteq> 0 then push_digits (uvalue div 10) else [])"
  by pat_completeness auto

termination
  by (relation "measure id") auto

declare push_digits.simps [simp del]

definition int_buffer :: "nat \<Rightarrow> int \<Rightarrow> string" where
  "int_buffer w v =
     (let uvalue = v mod 2 ^ w;
          neg = v < 0;
          uvalue = (if neg then (- uvalue) mod 2 ^ w else uvalue)
      in (if w > 32 then [CHR 0x22] else []) @ push_digits (nat uvalue) @
         (if neg then [CHR ''-''] else []) @ (if w > 32 then [CHR 0x22] else []))"

definition int_to_json :: "nat \<Rightarrow> int \<Rightarrow> string" where
  "int_to_json w v = rev (int_buffer w v)"

text \<open>The size of the buffer: \<^verbatim>\<open>numeric_limits<T>::digits10 + 4\<close>.\<close>

definition digits10 :: "bool \<Rightarrow> nat \<Rightarrow> nat" where
  "digits10 sg w = (if sg then w - 1 else w) * 30103 div 100000"

text \<open>\<^verbatim>\<open>from_json_int\<close>. Signed division truncates; no intermediate value leaves the range of \<^verbatim>\<open>int\<close> or of
  the type, so they are integers here.\<close>

definition c_div :: "int \<Rightarrow> int \<Rightarrow> int" where
  "c_div a b = (if a < 0 then - ((- a) div b) else a div b)"

definition is_digit :: "char \<Rightarrow> bool" where
  "is_digit c \<longleftrightarrow> 48 \<le> ord c \<and> ord c \<le> 57"

definition digit_of :: "char \<Rightarrow> int" where
  "digit_of c = int (ord c) - 48"

fun from_json_int_loop ::
  "bool \<Rightarrow> int \<Rightarrow> int \<Rightarrow> int \<Rightarrow> bool \<Rightarrow> string \<Rightarrow> from_json_error + int \<times> bool \<times> string" where
  "from_json_int_loop sg limit sign result found [] = Inr (result, found, [])"
| "from_json_int_loop sg limit sign result found (c # cs) =
     (if is_digit c then
        let digit = digit_of c
        in if sg \<and> c_div (- sign * limit + digit) 10 > - sign * result then Inl number_out_of_range
           else if \<not> sg \<and> (limit - digit) div 10 < result then Inl number_out_of_range
           else from_json_int_loop sg limit sign (result * 10 + sign * digit) True cs
      else Inr (result, found, c # cs))"

definition from_json_int :: "bool \<Rightarrow> nat \<Rightarrow> string \<Rightarrow> from_json_error + int" where
  "from_json_int sg w r =
     (let (pos, sign, limit) =
            (if sg \<and> r \<noteq> [] \<and> hd r = CHR ''-'' then (tl r, -1, int_min sg w) else (r, 1, int_max sg w))
      in case from_json_int_loop sg limit sign 0 False pos of
           Inl e \<Rightarrow> Inl e
         | Inr (result, found, rest) \<Rightarrow> if rest \<noteq> [] \<or> \<not> found then Inl expected_int else Inr result)"

section \<open>What the integer reader accepts\<close>

definition digits_value :: "string \<Rightarrow> int" where
  "digits_value ds = foldl (\<lambda>r c. r * 10 + digit_of c) 0 ds"

text \<open>The specification: an optional minus sign for a signed type, then digits up to the end whose
  number is in range. A number that leaves the range is reported as such even when it is followed by
  something else.\<close>

definition json_int_spec :: "bool \<Rightarrow> nat \<Rightarrow> string \<Rightarrow> from_json_error + int" where
  "json_int_spec sg w r =
     (let neg = sg \<and> r \<noteq> [] \<and> hd r = CHR ''-'';
          s = (if neg then tl r else r);
          v = (if neg then - 1 else 1) * digits_value (takeWhile is_digit s)
      in if v < int_min sg w \<or> v > int_max sg w then Inl number_out_of_range
         else if s = [] \<or> \<not> list_all is_digit s then Inl expected_int
         else Inr v)"

lemma digit_bounds: "is_digit c \<Longrightarrow> 0 \<le> digit_of c \<and> digit_of c \<le> 9"
  by (auto simp: is_digit_def digit_of_def)

lemma foldl_digits_mono:
  "0 \<le> (a :: int) \<Longrightarrow> \<forall>c \<in> set ds. is_digit c \<Longrightarrow> a \<le> foldl (\<lambda>r c. r * 10 + digit_of c) a ds"
proof (induction ds arbitrary: a)
  case (Cons c ds)
  then have "0 \<le> digit_of c" using digit_bounds by simp
  with Cons.IH [of "a * 10 + digit_of c"] Cons.prems show ?case by simp
qed simp

text \<open>One step of the loop tests whether the magnitude leaves the range, with the division by ten
  in place of the multiplication.\<close>

lemma div_ten_less: "0 \<le> digit \<Longrightarrow> (lim - digit) div 10 < (a :: int) \<longleftrightarrow> lim < a * 10 + digit"
  by auto

lemma limit_check:
  assumes "sign = 1 \<or> sign = - 1" "0 \<le> digit" "digit \<le> L" "sg \<or> sign = 1"
  shows "(sg \<and> c_div (- sign * (sign * L) + digit) 10 > - sign * (sign * a) \<or>
          \<not> sg \<and> (sign * L - digit) div 10 < sign * a) \<longleftrightarrow> L < a * 10 + digit"
proof (cases sg)
  case True
  have e: "- sign * (sign * L) = - L" "- sign * (sign * a) = - a" using assms(1) by auto
  show ?thesis
  proof (cases "digit = L")
    case False
    then have "- L + digit < 0" "- (- L + digit) = L - digit" using assms(3) by auto
    then show ?thesis using True assms(2) unfolding e by (simp add: c_div_def div_ten_less)
  qed (use True assms e in \<open>auto simp: c_div_def\<close>)
next
  case False
  with assms show ?thesis by (simp add: div_ten_less)
qed

lemma from_json_int_loop_spec:
  assumes "sign = 1 \<or> sign = - 1" "sg \<or> sign = 1" "9 \<le> L" "0 \<le> a" "a \<le> L"
  shows "from_json_int_loop sg (sign * L) sign (sign * a) found s =
     (let v = foldl (\<lambda>r c. r * 10 + digit_of c) a (takeWhile is_digit s)
      in if v > L then Inl number_out_of_range
         else Inr (sign * v, found \<or> takeWhile is_digit s \<noteq> [], dropWhile is_digit s))"
  using assms(4,5)
proof (induction s arbitrary: a found)
  case (Cons c s)
  show ?case
  proof (cases "is_digit c")
    case True
    note d = digit_bounds [OF True]
    let ?a = "a * 10 + digit_of c"
    note chk = limit_check [OF assms(1) _ _ assms(2), of "digit_of c" L a]
    have r: "sign * a * 10 + sign * digit_of c = sign * ?a" by (simp add: algebra_simps)
    show ?thesis
    proof (cases "L < ?a")
      case out: True
      have "?a \<le> foldl (\<lambda>r c. r * 10 + digit_of c) ?a (takeWhile is_digit s)"
        by (rule foldl_digits_mono) (use Cons.prems d in \<open>auto dest: set_takeWhileD\<close>)
      then show ?thesis using True out chk d assms(3) by (auto simp: Let_def)
    next
      case False
      then show ?thesis
        using True chk d assms(3) Cons.IH [of ?a True] Cons.prems r by (auto simp: Let_def)
    qed
  qed (use Cons.prems in simp)
qed simp

lemma from_json_int_correct_aux:
  assumes "5 \<le> w"
  shows "from_json_int sg w r = json_int_spec sg w r"
proof -
  let ?neg = "sg \<and> r \<noteq> [] \<and> hd r = CHR ''-''"
  let ?s = "if ?neg then tl r else r"
  let ?L = "if ?neg then - int_min sg w else int_max sg w"
  let ?sign = "if ?neg then - 1 else (1 :: int)"
  have p: "(16 :: int) \<le> 2 ^ (w - 1)" "(2 :: int) ^ w = 2 * 2 ^ (w - 1)"
    using assms power_increasing [of 4 "w - 1" "2 :: int"] by (auto simp: power_eq_if)
  then have L: "9 \<le> ?L" by (auto simp: int_min_def int_max_def)
  note l = from_json_int_loop_spec [of ?sign sg ?L 0 False ?s]
  let ?v = "digits_value (takeWhile is_digit ?s)"
  have v0: "0 \<le> ?v" unfolding digits_value_def
    by (rule foldl_digits_mono) (auto dest: set_takeWhileD)
  have rng: "?v > ?L \<longleftrightarrow> ?sign * ?v < int_min sg w \<or> ?sign * ?v > int_max sg w"
    using v0 p by (auto simp: int_min_def int_max_def)
  have full: "dropWhile is_digit ?s \<noteq> [] \<or> takeWhile is_digit ?s = [] \<longleftrightarrow> ?s = [] \<or> \<not> list_all is_digit ?s"
    by (cases ?s) (auto simp: list_all_iff dropWhile_eq_Nil_conv)
  have "from_json_int sg w r =
     (case from_json_int_loop sg (?sign * ?L) ?sign (?sign * 0) False ?s of
           Inl e \<Rightarrow> Inl e
         | Inr (result, found, rest) \<Rightarrow> if rest \<noteq> [] \<or> \<not> found then Inl expected_int else Inr result)"
    by (simp add: from_json_int_def)
  also have "\<dots> = (if ?v > ?L then Inl number_out_of_range
      else if dropWhile is_digit ?s \<noteq> [] \<or> takeWhile is_digit ?s = [] then Inl expected_int else Inr (?sign * ?v))"
    using l L by (simp add: digits_value_def Let_def)
  also have "\<dots> = json_int_spec sg w r"
    unfolding rng full json_int_spec_def Let_def by (simp only:)
  finally show ?thesis .
qed

lemma chr_digit: "n < 10 \<Longrightarrow> is_digit (chr (48 + n)) \<and> digit_of (chr (48 + n)) = int n"
  by (simp add: is_digit_def digit_of_def)

lemma push_digits_value:
  "list_all is_digit (push_digits n) \<and> push_digits n \<noteq> [] \<and>
   digits_value (rev (push_digits n)) = int n \<and> (n < 10 ^ k \<longrightarrow> 0 < k \<longrightarrow> length (push_digits n) \<le> k)"
proof (induction n arbitrary: k rule: push_digits.induct)
  case (1 n)
  have m: "n mod 10 < 10" by simp
  have split: "int n = int (n div 10) * 10 + int (n mod 10)" by presburger
  show ?case
  proof (cases "n div 10 = 0")
    case True
    then have "push_digits n = [chr (48 + n mod 10)]" by (subst push_digits.simps) simp
    with chr_digit [OF m] True show ?thesis by (simp add: digits_value_def)
  next
    case False
    have "n div 10 < 10 ^ (k - 1) \<and> 0 < k - 1" if "n < 10 ^ k" "0 < k"
    proof -
      have "k \<noteq> 1" using that False by auto
      moreover have "(10 :: nat) ^ k = 10 * 10 ^ (k - 1)" using that by (simp add: power_eq_if)
      ultimately show ?thesis using that by (simp add: less_mult_imp_div_less mult.commute)
    qed
    then have "length (push_digits (n div 10)) \<le> k - 1" if "n < 10 ^ k" "0 < k"
      using 1 [OF False, of "k - 1"] that by blast
    moreover have "push_digits n = chr (48 + n mod 10) # push_digits (n div 10)"
      using False by (subst push_digits.simps) simp
    ultimately show ?thesis
      using chr_digit [OF m] 1 [OF False, of 0] by (auto simp: digits_value_def split [symmetric])
  qed
qed

lemma width_digits:
  "w \<in> {8, 16, 32, 64, 128} \<Longrightarrow> (if sg then 2 ^ (w - 1) else 2 ^ w - 1) < (10 :: nat) ^ (digits10 sg w + 1)"
  by (auto simp: digits10_def)

lemma int_text:
  assumes "w \<in> {8, 16, 32, 64, 128}" "int_min sg w \<le> v" "v \<le> int_max sg w"
  defines "c \<equiv> (if v < 0 then ''-'' else []) @ rev (push_digits (nat \<bar>v\<bar>))"
  shows "int_to_json w v = (if w > 32 then [CHR 0x22] @ c @ [CHR 0x22] else c)"
    and "from_json_int sg w c = Inr v" and "length c \<le> digits10 sg w + 2"
proof -
  have w: "5 \<le> w" using assms(1) by auto
  have p: "0 < (2 :: int) ^ (w - 1)" "(2 :: int) ^ w = 2 * 2 ^ (w - 1)"
    using w by (cases w; simp)+
  have "(if v < 0 then (- (v mod 2 ^ w)) mod 2 ^ w else v mod 2 ^ w) = \<bar>v\<bar>"
  proof (cases "v < 0")
    case True
    then have "- v < 2 ^ w" using assms(2) p by (auto simp: int_min_def split: if_splits)
    with True show ?thesis by (simp add: mod_minus_eq)
  next
    case False
    then have "v < 2 ^ w" using assms(3) p by (auto simp: int_max_def split: if_splits)
    with False show ?thesis by simp
  qed
  then show "int_to_json w v = (if w > 32 then [CHR 0x22] @ c @ [CHR 0x22] else c)"
    by (simp add: int_to_json_def int_buffer_def Let_def c_def)
  note pd = push_digits_value [of "nat \<bar>v\<bar>"]
  obtain ds where ds: "rev (push_digits (nat \<bar>v\<bar>)) = ds" by blast
  have c: "c = (if v < 0 then ''-'' else []) @ ds" unfolding c_def ds ..
  have d: "list_all is_digit ds" "ds \<noteq> []" "digits_value ds = \<bar>v\<bar>" using pd by (auto simp: ds [symmetric])
  have tw: "takeWhile is_digit ds = ds" using d(1) by (simp add: takeWhile_eq_all_conv list_all_iff)
  have hd: "hd ds \<noteq> CHR ''-''" using d(1,2) by (cases ds) (auto simp: is_digit_def)
  show "from_json_int sg w c = Inr v"
  proof (cases "v < 0")
    case True
    then have "sg" using assms(2) by (auto simp: int_min_def split: if_splits)
    with True d tw assms(2,3) show ?thesis
      by (simp add: from_json_int_correct_aux [OF w] json_int_spec_def Let_def c
          del: takeWhile_eq_all_conv)
  next
    case False
    with d tw hd assms(2,3) show ?thesis
      by (simp add: from_json_int_correct_aux [OF w] json_int_spec_def Let_def c
          del: takeWhile_eq_all_conv)
  qed
  have lim: "\<bar>v\<bar> \<le> int (if sg then 2 ^ (w - 1) else 2 ^ w - 1)"
    using assms(2,3) p by (cases sg) (simp_all add: int_min_def int_max_def of_nat_diff)
  have "nat \<bar>v\<bar> < 10 ^ (digits10 sg w + 1)"
    using lim width_digits [OF assms(1), of sg] by linarith
  then have "length (push_digits (nat \<bar>v\<bar>)) \<le> digits10 sg w + 1"
    using push_digits_value [of "nat \<bar>v\<bar>" "digits10 sg w + 1"] by simp
  then have "length ds \<le> digits10 sg w + 1" by (simp flip: ds)
  then show "length c \<le> digits10 sg w + 2" by (simp add: c)
qed

section \<open>Hex data\<close>

fun unhex :: "string \<Rightarrow> byte list option" where
  "unhex [] = Some []"
| "unhex [c] = (case hex_value c of Some h \<Rightarrow> None | None \<Rightarrow> None)"
| "unhex (c # d # cs) =
     (case (hex_value c, hex_value d) of
        (Some h, Some l) \<Rightarrow> map_option (\<lambda>bs. (push_bit 4 (of_nat h) OR of_nat l) # bs) (unhex cs)
      | _ \<Rightarrow> None)"

definition from_json_hex :: "string \<Rightarrow> from_json_error + byte list" where
  "from_json_hex s =
     (if odd (length s) then Inl expected_hex_string
      else case unhex s of None \<Rightarrow> Inl expected_hex_string | Some bs \<Rightarrow> Inr bs)"

definition hex_pair :: "byte \<Rightarrow> string" where
  "hex_pair b = [hex_digit (unat (drop_bit 4 b)), hex_digit (unat (b AND 15))]"

definition to_json_hex :: "byte list \<Rightarrow> string" where
  "to_json_hex data = CHR 0x22 # concat (map hex_pair data) @ [CHR 0x22]"

lemma unhex_pairs: "unhex (concat (map hex_pair bs)) = Some bs"
proof (induction bs)
  case (Cons b bs)
  have h: "unat (drop_bit 4 b) < 16" using unat_byte_less [of b] by (simp add: unat_drop_bit_div less_mult_imp_div_less)
  have "b AND 15 \<le> 15" by (rule word_and_le1)
  then have l: "unat (b AND 15) < 16" unfolding word_le_nat_alt by simp
  have "b AND 15 = take_bit 4 b" by (simp add: take_bit_eq_mask mask_eq_exp_minus_1)
  then have "push_bit 4 (drop_bit 4 b) OR (b AND 15) = b"
    by (intro bit_word_eqI) (auto simp: bit_simps)
  then show ?case
    using Cons hex_value_digit [OF h] hex_value_digit [OF l] by (simp add: hex_pair_def)
qed simp

section \<open>Properties\<close>

text \<open>
  A string written as JSON and read by the vendored reader comes back unchanged when it
  is valid UTF-8; of any other string exactly the invalid bytes come back as question marks. What
  follows the closing quote is left.
\<close>

theorem json_string_roundtrip:
  "\<exists>body. to_json_string s = CHR 0x22 # body \<and>
     parse_string (body @ r) = Inr (if utf8_valid s then s else sanitize s, r)"
  by (rule exI [of _ "string_body s @ [CHR 0x22]"])
    (simp add: to_json_string_def string_body_encode parse_string_encode sanitize_valid)

text \<open>
  C40 (roundtrip): Every value of every integer type is written so that it reads back, and the text
  never exceeds the fixed buffer it is written to.
\<close>

theorem json_int_roundtrip:
  assumes "w \<in> {8, 16, 32, 64, 128}" "int_min sg w \<le> v" "v \<le> int_max sg w"
  shows "\<exists>c. int_to_json w v = (if w > 32 then [CHR 0x22] @ c @ [CHR 0x22] else c) \<and>
             from_json_int sg w c = Inr v \<and> length (int_to_json w v) \<le> digits10 sg w + 4"
  using int_text [OF assms] by auto

theorem json_int_roundtrip_witness:
  "\<exists>c. int_to_json 64 (- (2 ^ 63)) = [CHR 0x22] @ c @ [CHR 0x22] \<and> from_json_int True 64 c = Inr (- (2 ^ 63)) \<and>
       length (int_to_json 64 (- (2 ^ 63))) \<le> digits10 True 64 + 4"
  using json_int_roundtrip [of 64 True "- (2 ^ 63)"] by (simp add: int_min_def int_max_def)

text \<open>
  The integer reader, whose overflow test divides before it multiplies, accepts
  exactly an optional minus sign for signed types and digits up to the end with a value in the range
  of the type, and returns that value; a number out of range is reported as that, everything else as
  not an integer.
\<close>

theorem json_int_exact:
  assumes "w \<in> {8, 16, 32, 64, 128}"
  shows "from_json_int sg w r = json_int_spec sg w r"
  by (rule from_json_int_correct_aux) (use assms in auto)

theorem json_int_exact_witness: "from_json_int False 8 ''256'' = Inl number_out_of_range"
  by (subst json_int_exact)
    (simp_all add: json_int_spec_def digits_value_def is_digit_def digit_of_def int_min_def int_max_def Let_def)

text \<open>
  Hex data written as JSON reads back.
\<close>

theorem json_hex_roundtrip:
  "\<exists>c. to_json_hex bs = [CHR 0x22] @ c @ [CHR 0x22] \<and> from_json_hex c = Inr bs"
proof -
  have "even (length (concat (map hex_pair bs)))"
    by (induction bs) (simp_all add: hex_pair_def)
  then show ?thesis by (simp add: to_json_hex_def from_json_hex_def unhex_pairs)
qed

end
