(* ===== verification/Clio_Schema.thy ===== *)
theory Clio_Schema
  imports Clio_Flatbuf Clio_Json_Text
begin

text \<open>
  The description of a type as data (schema.hpp): the names of types (get_type_name.hpp), the schema
  generated from a reflected type, the protobuf schema file written from it (protobuf/schema.hpp) and the
  numbers the translator gives to types (translator.hpp).

  A C++ type is a \<^verbatim>\<open>cty\<close>; the reflected structs, with what the reflection macros generate for them, are
  an environment. Numbers come with their name and size. Tuples and maps have no \<^verbatim>\<open>get_type_name\<close> and so
  no schema; a struct with a \<^verbatim>\<open>std::optional\<close> member has no \<^verbatim>\<open>flatpack_size\<close>, so optionals are the
  results of methods only.
\<close>

section \<open>Types and their names\<close>

datatype cty =
    C_num string nat
  | C_string
  | C_varuint32
  | C_struct string
  | C_vector cty
  | C_optional cty
  | C_variant "cty list"

fun cty_name :: "cty \<Rightarrow> string" where
  "cty_name (C_num s n) = s"
| "cty_name C_string = ''string''"
| "cty_name C_varuint32 = ''varuint32''"
| "cty_name (C_struct s) = s"
| "cty_name (C_vector t) = cty_name t @ ''[]''"
| "cty_name (C_optional t) = cty_name t @ ''?''"
| "cty_name (C_variant ts) = ''variant'' @ concat (map (\<lambda>t. ''_'' @ cty_name t) ts)"

text \<open>A member is a data member or a method with the names and types of its parameters and its result.\<close>

datatype ckind = Data cty | Method "string list" "cty list" cty

record cmember =
  cm_name :: string
  cm_number :: int
  cm_kind :: ckind

type_synonym cenv = "(string \<times> cmember list) list"

fun data_type :: "ckind \<Rightarrow> cty option" where
  "data_type (Data t) = Some t"
| "data_type (Method ns ps r) = None"

text \<open>
  How a type lies in a flat buffer. The elements of a vector do not matter to the size; a struct does not
  contain itself in line, so it can be left out of the environment inside of it.
\<close>

definition without :: "string \<Rightarrow> cenv \<Rightarrow> cenv" where
  "without s env = filter (\<lambda>(n, ms). n \<noteq> s) env"

lemma length_without: "map_of env s = Some ms \<Longrightarrow> length (without s env) < length env"
  unfolding without_def by (rule length_filter_less [of "(s, ms)"]) (auto dest: map_of_SomeD)

function flat_layout :: "cenv \<Rightarrow> cty \<Rightarrow> flat_ty" where
  "flat_layout env (C_num s n) = FL_num n"
| "flat_layout env C_string = FL_string"
| "flat_layout env C_varuint32 = FL_struct [FL_num 4]"
| "flat_layout env (C_vector t) = FL_vector (FL_num 1)"
| "flat_layout env (C_optional t) = FL_num 0"
| "flat_layout env (C_variant ts) = FL_variant (map (\<lambda>t. (0, flat_layout env t)) ts)"
| "flat_layout env (C_struct s) =
     (case map_of env s of
        None \<Rightarrow> FL_num 0
      | Some ms \<Rightarrow> FL_struct (map (flat_layout (without s env)) (List.map_filter (data_type \<circ> cm_kind) ms)))"
  by pat_completeness auto

termination
  by (relation "measures [\<lambda>(env, t). length env, \<lambda>(env, t). size t]")
     (auto simp: length_without less_Suc_eq_le size_list_estimation')

section \<open>Schemas\<close>

record object_member =
  om_name :: string
  om_type :: string
  om_number :: int
  om_offset :: u32
  om_size :: u32
  om_params :: "(string \<times> string) list"

record object_type =
  ot_members :: "object_member list"
  ot_size :: u32
  ot_dynamic :: bool

datatype schema_type =
    S_object object_type
  | S_variant "string list"
  | S_tuple "string list"
  | S_vector string
  | S_enum "(string \<times> int) list"
  | S_typedef string

text \<open>\<^verbatim>\<open>std::map\<close> keeps its keys in the order of \<^verbatim>\<open>std::string\<close>.\<close>

type_synonym schema = "(string \<times> schema_type) list"

fun str_less :: "string \<Rightarrow> string \<Rightarrow> bool" where
  "str_less [] b \<longleftrightarrow> b \<noteq> []"
| "str_less a [] \<longleftrightarrow> False"
| "str_less (x # a) (y # b) \<longleftrightarrow> (of_char x :: nat) < of_char y \<or> x = y \<and> str_less a b"

fun schema_put :: "string \<Rightarrow> schema_type \<Rightarrow> schema \<Rightarrow> schema" where
  "schema_put k v [] = [(k, v)]"
| "schema_put k v ((k', v') # m) =
     (if k = k' then (k, v) # m
      else if str_less k k' then (k, v) # (k', v') # m
      else (k', v') # schema_put k v m)"

definition get_type :: "string \<Rightarrow> schema \<Rightarrow> schema_type option" where
  "get_type name sch = map_of sch name"

definition get_object :: "string \<Rightarrow> schema \<Rightarrow> object_type option" where
  "get_object name sch = (case map_of sch name of Some (S_object ot) \<Rightarrow> Some ot | _ \<Rightarrow> None)"

definition get_vector :: "string \<Rightarrow> schema \<Rightarrow> string option" where
  "get_vector name sch = (case map_of sch name of Some (S_vector t) \<Rightarrow> Some t | _ \<Rightarrow> None)"

definition get_member_by_name :: "string \<Rightarrow> object_type \<Rightarrow> object_member option" where
  "get_member_by_name n ot = find (\<lambda>m. om_name m = n) (ot_members ot)"

definition get_member_by_number :: "u32 \<Rightarrow> object_type \<Rightarrow> object_member option" where
  "get_member_by_number n ot = find (\<lambda>m. (of_int (om_number m) :: u32) = n) (ot_members ot)"

text \<open>\<^verbatim>\<open>set_params\<close> pairs the types of the parameters with the names, as long as there are names.\<close>

fun push_params :: "string list \<Rightarrow> cty list \<Rightarrow> (string \<times> string) list" where
  "push_params names [] = []"
| "push_params names (t # ts) = (case names of n # _ \<Rightarrow> n | [] \<Rightarrow> [], cty_name t) # push_params (tl names) ts"

section \<open>Generating a schema\<close>

text \<open>The schema so far and the types \<^verbatim>\<open>on_generate\<close> was called with.\<close>

type_synonym generating = "schema \<times> cty list"

text \<open>\<^verbatim>\<open>add_type\<close>: whether the name is new; then it stands for \<^verbatim>\<open>t\<close>.\<close>

definition add_type :: "cty \<Rightarrow> schema_type \<Rightarrow> generating \<Rightarrow> bool \<times> generating" where
  "add_type ty t g =
     (case g of (sch, log) \<Rightarrow>
        if map_of sch (cty_name ty) = None then (True, schema_put (cty_name ty) t sch, log @ [ty])
        else (False, sch, log))"

definition set_type :: "cty \<Rightarrow> schema_type \<Rightarrow> generating \<Rightarrow> generating" where
  "set_type ty t g = (case g of (sch, log) \<Rightarrow> (schema_put (cty_name ty) t sch, log))"

fun generate_all :: "(cty \<Rightarrow> generating \<Rightarrow> generating option) \<Rightarrow> cty list \<Rightarrow> generating \<Rightarrow> generating option" where
  "generate_all gen [] g = Some g"
| "generate_all gen (t # ts) g = Option.bind (gen t g) (generate_all gen ts)"

definition kind_type :: "ckind \<Rightarrow> cty" where
  "kind_type k = (case k of Data t \<Rightarrow> t | Method ns ps r \<Rightarrow> r)"

fun object_members :: "cenv \<Rightarrow> u32 \<Rightarrow> cmember list \<Rightarrow> object_member list \<times> u32" where
  "object_members env offset [] = ([], offset)"
| "object_members env offset (m # ms) =
     (case cm_kind m of
        Data t \<Rightarrow>
          let size = of_nat (flatpack_size (flat_layout env t)); (os, n) = object_members env (offset + size) ms
          in (\<lparr>om_name = cm_name m, om_type = cty_name t, om_number = cm_number m, om_offset = offset, om_size = size,
              om_params = []\<rparr> # os, n)
      | Method ns ps r \<Rightarrow>
          let (os, n) = object_members env offset ms
          in (\<lparr>om_name = cm_name m, om_type = cty_name r, om_number = cm_number m, om_offset = 0, om_size = 0,
              om_params = push_params ns ps\<rparr> # os, n))"

definition object_of :: "cenv \<Rightarrow> cmember list \<Rightarrow> schema_type" where
  "object_of env ms =
     (let (os, n) = object_members env 0 ms in S_object \<lparr>ot_members = os, ot_size = n, ot_dynamic = False\<rparr>)"

abbreviation empty_object :: schema_type where
  "empty_object \<equiv> S_object \<lparr>ot_members = [], ot_size = 0, ot_dynamic = False\<rparr>"

text \<open>The recursion is bounded by a number; \<^verbatim>\<open>generate_returns\<close> below gives one that is enough.\<close>

fun generate :: "nat \<Rightarrow> cenv \<Rightarrow> cty \<Rightarrow> generating \<Rightarrow> generating option" where
  "generate 0 env ty g = None"
| "generate (Suc n) env ty g =
     (case ty of
        C_optional t \<Rightarrow> generate n env t g
      | C_variant ts \<Rightarrow>
          let (new, g) = add_type ty (S_variant []) g
          in if new then
               Option.bind (generate_all (generate n env) ts g) (\<lambda>g. Some (set_type ty (S_variant (map cty_name ts)) g))
             else Some g
      | C_vector t \<Rightarrow>
          let (new, g) = add_type ty (S_vector (cty_name t)) g
          in if new then generate n env t g else Some g
      | C_struct s \<Rightarrow>
          (case map_of env s of
             None \<Rightarrow> Some g
           | Some ms \<Rightarrow>
               let (new, g) = add_type ty empty_object g
               in if new then
                    Option.bind (generate_all (generate n env) (map (kind_type \<circ> cm_kind) ms) g)
                      (\<lambda>g. Some (set_type ty (object_of env ms) g))
                  else Some g)
      | _ \<Rightarrow> Some g)"

section \<open>The protobuf schema file\<close>

definition to_string :: "int \<Rightarrow> string" where
  "to_string n = (if n < 0 then ''-'' else []) @ rev (push_digits (nat \<bar>n\<bar>))"

text \<open>\<^verbatim>\<open>convert_variant_name\<close> and \<^verbatim>\<open>convert_tuple_name\<close>, which drop the last character.\<close>

definition convert_name :: "char \<Rightarrow> string \<Rightarrow> string \<Rightarrow> string" where
  "convert_name sep prefix name =
     prefix @ butlast (map (\<lambda>c. if c = sep then CHR ''_'' else if c = CHR ''?'' then CHR ''O''
       else if c = CHR ''['' then CHR ''_'' else if c = CHR '']'' then CHR ''a'' else c) name)"

text \<open>Whether the type is repeated, and its name. A name is not empty.\<close>

definition decay_type :: "string \<Rightarrow> bool \<times> string" where
  "decay_type str =
     (let c = last str
      in if c = CHR '']'' then (True, take (length str - 2) str)
         else if c = CHR ''?'' then (False, butlast str)
         else if c = CHR ''|'' then (False, convert_name (CHR ''|'') ''variant_'' str)
         else if c = CHR ''&'' then (False, convert_name (CHR ''&'') ''tuple_'' str)
         else (False, str))"

definition pb_type_names :: "(string \<times> string) list" where
  "pb_type_names =
     [(''int16_t'', ''int32''), (''char'', ''int32''), (''int8_t'', ''int32''), (''uint16_t'', ''int32''), (''uint8_t'', ''int32''),
      (''int32_t'', ''sfixed32''), (''uint32_t'', ''fixed32''), (''int64_t'', ''sfixed64''), (''uint64_t'', ''fixed64''),
      (''bool'', ''bool''), (''double'', ''double''), (''float'', ''float'')]"

text \<open>The name, whether it is repeated and whether it is one of protobuf's own types.\<close>

definition convert_to_pb_type :: "string \<Rightarrow> string \<times> bool \<times> bool" where
  "convert_to_pb_type str =
     (let (rep, decay) = decay_type str
      in case map_of pb_type_names decay of Some t \<Rightarrow> (t, rep, True) | None \<Rightarrow> (decay, rep, False))"

definition write_member :: "string \<Rightarrow> string \<Rightarrow> string \<Rightarrow> int \<Rightarrow> string list" where
  "write_member indent type name number =
     (let (pbt, rep, prim) = convert_to_pb_type type
      in [indent] @ (if rep then [''repeated ''] else []) @ [pbt, '' '', name, '' = '', to_string number] @
         (if rep \<and> prim then ['' [packed=true]''] else []) @ ['';\<newline>''])"

definition write_alternative :: "nat \<Rightarrow> string \<Rightarrow> string list" where
  "write_alternative idx type =
     (let (pbt, rep, prim) = convert_to_pb_type type
      in [''       '', pbt, ''  '', pbt, ''_value = '', to_string (int idx + 1), '';\<newline>''])"

fun write_schema_type :: "string \<times> schema_type \<Rightarrow> string list" where
  "write_schema_type (name, S_object ot) =
     [''message '', name, '' {\<newline>''] @
     concat (map (\<lambda>m. write_member ''    '' (om_type m) (om_name m) (om_number m)) (ot_members ot)) @ [''}\<newline>'']"
| "write_schema_type (name, S_variant types) =
     [''message '', if last name = CHR ''|'' then convert_name (CHR ''|'') ''variant_'' name else name, '' {\<newline>'',
      ''   oneof which {\<newline>''] @
     concat (map (\<lambda>(idx, t). write_alternative idx t) (enumerate 0 types)) @ [''   }\<newline>'', ''}\<newline>'']"
| "write_schema_type (name, S_tuple types) =
     [''message '', if last name = CHR ''&'' then convert_name (CHR ''&'') ''tuple_'' name else name, '' {\<newline>''] @
     concat (map (\<lambda>(idx, t). write_member ''   '' t (''_'' @ to_string (int idx + 1)) (int idx + 1)) (enumerate 0 types)) @ [''}\<newline>'']"
| "write_schema_type (name, _) = []"

definition protobuf_schema_text :: "schema \<Rightarrow> string list" where
  "protobuf_schema_text sch = ''syntax = \"proto3\";\<newline>'' # concat (map write_schema_type sch)"

definition to_protobuf_schema :: "schema \<Rightarrow> byte list result" where
  "to_protobuf_schema sch = two_pass True (map bytes_of (protobuf_schema_text sch)) []"

section \<open>The types of a translator\<close>

text \<open>The numbers of the types are their places among those \<^verbatim>\<open>on_generate\<close> was called with.\<close>

fun index_of_name :: "string \<Rightarrow> cty list \<Rightarrow> nat option" where
  "index_of_name name [] = None"
| "index_of_name name (t # ts) = (if cty_name t = name then Some 0 else map_option Suc (index_of_name name ts))"

definition get_type_num :: "cty list \<Rightarrow> string \<Rightarrow> u32" where
  "get_type_num types name = (case index_of_name name types of Some i \<Rightarrow> of_nat i | None \<Rightarrow> - 1)"

definition type_num_name :: "cty list \<Rightarrow> u32 \<Rightarrow> string" where
  "type_num_name types type_num = (if unat type_num < length types then cty_name (types ! unat type_num) else [])"

end
