(* ===== verification/Clio_Schema_Props.thy ===== *)
theory Clio_Schema_Props
  imports Clio_Schema
begin

text \<open>
  The schema of a type names every type once and has an entry for every type its entries speak of, for
  recursive types too; and where it says something else than the serializers do.
\<close>

section \<open>What a type is made of\<close>

fun comps :: "cenv \<Rightarrow> cty \<Rightarrow> cty list" where
  "comps env (C_vector t) = [t]"
| "comps env (C_optional t) = [t]"
| "comps env (C_variant ts) = ts"
| "comps env (C_struct s) = (case map_of env s of Some ms \<Rightarrow> map (kind_type \<circ> cm_kind) ms | None \<Rightarrow> [])"
| "comps env _ = []"

text \<open>The types that get an entry, and the entry.\<close>

fun named :: "cenv \<Rightarrow> cty \<Rightarrow> bool" where
  "named env (C_vector t) \<longleftrightarrow> True"
| "named env (C_variant ts) \<longleftrightarrow> True"
| "named env (C_struct s) \<longleftrightarrow> map_of env s \<noteq> None"
| "named env _ \<longleftrightarrow> False"

fun entry_of :: "cenv \<Rightarrow> cty \<Rightarrow> schema_type" where
  "entry_of env (C_vector t) = S_vector (cty_name t)"
| "entry_of env (C_variant ts) = S_variant (map cty_name ts)"
| "entry_of env (C_struct s) = object_of env (case map_of env s of Some ms \<Rightarrow> ms | None \<Rightarrow> [])"
| "entry_of env t = S_typedef (cty_name t)"

fun covers :: "cenv \<Rightarrow> schema \<Rightarrow> cty \<Rightarrow> bool" where
  "covers env sch (C_optional t) \<longleftrightarrow> covers env sch t"
| "covers env sch t \<longleftrightarrow> (named env t \<longrightarrow> cty_name t \<in> dom (map_of sch))"

lemma map_of_schema_put [simp]: "map_of (schema_put k v m) = (map_of m)(k \<mapsto> v)"
  by (induction k v m rule: schema_put.induct) auto

section \<open>How a schema grows\<close>

definition grown :: "cenv \<Rightarrow> generating \<Rightarrow> generating \<Rightarrow> bool" where
  "grown env g g' \<longleftrightarrow>
     (\<exists>new. snd g' = snd g @ new \<and> distinct (map cty_name new) \<and>
        set (map cty_name new) \<inter> dom (map_of (fst g)) = {} \<and>
        dom (map_of (fst g')) = dom (map_of (fst g)) \<union> set (map cty_name new) \<and>
        (\<forall>k \<in> dom (map_of (fst g)). map_of (fst g') k = map_of (fst g) k) \<and>
        (\<forall>T \<in> set new. named env T \<and> map_of (fst g') (cty_name T) = Some (entry_of env T) \<and>
           (\<forall>c \<in> set (comps env T). covers env (fst g') c)))"

lemma grownE:
  assumes "grown env g g'"
  obtains new where "snd g' = snd g @ new" "distinct (map cty_name new)" "set (map cty_name new) \<inter> dom (map_of (fst g)) = {}"
    "dom (map_of (fst g')) = dom (map_of (fst g)) \<union> set (map cty_name new)"
    "\<And>k. k \<in> dom (map_of (fst g)) \<Longrightarrow> map_of (fst g') k = map_of (fst g) k"
    "\<And>T. T \<in> set new \<Longrightarrow> named env T \<and> map_of (fst g') (cty_name T) = Some (entry_of env T) \<and>
       (\<forall>c \<in> set (comps env T). covers env (fst g') c)"
  using assms unfolding grown_def by blast

lemma covers_mono: "covers env sch t \<Longrightarrow> dom (map_of sch) \<subseteq> dom (map_of sch') \<Longrightarrow> covers env sch' t"
  by (induction t) auto

lemma covers_named: "named env t \<Longrightarrow> covers env sch t \<longleftrightarrow> cty_name t \<in> dom (map_of sch)"
  by (cases t) simp_all

lemma grown_keep: "grown env g g' \<Longrightarrow> k \<in> dom (map_of (fst g)) \<Longrightarrow> map_of (fst g') k = map_of (fst g) k"
  unfolding grown_def by blast

lemma grown_dom: "grown env g g' \<Longrightarrow> dom (map_of (fst g)) \<subseteq> dom (map_of (fst g'))"
  by (erule grownE) auto

lemma grown_refl: "grown env g g"
  unfolding grown_def by (rule exI [of _ "[]"]) simp

lemma grown_trans:
  assumes "grown env g g'" "grown env g' g''"
  shows "grown env g g''"
proof -
  from assms(1) obtain n1 where n1: "snd g' = snd g @ n1" "distinct (map cty_name n1)" "set (map cty_name n1) \<inter> dom (map_of (fst g)) = {}"
    "dom (map_of (fst g')) = dom (map_of (fst g)) \<union> set (map cty_name n1)"
    "\<And>k. k \<in> dom (map_of (fst g)) \<Longrightarrow> map_of (fst g') k = map_of (fst g) k"
    "\<And>T. T \<in> set n1 \<Longrightarrow> named env T \<and> map_of (fst g') (cty_name T) = Some (entry_of env T) \<and>
       (\<forall>c \<in> set (comps env T). covers env (fst g') c)"
    by (rule grownE) blast
  from assms(2) obtain n2 where n2: "snd g'' = snd g' @ n2" "distinct (map cty_name n2)" "set (map cty_name n2) \<inter> dom (map_of (fst g')) = {}"
    "dom (map_of (fst g'')) = dom (map_of (fst g')) \<union> set (map cty_name n2)"
    "\<And>k. k \<in> dom (map_of (fst g')) \<Longrightarrow> map_of (fst g'') k = map_of (fst g') k"
    "\<And>T. T \<in> set n2 \<Longrightarrow> named env T \<and> map_of (fst g'') (cty_name T) = Some (entry_of env T) \<and>
       (\<forall>c \<in> set (comps env T). covers env (fst g'') c)"
    by (rule grownE) blast
  have "named env T \<and> map_of (fst g'') (cty_name T) = Some (entry_of env T) \<and> (\<forall>c \<in> set (comps env T). covers env (fst g'') c)"
    if "T \<in> set (n1 @ n2)" for T
  proof (cases "T \<in> set n1")
    case True
    then have "cty_name T \<in> dom (map_of (fst g'))" using n1(4) by auto
    then show ?thesis using n1(6) [OF True] n2(5) covers_mono grown_dom [OF assms(2)] by auto
  next
    case False
    then show ?thesis using that n2(6) by auto
  qed
  moreover have "map_of (fst g'') k = map_of (fst g) k" if "k \<in> dom (map_of (fst g))" for k
    using n1(4,5) n2(5) that by (metis Un_iff)
  ultimately show ?thesis
    unfolding grown_def using n1(1-4) n2(1-4) by (intro exI [of _ "n1 @ n2"]) auto
qed

text \<open>A type that is added, with its entry set when its parts are done.\<close>

lemma grown_entry:
  assumes "named env ty" "cty_name ty \<notin> dom (map_of sch)" "grown env (schema_put (cty_name ty) t sch, log @ [ty]) g"
    "\<forall>c \<in> set (comps env ty). covers env (fst g) c" "t' = entry_of env ty"
  shows "grown env (sch, log) (set_type ty t' g)" "covers env (fst (set_type ty t' g)) ty"
proof -
  obtain sch2 log2 where g: "g = (sch2, log2)" by (cases g)
  from assms(3) obtain new where n: "log2 = (log @ [ty]) @ new" "distinct (map cty_name new)"
    "set (map cty_name new) \<inter> insert (cty_name ty) (dom (map_of sch)) = {}"
    "dom (map_of sch2) = insert (cty_name ty) (dom (map_of sch)) \<union> set (map cty_name new)"
    "\<And>k. k \<in> insert (cty_name ty) (dom (map_of sch)) \<Longrightarrow> map_of sch2 k = ((map_of sch)(cty_name ty \<mapsto> t)) k"
    "\<And>T. T \<in> set new \<Longrightarrow> named env T \<and> map_of sch2 (cty_name T) = Some (entry_of env T) \<and>
       (\<forall>c \<in> set (comps env T). covers env sch2 c)"
    by (rule grownE) (simp add: g)
  have s: "set_type ty t' g = (schema_put (cty_name ty) t' sch2, log2)" by (simp add: set_type_def g)
  have d: "dom (map_of (schema_put (cty_name ty) t' sch2)) = dom (map_of sch2)" using n(4) by auto
  have cov: "covers env (schema_put (cty_name ty) t' sch2) c" if "covers env sch2 c" for c
    by (rule covers_mono [OF that]) (use d in simp)
  have "named env T \<and> map_of (schema_put (cty_name ty) t' sch2) (cty_name T) = Some (entry_of env T) \<and>
      (\<forall>c \<in> set (comps env T). covers env (schema_put (cty_name ty) t' sch2) c)" if "T \<in> set (ty # new)" for T
  proof (cases "T = ty")
    case True
    then show ?thesis using assms(1,4,5) g cov by simp
  next
    case False
    then have T: "T \<in> set new" using that by simp
    then have "cty_name T \<in> set (map cty_name new)" by simp
    then have "cty_name T \<noteq> cty_name ty" using n(3) by blast
    then show ?thesis using n(6) [OF T] cov by simp
  qed
  then show "grown env (sch, log) (set_type ty t' g)"
    unfolding grown_def s using n(1-5) assms(2) by (intro exI [of _ "ty # new"]) auto
  show "covers env (fst (set_type ty t' g)) ty"
    using covers_named [OF assms(1)] by (simp add: s)
qed

lemma add_type_cases:
  obtains (old) "cty_name ty \<in> dom (map_of (fst g))" "add_type ty t g = (False, g)"
  | (new) "cty_name ty \<notin> dom (map_of (fst g))" "add_type ty t g = (True, schema_put (cty_name ty) t (fst g), snd g @ [ty])"
  by (cases g; cases "map_of (fst g) (cty_name ty)") (auto simp: add_type_def)

lemma all_grow:
  assumes "\<And>t g g'. gen t g = Some g' \<Longrightarrow> grown env g g' \<and> covers env (fst g') t"
  shows "generate_all gen ts g = Some g' \<Longrightarrow> grown env g g' \<and> (\<forall>t \<in> set ts. covers env (fst g') t)"
proof (induction ts arbitrary: g)
  case Nil
  then show ?case by (simp add: grown_refl)
next
  case (Cons t ts)
  then obtain g1 where g1: "gen t g = Some g1" "generate_all gen ts g1 = Some g'" by (auto simp: bind_eq_Some_conv)
  note a = assms [OF g1(1)] and b = Cons.IH [OF g1(2)]
  have "covers env (fst g') t"
    by (rule covers_mono [OF conjunct2 [OF a] grown_dom [OF conjunct1 [OF b]]])
  then show ?case using b grown_trans [OF conjunct1 [OF a] conjunct1 [OF b]] by simp
qed

lemma generate_grown: "generate n env ty g = Some g' \<Longrightarrow> grown env g g' \<and> covers env (fst g') ty"
proof (induction n arbitrary: ty g g')
  case (Suc n)
  have all: "grown env g g' \<and> (\<forall>t \<in> set ts. covers env (fst g') t)" if "generate_all (generate n env) ts g = Some g'" for ts g g'
    using that by (rule all_grow [rotated]) (rule Suc.IH)
  show ?case
  proof (cases ty)
    case (C_optional t)
    then show ?thesis using Suc by simp
  next
    case (C_variant ts)
    show ?thesis
    proof (cases rule: add_type_cases [of ty g "S_variant []"])
      case old
      then show ?thesis using Suc.prems C_variant by (simp add: grown_refl)
    next
      case new
      then obtain g2 where g2: "generate_all (generate n env) ts (schema_put (cty_name ty) (S_variant []) (fst g), snd g @ [ty]) = Some g2"
        "g' = set_type ty (S_variant (map cty_name ts)) g2"
        using Suc.prems C_variant by (auto simp: bind_eq_Some_conv)
      then show ?thesis
        using grown_entry [of env ty "fst g" "S_variant []" "snd g" g2 "S_variant (map cty_name ts)"] all [OF g2(1)] new(1) C_variant
        by simp
    qed
  next
    case (C_vector t)
    let ?t = "S_vector (cty_name t)"
    show ?thesis
    proof (cases rule: add_type_cases [of ty g ?t])
      case old
      then show ?thesis using Suc.prems C_vector by (simp add: grown_refl)
    next
      case new
      let ?g = "(schema_put (cty_name ty) ?t (fst g), snd g @ [ty])"
      have gen: "generate n env t ?g = Some g'" using new Suc.prems C_vector by simp
      note ih = Suc.IH [OF gen]
      have "map_of (fst g') (cty_name ty) = Some ?t" using grown_keep [OF conjunct1 [OF ih], of "cty_name ty"] by simp
      then have m: "map_of (fst (set_type ty ?t g')) = map_of (fst g')" by (cases g') (auto simp: set_type_def)
      have l: "snd (set_type ty ?t g') = snd g'" by (cases g') (simp add: set_type_def)
      have n: "named env ty" "\<forall>c \<in> set (comps env ty). covers env (fst g') c" "?t = entry_of env ty"
        using ih C_vector by simp_all
      have "grown env (fst g, snd g) (set_type ty ?t g')" "covers env (fst (set_type ty ?t g')) ty"
        using grown_entry [OF n(1) new(1) conjunct1 [OF ih] n(2,3)] by blast+
      moreover have "covers env (fst (set_type ty ?t g')) c = covers env (fst g') c" for c using m by (induction c) auto
      ultimately show ?thesis unfolding grown_def m l by simp
    qed
  next
    case (C_struct s)
    show ?thesis
    proof (cases "map_of env s")
      case None
      then show ?thesis using Suc.prems C_struct by (simp add: grown_refl)
    next
      case (Some ms)
      show ?thesis
      proof (cases rule: add_type_cases [of ty g empty_object])
        case old
        then show ?thesis using Suc.prems C_struct Some by (simp add: grown_refl)
      next
        case new
        then obtain g2 where g2: "generate_all (generate n env) (map (kind_type \<circ> cm_kind) ms)
              (schema_put (cty_name ty) empty_object (fst g), snd g @ [ty]) = Some g2" "g' = set_type ty (object_of env ms) g2"
          using Suc.prems C_struct Some by (auto simp: bind_eq_Some_conv)
        then show ?thesis
          using grown_entry [of env ty "fst g" empty_object "snd g" g2 "object_of env ms"] all [OF g2(1)] new(1) C_struct Some
          by simp
      qed
    qed
  qed (use Suc.prems in \<open>auto simp: grown_refl\<close>)
qed simp

section \<open>Generation returns\<close>

text \<open>All types that generation can come to.\<close>

fun parts :: "cty \<Rightarrow> cty list" where
  "parts (C_vector t) = C_vector t # parts t"
| "parts (C_optional t) = C_optional t # parts t"
| "parts (C_variant ts) = C_variant ts # concat (map parts ts)"
| "parts t = [t]"

definition reached :: "cenv \<Rightarrow> cty \<Rightarrow> cty list" where
  "reached env ty = parts ty @ concat (map (\<lambda>(s, ms). concat (map (parts \<circ> kind_type \<circ> cm_kind) ms)) env)"

definition schema_fuel :: "cenv \<Rightarrow> cty \<Rightarrow> nat" where
  "schema_fuel env ty = Suc (length (reached env ty)) * Suc (sum_list (map size (reached env ty)))"

lemma parts_self: "t \<in> set (parts t)"
  by (cases t) auto

lemma parts_comps: "t \<in> set (parts u) \<Longrightarrow> c \<in> set (comps [] t) \<Longrightarrow> c \<in> set (parts u)"
proof (induction u)
  case (C_vector u)
  then show ?case using parts_self by auto
next
  case (C_optional u)
  then show ?case using parts_self by auto
next
  case (C_variant us)
  show ?case
  proof (cases "t = C_variant us")
    case True
    then show ?thesis using C_variant.prems parts_self by auto
  next
    case False
    then show ?thesis using C_variant by auto
  qed
qed auto

lemma reached_comps:
  assumes "t \<in> set (reached env ty)" "c \<in> set (comps env t)"
  shows "c \<in> set (reached env ty)"
proof (cases "\<exists>s. t = C_struct s")
  case True
  then obtain s where s: "t = C_struct s" by blast
  then obtain ms where "map_of env s = Some ms" "c \<in> set (map (kind_type \<circ> cm_kind) ms)"
    using assms(2) by (cases "map_of env s") auto
  then have "(s, ms) \<in> set env" "\<exists>m \<in> set ms. c = kind_type (cm_kind m)" by (auto dest: map_of_SomeD)
  then show ?thesis using parts_self by (force simp: reached_def)
next
  case False
  then have "c \<in> set (comps [] t)" using assms(2) by (cases t) auto
  then show ?thesis using assms(1) parts_comps by (fastforce simp: reached_def)
qed

definition unnamed :: "cty list \<Rightarrow> schema \<Rightarrow> nat" where
  "unnamed R sch = card (cty_name ` set R - dom (map_of sch))"

lemma unnamed_mono: "dom (map_of sch) \<subseteq> dom (map_of sch') \<Longrightarrow> unnamed R sch' \<le> unnamed R sch"
  unfolding unnamed_def by (rule card_mono) auto

lemma unnamed_put: "ty \<in> set R \<Longrightarrow> cty_name ty \<notin> dom (map_of sch) \<Longrightarrow> unnamed R (schema_put (cty_name ty) t sch) < unnamed R sch"
  unfolding unnamed_def by (rule psubset_card_mono) auto

lemma generate_all_returns:
  assumes "\<And>t g. t \<in> set ts \<Longrightarrow> unnamed R (fst g) \<le> k \<Longrightarrow> \<exists>g'. generate n env t g = Some g'"
  shows "unnamed R (fst g) \<le> k \<Longrightarrow> \<exists>g'. generate_all (generate n env) ts g = Some g'"
  using assms
proof (induction ts arbitrary: g)
  case (Cons t ts)
  from Cons.prems(2) [OF list.set_intros(1) Cons.prems(1)] obtain g1 where g1: "generate n env t g = Some g1" ..
  have "unnamed R (fst g1) \<le> unnamed R (fst g)"
    by (rule unnamed_mono [OF grown_dom [OF conjunct1 [OF generate_grown [OF g1]]]])
  then have "\<exists>g'. generate_all (generate n env) ts g1 = Some g'" using Cons.IH [of g1] Cons.prems by auto
  then show ?case using g1 by simp
qed simp

lemma generate_returns:
  assumes "\<And>t c. t \<in> set R \<Longrightarrow> c \<in> set (comps env t) \<Longrightarrow> c \<in> set R" "\<And>t. t \<in> set R \<Longrightarrow> size t \<le> K"
  shows "ty \<in> set R \<Longrightarrow> unnamed R (fst g) * Suc K + size ty < n \<Longrightarrow> \<exists>g'. generate n env ty g = Some g'"
proof (induction n arbitrary: ty g)
  case (Suc n)
  note R = assms(1) [OF Suc.prems(1)]
  have all: "\<exists>g'. generate_all (generate n env) ts (schema_put (cty_name ty) t (fst g), snd g @ [ty]) = Some g'"
    if "cty_name ty \<notin> dom (map_of (fst g))" "set ts \<subseteq> set R" for ts t
  proof -
    let ?k = "unnamed R (fst g) - 1"
    have u: "unnamed R (schema_put (cty_name ty) t (fst g)) < unnamed R (fst g)" by (rule unnamed_put [OF Suc.prems(1) that(1)])
    then have "?k * Suc K + Suc K = unnamed R (fst g) * Suc K" by (cases "unnamed R (fst g)") simp_all
    then have b: "?k * Suc K + K < n" using Suc.prems(2) by simp
    show ?thesis
    proof (rule generate_all_returns [where R = R and k = ?k])
      show "\<exists>g'. generate n env t' g1 = Some g'" if "t' \<in> set ts" "unnamed R (fst g1) \<le> ?k" for t' g1
      proof (rule Suc.IH)
        show t': "t' \<in> set R" using that(1) \<open>set ts \<subseteq> set R\<close> by blast
        have "unnamed R (fst g1) * Suc K + size t' \<le> ?k * Suc K + K"
          by (intro add_mono mult_le_mono1 that(2) assms(2) t')
        then show "unnamed R (fst g1) * Suc K + size t' < n" using b by linarith
      qed
    qed (use u in simp)
  qed
  show ?case
  proof (cases ty)
    case (C_optional t)
    then show ?thesis using Suc.IH [of t g] Suc.prems R by auto
  next
    case (C_variant ts)
    then have sub: "set ts \<subseteq> set R" using R by auto
    show ?thesis
    proof (cases rule: add_type_cases [of ty g "S_variant []"])
      case new
      then show ?thesis using all [OF new(1) sub, of "S_variant []"] unfolding C_variant by (auto simp del: cty_name.simps)
    qed (simp add: C_variant)
  next
    case (C_vector t)
    then have sub: "set [t] \<subseteq> set R" using R by auto
    show ?thesis
    proof (cases rule: add_type_cases [of ty g "S_vector (cty_name t)"])
      case new
      then show ?thesis using all [OF new(1) sub, of "S_vector (cty_name t)"] unfolding C_vector
        by (auto simp: bind_eq_Some_conv simp del: cty_name.simps)
    qed (simp add: C_vector)
  next
    case (C_struct s)
    show ?thesis
    proof (cases "map_of env s")
      case (Some ms)
      then have sub: "set (map (kind_type \<circ> cm_kind) ms) \<subseteq> set R" using R C_struct by auto
      show ?thesis
      proof (cases rule: add_type_cases [of ty g empty_object])
        case new
        then show ?thesis using all [OF new(1) sub, of empty_object] Some unfolding C_struct by (auto simp del: cty_name.simps)
      qed (simp add: C_struct Some)
    qed (use C_struct in simp)
  qed auto
qed simp

lemma index_of_name_nth:
  "distinct (map cty_name ts) \<Longrightarrow> i < length ts \<Longrightarrow> index_of_name (cty_name (ts ! i)) ts = Some i"
proof (induction ts arbitrary: i)
  case (Cons t ts)
  show ?case
  proof (cases i)
    case (Suc j)
    then have "cty_name (ts ! j) \<in> set (map cty_name ts)" using Cons.prems(2) by simp
    then have "cty_name t \<noteq> cty_name (ts ! j)" using Cons.prems(1) by auto
    then show ?thesis using Cons Suc by simp
  qed simp
qed simp


definition node_env :: cenv where
  "node_env =
     [(''node'', [\<lparr>cm_name = ''value'', cm_number = 1, cm_kind = Data (C_num ''int64'' 8)\<rparr>,
                 \<lparr>cm_name = ''kids'', cm_number = 2, cm_kind = Data (C_vector (C_struct ''node''))\<rparr>])]"


section \<open>What the code gets wrong\<close>

definition pair_env :: cenv where
  "pair_env =
     [(''names'', [\<lparr>cm_name = ''a'', cm_number = 1, cm_kind = Data C_string\<rparr>, \<lparr>cm_name = ''b'', cm_number = 2, cm_kind = Data C_string\<rparr>]),
      (''outer'', [\<lparr>cm_name = ''names'', cm_number = 1, cm_kind = Data (C_struct ''names'')\<rparr>,
                  \<lparr>cm_name = ''x'', cm_number = 2, cm_kind = Data (C_num ''int32'' 4)\<rparr>,
                  \<lparr>cm_name = ''f'', cm_number = 3, cm_kind = Method [''arg''] [C_struct ''arg_type''] C_string\<rparr>]),
      (''arg_type'', [\<lparr>cm_name = ''y'', cm_number = 1, cm_kind = Data (C_num ''int32'' 4)\<rparr>])]"


end
