(* ===== verification/Clintrinsics_Object.thy ===== *)
theory Clintrinsics_Object
  imports Clio_Prelude "HOL-Library.Multiset"
begin

text \<open>
  The objects of clintrinsics that stand for objects of the host (basic.hpp, database.hpp, connection.hpp,
  crypto.hpp): the owner of a handle, transactions, byte objects, and the awaitable that calls the host
  (coroutines.hpp) with its guards.
\<close>

unbundle bit_operations_syntax

section \<open>Owners of handles\<close>

text \<open>
  The objects of a program by name; the handle of an object is None when it is a null pointer. The host
  hands out \<^verbatim>\<open>issued\<close> handles and is told to release \<^verbatim>\<open>released\<close> ones. An operation on an object that does
  not exist, or the construction of one that does, is no step.
\<close>

record 'x objects =
  object :: "'x \<Rightarrow> nat option option"
  issued :: "nat list"
  released :: "nat list"

datatype 'x object_op = Default_Construct 'x | From_Handle 'x nat | Move_Construct 'x 'x | Move_Assign 'x 'x | Destroy 'x

definition objects_new :: "'x objects" where
  "objects_new = \<lparr>object = (\<lambda>_. None), issued = [], released = []\<rparr>"

text \<open>\<^verbatim>\<open>operator=(ExternalObject&&)\<close>; the move constructor does the same to a null handle.\<close>

definition move_assign :: "'x \<Rightarrow> 'x \<Rightarrow> 'x objects \<Rightarrow> 'x objects" where
  "move_assign x src st =
     (case object st src of
        Some h \<Rightarrow> st\<lparr>object := (object st)(x := Some h, src := Some None)\<rparr>
      | None \<Rightarrow> st)"

inductive object_step :: "'x objects \<Rightarrow> 'x object_op \<Rightarrow> 'x objects \<Rightarrow> bool" where
  default_construct: "object st x = None \<Longrightarrow>
    object_step st (Default_Construct x) (st\<lparr>object := (object st)(x := Some None)\<rparr>)"
| from_handle: "object st x = None \<Longrightarrow> h \<notin> set (issued st) \<Longrightarrow>
    object_step st (From_Handle x h) (st\<lparr>object := (object st)(x := Some (Some h)), issued := h # issued st\<rparr>)"
| move_construct: "object st x = None \<Longrightarrow> object st src \<noteq> None \<Longrightarrow>
    object_step st (Move_Construct x src) (move_assign x src (st\<lparr>object := (object st)(x := Some None)\<rparr>))"
| move_assign: "object st x \<noteq> None \<Longrightarrow> object st src \<noteq> None \<Longrightarrow>
    object_step st (Move_Assign x src) (move_assign x src st)"
| destroy: "object st x = Some h \<Longrightarrow>
    object_step st (Destroy x)
      (st\<lparr>object := (object st)(x := None), released := (case h of Some h \<Rightarrow> h # released st | None \<Rightarrow> released st)\<rparr>)"

inductive object_run :: "'x objects \<Rightarrow> 'x object_op list \<Rightarrow> 'x objects \<Rightarrow> bool" where
  none: "object_run st [] st"
| step: "object_step st e st' \<Longrightarrow> object_run st' es st'' \<Longrightarrow> object_run st (e # es) st''"

text \<open>An assignment to an object that holds a handle.\<close>

definition overwrites :: "'x objects \<Rightarrow> 'x object_op \<Rightarrow> bool" where
  "overwrites st e = (case e of Move_Assign x src \<Rightarrow> (case object st x of Some (Some h) \<Rightarrow> True | _ \<Rightarrow> False) | _ \<Rightarrow> False)"

text \<open>\<^verbatim>\<open>objects_ok\<close>: a handle has one owner at most and is not released while it has one, nor twice.\<close>

definition objects_ok :: "'x objects \<Rightarrow> bool" where
  "objects_ok st \<longleftrightarrow>
     (\<forall>x y h. object st x = Some (Some h) \<longrightarrow> object st y = Some (Some h) \<longrightarrow> x = y) \<and>
     (\<forall>x h. object st x = Some (Some h) \<longrightarrow> h \<in> set (issued st) - set (released st)) \<and>
     distinct (released st) \<and> set (released st) \<subseteq> set (issued st)"

definition held :: "'x objects \<Rightarrow> nat set" where
  "held st = {h. \<exists>x. object st x = Some (Some h)}"

lemma object_step_ok: "object_step st e st' \<Longrightarrow> objects_ok st \<Longrightarrow> objects_ok st'"
  by (induction rule: object_step.induct)
     (auto simp: objects_ok_def move_assign_def split: if_splits option.splits)

text \<open>No handle is forgotten other than by overwriting it.\<close>

lemma object_step_held:
  assumes "object_step st e st'" "\<not> overwrites st e" "set (issued st) = held st \<union> set (released st)"
  shows "set (issued st') = held st' \<union> set (released st')"
  using assms
  by (induction rule: object_step.induct)
     (auto simp: held_def overwrites_def move_assign_def split: if_splits option.splits, (metis option.inject option.distinct(1))+)

inductive careful_run :: "'x objects \<Rightarrow> 'x object_op list \<Rightarrow> 'x objects \<Rightarrow> bool" where
  none: "careful_run st [] st"
| step: "object_step st e st' \<Longrightarrow> \<not> overwrites st e \<Longrightarrow> careful_run st' es st'' \<Longrightarrow> careful_run st (e # es) st''"

lemma object_run_ok: "object_run st es st' \<Longrightarrow> objects_ok st \<Longrightarrow> objects_ok st'"
  by (induction rule: object_run.induct) (auto intro: object_step_ok)

lemma careful_run_held:
  "careful_run st es st' \<Longrightarrow> set (issued st) = held st \<union> set (released st) \<Longrightarrow> set (issued st') = held st' \<union> set (released st')"
  by (induction rule: careful_run.induct) (auto dest: object_step_held)

text \<open>C38 (invariant): whatever is constructed, moved and destroyed, no handle has two owners, none is
  released twice or while it has an owner; and when nothing is assigned to an object that holds a handle,
  every handle has an owner or has been released.\<close>

theorem handles_conserved:
  assumes "object_run objects_new es st"
  shows "(\<forall>x y h. object st x = Some (Some h) \<longrightarrow> object st y = Some (Some h) \<longrightarrow> x = y) \<and>
    held st \<inter> set (released st) = {} \<and> distinct (released st) \<and>
    (careful_run objects_new es st \<longrightarrow> set (issued st) = held st \<union> set (released st))"
proof -
  have "objects_ok (objects_new :: 'a objects)" "set (issued objects_new) = held objects_new \<union> set (released (objects_new :: 'a objects))"
    by (simp_all add: objects_ok_def objects_new_def held_def)
  then show ?thesis
    using object_run_ok [OF assms] careful_run_held [of objects_new es st] by (auto simp: objects_ok_def held_def)
qed

lemma handles_conserved_witness:
  "\<exists>st. object_run objects_new [From_Handle (0 :: nat) 7, Move_Construct 1 0, Destroy 0, Destroy 1] st \<and> released st = [7] \<and>
     held st \<inter> {7} = {}"
proof -
  let ?s1 = "objects_new\<lparr>object := (object objects_new)(0 := Some (Some 7)), issued := [7]\<rparr> :: nat objects"
  let ?s2 = "move_assign 1 0 (?s1\<lparr>object := (object ?s1)(1 := Some None)\<rparr>)"
  let ?s3 = "?s2\<lparr>object := (object ?s2)(0 := None), released := []\<rparr>"
  let ?s4 = "?s3\<lparr>object := (object ?s3)(1 := None), released := [7]\<rparr>"
  have "object_step objects_new (From_Handle (0 :: nat) 7) ?s1"
    using object_step.from_handle [of objects_new "0 :: nat" 7] by (simp add: objects_new_def)
  moreover have "object_step ?s1 (Move_Construct 1 0) ?s2"
    by (rule object_step.move_construct) (simp_all add: objects_new_def)
  moreover have "object_step ?s2 (Destroy 0) ?s3"
    using object_step.destroy [of ?s2 0 None] by (simp add: objects_new_def move_assign_def)
  moreover have "object_step ?s3 (Destroy 1) ?s4"
    using object_step.destroy [of ?s3 1 "Some 7"] by (simp add: objects_new_def move_assign_def)
  ultimately have run: "object_run objects_new [From_Handle (0 :: nat) 7, Move_Construct 1 0, Destroy 0, Destroy 1] ?s4"
    by (blast intro: object_run.intros)
  then show ?thesis using handles_conserved [OF run] by (intro exI [of _ ?s4]) simp
qed

text \<open>An overwritten handle is never released: the assignment does not release what the target held.\<close>

lemma overwritten_handle_leaks:
  "move_assign x y st = st' \<Longrightarrow> object st x = Some (Some h) \<Longrightarrow> object st y = Some (Some h') \<Longrightarrow> x \<noteq> y \<Longrightarrow> objects_ok st \<Longrightarrow>
   h \<notin> held st' \<and> h \<notin> set (released st') \<and> h \<in> set (issued st')"
  by (auto simp: move_assign_def held_def objects_ok_def split: if_splits)

section \<open>Transactions\<close>

datatype host_call = Commit_Transaction "nat option" | Abort_Transaction "nat option" | Release_Object nat

record transaction =
  trx_handle :: "nat option"
  committed :: bool

definition create_transaction :: "nat option \<Rightarrow> transaction" where
  "create_transaction h = \<lparr>trx_handle = h, committed = False\<rparr>"

definition trx_commit :: "transaction \<Rightarrow> host_call list \<Rightarrow> transaction \<times> host_call list" where
  "trx_commit t log = (t\<lparr>committed := True\<rparr>, log @ [Commit_Transaction (trx_handle t)])"

definition trx_abort :: "transaction \<Rightarrow> host_call list \<Rightarrow> transaction \<times> host_call list" where
  "trx_abort t log = (t, log @ [Abort_Transaction (trx_handle t)])"

definition trx_destroy :: "transaction \<Rightarrow> host_call list \<Rightarrow> host_call list" where
  "trx_destroy t log =
     (let log = (if \<not> committed t then snd (trx_abort t log) else log)
      in case trx_handle t of Some h \<Rightarrow> log @ [Release_Object h] | None \<Rightarrow> log)"

fun trx_use :: "bool list \<Rightarrow> transaction \<times> host_call list \<Rightarrow> transaction \<times> host_call list" where
  "trx_use [] s = s"
| "trx_use (c # cs) (t, log) = trx_use cs (if c then trx_commit t log else trx_abort t log)"

lemma trx_use_spec:
  "trx_use cs (t, log) =
     (t\<lparr>committed := committed t \<or> True \<in> set cs\<rparr>,
      log @ map (\<lambda>c. if c then Commit_Transaction (trx_handle t) else Abort_Transaction (trx_handle t)) cs)"
  by (induction cs arbitrary: t log) (auto simp: trx_commit_def trx_abort_def)

text \<open>
  What the host sees of a transaction: its commits and aborts in order, one more abort unless there was a
  commit (also after an explicit abort), and then its release.
\<close>

lemma transaction_calls:
  "(case trx_use cs (create_transaction (Some h), []) of (t, log) \<Rightarrow> trx_destroy t log) =
     map (\<lambda>c. if c then Commit_Transaction (Some h) else Abort_Transaction (Some h)) cs @
     (if True \<in> set cs then [] else [Abort_Transaction (Some h)]) @ [Release_Object h]"
  by (simp add: trx_use_spec create_transaction_def trx_destroy_def trx_abort_def)

section \<open>Bytes and hashes\<close>

text \<open>The contents of the host's objects are a parameter.\<close>

definition to_uint8_vector :: "(nat \<Rightarrow> byte list) \<Rightarrow> nat \<Rightarrow> byte list" where
  "to_uint8_vector obj h = (let size = length (obj h) in take size (obj h))"

definition to_array_object :: "nat \<Rightarrow> (nat \<Rightarrow> byte list) \<Rightarrow> nat \<Rightarrow> string + byte list" where
  "to_array_object n obj h = (if length (obj h) \<noteq> n then Inl ''to array memory size mismatch'' else Inr (obj h))"

definition sha256_to_string :: "byte list \<Rightarrow> string" where
  "sha256_to_string d =
     concat (map (\<lambda>c. [''0123456789abcdef'' ! unat (drop_bit 4 c), ''0123456789abcdef'' ! unat (c AND 0x0f)]) d)"

section \<open>The awaitable of a call into the host\<close>

text \<open>Only \<^verbatim>\<open>co\<close> matters to the guards; \<^verbatim>\<open>fatal\<close> ends the program with a message.\<close>

definition call_await_suspend :: "nat \<Rightarrow> nat option \<Rightarrow> string + nat option" where
  "call_await_suspend h co =
     (if co \<noteq> None then Inl ''await on an in-use CallAsyncAwaitable'' else Inr (Some h))"

definition call_post_process :: "nat option \<Rightarrow> string + nat \<times> nat option" where
  "call_post_process co =
     (case co of
        None \<Rightarrow> Inl ''resume a CallAsyncAwaitable which isn't being awaited on''
      | Some h \<Rightarrow> Inr (h, None))"

definition call_move_assign :: "nat option \<Rightarrow> nat option \<Rightarrow> string + nat option" where
  "call_move_assign co src =
     (if co \<noteq> None then Inl ''move to in-use CallAsyncAwaitable''
      else if src \<noteq> None then Inl ''move from in-use CallAsyncAwaitable'' else Inr co)"

definition call_destroy :: "nat option \<Rightarrow> string + unit" where
  "call_destroy co = (if co \<noteq> None then Inl ''destroy in-use CallAsyncAwaitable'' else Inr ())"

end
