(* ===== verification/Clintrinsics_Task.thy ===== *)
theory Clintrinsics_Task
  imports Clio_Prelude "HOL-Library.Multiset"
begin

text \<open>
  The coroutines of clintrinsics (coroutines.hpp): tasks, what awaiting one does to the frames of the
  coroutines, and calls into the host that come back later.

  The body of a coroutine is what it does until it returns: a call into the host, or a wait for another
  task that was made for this (\<^verbatim>\<open>co_await f()\<close>), and how it goes on with the outcome. A frame is the
  storage of a running coroutine. Its number stands for the \<^verbatim>\<open>coroutine_handle\<close>.
\<close>

section \<open>Frames\<close>

datatype ('a, 'v) co =
    Return 'v
  | Call_Async 'a "'v \<Rightarrow> ('a, 'v) co"
  | Await "('a, 'v) co" "'v \<Rightarrow> ('a, 'v) co"

text \<open>
  Where a coroutine stands: it runs, it is suspended in a \<^verbatim>\<open>CallAsyncAwaitable\<close>, or in a \<^verbatim>\<open>Task\<close> of
  the given frame, of which the flag tells whether its \<^verbatim>\<open>promise\<close> is not null.
\<close>

datatype ('a, 'v) waiting =
    Running
  | In_Call "'v \<Rightarrow> ('a, 'v) co"
  | In_Await nat bool "'v \<Rightarrow> ('a, 'v) co"

record ('a, 'v) coframe =
  continuation :: "nat option"
  waiting :: "('a, 'v) waiting"

text \<open>\<^verbatim>\<open>calls\<close> are the calls the host has not answered; \<^verbatim>\<open>broken\<close> says that a frame was used after its end.\<close>

record ('a, 'v) runtime =
  frames :: "nat \<Rightarrow> ('a, 'v) coframe option"
  next_frame :: nat
  calls :: "(nat \<times> 'a) list"
  broken :: bool

definition runtime_new :: "('a, 'v) runtime" where
  "runtime_new = \<lparr>frames = (\<lambda>_. None), next_frame = 0, calls = [], broken = False\<rparr>"

definition new_frame :: "nat option \<Rightarrow> ('a, 'v) runtime \<Rightarrow> nat \<times> ('a, 'v) runtime" where
  "new_frame co st =
     (next_frame st, st\<lparr>frames := (frames st)(next_frame st \<mapsto> \<lparr>continuation = co, waiting = Running\<rparr>),
                        next_frame := Suc (next_frame st)\<rparr>)"

definition set_waiting :: "nat \<Rightarrow> ('a, 'v) waiting \<Rightarrow> ('a, 'v) runtime \<Rightarrow> ('a, 'v) runtime" where
  "set_waiting f w st =
     (case frames st f of
        Some fr \<Rightarrow> st\<lparr>frames := (frames st)(f \<mapsto> fr\<lparr>waiting := w\<rparr>)\<rparr>
      | None \<Rightarrow> st\<lparr>broken := True\<rparr>)"

text \<open>A coroutine that has run to its end destroys its frame; \<^verbatim>\<open>~TaskBase\<close> must find it suspended.\<close>

definition end_frame :: "nat \<Rightarrow> ('a, 'v) runtime \<Rightarrow> ('a, 'v) runtime" where
  "end_frame f st =
     (if frames st f = None then st\<lparr>broken := True\<rparr> else st\<lparr>frames := (frames st)(f := None)\<rparr>)"

definition destroy_task :: "nat \<Rightarrow> ('a, 'v) runtime \<Rightarrow> ('a, 'v) runtime" where
  "destroy_task f st =
     (case frames st f of
        Some fr \<Rightarrow>
          (case waiting fr of Running \<Rightarrow> st\<lparr>frames := (frames st)(f := None), broken := True\<rparr>
           | _ \<Rightarrow> st\<lparr>frames := (frames st)(f := None)\<rparr>)
      | None \<Rightarrow> st\<lparr>broken := True\<rparr>)"

text \<open>\<^verbatim>\<open>promise = nullptr\<close>, in the task that frame \<^verbatim>\<open>f\<close> waits for.\<close>

definition null_promise :: "nat \<Rightarrow> nat \<Rightarrow> ('a, 'v) runtime \<Rightarrow> ('a, 'v) runtime" where
  "null_promise f child st =
     (case frames st f of
        Some fr \<Rightarrow>
          (case waiting fr of
             In_Await n owned k \<Rightarrow> if n = child then set_waiting f (In_Await n False k) st else st\<lparr>broken := True\<rparr>
           | _ \<Rightarrow> st\<lparr>broken := True\<rparr>)
      | None \<Rightarrow> st\<lparr>broken := True\<rparr>)"

section \<open>Running a coroutine\<close>

text \<open>
  \<^verbatim>\<open>resume\<close> returns when the coroutine is suspended or at its end. A coroutine that returns has its
  value put into the task of the one that waits for it and resumes that one in \<^verbatim>\<open>final_suspend\<close>, before
  its own frame is destroyed. The one resumed takes the value and destroys the task; then it goes on. A
  coroutine that waits creates the frame of the task and resumes it in \<^verbatim>\<open>await_suspend\<close>, which then sets
  the promise to null.
\<close>

partial_function (option) resume :: "nat \<Rightarrow> ('a, 'v) co \<Rightarrow> ('a, 'v) runtime \<Rightarrow> ('a, 'v) runtime option" where
  "resume f c st =
     (case c of
        Call_Async a k \<Rightarrow> Some ((set_waiting f (In_Call k) st)\<lparr>calls := calls st @ [(f, a)]\<rparr>)
      | Await c k \<Rightarrow>
          (let (n, st) = new_frame (Some f) st
           in Option.bind (resume n c (set_waiting f (In_Await n True k) st)) (\<lambda>st. Some (null_promise f n st)))
      | Return v \<Rightarrow>
          (case frames st f of
             None \<Rightarrow> Some (st\<lparr>broken := True\<rparr>)
           | Some fr \<Rightarrow>
               (case continuation fr of
                  None \<Rightarrow> Some (end_frame f st)
                | Some p \<Rightarrow>
                    (case map_option waiting (frames st p) of
                       Some (In_Await n owned k) \<Rightarrow>
                         Option.bind (resume p (k v) (set_waiting p Running (if owned then destroy_task n st else st)))
                           (\<lambda>st. Some (end_frame f st))
                     | _ \<Rightarrow> Some (st\<lparr>broken := True\<rparr>)))))"

text \<open>\<^verbatim>\<open>TaskBase::start\<close>, and the function the host is given to answer a call with.\<close>

definition start_task :: "('a, 'v) co \<Rightarrow> ('a, 'v) runtime \<Rightarrow> ('a, 'v) runtime option" where
  "start_task c st = (let (n, st) = new_frame None st in resume n c st)"

definition post_process :: "nat \<Rightarrow> 'v \<Rightarrow> ('a, 'v) runtime \<Rightarrow> ('a, 'v) runtime option" where
  "post_process f v st =
     (case map_option waiting (frames st f) of
        Some (In_Call k) \<Rightarrow>
          resume f (k v) (set_waiting f Running (st\<lparr>calls := filter (\<lambda>(g, a). g \<noteq> f) (calls st)\<rparr>))
      | _ \<Rightarrow> Some (st\<lparr>broken := True\<rparr>))"

datatype ('a, 'v) task_event = Started "('a, 'v) co" | Replied 'a 'v

inductive task_step :: "('a, 'v) runtime \<Rightarrow> ('a, 'v) task_event \<Rightarrow> ('a, 'v) runtime \<Rightarrow> bool" where
  start: "start_task c st = Some st' \<Longrightarrow> task_step st (Started c) st'"
| reply: "(f, a) \<in> set (calls st) \<Longrightarrow> post_process f v st = Some st' \<Longrightarrow> task_step st (Replied a v) st'"

inductive task_run :: "('a, 'v) runtime \<Rightarrow> ('a, 'v) task_event list \<Rightarrow> ('a, 'v) runtime \<Rightarrow> bool" where
  none: "task_run st [] st"
| step: "task_step st e st' \<Longrightarrow> task_run st' es st'' \<Longrightarrow> task_run st (e # es) st''"

end
