(* ===== verification/Clintrinsics_Task_Props.thy ===== *)
theory Clintrinsics_Task_Props
  imports Clintrinsics_Task
begin

text \<open>
  Coroutines that only wait for tasks that call the host before they return behave as sequential programs
  do: the frames are a chain for every started task, none of them is used after its end, and the host
  sees the calls of the program in order. A task that returns without a call breaks this.
\<close>

section \<open>What a task does, without frames\<close>

datatype ('a, 'v) res = Done 'v | Request 'a "'v \<Rightarrow> ('a, 'v) res"

primrec and_then :: "('a, 'v) res \<Rightarrow> ('v \<Rightarrow> ('a, 'v) res) \<Rightarrow> ('a, 'v) res" where
  "and_then (Done v) K = K v"
| "and_then (Request a k) K = Request a (\<lambda>v. and_then (k v) K)"

primrec denote :: "('a, 'v) co \<Rightarrow> ('a, 'v) res" where
  "denote (Return v) = Done v"
| "denote (Call_Async a k) = Request a (\<lambda>v. denote (k v))"
| "denote (Await c k) = and_then (denote c) (\<lambda>v. denote (k v))"

lemma and_then_assoc: "and_then (and_then r K) K' = and_then r (\<lambda>v. and_then (K v) K')"
  by (induction r) auto

lemma and_then_Done [simp]: "and_then r Done = r"
  by (induction r) auto

text \<open>The task makes a call before it returns; every task it waits for does.\<close>

primrec asyncs :: "('a, 'v) co \<Rightarrow> bool" where
  "asyncs (Return v) \<longleftrightarrow> False"
| "asyncs (Call_Async a k) \<longleftrightarrow> True"
| "asyncs (Await c k) \<longleftrightarrow> asyncs c"

primrec safe_co :: "('a, 'v) co \<Rightarrow> bool" where
  "safe_co (Return v) \<longleftrightarrow> True"
| "safe_co (Call_Async a k) \<longleftrightarrow> (\<forall>v. safe_co (k v))"
| "safe_co (Await c k) \<longleftrightarrow> asyncs c \<and> safe_co c \<and> (\<forall>v. safe_co (k v))"

lemma asyncs_request: "asyncs c \<Longrightarrow> \<exists>a k. denote c = Request a k"
  by (induction c) auto

section \<open>Chains of frames\<close>

text \<open>\<^verbatim>\<open>chain m fs K\<close>: the frames \<^verbatim>\<open>fs\<close>, each of which waits for the one before it; \<^verbatim>\<open>K\<close> is what is left to do
  when the first of them returns.\<close>

inductive chain :: "(nat \<Rightarrow> ('a, 'v) coframe option) \<Rightarrow> nat list \<Rightarrow> ('v \<Rightarrow> ('a, 'v) res) \<Rightarrow> bool" where
  root: "map_option continuation (m f) = Some None \<Longrightarrow> chain m [f] Done"
| link: "map_option continuation (m f) = Some (Some p) \<Longrightarrow> map_option waiting (m p) = Some (In_Await f False k) \<Longrightarrow>
    (\<And>v. safe_co (k v)) \<Longrightarrow> chain m (p # fs) K \<Longrightarrow> f \<notin> set (p # fs) \<Longrightarrow>
    chain m (f # p # fs) (\<lambda>v. and_then (denote (k v)) K)"

inductive_simps chain_Cons: "chain m (f # up) K"

definition blocked :: "(nat \<Rightarrow> ('a, 'v) coframe option) \<Rightarrow> nat list \<Rightarrow> 'a \<Rightarrow> ('a, 'v) res \<Rightarrow> bool" where
  "blocked m fs a r \<longleftrightarrow>
     (\<exists>k K. chain m fs K \<and> map_option waiting (m (hd fs)) = Some (In_Call k) \<and> (\<forall>v. safe_co (k v)) \<and>
       r = Request a (\<lambda>v. and_then (denote (k v)) K))"

lemma chain_nonempty: "chain m fs K \<Longrightarrow> fs \<noteq> []"
  by (induction rule: chain.induct) auto

lemma chain_dom: "chain m fs K \<Longrightarrow> set fs \<subseteq> dom m"
  by (induction rule: chain.induct) auto

lemma chain_distinct: "chain m fs K \<Longrightarrow> distinct fs"
  by (induction rule: chain.induct) auto

text \<open>A chain does not depend on other frames, nor on where its first frame stands.\<close>

lemma chain_cong:
  "chain m fs K \<Longrightarrow> (\<And>f. f \<in> set (tl fs) \<Longrightarrow> m' f = m f) \<Longrightarrow>
   map_option continuation (m' (hd fs)) = map_option continuation (m (hd fs)) \<Longrightarrow> chain m' fs K"
proof (induction rule: chain.induct)
  case (root m f)
  then show ?case by (auto intro: chain.root)
next
  case (link m f p k fs K)
  have "chain m' (p # fs) K" by (rule link.IH) (use link.prems in auto)
  then show ?case using link by (intro chain.link) auto
qed

lemma blocked_cong:
  assumes "blocked m fs a r" "\<And>f. f \<in> set fs \<Longrightarrow> m' f = m f"
  shows "blocked m' fs a r"
proof -
  obtain k K where b: "chain m fs K" "map_option waiting (m (hd fs)) = Some (In_Call k)" "\<forall>v. safe_co (k v)"
    "r = Request a (\<lambda>v. and_then (denote (k v)) K)"
    using assms(1) by (auto simp: blocked_def)
  have "fs \<noteq> []" by (rule chain_nonempty [OF b(1)])
  then have hd: "m' (hd fs) = m (hd fs)" using assms(2) by simp
  have "chain m' fs K"
    by (rule chain_cong [OF b(1)]) (use assms(2) hd list.set_sel(2) [OF \<open>fs \<noteq> []\<close>] in auto)
  then show ?thesis using b(2-) hd by (auto simp: blocked_def)
qed

section \<open>Starting a task that makes a call\<close>

definition fresh_above :: "('a, 'v) runtime \<Rightarrow> bool" where
  "fresh_above st \<longleftrightarrow> (\<forall>f \<in> dom (frames st). f < next_frame st)"

definition same_off :: "nat set \<Rightarrow> ('a, 'v) runtime \<Rightarrow> ('a, 'v) runtime \<Rightarrow> bool" where
  "same_off A st st' \<longleftrightarrow>
     (\<forall>f. f \<notin> A \<longrightarrow> f < next_frame st \<longrightarrow> frames st' f = frames st f) \<and>
     next_frame st \<le> next_frame st' \<and> broken st' = broken st"

lemma same_off_trans: "same_off A st st' \<Longrightarrow> same_off A st' st'' \<Longrightarrow> same_off A st st''"
  by (auto simp: same_off_def)

text \<open>Frame \<^verbatim>\<open>f\<close> has been resumed and is now the end of a chain of new frames, the first of which is in a call.\<close>

definition suspended_below :: "nat \<Rightarrow> ('a, 'v) co \<Rightarrow> ('a, 'v) runtime \<Rightarrow> ('a, 'v) runtime \<Rightarrow> bool" where
  "suspended_below f c st st' \<longleftrightarrow>
     same_off {f} st st' \<and> fresh_above st' \<and> map_option continuation (frames st' f) = map_option continuation (frames st f) \<and>
     (\<exists>new a r.
        denote c = Request a r \<and> calls st' = calls st @ [(hd (new @ [f]), a)] \<and> distinct new \<and>
        set new \<subseteq> {next_frame st..} \<and> dom (frames st') = dom (frames st) \<union> set new \<and>
        (\<forall>m up K. (\<forall>g \<in> set new. m g = frames st' g) \<longrightarrow> m f = frames st' f \<longrightarrow> chain m (f # up) K \<longrightarrow> set new \<inter> set up = {} \<longrightarrow>
           blocked m (new @ f # up) a (and_then (denote c) K)))"

lemma set_waiting_simps:
  "frames st f = Some fr \<Longrightarrow> set_waiting f w st = st\<lparr>frames := (frames st)(f \<mapsto> fr\<lparr>waiting := w\<rparr>)\<rparr>"
  by (simp add: set_waiting_def)

lemma resume_call:
  "resume f (Call_Async a k) st = Some ((set_waiting f (In_Call k) st)\<lparr>calls := calls st @ [(f, a)]\<rparr>)"
  by (subst resume.simps) simp

lemma resume_await:
  "resume f (Await c k) st =
     Option.bind (resume (next_frame st) c (set_waiting f (In_Await (next_frame st) True k) (snd (new_frame (Some f) st))))
       (\<lambda>st'. Some (null_promise f (next_frame st) st'))"
  by (subst resume.simps) (simp add: new_frame_def)

lemma suspended_call:
  assumes "\<forall>v. safe_co (k v)" "f \<in> dom (frames st)" "fresh_above st"
  shows "suspended_below f (Call_Async a k) st ((set_waiting f (In_Call k) st)\<lparr>calls := calls st @ [(f, a)]\<rparr>)"
proof -
  obtain fr where fr: "frames st f = Some fr" using assms(2) by auto
  have "blocked m (f # up) a (Request a (\<lambda>v. and_then (denote (k v)) K))"
    if "m f = Some (fr\<lparr>waiting := In_Call k\<rparr>)" "chain m (f # up) K" for m :: "nat \<Rightarrow> ('b, 'a) coframe option" and up K
    using that assms(1) by (auto simp: blocked_def)
  then show ?thesis
    unfolding suspended_below_def using assms(2,3) fr
    by (auto simp: set_waiting_simps same_off_def fresh_above_def intro!: exI [of _ "[]"])
qed

lemma suspended_await:
  assumes "suspended_below n c st1 st2" "asyncs c" "\<forall>v. safe_co (k v)" "f \<in> dom (frames st)" "fresh_above st"
    and n: "n = next_frame st" and st1: "st1 = set_waiting f (In_Await n True k) (snd (new_frame (Some f) st))"
  shows "suspended_below f (Await c k) st (null_promise f n st2)"
proof -
  obtain fr where fr: "frames st f = Some fr" using assms(4) by auto
  have f: "f < n" using assms(4,5) n by (simp add: fresh_above_def)
  have s1: "st1 = st\<lparr>frames := (frames st)(n \<mapsto> \<lparr>continuation = Some f, waiting = Running\<rparr>, f \<mapsto> fr\<lparr>waiting := In_Await n True k\<rparr>),
      next_frame := Suc n\<rparr>"
    using f fr by (simp add: st1 n new_frame_def set_waiting_def)
  obtain new a r where so: "same_off {n} st1 st2" "fresh_above st2"
      "map_option continuation (frames st2 n) = map_option continuation (frames st1 n)"
    and r: "denote c = Request a r" "calls st2 = calls st1 @ [(hd (new @ [n]), a)]" "distinct new"
      "set new \<subseteq> {next_frame st1..}" "dom (frames st2) = dom (frames st1) \<union> set new"
    and b: "\<And>m up K. (\<forall>g \<in> set new. m g = frames st2 g) \<Longrightarrow> m n = frames st2 n \<Longrightarrow> chain m (n # up) K \<Longrightarrow>
        set new \<inter> set up = {} \<Longrightarrow> blocked m (new @ n # up) a (and_then (denote c) K)"
    using assms(1) unfolding suspended_below_def by blast
  have f2: "frames st2 f = Some (fr\<lparr>waiting := In_Await n True k\<rparr>)"
    using so(1) f by (simp add: same_off_def s1)
  let ?st = "st2\<lparr>frames := (frames st2)(f \<mapsto> fr\<lparr>waiting := In_Await n False k\<rparr>)\<rparr>"
  have st3: "null_promise f n st2 = ?st" using f2 by (simp add: null_promise_def set_waiting_def)
  have blk: "blocked m ((new @ [n]) @ f # up) a (and_then (denote (Await c k)) K)"
    if m: "\<forall>g \<in> set (new @ [n]). m g = frames ?st g" "m f = frames ?st f" "chain m (f # up) K" "set (new @ [n]) \<inter> set up = {}" for m up K
  proof -
    have "f \<notin> set new" using r(4) f by (auto simp: s1)
    then have m': "\<forall>g \<in> set new. m g = frames st2 g" "m n = frames st2 n" using m(1) f by auto
    moreover have "map_option continuation (frames st2 n) = Some (Some f)" using so(3) f by (simp add: s1)
    ultimately have "chain m (n # f # up) (\<lambda>v. and_then (denote (k v)) K)"
      using m(2-4) assms(3) f by (intro chain.link) auto
    then have "blocked m (new @ n # f # up) a (and_then (denote c) (\<lambda>v. and_then (denote (k v)) K))"
      using b [OF m'] m(4) \<open>f \<notin> set new\<close> by simp
    then show ?thesis by (simp add: and_then_assoc)
  qed
  have "same_off {f} st ?st" using so(1) f unfolding same_off_def s1 n by auto
  moreover have "fresh_above ?st" using so(2) f2 unfolding fresh_above_def by auto
  moreover have "n \<notin> set new" using r(4) by (auto simp: s1)
  moreover have "dom (frames ?st) = dom (frames st) \<union> set (new @ [n])" using r(5) fr by (auto simp: s1)
  moreover have "calls ?st = calls st @ [(hd ((new @ [n]) @ [f]), a)]" using r(2) by (cases new) (simp_all add: s1)
  moreover have "set (new @ [n]) \<subseteq> {next_frame st..}" using r(4) by (auto simp: s1 n)
  ultimately show ?thesis
    unfolding suspended_below_def st3 using blk r(1,3) fr
    by (intro conjI exI [of _ "new @ [n]"] exI [of _ a] exI [of _ "\<lambda>v. and_then (r v) (\<lambda>v. denote (k v))"]) auto
qed

lemma resume_async:
  "asyncs c \<Longrightarrow> safe_co c \<Longrightarrow> f \<in> dom (frames st) \<Longrightarrow> fresh_above st \<Longrightarrow>
   \<exists>st'. resume f c st = Some st' \<and> suspended_below f c st st'"
proof (induction c arbitrary: f st)
  case (Call_Async a k)
  then show ?case using suspended_call [of k f st a] by (simp add: resume_call)
next
  case (Await c k)
  let ?n = "next_frame st"
  let ?st1 = "set_waiting f (In_Await ?n True k) (snd (new_frame (Some f) st))"
  have "dom (frames ?st1) = insert ?n (dom (frames st))" "next_frame ?st1 = Suc ?n"
    using Await.prems(3,4) by (auto simp: new_frame_def set_waiting_def fresh_above_def split: if_splits)
  then have "?n \<in> dom (frames ?st1)" "fresh_above ?st1"
    using Await.prems(4) unfolding fresh_above_def by (simp_all add: less_SucI)
  then obtain st2 where "resume ?n c ?st1 = Some st2" "suspended_below ?n c ?st1 st2"
    using Await.IH(1) [of ?n ?st1] Await.prems(1,2) by auto
  then show ?case
    using suspended_await [of ?n c ?st1 st2 k f st] Await.prems by (auto simp: resume_await)
qed simp

section \<open>Resuming the first frame of a chain\<close>

text \<open>
  The chain is gone when there is nothing left to do, or it is another chain that is blocked in a call;
  \<^verbatim>\<open>r\<close> is what was left to do.
\<close>

definition goes_on :: "nat list \<Rightarrow> ('a, 'v) res \<Rightarrow> ('a, 'v) runtime \<Rightarrow> ('a, 'v) runtime \<Rightarrow> bool" where
  "goes_on fs r st st' \<longleftrightarrow>
     same_off (set fs) st st' \<and> fresh_above st' \<and>
     (case r of
        Done w \<Rightarrow> dom (frames st') = dom (frames st) - set fs \<and> calls st' = calls st
      | Request a k \<Rightarrow>
          \<exists>fs'. blocked (frames st') fs' a r \<and> set fs' \<subseteq> set fs \<union> {next_frame st..} \<and>
            dom (frames st') = dom (frames st) - set fs \<union> set fs' \<and> calls st' = calls st @ [(hd fs', a)])"

lemma resume_return_root:
  "map_option continuation (frames st f) = Some None \<Longrightarrow> resume f (Return v) st = Some (st\<lparr>frames := (frames st)(f := None)\<rparr>)"
  by (subst resume.simps) (auto simp: end_frame_def)

lemma resume_return_link:
  "map_option continuation (frames st f) = Some (Some p) \<Longrightarrow> map_option waiting (frames st p) = Some (In_Await f False k) \<Longrightarrow>
   resume f (Return v) st = Option.bind (resume p (k v) (set_waiting p Running st)) (\<lambda>st. Some (end_frame f st))"
  by (subst resume.simps) (auto simp: end_frame_def)

lemma goes_on_async:
  assumes "suspended_below f c st st'" "chain (frames st) (f # up) K" "fresh_above st"
  shows "goes_on (f # up) (and_then (denote c) K) st st'"
proof -
  obtain new a r where so: "same_off {f} st st'" "fresh_above st'"
      "map_option continuation (frames st' f) = map_option continuation (frames st f)"
    and r: "denote c = Request a r" "calls st' = calls st @ [(hd (new @ [f]), a)]" "distinct new"
      "set new \<subseteq> {next_frame st..}" "dom (frames st') = dom (frames st) \<union> set new"
    and b: "\<And>m up K. (\<forall>g \<in> set new. m g = frames st' g) \<Longrightarrow> m f = frames st' f \<Longrightarrow> chain m (f # up) K \<Longrightarrow>
        set new \<inter> set up = {} \<Longrightarrow> blocked m (new @ f # up) a (and_then (denote c) K)"
    using assms(1) unfolding suspended_below_def by blast
  have low: "\<forall>g \<in> set (f # up). g < next_frame st"
    using chain_dom [OF assms(2)] assms(3) unfolding fresh_above_def by blast
  have d: "f \<notin> set up" using chain_distinct [OF assms(2)] by simp
  have "chain (frames st') (f # up) K"
    by (rule chain_cong [OF assms(2)]) (use so low d in \<open>auto simp: same_off_def\<close>)
  moreover have "set new \<inter> set up = {}" using r(4) low by force
  ultimately have "blocked (frames st') (new @ f # up) a (and_then (denote c) K)" using b by blast
  moreover have "set (f # up) \<subseteq> dom (frames st)" by (rule chain_dom [OF assms(2)])
  moreover have "hd (new @ [f]) = hd (new @ f # up)" by (cases new) simp_all
  moreover have "same_off (set (f # up)) st st'" using so(1) by (auto simp: same_off_def)
  ultimately show ?thesis
    unfolding goes_on_def using so(2) r by (auto intro!: exI [of _ "new @ f # up"])
qed

lemma goes_on_end:
  assumes "goes_on fs r (set_waiting p Running st) st'" "f \<notin> set fs" "f \<in> dom (frames st)" "p \<in> set fs" "set fs \<subseteq> dom (frames st)"
    "fresh_above st"
  shows "goes_on (f # fs) r st (end_frame f st')"
proof -
  obtain fr where fr: "frames st p = Some fr" using assms(4,5) by auto
  let ?st = "set_waiting p Running st"
  have st: "dom (frames ?st) = dom (frames st)" "next_frame ?st = next_frame st" "calls ?st = calls st" "broken ?st = broken st"
    "\<forall>g. g \<noteq> p \<longrightarrow> frames ?st g = frames st g"
    using fr by (auto simp: set_waiting_def)
  have f: "f < next_frame st" using assms(3,6) by (auto simp: fresh_above_def)
  have so: "same_off (set fs) ?st st'" "fresh_above st'" using assms(1) by (simp_all add: goes_on_def)
  have "frames st' f = frames st f" using so(1) assms(2,4) f st(2,5) by (auto simp: same_off_def)
  then have e: "end_frame f st' = st'\<lparr>frames := (frames st')(f := None)\<rparr>" using assms(3) by (auto simp: end_frame_def)
  have so': "same_off (set (f # fs)) st (end_frame f st')" "fresh_above (end_frame f st')"
    using so st assms(4) unfolding same_off_def fresh_above_def e by auto
  show ?thesis
  proof (cases r)
    case (Done w)
    then show ?thesis using assms(1) so' st by (auto simp: goes_on_def e)
  next
    case (Request a k)
    then obtain fs' where fs': "blocked (frames st') fs' a r" "set fs' \<subseteq> set fs \<union> {next_frame st..}"
      "dom (frames st') = dom (frames st) - set fs \<union> set fs'" "calls st' = calls st @ [(hd fs', a)]"
      using assms(1) st by (auto simp: goes_on_def)
    have n: "f \<notin> set fs'" using fs'(2) assms(2) f by auto
    have "blocked (frames (end_frame f st')) fs' a r"
      by (rule blocked_cong [OF fs'(1)]) (use n e in auto)
    then show ?thesis using Request so' fs'(2-4) n by (auto simp: goes_on_def e intro!: exI [of _ fs'])
  qed
qed

lemma safe_cases: "safe_co c \<Longrightarrow> asyncs c \<or> (\<exists>v. c = Return v)"
  by (cases c) auto

lemma resume_chain_async:
  assumes "asyncs c" "safe_co c" "chain (frames st) (f # up) K" "fresh_above st"
  shows "\<exists>st'. resume f c st = Some st' \<and> goes_on (f # up) (and_then (denote c) K) st st'"
proof -
  have "f \<in> dom (frames st)" using chain_dom [OF assms(3)] by simp
  then obtain st' where "resume f c st = Some st'" "suspended_below f c st st'"
    using resume_async [OF assms(1,2) _ assms(4)] by blast
  then show ?thesis using goes_on_async [OF _ assms(3,4)] by blast
qed

lemma resume_chain:
  "chain (frames st) fs K \<Longrightarrow> safe_co c \<Longrightarrow> fresh_above st \<Longrightarrow>
   \<exists>st'. resume (hd fs) c st = Some st' \<and> goes_on fs (and_then (denote c) K) st st'"
proof (induction fs arbitrary: K c st)
  case Nil
  then show ?case using chain_nonempty by blast
next
  case (Cons f up)
  note ch = Cons.prems(1)
  consider "asyncs c" | v where "c = Return v" using safe_cases [OF Cons.prems(2)] by blast
  then show ?case
  proof cases
    case 1
    then show ?thesis using resume_chain_async [OF 1 Cons.prems(2) ch Cons.prems(3)] by simp
  next
    case 2
    from iffD1 [OF chain_Cons ch] show ?thesis
    proof (elim disjE exE conjE)
      fix fr
      assume r: "up = []" "K = Done" "frames st f = Some fr" "continuation fr = None"
      have "goes_on [f] (Done v) st (st\<lparr>frames := (frames st)(f := None)\<rparr>)"
        using Cons.prems(3) unfolding goes_on_def same_off_def fresh_above_def by auto
      then show ?thesis using r resume_return_root [of st f v] \<open>c = Return v\<close> by simp
    next
      fix p k fs L ff fr
      assume l: "up = p # fs" "K = (\<lambda>v. and_then (denote (k v)) L)" "frames st f = Some ff" "continuation ff = Some p"
        and fr: "frames st p = Some fr" "waiting fr = In_Await f False k" and k: "\<forall>v. safe_co (k v)"
        and up: "chain (frames st) (p # fs) L" "f \<noteq> p" "f \<notin> set fs"
      let ?st = "set_waiting p Running st"
      have d: "set (f # p # fs) \<subseteq> dom (frames st)" using chain_dom [OF ch] l(1) by simp
      have fresh: "fresh_above ?st" using Cons.prems(3) fr by (auto simp: set_waiting_def fresh_above_def)
      have "chain (frames ?st) (p # fs) L"
        by (rule chain_cong [OF up(1)]) (use fr chain_distinct [OF up(1)] in \<open>auto simp: set_waiting_def\<close>)
      then obtain st' where st': "resume p (k v) ?st = Some st'" "goes_on (p # fs) (and_then (denote (k v)) L) ?st st'"
        using Cons.IH [of ?st L "k v"] l(1) k fresh by auto
      have "goes_on (f # p # fs) (and_then (denote (k v)) L) st (end_frame f st')"
        by (rule goes_on_end [OF st'(2)]) (use d up(2,3) Cons.prems(3) in auto)
      then show ?thesis
        using st'(1) \<open>c = Return v\<close> l fr by (simp add: resume_return_link)
    qed
  qed
qed

section \<open>Many tasks\<close>

text \<open>
  What the host sees of a number of tasks: a bag of those that are blocked. An event starts one, or the
  call of one is answered.
\<close>

definition still :: "('a, 'v) res \<Rightarrow> ('a, 'v) res multiset" where
  "still r = (case r of Done v \<Rightarrow> {#} | Request a k \<Rightarrow> {#r#})"

fun request :: "('a, 'v) res \<Rightarrow> 'a option" where
  "request (Request a k) = Some a"
| "request (Done v) = None"

inductive spec_step :: "('a, 'v) res multiset \<Rightarrow> ('a, 'v) task_event \<Rightarrow> ('a, 'v) res multiset \<Rightarrow> bool" where
  start: "spec_step M (Started c) (M + still (denote c))"
| reply: "Request a k \<in># M \<Longrightarrow> spec_step M (Replied a v) (M - {#Request a k#} + still (k v))"

inductive spec_run :: "('a, 'v) res multiset \<Rightarrow> ('a, 'v) task_event list \<Rightarrow> ('a, 'v) res multiset \<Rightarrow> bool" where
  none: "spec_run M [] M"
| step: "spec_step M e M' \<Longrightarrow> spec_run M' es M'' \<Longrightarrow> spec_run M (e # es) M''"

text \<open>The frames are the disjoint chains of the blocked tasks.\<close>

definition tasks_sim :: "('a, 'v) runtime \<Rightarrow> (nat list \<times> 'a \<times> ('a, 'v) res) list \<Rightarrow> bool" where
  "tasks_sim st L \<longleftrightarrow>
     (\<forall>(fs, a, r) \<in> set L. blocked (frames st) fs a r) \<and> distinct (concat (map fst L)) \<and>
     set (concat (map fst L)) = dom (frames st) \<and>
     mset (calls st) = mset (map (\<lambda>(fs, a, r). (hd fs, a)) L) \<and> \<not> broken st \<and> fresh_above st"

lemma blocked_nonempty: "blocked m fs a r \<Longrightarrow> fs \<noteq> []"
  using chain_nonempty by (auto simp: blocked_def)

text \<open>One chain goes on while the others stay as they are.\<close>

lemma sim_goes_on:
  assumes "\<forall>(fs, a, r) \<in> set L. blocked (frames st) fs a r" "distinct (fs @ concat (map fst L))"
    "set (fs @ concat (map fst L)) = dom (frames st)" "mset (calls st) = mset (map (\<lambda>(fs, a, r). (hd fs, a)) L)"
    "\<not> broken st" "fresh_above st" "goes_on fs r st st'" "fs \<noteq> []"
  shows "\<exists>L'. tasks_sim st' L' \<and> mset (map (snd \<circ> snd) L') = mset (map (snd \<circ> snd) L) + still r"
proof -
  have so: "same_off (set fs) st st'" "fresh_above st'" using assms(7) by (simp_all add: goes_on_def)
  have low: "\<forall>f \<in> set (concat (map fst L)). f < next_frame st" using assms(3,6) by (auto simp: fresh_above_def)
  have keep: "frames st' f = frames st f" if "f \<in> set (concat (map fst L))" for f
  proof -
    have "f \<notin> set fs" using assms(2) that by auto
    moreover have "f < next_frame st" using low that by blast
    ultimately show ?thesis using so(1) unfolding same_off_def by blast
  qed
  have bl: "blocked (frames st') gs a r" if "(gs, a, r) \<in> set L" for gs a r
    by (rule blocked_cong [of "frames st"]) (use assms(1) that keep [of _] in force)+
  have br: "\<not> broken st'" using so(1) assms(5) by (simp add: same_off_def)
  show ?thesis
  proof (cases r)
    case (Done w)
    then have "dom (frames st') = dom (frames st) - set fs" "calls st' = calls st" using assms(7) by (simp_all add: goes_on_def)
    then have "tasks_sim st' L" using bl br so(2) assms(2,3,4) unfolding tasks_sim_def by auto
    then show ?thesis using Done by (auto simp: still_def)
  next
    case (Request a k)
    then obtain fs' where fs': "blocked (frames st') fs' a r" "set fs' \<subseteq> set fs \<union> {next_frame st..}"
      "dom (frames st') = dom (frames st) - set fs \<union> set fs'" "calls st' = calls st @ [(hd fs', a)]"
      using assms(7) by (auto simp: goes_on_def)
    have "distinct fs'" using fs'(1) chain_distinct by (auto simp: blocked_def)
    moreover have "set fs' \<inter> set (concat (map fst L)) = {}" using fs'(2) assms(2) low by fastforce
    ultimately have "tasks_sim st' ((fs', a, r) # L)"
      using bl br so(2) assms(2,3,4) fs' unfolding tasks_sim_def by auto
    then show ?thesis using Request by (auto simp: still_def intro!: exI [of _ "(fs', a, r) # L"])
  qed
qed

abbreviation outcomes :: "(nat list \<times> 'a \<times> ('a, 'v) res) list \<Rightarrow> ('a, 'v) res multiset" where
  "outcomes L \<equiv> mset (map (snd \<circ> snd) L)"

lemma sim_start:
  assumes "tasks_sim st L" "safe_co c"
  shows "\<exists>st' L'. start_task c st = Some st' \<and> tasks_sim st' L' \<and> outcomes L' = outcomes L + still (denote c)"
proof -
  let ?n = "next_frame st" and ?st = "snd (new_frame None st)"
  have sim: "\<forall>(fs, a, r) \<in> set L. blocked (frames st) fs a r" "distinct (concat (map fst L))"
    "set (concat (map fst L)) = dom (frames st)" "mset (calls st) = mset (map (\<lambda>(fs, a, r). (hd fs, a)) L)"
    "\<not> broken st" "fresh_above st"
    using assms(1) by (simp_all add: tasks_sim_def)
  have n: "?n \<notin> dom (frames st)" using sim(6) unfolding fresh_above_def by blast
  have fr: "frames ?st f = frames st f" if "f \<in> dom (frames st)" for f using n that by (auto simp: new_frame_def)
  have bl: "blocked (frames ?st) gs a r" if "(gs, a, r) \<in> set L" for gs a r
  proof (rule blocked_cong)
    show "blocked (frames st) gs a r" using sim(1) that by auto
    show "frames ?st f = frames st f" if "f \<in> set gs" for f
    proof (rule fr)
      have "f \<in> set (concat (map fst L))" using that \<open>(gs, a, r) \<in> set L\<close> by (auto intro: bexI [of _ "(gs, a, r)"])
      then show "f \<in> dom (frames st)" unfolding sim(3) .
    qed
  qed
  have "dom (frames ?st) = insert ?n (dom (frames st))" "next_frame ?st = Suc ?n" by (auto simp: new_frame_def)
  then have fresh: "fresh_above ?st" using sim(6) unfolding fresh_above_def by (simp_all add: less_SucI)
  have "chain (frames ?st) [?n] Done" by (rule chain.root) (simp add: new_frame_def)
  from resume_chain [OF this assms(2) fresh] obtain st' where
    st': "resume ?n c ?st = Some st'" "goes_on [?n] (denote c) ?st st'" by auto
  have "\<exists>L'. tasks_sim st' L' \<and> outcomes L' = outcomes L + still (denote c)"
  proof (rule sim_goes_on [OF _ _ _ _ _ fresh st'(2)])
    show "\<forall>(fs, a, r) \<in> set L. blocked (frames ?st) fs a r" using bl by auto
    show "distinct ([?n] @ concat (map fst L))" using sim(2,3) n by auto
    show "set ([?n] @ concat (map fst L)) = dom (frames ?st)" using sim(3) by (auto simp: new_frame_def)
  qed (use sim(4,5) in \<open>simp_all add: new_frame_def\<close>)
  then show ?thesis using st'(1) by (auto simp: start_task_def new_frame_def)
qed

lemma sim_reply:
  assumes "tasks_sim st L" "(f, a) \<in> set (calls st)"
  shows "\<exists>k st' L'. Request a k \<in># outcomes L \<and> post_process f v st = Some st' \<and> tasks_sim st' L' \<and>
    outcomes L' = outcomes L - {#Request a k#} + still (k v)"
proof -
  have sim: "\<forall>(fs, a, r) \<in> set L. blocked (frames st) fs a r" "distinct (concat (map fst L))"
    "set (concat (map fst L)) = dom (frames st)" "mset (calls st) = mset (map (\<lambda>(fs, a, r). (hd fs, a)) L)"
    "\<not> broken st" "fresh_above st"
    using assms(1) by (simp_all add: tasks_sim_def)
  have "(f, a) \<in> set (map (\<lambda>(fs, a, r). (hd fs, a)) L)" using assms(2) sim(4) by (metis set_mset_mset)
  then obtain fs r where "(fs, a, r) \<in> set L" and f: "f = hd fs" by auto
  then obtain L1 L2 where L: "L = L1 @ (fs, a, r) # L2" by (meson split_list)
  let ?L = "L1 @ L2"
  obtain k K where b: "chain (frames st) fs K" "map_option waiting (frames st f) = Some (In_Call k)" "\<forall>v. safe_co (k v)"
    "r = Request a (\<lambda>v. and_then (denote (k v)) K)"
    using sim(1) L f by (auto simp: blocked_def)
  have ne: "fs \<noteq> []" by (rule chain_nonempty [OF b(1)])
  then have fin: "f \<in> set fs" using f by simp
  obtain fr where fr: "frames st f = Some fr" using b(2) by auto
  let ?st = "set_waiting f Running (st\<lparr>calls := filter (\<lambda>(g, a). g \<noteq> f) (calls st)\<rparr>)"
  have dis: "distinct (fs @ concat (map fst ?L))" using sim(2) L by auto
  have keep: "frames ?st g = frames st g" if "g \<noteq> f" for g using fr that by (simp add: set_waiting_def)
  have bl: "blocked (frames ?st) gs a' r'" if "(gs, a', r') \<in> set ?L" for gs a' r'
  proof (rule blocked_cong)
    show "blocked (frames st) gs a' r'" using bspec [OF sim(1), of "(gs, a', r')"] L that by simp
    show "frames ?st g = frames st g" if "g \<in> set gs" for g
    proof -
      have "g \<in> set (concat (map fst ?L))" using that \<open>(gs, a', r') \<in> set ?L\<close> by (auto intro: bexI [of _ "(gs, a', r')"])
      then have "g \<noteq> f" using dis fin by auto
      then show ?thesis by (rule keep)
    qed
  qed
  have heads: "hd gs \<noteq> f" if "(gs, a', r') \<in> set ?L" for gs a' r'
  proof -
    have "gs \<noteq> []" using bl [OF that] by (rule blocked_nonempty)
    then have "hd gs \<in> set (concat (map fst ?L))" using that by (auto intro: bexI [of _ "(gs, a', r')"])
    then show ?thesis using dis fin by auto
  qed
  have "filter (\<lambda>(g, a). g \<noteq> f) (map (\<lambda>(fs, a, r). (hd fs, a)) ?L) = map (\<lambda>(fs, a, r). (hd fs, a)) ?L"
    by (rule filter_True) (use heads in force)
  then have "filter_mset (\<lambda>(g, a). g \<noteq> f) (mset (map (\<lambda>(fs, a, r). (hd fs, a)) ?L)) = mset (map (\<lambda>(fs, a, r). (hd fs, a)) ?L)"
    by (metis mset_filter)
  then have c: "mset (calls ?st) = mset (map (\<lambda>(fs, a, r). (hd fs, a)) ?L)"
    using sim(4) L f fr by (simp add: set_waiting_def mset_filter)
  have "chain (frames ?st) fs K"
    by (rule chain_cong [OF b(1)])
       (use fr f ne chain_distinct [OF b(1)] keep in \<open>auto simp: set_waiting_def neq_Nil_conv\<close>)
  moreover have fresh: "fresh_above ?st" using sim(6) fr by (auto simp: set_waiting_def fresh_above_def)
  ultimately obtain st' where st': "resume f (k v) ?st = Some st'" "goes_on fs (and_then (denote (k v)) K) ?st st'"
    using resume_chain [of ?st fs K "k v"] b(3) f by auto
  have "\<exists>L'. tasks_sim st' L' \<and> outcomes L' = outcomes ?L + still (and_then (denote (k v)) K)"
  proof (rule sim_goes_on [OF _ dis _ c _ fresh st'(2) ne])
    show "\<forall>(fs, a, r) \<in> set ?L. blocked (frames ?st) fs a r" using bl by auto
    show "set (fs @ concat (map fst ?L)) = dom (frames ?st)" using sim(3) L fr by (auto simp: set_waiting_def)
    show "\<not> broken ?st" using sim(5) fr by (simp add: set_waiting_def)
  qed
  then obtain L' where "tasks_sim st' L'" "outcomes L' = outcomes ?L + still (and_then (denote (k v)) K)" by blast
  moreover have "post_process f v st = Some st'" using b(2) st'(1) by (auto simp: post_process_def)
  moreover have "Request a (\<lambda>v. and_then (denote (k v)) K) \<in># outcomes L" "outcomes ?L = outcomes L - {#Request a (\<lambda>v. and_then (denote (k v)) K)#}"
    using L b(4) by simp_all
  ultimately show ?thesis by (intro exI [of _ "\<lambda>v. and_then (denote (k v)) K"] exI [of _ st'] exI [of _ L']) simp
qed

lemma sim_run:
  "task_run st es st' \<Longrightarrow> tasks_sim st L \<Longrightarrow> (\<forall>c. Started c \<in> set es \<longrightarrow> safe_co c) \<Longrightarrow>
   \<exists>L'. tasks_sim st' L' \<and> spec_run (outcomes L) es (outcomes L')"
proof (induction arbitrary: L rule: task_run.induct)
  case (none st)
  then show ?case using spec_run.none by blast
next
  case (step st e st' es st'')
  have "\<exists>L'. tasks_sim st' L' \<and> spec_step (outcomes L) e (outcomes L')"
    using step.hyps(1)
  proof cases
    case (start c)
    then obtain L' where "tasks_sim st' L'" "outcomes L' = outcomes L + still (denote c)"
      using sim_start [OF step.prems(1), of c] step.prems(2) by auto
    then show ?thesis using start(1) spec_step.start [of "outcomes L" c] by auto
  next
    case (reply f a v)
    from sim_reply [OF step.prems(1) reply(2), of v] obtain k s L' where
      k: "Request a k \<in># outcomes L" "post_process f v st = Some s" "tasks_sim s L'"
        "outcomes L' = outcomes L - {#Request a k#} + still (k v)" by blast
    then have "s = st'" using reply(3) by simp
    then show ?thesis using k(3,4) reply(1) spec_step.reply [OF k(1), of v] by auto
  qed
  then obtain L' where L': "tasks_sim st' L'" "spec_step (outcomes L) e (outcomes L')" by blast
  then show ?case using step.IH [OF L'(1)] step.prems(2) spec_run.step by (meson list.set_intros(2))
qed

lemma tasks_sim_new: "tasks_sim runtime_new []"
  by (simp add: tasks_sim_def runtime_new_def fresh_above_def)

lemma sim_requests:
  assumes "tasks_sim st L"
  shows "image_mset request (outcomes L) = mset (map (Some \<circ> snd) (calls st))"
proof -
  have "request r = Some a" if "(fs, a, r) \<in> set L" for fs a r
  proof -
    have "blocked (frames st) fs a r" using assms that by (auto simp: tasks_sim_def)
    then show ?thesis by (auto simp: blocked_def)
  qed
  then have m: "map request (map (snd \<circ> snd) L) = map (Some \<circ> snd) (map (\<lambda>(fs, a, r). (hd fs, a)) L)" by auto
  have "image_mset request (outcomes L) = mset (map request (map (snd \<circ> snd) L))" by (simp only: mset_map)
  also have "\<dots> = image_mset (Some \<circ> snd) (mset (map (\<lambda>(fs, a, r). (hd fs, a)) L))" unfolding m by (simp only: mset_map)
  also have "\<dots> = image_mset (Some \<circ> snd) (mset (calls st))" using assms by (simp add: tasks_sim_def)
  finally show ?thesis by (simp only: mset_map)
qed

text \<open>C10 (refinement): where every task that is waited for calls the host before it returns, any number of
  tasks in any order of answers goes as the programs read one by one: no frame is used after its end, the
  calls the host has to answer are those of the programs, starting a task and answering a call return, and
  when there is nothing to answer all frames are gone.\<close>

theorem coroutines_sequential:
  assumes "task_run runtime_new es st" "\<forall>c. Started c \<in> set es \<longrightarrow> safe_co c"
  shows "\<not> broken st \<and>
    (\<exists>M. spec_run {#} es M \<and> image_mset request M = mset (map (Some \<circ> snd) (calls st))) \<and>
    (calls st = [] \<longrightarrow> frames st = (\<lambda>_. None)) \<and>
    (\<forall>c. safe_co c \<longrightarrow> (\<exists>st'. start_task c st = Some st')) \<and>
    (\<forall>(f, a) \<in> set (calls st). \<forall>v. \<exists>st'. post_process f v st = Some st')"
proof -
  obtain L where L: "tasks_sim st L" "spec_run {#} es (outcomes L)"
    using sim_run [OF assms(1) tasks_sim_new assms(2)] by auto
  have "frames st = (\<lambda>_. None)" if "calls st = []"
  proof -
    have "L = []" using L(1) that by (simp add: tasks_sim_def)
    then have "dom (frames st) = {}" using L(1) by (simp add: tasks_sim_def)
    then show ?thesis by simp
  qed
  moreover have "\<not> broken st" using L(1) by (simp add: tasks_sim_def)
  moreover have "\<exists>st'. start_task c st = Some st'" if "safe_co c" for c using sim_start [OF L(1) that] by blast
  moreover have "\<exists>st'. post_process f v st = Some st'" if "(f, a) \<in> set (calls st)" for f a v
    using sim_reply [OF L(1) that] by blast
  ultimately show ?thesis using L(2) sim_requests [OF L(1)] by auto
qed

lemmas run_simps = start_task_def new_frame_def runtime_new_def set_waiting_def end_frame_def destroy_task_def
  null_promise_def resume.simps [of _ "Return _"] resume_await resume_call

definition ex_task :: "(nat, nat) co" where
  "ex_task = Await (Call_Async 1 (\<lambda>v. Return (v + 1))) (\<lambda>w. Call_Async w Return)"

definition ex_running :: "(nat, nat) runtime" where
  "ex_running =
     (case start_task ex_task runtime_new of Some st \<Rightarrow> (case post_process 1 5 st of Some st' \<Rightarrow> st' | None \<Rightarrow> st) | None \<Rightarrow> runtime_new)"

lemma coroutines_sequential_witness:
  "\<not> broken ex_running \<and> (\<exists>M. spec_run {#} [Started ex_task, Replied 1 5] M \<and> image_mset request M = {#Some 6#})"
proof -
  have ev: "map_option calls (start_task ex_task runtime_new) = Some [(1, 1)]"
    "map_option calls (Option.bind (start_task ex_task runtime_new) (post_process 1 5)) = Some [(0, 6)]"
    by (simp_all add: run_simps ex_task_def post_process_def)
  obtain st where st: "start_task ex_task runtime_new = Some st" "calls st = [(1, 1)]" using ev(1) by auto
  obtain st' where st': "post_process 1 5 st = Some st'" "calls st' = [(0, 6)]" using ev(2) st(1) by auto
  have eq: "ex_running = st'" using st(1) st'(1) by (simp add: ex_running_def)
  have "task_step st (Replied 1 5) st'" by (rule task_step.reply [OF _ st'(1)]) (simp add: st(2))
  then have run: "task_run runtime_new [Started ex_task, Replied 1 5] st'"
    using task_step.start [OF st(1)] by (blast intro: task_run.intros)
  show ?thesis
    using coroutines_sequential [OF run] st'(2) unfolding eq by (simp add: ex_task_def)
qed


end
