(* ===== verification/Clio_Flatbuf_Pack.thy ===== *)
theory Clio_Flatbuf_Pack
  imports Clio_Flatbuf
begin

text \<open>
  What \<^verbatim>\<open>flatpack\<close> writes: the image of a value in closed form, and that packing writes it on both
  streams, with the size stream counting exactly its bytes.
\<close>

section \<open>Values of a type and types that pack faithfully\<close>

fun flat_typed :: "flat_ty \<Rightarrow> flat_val \<Rightarrow> bool" where
  "flat_typed ty (FV_num bs) \<longleftrightarrow> ty = FL_num (length bs)"
| "flat_typed ty (FV_string bs) \<longleftrightarrow> ty = FL_string"
| "flat_typed ty (FV_ptr bs) \<longleftrightarrow> ty = FL_ptr"
| "flat_typed ty (FV_vector vs) \<longleftrightarrow> (case ty of FL_vector t \<Rightarrow> (\<forall>v \<in> set vs. flat_typed t v) | _ \<Rightarrow> False)"
| "flat_typed ty (FV_struct vs) \<longleftrightarrow> (case ty of FL_struct ts \<Rightarrow> list_all2 (\<lambda>v t. flat_typed t v) vs ts | _ \<Rightarrow> False)"
| "flat_typed ty (FV_variant i v) \<longleftrightarrow>
     (case ty of FL_variant alts \<Rightarrow> i < length alts \<and> flat_typed (snd (alts ! i)) v | _ \<Rightarrow> False)"

text \<open>
  The bytes \<^verbatim>\<open>flatpack\<close> reports for a type in line are wrong where it holds a variant, so such a type must
  not come before a pointer in a struct; and a variant in line must not have an alternative that is
  placed elsewhere, since nothing leaves room for it. The elements of a vector have a size.
\<close>

fun counted :: "flat_ty \<Rightarrow> bool" where
  "counted (FL_struct ts) \<longleftrightarrow> list_all counted ts"
| "counted (FL_variant alts) \<longleftrightarrow> False"
| "counted _ \<longleftrightarrow> True"

fun counted_before_ptrs :: "flat_ty list \<Rightarrow> bool" where
  "counted_before_ptrs [] \<longleftrightarrow> True"
| "counted_before_ptrs (t # ts) \<longleftrightarrow>
     (contains_offset t \<or> counted t \<or> \<not> list_ex contains_offset ts) \<and> counted_before_ptrs ts"

fun flat_wf :: "flat_ty \<Rightarrow> bool" where
  "flat_wf (FL_vector t) \<longleftrightarrow> flat_wf t \<and> (contains_offset t \<or> 0 < flatpack_size t)"
| "flat_wf (FL_struct ts) \<longleftrightarrow> list_all flat_wf ts \<and> counted_before_ptrs ts"
| "flat_wf (FL_variant alts) \<longleftrightarrow>
     distinct (map fst alts) \<and> (\<forall>(h, t) \<in> set alts. flat_wf t) \<and>
     (contains_offset (FL_variant alts) \<or> (\<forall>(h, t) \<in> set alts. inline_alt t))"
| "flat_wf _ \<longleftrightarrow> True"

section \<open>The image of a value\<close>

text \<open>
  The part in line and the part behind it that the pointers lead to. For the members of a struct or the
  elements of a vector, the number is the distance from the current member to the free end of the second
  part.
\<close>

function flat_img :: "flat_ty \<Rightarrow> flat_val \<Rightarrow> byte list \<times> byte list"
  and img_fields :: "nat \<Rightarrow> flat_ty list \<Rightarrow> flat_val list \<Rightarrow> byte list \<times> byte list"
  and img_items :: "flat_ty \<Rightarrow> flat_val list \<Rightarrow> byte list" where
  "flat_img ty (FV_num bs) = (bs, [])"
| "flat_img ty (FV_ptr bs) = (word_le 4 (of_nat (length bs) :: u32) @ bs, [])"
| "flat_img ty (FV_string bs) = (word_le 4 (of_nat (length bs) :: u32) @ (if bs = [] then [] else bs @ [0]), [])"
| "flat_img ty (FV_vector vs) =
     (case ty of
        FL_vector t \<Rightarrow>
          if contains_offset t
          then (let (s, h) = img_fields (4 * length vs) (replicate (length vs) t) vs
                in (word_le 4 (of_nat (length vs) :: u32) @ s, h))
          else (word_le 4 (of_nat (length vs) :: u32) @ img_items t vs, [])
      | _ \<Rightarrow> ([], []))"
| "flat_img ty (FV_struct vs) =
     (case ty of FL_struct ts \<Rightarrow> img_fields (flatpack_size ty) ts vs | _ \<Rightarrow> ([], []))"
| "flat_img ty (FV_variant i v) =
     (case ty of
        FL_variant alts \<Rightarrow>
          let (hash, t) = alts ! i; (s, h) = flat_img t v
          in if inline_alt t then (word_le 8 hash @ s @ replicate (8 - length s) 0, [])
             else (word_le 8 hash @ word_le 4 (0 :: u32) @ word_le 4 (4 :: u32), s @ h)
      | _ \<Rightarrow> ([], []))"
| "img_fields d ts [] = ([], [])"
| "img_fields d ts (v # vs) =
     (case ts of
        [] \<Rightarrow> ([], [])
      | t # ts \<Rightarrow>
          if \<not> contains_offset t then
            let (s, h) = img_fields (d - flatpack_size t) ts vs in (fst (flat_img t v) @ s, h)
          else if empty_seq v then
            let (s, h) = img_fields (d - 4) ts vs in (word_le 4 (0 :: u32) @ s, h)
          else
            let (a, b) = flat_img t v; (s, h) = img_fields (d - 4 + length (a @ b)) ts vs
            in (word_le 4 (of_nat d :: u32) @ s, (a @ b) @ h))"
| "img_items t [] = []"
| "img_items t (v # vs) = fst (flat_img t v) @ img_items t vs"
  by pat_completeness auto

termination
  by (relation "measure (case_sum (\<lambda>(t, v). size v)
      (case_sum (\<lambda>(d, ts, vs). size_list size vs) (\<lambda>(t, vs). size_list size vs)))") auto

definition flat_bytes :: "flat_ty \<Rightarrow> flat_val \<Rightarrow> byte list" where
  "flat_bytes t v = (case flat_img t v of (s, h) \<Rightarrow> s @ h)"

lemma flat_bytes_img: "flat_img t v = (s, h) \<Longrightarrow> flat_bytes t v = s @ h"
  by (simp add: flat_bytes_def)

lemma img_fields_step:
  "\<not> contains_offset t \<Longrightarrow> img_fields (d - flatpack_size t) ts vs = (s, h) \<Longrightarrow>
     img_fields d (t # ts) (v # vs) = (fst (flat_img t v) @ s, h)"
  "contains_offset t \<Longrightarrow> empty_seq v \<Longrightarrow> img_fields (d - 4) ts vs = (s, h) \<Longrightarrow>
     img_fields d (t # ts) (v # vs) = (word_le 4 (0 :: u32) @ s, h)"
  "contains_offset t \<Longrightarrow> \<not> empty_seq v \<Longrightarrow> img_fields (d - 4 + length (flat_bytes t v)) ts vs = (s, h) \<Longrightarrow>
     img_fields d (t # ts) (v # vs) = (word_le 4 (of_nat d :: u32) @ s, flat_bytes t v @ h)"
  by (auto simp: flat_bytes_def split: prod.splits)

declare img_fields.simps(2) [simp del]

section \<open>Lengths\<close>

lemma flatpack_size_struct: "flatpack_size (FL_struct ts) = sum_list (map slot_size ts)"
  by (simp add: slot_size_def [abs_def])

lemma slot_size_simps [simp]:
  "contains_offset t \<Longrightarrow> slot_size t = 4" "\<not> contains_offset t \<Longrightarrow> slot_size t = flatpack_size t"
  by (simp_all add: slot_size_def)

declare flatpack_size.simps(2) [simp del]

definition in_line :: "flat_val \<Rightarrow> bool" where
  "in_line v \<longleftrightarrow> (\<forall>t. flat_typed t v \<longrightarrow> flat_wf t \<longrightarrow> \<not> contains_offset t \<longrightarrow>
     length (fst (flat_img t v)) = flatpack_size t \<and> snd (flat_img t v) = [])"

text \<open>The three ways a member is written.\<close>

lemma member_cases:
  fixes t :: flat_ty and v :: flat_val
  obtains (flat) "\<not> contains_offset t" | (null) "contains_offset t" "empty_seq v"
    | (ptr) "contains_offset t" "\<not> empty_seq v"
  by blast

lemma fields_lengths:
  "\<forall>v \<in> set vs. in_line v \<Longrightarrow> list_all2 flat_typed ts vs \<Longrightarrow> list_all flat_wf ts \<Longrightarrow>
     length (fst (img_fields d ts vs)) = sum_list (map slot_size ts) \<and>
     (\<not> list_ex contains_offset ts \<longrightarrow> snd (img_fields d ts vs) = [])"
proof (induction vs arbitrary: d ts)
  case (Cons v vs)
  obtain t ts' where ts: "ts = t # ts'" "flat_typed t v" "flat_wf t" "list_all2 flat_typed ts' vs" "list_all flat_wf ts'"
    using Cons.prems(2,3) by (auto simp: list_all2_Cons2)
  have IH: "length (fst (img_fields d ts' vs)) = sum_list (map slot_size ts')"
    "\<not> list_ex contains_offset ts' \<Longrightarrow> snd (img_fields d ts' vs) = []" for d
    using Cons.IH [OF _ ts(4,5)] Cons.prems(1) by auto
  have v: "in_line v" using Cons.prems(1) by simp
  show ?case
  proof (cases rule: member_cases [where t = t and v = v])
    case flat
    obtain s h where "img_fields (d - flatpack_size t) ts' vs = (s, h)" by fastforce
    then show ?thesis
      using IH [of "d - flatpack_size t"] v flat ts(2,3) by (simp add: ts(1) img_fields_step(1) in_line_def)
  next
    case null
    obtain s h where "img_fields (d - 4) ts' vs = (s, h)" by fastforce
    then show ?thesis
      using IH [of "d - 4"] null by (simp add: ts(1) img_fields_step(2))
  next
    case ptr
    obtain s h where "img_fields (d - 4 + length (flat_bytes t v)) ts' vs = (s, h)" by fastforce
    then show ?thesis
      using IH [of "d - 4 + length (flat_bytes t v)"] ptr by (simp add: ts(1) img_fields_step(3))
  qed
qed simp

lemma typed_struct: "flat_typed (FL_struct ts) (FV_struct vs) \<longleftrightarrow> list_all2 flat_typed ts vs"
  by (auto simp: list_all2_conv_all_nth)

lemma all_in_line: "in_line v"
proof (induction v)
  case (FV_struct vs)
  show ?case
    unfolding in_line_def
  proof (intro allI impI)
    fix t assume t: "flat_typed t (FV_struct vs)" "flat_wf t" "\<not> contains_offset t"
    then obtain ts where ts: "t = FL_struct ts" by (cases t) auto
    have "list_all2 flat_typed ts vs" using t(1) unfolding ts typed_struct .
    from fields_lengths [OF _ this, of "flatpack_size t"] show
      "length (fst (flat_img t (FV_struct vs))) = flatpack_size t \<and> snd (flat_img t (FV_struct vs)) = []"
      using FV_struct t(2,3) by (simp add: ts flatpack_size_struct)
  qed
next
  case (FV_variant i v)
  show ?case
    unfolding in_line_def
  proof (intro allI impI)
    fix ty assume ty: "flat_typed ty (FV_variant i v)" "flat_wf ty" "\<not> contains_offset ty"
    then obtain alts where alts: "ty = FL_variant alts" by (cases ty) auto
    obtain h t where ht: "alts ! i = (h, t)" by (cases "alts ! i")
    have mem: "(h, t) \<in> set alts" using ty(1) ht nth_mem [of i alts] by (simp add: alts)
    have t: "inline_alt t" "flat_wf t" "flat_typed t v" using ty mem ht by (auto simp: alts)
    then have "\<not> contains_offset t" "flatpack_size t \<le> 8" by (simp_all add: inline_alt_def)
    moreover from this have "length (fst (flat_img t v)) = flatpack_size t" "snd (flat_img t v) = []"
      using FV_variant t(2,3) by (simp_all add: in_line_def)
    ultimately show "length (fst (flat_img ty (FV_variant i v))) = flatpack_size ty \<and> snd (flat_img ty (FV_variant i v)) = []"
      using t(1) ht by (cases "flat_img t v") (simp add: alts)
  qed
qed (auto simp: in_line_def split: flat_ty.splits)

lemma img_in_line:
  "flat_typed t v \<Longrightarrow> flat_wf t \<Longrightarrow> \<not> contains_offset t \<Longrightarrow> length (fst (flat_img t v)) = flatpack_size t"
  "flat_typed t v \<Longrightarrow> flat_wf t \<Longrightarrow> \<not> contains_offset t \<Longrightarrow> flat_img t v = (flat_bytes t v, [])"
  "flat_typed t v \<Longrightarrow> flat_wf t \<Longrightarrow> \<not> contains_offset t \<Longrightarrow> length (flat_bytes t v) = flatpack_size t"
proof -
  assume "flat_typed t v" "flat_wf t" "\<not> contains_offset t"
  then have "length (fst (flat_img t v)) = flatpack_size t" "snd (flat_img t v) = []"
    using all_in_line [of v] unfolding in_line_def by blast+
  then show "length (fst (flat_img t v)) = flatpack_size t" "flat_img t v = (flat_bytes t v, [])"
    "length (flat_bytes t v) = flatpack_size t"
    by (simp_all add: flat_bytes_def prod_eq_iff split_def)
qed

lemma length_img_fields:
  "list_all2 flat_typed ts vs \<Longrightarrow> list_all flat_wf ts \<Longrightarrow> img_fields d ts vs = (s, h) \<Longrightarrow> length s = sum_list (map slot_size ts)"
  using fields_lengths [of vs ts d] all_in_line by auto

section \<open>Writing on either stream\<close>

text \<open>
  \<^verbatim>\<open>ps_put d xs ys\<close> is what has happened to a stream when \<^verbatim>\<open>xs\<close> was written and \<^verbatim>\<open>ys\<close> was placed
  \<^verbatim>\<open>d\<close> bytes behind its beginning; \<^verbatim>\<open>ps_room\<close> says there is room for that.
\<close>

fun ps_put :: "nat \<Rightarrow> byte list \<Rightarrow> byte list \<Rightarrow> pack_stream \<Rightarrow> pack_stream" where
  "ps_put d xs ys (Size_Stream n) = Size_Stream (n + length xs + length ys)"
| "ps_put d xs ys (Buf_Stream fb) =
     Buf_Stream (fb\<lparr>fb_mem := memcpy (memcpy (fb_mem fb) (fb_pos fb) xs) (fb_pos fb + d) ys,
                    fb_pos := fb_pos fb + length xs\<rparr>)"

definition ps_room :: "nat \<Rightarrow> nat \<Rightarrow> nat \<Rightarrow> pack_stream \<Rightarrow> bool" where
  "ps_room d m n st \<longleftrightarrow>
     m \<le> d \<and> d + n < 2 ^ 31 \<and>
     (case st of Size_Stream k \<Rightarrow> k + m + n < 2 ^ 31
      | Buf_Stream fb \<Rightarrow> fb_inv fb \<and> fb_pos fb + d + n \<le> fb_end fb)"

lemma ps_write_put:
  assumes "ps_room d (length xs + m) n st"
  shows "ps_write xs st = Inr (ps_put k xs [] st)" "ps_room (d - length xs) m n (ps_put k xs [] st)"
proof (atomize(full), cases st)
  case (Size_Stream k)
  then show "ps_write xs st = Inr (ps_put k' xs [] st) \<and> ps_room (d - length xs) m n (ps_put k' xs [] st)" for k'
    using assms by (auto simp: ps_room_def ps_write_def size_stream_write_def may_throw_def)
next
  case (Buf_Stream fb)
  then show "ps_write xs st = Inr (ps_put k' xs [] st) \<and> ps_room (d - length xs) m n (ps_put k' xs [] st)" for k'
    using assms by (auto simp: ps_room_def ps_write_def fixed_buf_write_def may_throw_def fb_inv_def length_memcpy)
qed

lemma ps_put_put:
  assumes "ps_room d (length w + length xs) (length b + length ys) st"
  shows "ps_put (d - length w + length b) xs ys (ps_put (d - length w) [] b (ps_put k w [] st)) = ps_put d (w @ xs) (b @ ys) st"
proof (cases st)
  case (Buf_Stream fb)
  then show ?thesis
    using assms memcpy_cells [of "fb_pos fb" w xs "fb_pos fb + d" b ys "fb_mem fb"]
    by (simp add: ps_room_def fb_inv_def add.assoc)
qed simp

lemma ps_put_line:
  assumes "ps_room d (length w + length xs) (length ys) st"
  shows "ps_put (d - length w) xs ys (ps_put k w [] st) = ps_put d (w @ xs) ys st"
  using ps_put_put [of d w xs "[]" ys st k] assms
  by (cases st) (simp_all add: ps_room_def)

lemma ps_put_place:
  assumes "ps_room d m (length b + n) st"
  shows "ps_room (d + length b) m n (ps_put d [] b st)"
  using assms by (cases st) (auto simp: ps_room_def fb_inv_def length_memcpy)

section \<open>Packing writes the image\<close>

definition packs :: "flat_ty \<Rightarrow> flat_val \<Rightarrow> bool" where
  "packs t v \<longleftrightarrow>
     (\<forall>s h st. flat_img t v = (s, h) \<longrightarrow> ps_room (length s) (length s) (length h) st \<longrightarrow>
        (\<exists>cur. flatpack t v st = Inr (cur, ps_put (length s) s h st) \<and>
           (\<not> contains_offset t \<and> counted t \<longrightarrow> cur = of_nat (flatpack_size t))))"

lemma flat_packsD:
  "packs t v \<Longrightarrow> flat_img t v = (s, h) \<Longrightarrow> ps_room (length s) (length s) (length h) st \<Longrightarrow>
   \<exists>cur. flatpack t v st = Inr (cur, ps_put (length s) s h st) \<and>
     (\<not> contains_offset t \<and> counted t \<longrightarrow> cur = of_nat (flatpack_size t))"
  by (simp add: packs_def)

lemma measured_packs:
  assumes "packs t v" "length (flat_bytes t v) < 2 ^ 31"
  shows "measured (\<lambda>s. flatpack t v s) = Inr (length (flat_bytes t v))"
proof -
  obtain s h where sh: "flat_img t v = (s, h)" by fastforce
  have "ps_room (length s) (length s) (length h) (Size_Stream 0)"
    using assms(2) by (simp add: ps_room_def flat_bytes_img [OF sh])
  from flat_packsD [OF assms(1) sh this] show ?thesis
    by (auto simp: measured_def ps_size_def flat_bytes_img [OF sh])
qed

lemma size_stream_skip_small: "sz < 2 ^ 31 \<Longrightarrow> n < 2 ^ 31 \<Longrightarrow> size_stream_skip sz n = n + sz"
proof -
  assume sz: "sz < 2 ^ 31" and n: "n < 2 ^ 31"
  have "sint (of_nat sz :: u32) = int sz"
  proof -
    have "sint (of_nat sz :: u32) = signed_take_bit 31 (int sz)"
      by (simp add: signed_of_nat)
    also have "\<dots> = int sz"
      using sz by (intro signed_take_bit_int_eq_self) auto
    finally show ?thesis .
  qed
  then show ?thesis
    using sz n by (simp add: size_stream_skip_def nat_add_distrib)
qed

lemma place_packs:
  assumes "packs t v" "4 \<le> d" "ps_room (d - 4) m (length (flat_bytes t v) + n) st"
  shows "place (\<lambda>s. flatpack t v s) (of_nat d) (length (flat_bytes t v)) st = Inr (ps_put (d - 4) [] (flat_bytes t v) st)"
proof (cases st)
  case (Size_Stream k)
  then show ?thesis
    using assms(3) by (simp add: place_def ps_room_def size_stream_skip_small)
next
  case (Buf_Stream fb)
  obtain s h where sh: "flat_img t v = (s, h)" by fastforce
  let ?b = "flat_bytes t v"
  have d: "unat (of_nat d :: u32) = d"
    using assms(2,3) by (intro unat_of_nat_u32) (simp add: ps_room_def, linarith)
  define sub where "sub = fb\<lparr>fb_pos := fb_pos fb + d - 4, fb_end := fb_pos fb + d - 4 + length ?b\<rparr>"
  have room: "ps_room (length s) (length s) (length h) (Buf_Stream sub)"
    using assms(2,3) Buf_Stream by (auto simp: ps_room_def sub_def flat_bytes_img [OF sh] fb_inv_def)
  obtain cur where cur: "flatpack t v (Buf_Stream sub) = Inr (cur, ps_put (length s) s h (Buf_Stream sub))"
    using flat_packsD [OF assms(1) sh room] by blast
  have "memcpy (memcpy (fb_mem sub) (fb_pos sub) s) (fb_pos sub + length s) h = memcpy (fb_mem fb) (fb_pos fb + d - 4) ?b"
    using room by (simp add: memcpy_memcpy ps_room_def fb_inv_def flat_bytes_img [OF sh] sub_def)
  moreover have "\<not> fb_end fb < fb_pos fb + d - 4 + length ?b"
  proof -
    have "fb_pos fb + (d - 4) + (length ?b + n) \<le> fb_end fb" using assms(3) by (simp add: ps_room_def Buf_Stream)
    then show ?thesis using assms(2) by linarith
  qed
  moreover have "place (\<lambda>s. flatpack t v s) (of_nat d) (length ?b) st =
      (if fb_end sub > fb_end fb then Inl (Throw (Stream_Error overrun))
       else rbind (flatpack t v (Buf_Stream sub)) (\<lambda>(_, s).
         Inr (case s of Buf_Stream sub \<Rightarrow> Buf_Stream (fb\<lparr>fb_mem := fb_mem sub\<rparr>) | Size_Stream n \<Rightarrow> Buf_Stream fb)))"
    by (simp add: place_def Buf_Stream d Let_def sub_def)
  ultimately show ?thesis
    using assms(2) cur by (simp add: Buf_Stream) (simp add: sub_def)
qed

lemma slot_packs:
  assumes "packs t v" "4 \<le> d" "ps_room d (4 + m) (length (flat_bytes t v) + n) st" "alloc - cur = of_nat d" "\<not> empty_seq v"
  shows "pack_slot b (\<lambda>s. flatpack t v s) v alloc cur st =
      Inr (alloc + of_nat (length (flat_bytes t v)), cur + 4,
        ps_put (d - 4) [] (flat_bytes t v) (ps_put d (word_le 4 (of_nat d :: u32)) [] st))"
    and "ps_room (d - 4 + length (flat_bytes t v)) m n
      (ps_put (d - 4) [] (flat_bytes t v) (ps_put d (word_le 4 (of_nat d :: u32)) [] st))"
    and "alloc + of_nat (length (flat_bytes t v)) - (cur + 4) = (of_nat (d - 4 + length (flat_bytes t v)) :: u32)"
proof -
  let ?b = "flat_bytes t v" and ?w = "word_le 4 (of_nat d :: u32)"
  have room: "ps_room (d - 4) m (length ?b + n) (ps_put d ?w [] st)"
    and w: "ps_write ?w st = Inr (ps_put d ?w [] st)"
    using ps_write_put [of d ?w m "length ?b + n" st d] assms(3) by simp_all
  have sz: "measured (\<lambda>s. flatpack t v s) = Inr (length ?b)"
    using assms(3) by (intro measured_packs [OF assms(1)]) (simp add: ps_room_def)
  have "unat (of_nat d :: u32) = d"
    using assms(3) by (intro unat_of_nat_u32) (simp add: ps_room_def)
  then have "(of_nat d :: u32) \<noteq> 0" using assms(2) by (intro notI) simp
  then show "pack_slot b (\<lambda>s. flatpack t v s) v alloc cur st =
      Inr (alloc + of_nat (length ?b), cur + 4, ps_put (d - 4) [] ?b (ps_put d ?w [] st))"
    using assms(4,5) by (simp add: pack_slot_def sz w place_packs [OF assms(1,2) room])
  show "ps_room (d - 4 + length ?b) m n (ps_put (d - 4) [] ?b (ps_put d ?w [] st))"
    by (rule ps_put_place [OF room])
  have "alloc + of_nat (length ?b) - (cur + 4) = (alloc - cur) - 4 + of_nat (length ?b)" by simp
  also have "\<dots> = of_nat (d - 4 + length ?b)" using assms(2) by (simp add: assms(4) of_nat_diff)
  finally show "alloc + of_nat (length ?b) - (cur + 4) = (of_nat (d - 4 + length ?b) :: u32)" .
qed

lemma null_slot:
  assumes "4 \<le> d" "ps_room d (4 + m) n st" "alloc - cur = of_nat d" "empty_seq v"
  shows "pack_slot b f v alloc cur st = Inr (alloc, cur + 4, ps_put d (word_le 4 (0 :: u32)) [] st)"
    and "ps_room (d - 4) m n (ps_put d (word_le 4 (0 :: u32)) [] st)"
    and "alloc - (cur + 4) = (of_nat (d - 4) :: u32)"
proof -
  show "pack_slot b f v alloc cur st = Inr (alloc, cur + 4, ps_put d (word_le 4 (0 :: u32)) [] st)"
    and "ps_room (d - 4) m n (ps_put d (word_le 4 (0 :: u32)) [] st)"
    using ps_write_put [of d "word_le 4 (0 :: u32)" m n st d] assms(2,4) by (simp_all add: pack_slot_def)
  have "alloc - (cur + 4) = (alloc - cur) - 4" by simp
  also have "\<dots> = of_nat (d - 4)" using assms(1) by (simp add: assms(3) of_nat_diff)
  finally show "alloc - (cur + 4) = (of_nat (d - 4) :: u32)" .
qed

lemma line_packs:
  assumes "packs t v" "flat_typed t v" "flat_wf t" "\<not> contains_offset t" "ps_room d (flatpack_size t + m) n st"
  shows "\<exists>k. flatpack t v st = Inr (k, ps_put d (flat_bytes t v) [] st) \<and> (counted t \<longrightarrow> k = of_nat (flatpack_size t))"
    and "ps_room (d - flatpack_size t) m n (ps_put d (flat_bytes t v) [] st)"
proof -
  note img = img_in_line [OF assms(2-4)]
  have room: "ps_room (length (flat_bytes t v)) (length (flat_bytes t v)) (length []) st"
    using assms(5) by (cases st) (auto simp: ps_room_def img(3))
  have put: "ps_put (length (flat_bytes t v)) (flat_bytes t v) [] st = ps_put d (flat_bytes t v) [] st"
    by (cases st) simp_all
  from flat_packsD [OF assms(1) img(2) room] show
    "\<exists>k. flatpack t v st = Inr (k, ps_put d (flat_bytes t v) [] st) \<and> (counted t \<longrightarrow> k = of_nat (flatpack_size t))"
    using assms(4) by (auto simp: put)
  show "ps_room (d - flatpack_size t) m n (ps_put d (flat_bytes t v) [] st)"
    using ps_write_put(2) [of d "flat_bytes t v" m n st d] assms(5) by (simp add: img(3))
qed

lemma img_fields_line:
  assumes "img_fields d (t # ts) (v # vs) = (s, h)" "\<not> contains_offset t" "flat_typed t v" "flat_wf t"
  obtains s' where "img_fields (d - flatpack_size t) ts vs = (s', h)" "s = flat_bytes t v @ s'"
proof -
  obtain s' h' where r: "img_fields (d - flatpack_size t) ts vs = (s', h')" by fastforce
  have "fst (flat_img t v) = flat_bytes t v" using img_in_line(2) [OF assms(3,4,2)] by simp
  then show thesis using that r assms(1) img_fields_step(1) [OF assms(2) r, of v] by simp
qed

lemma img_fields_null:
  assumes "img_fields d (t # ts) (v # vs) = (s, h)" "contains_offset t" "empty_seq v"
  obtains s' where "img_fields (d - 4) ts vs = (s', h)" "s = word_le 4 (0 :: u32) @ s'"
  using img_fields_step(2) [OF assms(2,3)] assms(1) by (metis prod.exhaust prod.inject)

lemma img_fields_ptr:
  assumes "img_fields d (t # ts) (v # vs) = (s, h)" "contains_offset t" "\<not> empty_seq v"
  obtains s' h' where "img_fields (d - 4 + length (flat_bytes t v)) ts vs = (s', h')"
    "s = word_le 4 (of_nat d :: u32) @ s'" "h = flat_bytes t v @ h'"
  using img_fields_step(3) [OF assms(2,3)] assms(1) by (metis prod.exhaust prod.inject)

lemma members_pack:
  "\<forall>v \<in> set vs. \<forall>t. flat_typed t v \<longrightarrow> flat_wf t \<longrightarrow> packs t v \<Longrightarrow> list_all2 flat_typed ts vs \<Longrightarrow> list_all flat_wf ts \<Longrightarrow>
   counted_before_ptrs ts \<Longrightarrow> img_fields d ts vs = (s, h) \<Longrightarrow> ps_room d (length s) (length h) st \<Longrightarrow>
   list_ex contains_offset ts \<longrightarrow> alloc - cur = of_nat d \<Longrightarrow>
   \<exists>k. flatpack_members ts vs alloc cur st = Inr (k, ps_put d s h st) \<and>
     (\<not> list_ex contains_offset ts \<and> list_all counted ts \<longrightarrow> k = cur + of_nat (sum_list (map slot_size ts)))"
proof (induction vs arbitrary: ts d s h st alloc cur)
  case Nil
  then show ?case by (cases st) (auto simp: ps_room_def)
next
  case (Cons v vs)
  obtain t ts' where ts: "ts = t # ts'" "flat_typed t v" "flat_wf t" "list_all2 flat_typed ts' vs" "list_all flat_wf ts'"
    "counted_before_ptrs ts'" "contains_offset t \<or> counted t \<or> \<not> list_ex contains_offset ts'"
    using Cons.prems(2-4) by (auto simp: list_all2_Cons2)
  have pv: "packs t v" using Cons.prems(1) ts(2,3) by simp
  have "\<forall>v \<in> set vs. \<forall>t. flat_typed t v \<longrightarrow> flat_wf t \<longrightarrow> packs t v" using Cons.prems(1) by simp
  note IH = Cons.IH [OF this ts(4-6)]
  note img = Cons.prems(5) [unfolded ts(1)] and room = Cons.prems(6)
  show ?case
  proof (cases rule: member_cases [where t = t and v = v])
    case flat
    obtain s' where s': "img_fields (d - flatpack_size t) ts' vs = (s', h)" "s = flat_bytes t v @ s'"
      by (rule img_fields_line [OF img flat ts(2,3)])
    have len: "length (flat_bytes t v) = flatpack_size t" by (rule img_in_line(3) [OF ts(2,3) flat])
    have room': "ps_room d (flatpack_size t + length s') (length h) st" using room by (simp add: s'(2) len)
    obtain k where k: "flatpack t v st = Inr (k, ps_put d (flat_bytes t v) [] st)" "counted t \<longrightarrow> k = of_nat (flatpack_size t)"
      using line_packs(1) [OF pv ts(2,3) flat room'] by blast
    have ac: "alloc - (cur + k) = of_nat (d - flatpack_size t)" if "list_ex contains_offset ts'"
    proof -
      have "flatpack_size t \<le> d" using room' by (simp add: ps_room_def)
      moreover have "alloc - cur = of_nat d" "k = of_nat (flatpack_size t)"
        using Cons.prems(7) ts(1,7) k(2) that flat by auto
      ultimately show ?thesis by (simp add: of_nat_diff algebra_simps)
    qed
    then obtain k' where k': "flatpack_members ts' vs alloc (cur + k) (ps_put d (flat_bytes t v) [] st) =
        Inr (k', ps_put (d - flatpack_size t) s' h (ps_put d (flat_bytes t v) [] st))"
      "\<not> list_ex contains_offset ts' \<and> list_all counted ts' \<longrightarrow> k' = cur + k + of_nat (sum_list (map slot_size ts'))"
      using IH [OF s'(1) line_packs(2) [OF pv ts(2,3) flat room']] ac by blast
    have "ps_put (d - flatpack_size t) s' h (ps_put d (flat_bytes t v) [] st) = ps_put d s h st"
      using ps_put_line [of d "flat_bytes t v" s' h st d] room' by (simp add: len s'(2))
    then show ?thesis
      using k k' flat by (simp add: ts(1) add.assoc)
  next
    case null
    obtain s' where s': "img_fields (d - 4) ts' vs = (s', h)" "s = word_le 4 (0 :: u32) @ s'"
      by (rule img_fields_null [OF img null])
    have room': "ps_room d (4 + length s') (length h) st" using room by (simp add: s'(2))
    then have d: "4 \<le> d" by (simp add: ps_room_def)
    have ac: "alloc - cur = of_nat d" using Cons.prems(7) null ts(1) by simp
    note slot = null_slot [OF d room' ac null(2)]
    obtain k' where k': "flatpack_members ts' vs alloc (cur + 4) (ps_put d (word_le 4 (0 :: u32)) [] st) =
        Inr (k', ps_put (d - 4) s' h (ps_put d (word_le 4 (0 :: u32)) [] st))"
      using IH [OF s'(1) slot(2)] slot(3) by blast
    have "ps_put (d - 4) s' h (ps_put d (word_le 4 (0 :: u32)) [] st) = ps_put d s h st"
      using ps_put_line [of d "word_le 4 (0 :: u32)" s' h st d] room' by (simp add: s'(2))
    then show ?thesis
      using k' null(1) by (simp add: ts(1) slot(1))
  next
    case ptr
    obtain s' h' where s': "img_fields (d - 4 + length (flat_bytes t v)) ts' vs = (s', h')"
      "s = word_le 4 (of_nat d :: u32) @ s'" "h = flat_bytes t v @ h'"
      by (rule img_fields_ptr [OF img ptr])
    have room': "ps_room d (4 + length s') (length (flat_bytes t v) + length h') st" using room by (simp add: s'(2,3))
    then have d: "4 \<le> d" by (simp add: ps_room_def)
    have ac: "alloc - cur = of_nat d" using Cons.prems(7) ptr ts(1) by simp
    note slot = slot_packs [OF pv d room' ac ptr(2)]
    let ?st = "ps_put (d - 4) [] (flat_bytes t v) (ps_put d (word_le 4 (of_nat d :: u32)) [] st)"
    obtain k' where k': "flatpack_members ts' vs (alloc + of_nat (length (flat_bytes t v))) (cur + 4) ?st =
        Inr (k', ps_put (d - 4 + length (flat_bytes t v)) s' h' ?st)"
      using IH [OF s'(1) slot(2)] slot(3) by blast
    have "ps_put (d - 4 + length (flat_bytes t v)) s' h' ?st = ps_put d s h st"
      using ps_put_put [of d "word_le 4 (of_nat d :: u32)" s' "flat_bytes t v" h' st d] room' by (simp add: s'(2,3))
    then show ?thesis
      using k' ptr(1) by (simp add: ts(1) slot(1))
  qed
qed

lemma ptrs_pack:
  "\<forall>v \<in> set vs. packs t v \<Longrightarrow> contains_offset t \<Longrightarrow> img_fields d (replicate (length vs) t) vs = (s, h) \<Longrightarrow>
   ps_room d (length s) (length h) st \<Longrightarrow> alloc - cur = of_nat d \<Longrightarrow>
   \<exists>k. flatpack_ptrs t vs alloc cur st = Inr (k, ps_put d s h st)"
proof (induction vs arbitrary: d s h st alloc cur)
  case Nil
  then show ?case by (cases st) (auto simp: ps_room_def)
next
  case (Cons v vs)
  have pv: "packs t v" "\<forall>v \<in> set vs. packs t v" using Cons.prems(1) by simp_all
  note img = Cons.prems(3) [unfolded length_Cons replicate_Suc] and room = Cons.prems(4)
  note IH = Cons.IH [OF pv(2) Cons.prems(2)]
  show ?case
  proof (cases "empty_seq v")
    case True
    obtain s' where s': "img_fields (d - 4) (replicate (length vs) t) vs = (s', h)" "s = word_le 4 (0 :: u32) @ s'"
      by (rule img_fields_null [OF img Cons.prems(2) True])
    have room': "ps_room d (4 + length s') (length h) st" using room by (simp add: s'(2))
    then have d: "4 \<le> d" by (simp add: ps_room_def)
    note slot = null_slot [OF d room' Cons.prems(5) True]
    have "ps_put (d - 4) s' h (ps_put d (word_le 4 (0 :: u32)) [] st) = ps_put d s h st"
      using ps_put_line [of d "word_le 4 (0 :: u32)" s' h st d] room' by (simp add: s'(2))
    then show ?thesis
      using IH [OF s'(1) slot(2) slot(3)] by (auto simp: slot(1))
  next
    case False
    obtain s' h' where s': "img_fields (d - 4 + length (flat_bytes t v)) (replicate (length vs) t) vs = (s', h')"
      "s = word_le 4 (of_nat d :: u32) @ s'" "h = flat_bytes t v @ h'"
      by (rule img_fields_ptr [OF img Cons.prems(2) False])
    have room': "ps_room d (4 + length s') (length (flat_bytes t v) + length h') st" using room by (simp add: s'(2,3))
    then have d: "4 \<le> d" by (simp add: ps_room_def)
    note slot = slot_packs [OF pv(1) d room' Cons.prems(5) False]
    let ?st = "ps_put (d - 4) [] (flat_bytes t v) (ps_put d (word_le 4 (of_nat d :: u32)) [] st)"
    have "ps_put (d - 4 + length (flat_bytes t v)) s' h' ?st = ps_put d s h st"
      using ps_put_put [of d "word_le 4 (of_nat d :: u32)" s' "flat_bytes t v" h' st d] room' by (simp add: s'(2,3))
    then show ?thesis
      using IH [OF s'(1) slot(2) slot(3)] by (auto simp: slot(1))
  qed
qed

lemma items_pack:
  "\<forall>v \<in> set vs. packs t v \<and> flat_typed t v \<Longrightarrow> flat_wf t \<Longrightarrow> \<not> contains_offset t \<Longrightarrow>
   ps_room d (length (img_items t vs)) n st \<Longrightarrow> \<exists>k. flatpack_items t vs cur st = Inr (k, ps_put d (img_items t vs) [] st)"
proof (induction vs arbitrary: d st cur)
  case Nil
  then show ?case by (cases st) (auto simp: ps_room_def)
next
  case (Cons v vs)
  have v: "packs t v" "flat_typed t v" using Cons.prems(1) by simp_all
  have img: "fst (flat_img t v) = flat_bytes t v" using img_in_line(2) [OF v(2) Cons.prems(2,3)] by simp
  have len: "length (flat_bytes t v) = flatpack_size t" by (rule img_in_line(3) [OF v(2) Cons.prems(2,3)])
  have room: "ps_room d (flatpack_size t + length (img_items t vs)) n st" using Cons.prems(4) by (simp add: img len)
  obtain k where k: "flatpack t v st = Inr (k, ps_put d (flat_bytes t v) [] st)"
    using line_packs(1) [OF v Cons.prems(2,3) room] by blast
  have "ps_put (d - flatpack_size t) (img_items t vs) [] (ps_put d (flat_bytes t v) [] st) = ps_put d (img_items t (v # vs)) [] st"
    using ps_put_line [of d "flat_bytes t v" "img_items t vs" "[]" st d] room
    by (cases st) (auto simp: len img ps_room_def)
  then show ?case
    using Cons.IH [OF _ Cons.prems(2,3) line_packs(2) [OF v Cons.prems(2,3) room], of "cur + k"] Cons.prems(1) by (auto simp: k)
qed

lemma ps_put_nil: "ps_room d m n st \<Longrightarrow> ps_put k [] [] st = st"
  by (cases st) simp_all

lemma flat_packs_vector:
  assumes "\<forall>v \<in> set vs. flat_wf t \<longrightarrow> flat_typed t v \<longrightarrow> packs t v" "\<forall>v \<in> set vs. flat_typed t v" "flat_wf t"
  shows "packs (FL_vector t) (FV_vector vs)"
  unfolding packs_def
proof (intro allI impI)
  fix s h st
  let ?w = "word_le 4 (of_nat (length vs) :: u32)"
  assume img: "flat_img (FL_vector t) (FV_vector vs) = (s, h)" and room: "ps_room (length s) (length s) (length h) st"
  have "\<exists>k. flatpack (FL_vector t) (FV_vector vs) st = Inr (k, ps_put (length s) s h st)"
  proof (cases "contains_offset t")
    case True
    then obtain s' where s': "img_fields (4 * length vs) (replicate (length vs) t) vs = (s', h)" "s = ?w @ s'"
      using img by (auto split: prod.splits)
    have "length s' = 4 * length vs"
      using length_img_fields [OF _ _ s'(1)] assms(2,3) True
      by (simp add: list_all2_conv_all_nth list_all_iff sum_list_replicate)
    note w = ps_write_put [of "length s" ?w "length s'" "length h" st "length s"] and l = this
    have w': "ps_write ?w st = Inr (ps_put (length s) ?w [] st)" "ps_room (4 * length vs) (length s') (length h) (ps_put (length s) ?w [] st)"
      using w room l by (simp_all add: s'(2))
    have ac: "4 + of_nat (length vs) * 4 - 4 = (of_nat (4 * length vs) :: u32)" by simp
    obtain k where k: "flatpack_ptrs t vs (4 + of_nat (length vs) * 4) 4 (ps_put (length s) ?w [] st) =
        Inr (k, ps_put (4 * length vs) s' h (ps_put (length s) ?w [] st))"
      using ptrs_pack [OF _ True s'(1) w'(2) ac] assms by blast
    have "ps_put (4 * length vs) s' h (ps_put (length s) ?w [] st) = ps_put (length s) s h st"
      using ps_put_line [of "length s" ?w s' h st "length s"] room l by (simp add: s'(2))
    then show ?thesis using w'(1) k True by (simp add: Let_def)
  next
    case False
    then have s: "s = ?w @ img_items t vs" "h = []" using img by auto
    have w: "ps_write ?w st = Inr (ps_put (length s) ?w [] st)"
      "ps_room (length (img_items t vs)) (length (img_items t vs)) 0 (ps_put (length s) ?w [] st)"
      using ps_write_put [of "length s" ?w "length (img_items t vs)" 0 st "length s"] room by (simp_all add: s)
    obtain k where k: "flatpack_items t vs 4 (ps_put (length s) ?w [] st) =
        Inr (k, ps_put (length (img_items t vs)) (img_items t vs) [] (ps_put (length s) ?w [] st))"
      using items_pack [OF _ assms(3) False w(2)] assms by blast
    have "ps_put (length (img_items t vs)) (img_items t vs) [] (ps_put (length s) ?w [] st) = ps_put (length s) s h st"
      using ps_put_line [of "length s" ?w "img_items t vs" "[]" st "length s"] room by (simp add: s)
    then show ?thesis using w(1) k False by (simp add: Let_def)
  qed
  then show "\<exists>cur. flatpack (FL_vector t) (FV_vector vs) st = Inr (cur, ps_put (length s) s h st) \<and>
      (\<not> contains_offset (FL_vector t) \<and> counted (FL_vector t) \<longrightarrow> cur = of_nat (flatpack_size (FL_vector t)))"
    by simp
qed

lemma flat_packs_variant:
  assumes "packs t v" "flat_typed t v" "flat_wf t" "i < length alts" "alts ! i = (hash, t)"
  shows "packs (FL_variant alts) (FV_variant i v)"
  unfolding packs_def
proof (intro allI impI)
  fix s h st
  assume img: "flat_img (FL_variant alts) (FV_variant i v) = (s, h)" and room: "ps_room (length s) (length s) (length h) st"
  have "\<exists>k. flatpack (FL_variant alts) (FV_variant i v) st = Inr (k, ps_put (length s) s h st)"
  proof (cases "inline_alt t")
    case True
    then have t: "\<not> contains_offset t" "flatpack_size t \<le> 8" by (simp_all add: inline_alt_def)
    let ?b = "flat_bytes t v" and ?st = "Buf_Stream (fixed_buf_stream_new (replicate 8 0) 8)"
    note b = img_in_line [OF assms(2,3) t(1)]
    have "ps_room (length ?b) (length ?b) (length []) ?st"
      using t(2) by (simp add: ps_room_def b(3) fixed_buf_stream_new_def fb_inv_def)
    then obtain k where k: "flatpack t v ?st = Inr (k, ps_put (length ?b) ?b [] ?st)"
      using flat_packsD [OF assms(1) b(2)] by blast
    have s: "s = word_le 8 hash @ ?b @ replicate (8 - length ?b) 0" "h = []"
      using img True assms(5) b(2) by simp_all
    have mem: "memcpy (replicate 8 0) 0 ?b = ?b @ replicate (8 - length ?b) 0"
      using t(2) by (simp add: memcpy_def b(3))
    have "ps_write s st = Inr (ps_put (length s) s [] st)"
      using ps_write_put(1) [of "length s" s 0 0 st] room by (simp add: s(2))
    then show ?thesis
      using True assms(5) k mem by (simp add: fixed_buf_stream_new_def s)
  next
    case False
    let ?b = "flat_bytes t v" and ?w = "word_le 8 hash @ word_le 4 (0 :: u32) @ word_le 4 (4 :: u32)"
    have s: "s = ?w" "h = ?b" using img False assms(5) by (auto simp: flat_bytes_def split: prod.splits)
    have w: "ps_write ?w st = Inr (ps_put 16 ?w [] st)" "ps_room 0 0 (length ?b) (ps_put 16 ?w [] st)"
      using ps_write_put [of 16 ?w 0 "length ?b" st 16] room by (simp_all add: s)
    have sz: "measured (\<lambda>s. flatpack t v s) = Inr (length ?b)"
      using room by (intro measured_packs [OF assms(1)]) (simp add: ps_room_def s)
    have pl: "place (\<lambda>s. flatpack t v s) 4 (length ?b) (ps_put 16 ?w [] st) = Inr (ps_put 0 [] ?b (ps_put 16 ?w [] st))"
      using place_packs [OF assms(1), of 4 0 0 "ps_put 16 ?w [] st"] w(2) by simp
    have "ps_put 0 [] ?b (ps_put 16 ?w [] st) = ps_put 16 ?w ?b st"
      using ps_put_put [of 16 ?w "[]" ?b "[]" st 16] room by (cases st) (simp_all add: s)
    then show ?thesis
      using False assms(5) w(1) sz pl by (simp add: s)
  qed
  then show "\<exists>cur. flatpack (FL_variant alts) (FV_variant i v) st = Inr (cur, ps_put (length s) s h st) \<and>
      (\<not> contains_offset (FL_variant alts) \<and> counted (FL_variant alts) \<longrightarrow> cur = of_nat (flatpack_size (FL_variant alts)))"
    by simp
qed

lemma ps_write_write:
  assumes "ps_room d (length a + length b + m) 0 st"
  shows "rbind (ps_write b (ps_put d a [] st)) f = f (ps_put d (a @ b) [] st)"
proof -
  have "ps_write b (ps_put d a [] st) = Inr (ps_put (d - length a) b [] (ps_put d a [] st))"
    using ps_write_put(2) [of d a "length b + m" 0 st d] ps_write_put(1) [of "d - length a" b m 0 "ps_put d a [] st"] assms
    by (simp add: add.assoc)
  moreover have "ps_put (d - length a) b [] (ps_put d a [] st) = ps_put d (a @ b) [] st"
    using ps_put_line [of d a b "[]" st d] assms by (cases st) (auto simp: ps_room_def)
  ultimately show ?thesis by simp
qed

lemma ps_write_first: "ps_room d (length a + m) 0 st \<Longrightarrow> rbind (ps_write a st) f = f (ps_put d a [] st)"
  using ps_write_put(1) [of d a m 0 st d] by simp

lemma small_size_0: "length bs < 2 ^ 31 \<Longrightarrow> (of_nat (length bs) :: u32) = 0 \<longleftrightarrow> bs = []"
  using unat_of_nat_u32 [of "length bs"] by (auto simp: unat_eq_zero [symmetric])

lemma packs_sized:
  assumes "v = FV_string bs \<or> v = FV_ptr bs" "flat_typed t v"
  shows "packs t v"
  unfolding packs_def
proof (intro allI impI)
  fix s h st
  assume img: "flat_img t v = (s, h)" and room: "ps_room (length s) (length s) (length h) st"
  let ?w = "word_le 4 (of_nat (length bs) :: u32)" and ?e = "if v = FV_string bs then [0 :: byte] else []"
  have s: "s = ?w @ (if bs = [] then [] else bs @ ?e)" "h = []" using img assms(1) by auto
  have len: "length bs < 2 ^ 31" using room by (auto simp: ps_room_def s split: if_splits)
  have 1: "rbind (ps_write ?w st) f = f (ps_put (length s) ?w [] st)" for f :: "pack_stream \<Rightarrow> fault + u32 \<times> pack_stream"
    by (rule ps_write_first [where m = "length s - 4"]) (use room in \<open>simp add: s\<close>)
  have "\<exists>cur. flatpack t v st = Inr (cur, ps_put (length s) s h st)"
  proof (cases "bs = []")
    case True
    then show ?thesis
      using 1 assms(1) by (auto simp: s)
  next
    case False
    have 2: "rbind (ps_write bs (ps_put (length s) ?w [] st)) f = f (ps_put (length s) (?w @ bs) [] st)"
      for f :: "pack_stream \<Rightarrow> fault + u32 \<times> pack_stream"
      by (rule ps_write_write [where m = "length ?e"]) (use room False in \<open>simp add: s split: if_splits\<close>)
    have 3: "rbind (ps_write [0] (ps_put (length s) (?w @ bs) [] st)) f = f (ps_put (length s) s h st)"
      if "v = FV_string bs" for f :: "pack_stream \<Rightarrow> fault + u32 \<times> pack_stream"
      using ps_write_write [of "length s" "?w @ bs" "[0]" 0 st f] room False that by (simp add: s)
    have 4: "?w @ bs = s" "h = []" if "v = FV_ptr bs"
      using False that by (simp_all add: s)
    show ?thesis
      using assms(1)
    proof
      assume "v = FV_string bs"
      then show ?thesis using 3 False by (simp add: Let_def 1 2 small_size_0 [OF len])
    next
      assume v: "v = FV_ptr bs"
      then show ?thesis using False by (simp add: Let_def 1 2 4 [OF v] small_size_0 [OF len])
    qed
  qed
  then show "\<exists>cur. flatpack t v st = Inr (cur, ps_put (length s) s h st) \<and>
      (\<not> contains_offset t \<and> counted t \<longrightarrow> cur = of_nat (flatpack_size t))"
    using assms by auto
qed

lemma all_pack: "flat_typed t v \<Longrightarrow> flat_wf t \<Longrightarrow> packs t v"
proof (induction v arbitrary: t)
  case (FV_num bs)
  have "rbind (ps_write bs st) f = f (ps_put (length bs) bs [] st)"
    if "ps_room (length bs) (length bs) 0 st" for st and f :: "pack_stream \<Rightarrow> fault + u32 \<times> pack_stream"
    using ps_write_first [of "length bs" bs 0 st f] that by simp
  then show ?case using FV_num by (auto simp: packs_def)
next
  case (FV_string bs)
  then show ?case by (intro packs_sized) auto
next
  case (FV_ptr bs)
  then show ?case by (intro packs_sized) auto
next
  case (FV_vector vs)
  then obtain u where u: "t = FL_vector u" by (cases t) auto
  show ?case unfolding u by (rule flat_packs_vector) (use FV_vector u in auto)
next
  case (FV_struct vs)
  then obtain ts where ts: "t = FL_struct ts" by (cases t) auto
  have ty: "list_all2 flat_typed ts vs" using FV_struct.prems(1) unfolding ts typed_struct .
  show ?case
    unfolding packs_def
  proof (intro allI impI)
    fix s h st
    assume img: "flat_img t (FV_struct vs) = (s, h)" and room: "ps_room (length s) (length s) (length h) st"
    have fields: "img_fields (length s) ts vs = (s, h)" and len: "length s = flatpack_size t"
    proof -
      have "img_fields (flatpack_size t) ts vs = (s, h)" using img by (simp add: ts)
      moreover from this have "length s = flatpack_size t"
        using length_img_fields [OF ty] FV_struct.prems(2) by (simp add: ts flatpack_size_struct)
      ultimately show "img_fields (length s) ts vs = (s, h)" "length s = flatpack_size t" by simp_all
    qed
    have wf: "list_all flat_wf ts" "counted_before_ptrs ts" using FV_struct.prems(2) by (simp_all add: ts)
    have "list_ex contains_offset ts \<longrightarrow> of_nat (flatpack_size t) - 0 = (of_nat (length s) :: u32)" by (simp add: len)
    from members_pack [OF _ ty wf fields room this] FV_struct.IH show
      "\<exists>cur. flatpack t (FV_struct vs) st = Inr (cur, ps_put (length s) s h st) \<and>
        (\<not> contains_offset t \<and> counted t \<longrightarrow> cur = of_nat (flatpack_size t))"
      by (simp add: ts flatpack_size_struct)
  qed
next
  case (FV_variant i v)
  then obtain alts where alts: "t = FL_variant alts" by (cases t) auto
  obtain h u where hu: "alts ! i = (h, u)" by (cases "alts ! i")
  have i: "i < length alts" "flat_typed u v" using FV_variant.prems(1) by (simp_all add: alts hu)
  then have "(h, u) \<in> set alts" using hu nth_mem by metis
  then have "flat_wf u" using FV_variant.prems(2) by (auto simp: alts)
  then show ?case
    unfolding alts using flat_packs_variant [OF FV_variant.IH [OF i(2)] i(2) _ i(1) hu] by blast
qed

text \<open>A new flat pointer holds exactly the image.\<close>

lemma flat_ptr_new_img:
  assumes "flat_typed t v" "flat_wf t" "length (flat_bytes t v) < 2 ^ 31"
  shows "flat_ptr_new fresh t v = Inr (flat_bytes t v)"
proof -
  let ?n = "length (flat_bytes t v)" and ?st = "Buf_Stream (fixed_buf_stream_new (map fresh [0..<length (flat_bytes t v)]) (length (flat_bytes t v)))"
  note p = all_pack [OF assms(1,2)]
  obtain s h where sh: "flat_img t v = (s, h)" by fastforce
  have "ps_room (length s) (length s) (length h) ?st"
    using assms(3) by (simp add: ps_room_def flat_bytes_img [OF sh] fixed_buf_stream_new_def fb_inv_def)
  from flat_packsD [OF p sh this] obtain cur where "flatpack t v ?st = Inr (cur, ps_put (length s) s h ?st)"
    by blast
  moreover have "memcpy (memcpy (map fresh [0..<length (s @ h)]) 0 s) (length s) h = s @ h"
    by (simp add: memcpy_def)
  moreover have "measured (flatpack t v) = Inr ?n" using measured_packs [OF p assms(3)] by simp
  ultimately show ?thesis
    by (auto simp: flat_ptr_new_def fixed_buf_stream_new_def flat_bytes_img [OF sh])
qed

end
