(* ===== verification/Clio_Flatbuf_Read.thy ===== *)
theory Clio_Flatbuf_Read
  imports Clio_Flatbuf_Pack
begin

text \<open>
  What \<^verbatim>\<open>flatunpack\<close> does with packed bytes: it reads the value back, except where the buffer ends
  right behind the pointer of an empty string, whose terminator it skips.
\<close>

section \<open>Packed bytes in memory\<close>

definition bytes_at :: "byte list \<Rightarrow> nat \<Rightarrow> byte list \<Rightarrow> bool" where
  "bytes_at m a xs \<longleftrightarrow> a + length xs \<le> length m \<and> take (length xs) (drop a m) = xs"

lemma bytes_at_append [simp]:
  "bytes_at m a (xs @ ys) \<longleftrightarrow> bytes_at m a xs \<and> bytes_at m (a + length xs) ys"
  by (auto simp: bytes_at_def take_add add.commute add.left_commute)

lemma bytes_at_Nil [simp]: "bytes_at m a [] \<longleftrightarrow> a \<le> length m"
  by (simp add: bytes_at_def)

lemma bytes_at_self: "bytes_at m 0 m"
  by (simp add: bytes_at_def)

lemma read_holds:
  assumes "is_inv s" "bytes_at (is_mem s) (is_pos s) xs" "is_pos s + length xs \<le> is_end s"
  shows "is_read (length xs) s = Inr (xs, s\<lparr>is_pos := is_pos s + length xs\<rparr>)" "is_inv (s\<lparr>is_pos := is_pos s + length xs\<rparr>)"
  using assms by (simp_all add: is_read_def is_remaining_inv bytes_at_def) (simp_all add: is_inv_def)

lemma read_u32_holds:
  fixes w :: u32 and s :: input_stream
  assumes "is_inv s" "bytes_at (is_mem s) (is_pos s) (word_le 4 w)" "is_pos s + 4 \<le> is_end s"
  shows "read_u32 s = Inr (w, s\<lparr>is_pos := is_pos s + 4\<rparr>)" "is_inv (s\<lparr>is_pos := is_pos s + 4\<rparr>)"
  using read_holds [of s "word_le 4 w"] assms by (simp_all add: read_u32_def may_throw_def le_word_word_le)

lemma read_holds':
  assumes "is_inv s" "bytes_at (is_mem s) (is_pos s) xs" "is_pos s + n \<le> is_end s" "n = length xs"
  shows "is_read n s = Inr (xs, s\<lparr>is_pos := is_pos s + n\<rparr>)" "is_inv (s\<lparr>is_pos := is_pos s + n\<rparr>)"
  using read_holds [OF assms(1,2)] assms(3,4) by simp_all

section \<open>Where the last bytes of a value are the pointer of an empty string\<close>

definition has_heap :: "flat_ty list \<Rightarrow> flat_val list \<Rightarrow> bool" where
  "has_heap ts vs \<longleftrightarrow> list_ex (\<lambda>(t, v). contains_offset t \<and> \<not> empty_seq v) (zip ts vs)"

lemma has_heap_simps [simp]:
  "has_heap [] vs \<longleftrightarrow> False" "has_heap ts [] \<longleftrightarrow> False"
  "has_heap (t # ts) (v # vs) \<longleftrightarrow> contains_offset t \<and> \<not> empty_seq v \<or> has_heap ts vs"
  by (simp_all add: has_heap_def)

function open_end :: "flat_ty \<Rightarrow> flat_val \<Rightarrow> bool"
  and fields_open :: "flat_ty list \<Rightarrow> flat_val list \<Rightarrow> bool" where
  "open_end ty (FV_num bs) \<longleftrightarrow> False"
| "open_end ty (FV_ptr bs) \<longleftrightarrow> False"
| "open_end ty (FV_string bs) \<longleftrightarrow> bs = []"
| "open_end ty (FV_vector vs) \<longleftrightarrow>
     (case ty of FL_vector t \<Rightarrow> contains_offset t \<and> fields_open (replicate (length vs) t) vs | _ \<Rightarrow> False)"
| "open_end ty (FV_struct vs) \<longleftrightarrow> (case ty of FL_struct ts \<Rightarrow> fields_open ts vs | _ \<Rightarrow> False)"
| "open_end ty (FV_variant i v) \<longleftrightarrow>
     (case ty of FL_variant alts \<Rightarrow> \<not> inline_alt (snd (alts ! i)) \<and> open_end (snd (alts ! i)) v | _ \<Rightarrow> False)"
| "fields_open ts [] \<longleftrightarrow> False"
| "fields_open ts (v # vs) \<longleftrightarrow>
     (case ts of
        [] \<Rightarrow> False
      | t # ts \<Rightarrow>
          if has_heap ts vs then fields_open ts vs
          else if contains_offset t \<and> \<not> empty_seq v then open_end t v
          else contains_offset t \<and> v = FV_string [] \<and> sum_list (map slot_size ts) = 0 \<or> fields_open ts vs)"
  by pat_completeness auto

termination
  by (relation "measure (case_sum (\<lambda>(t, v). size v) (\<lambda>(ts, vs). size_list size vs))") auto

lemma flat_not_open: "flat_typed t v \<Longrightarrow> flat_wf t \<Longrightarrow> \<not> contains_offset t \<Longrightarrow> \<not> open_end t v"
proof (induction v arbitrary: t)
  case (FV_struct vs)
  then obtain ts where ts: "t = FL_struct ts" "list_all2 flat_typed ts vs" "\<not> list_ex contains_offset ts"
    using typed_struct by (cases t) auto
  have "\<not> fields_open us ws" if "\<not> list_ex contains_offset us" for us ws
    using that
  proof (induction ws arbitrary: us)
    case (Cons w ws)
    show ?case using Cons by (cases us) auto
  qed simp
  then show ?case using ts by simp
next
  case (FV_variant i v)
  then obtain alts where alts: "t = FL_variant alts" by (cases t) auto
  obtain h u where hu: "alts ! i = (h, u)" by (cases "alts ! i")
  have "(h, u) \<in> set alts" using FV_variant.prems(1) alts nth_mem [of i alts] hu by simp
  then have "inline_alt u" using FV_variant.prems(2,3) alts by auto
  then show ?case using alts hu by simp
qed (auto split: flat_ty.splits)

lemma nat_le_nonempty: "nat_le n x = [] \<longleftrightarrow> n = 0"
  by (metis length_0_conv length_nat_le)

lemma bytes_nonempty: "flat_typed t v \<Longrightarrow> flat_wf t \<Longrightarrow> contains_offset t \<Longrightarrow> flat_bytes t v \<noteq> []"
proof (cases v)
  case (FV_struct vs)
  assume a: "flat_typed t v" "flat_wf t" "contains_offset t"
  obtain ts where ts: "t = FL_struct ts" "list_all2 flat_typed ts vs" using a(1) FV_struct typed_struct by (cases t) auto
  obtain s h where sh: "img_fields (flatpack_size t) ts vs = (s, h)" by fastforce
  have "length s = sum_list (map slot_size ts)"
    using length_img_fields [OF ts(2) _ sh] a(2) ts(1) by simp
  moreover obtain u where u: "u \<in> set ts" "contains_offset u" using a(3) ts(1) by (auto simp: list_ex_iff)
  have "slot_size u \<in> set (map slot_size ts)"
    unfolding set_map using u(1) by (rule imageI)
  then have "slot_size u \<in> set (map slot_size ts)" "slot_size u = 4" using u(2) by simp_all
  then have "slot_size u \<le> sum_list (map slot_size ts)" "slot_size u = 4"
    by (simp_all only: member_le_sum_list zero_le)
  ultimately have "4 \<le> length s" by simp
  then have "s \<noteq> []" by auto
  then show ?thesis using sh ts(1) FV_struct by (simp add: flat_bytes_def)
qed (auto simp: flat_bytes_def word_le_def nat_le_nonempty split: flat_ty.splits prod.splits)

lemma heap_nonempty:
  "list_all2 flat_typed ts vs \<Longrightarrow> list_all flat_wf ts \<Longrightarrow> img_fields d ts vs = (s, h) \<Longrightarrow> h = [] \<longleftrightarrow> \<not> has_heap ts vs"
proof (induction vs arbitrary: ts d s h)
  case (Cons v vs)
  obtain t ts' where ts: "ts = t # ts'" "flat_typed t v" "flat_wf t" "list_all2 flat_typed ts' vs" "list_all flat_wf ts'"
    using Cons.prems(1,2) by (auto simp: list_all2_Cons2)
  note img = Cons.prems(3) [unfolded ts(1)]
  show ?case
  proof (cases rule: member_cases [where t = t and v = v])
    case flat
    obtain s' where "img_fields (d - flatpack_size t) ts' vs = (s', h)"
      by (rule img_fields_line [OF img flat ts(2,3)])
    with flat show ?thesis using Cons.IH [OF ts(4,5)] ts(1) by simp
  next
    case null
    obtain s' where "img_fields (d - 4) ts' vs = (s', h)" by (rule img_fields_null [OF img null])
    with null show ?thesis using Cons.IH [OF ts(4,5)] ts(1) by simp
  next
    case ptr
    have "h \<noteq> []" by (rule img_fields_ptr [OF img ptr]) (use bytes_nonempty [OF ts(2,3) ptr(1)] in simp)
    with ptr show ?thesis using ts(1) by simp
  qed
qed auto

section \<open>Reading packed bytes\<close>

definition reads_back :: "flat_ty \<Rightarrow> flat_val \<Rightarrow> bool" where
  "reads_back t v \<longleftrightarrow>
     (\<forall>s. is_inv s \<longrightarrow> bytes_at (is_mem s) (is_pos s) (flat_bytes t v) \<longrightarrow>
        is_pos s + length (flat_bytes t v) \<le> is_end s \<longrightarrow> length (flat_bytes t v) < 2 ^ 31 \<longrightarrow>
        (if open_end t v \<and> is_pos s + length (flat_bytes t v) = is_end s
         then flatunpack t s = Inl (Throw (Stream_Error overrun))
         else \<exists>s'. flatunpack t s = Inr (v, s') \<and>
           (\<not> contains_offset t \<longrightarrow> s' = s\<lparr>is_pos := is_pos s + flatpack_size t\<rparr>)))"

lemma reads_backD:
  fixes s :: input_stream
  assumes "reads_back t v" "is_inv s" "bytes_at (is_mem s) (is_pos s) (flat_bytes t v)"
    "is_pos s + length (flat_bytes t v) \<le> is_end s" "length (flat_bytes t v) < 2 ^ 31"
  shows "open_end t v \<Longrightarrow> is_pos s + length (flat_bytes t v) = is_end s \<Longrightarrow> flatunpack t s = Inl (Throw (Stream_Error overrun))"
    "\<not> (open_end t v \<and> is_pos s + length (flat_bytes t v) = is_end s) \<Longrightarrow> \<exists>s'. flatunpack t s = Inr (v, s') \<and>
       (\<not> contains_offset t \<longrightarrow> s' = s\<lparr>is_pos := is_pos s + flatpack_size t\<rparr>)"
  using assms unfolding reads_back_def by (simp_all split: if_splits)

lemma unpack_slot_line [simp]: "unpack_slot False f = f"
  by (rule ext) (simp add: unpack_slot_def)

text \<open>A slot with the pointer at its place and the object where the pointer leads.\<close>

abbreviation slot_reader :: "flat_ty \<Rightarrow> flat_reader" where
  "slot_reader t \<equiv> unpack_slot (contains_offset t) (\<lambda>s. flatunpack t s)"

lemma slot_step:
  fixes d :: nat and s :: input_stream
  assumes "contains_offset t" "is_inv s" "bytes_at (is_mem s) (is_pos s) (word_le 4 (of_nat d :: u32))"
    "is_pos s + 4 \<le> is_end s" "is_pos s + d \<le> is_end s" "d < 2 ^ 31"
  shows "slot_reader t s =
      rbind (flatunpack t (s\<lparr>is_pos := is_pos s + d\<rparr>)) (\<lambda>(v, _). Inr (v, s\<lparr>is_pos := is_pos s + 4\<rparr>))"
    "is_inv (s\<lparr>is_pos := is_pos s + d\<rparr>)"
proof -
  have d: "unat (of_nat d :: u32) = d" using assms(6) by (intro unat_of_nat_u32) simp
  have "deref (of_nat d) (s\<lparr>is_pos := is_pos s + 4\<rparr>) = Inr (s\<lparr>is_pos := is_pos s + d\<rparr>)"
    using assms(5) by (simp add: deref_def input_stream_of_def d may_throw_def)
  then show "slot_reader t s =
      rbind (flatunpack t (s\<lparr>is_pos := is_pos s + d\<rparr>)) (\<lambda>(v, _). Inr (v, s\<lparr>is_pos := is_pos s + 4\<rparr>))"
    using assms(1) read_u32_holds(1) [OF assms(2-4)] by (simp add: unpack_slot_def)
  show "is_inv (s\<lparr>is_pos := is_pos s + d\<rparr>)"
    using assms(2,5) by (simp add: is_inv_def)
qed

text \<open>The pointer of an empty sequence is 0, which reads as the size of a sequence at the pointer itself.\<close>

lemma null_step:
  fixes s :: input_stream
  assumes "contains_offset t" "flat_typed t v" "empty_seq v" "is_inv s"
    "bytes_at (is_mem s) (is_pos s) (word_le 4 (0 :: u32))" "is_pos s + 4 \<le> is_end s"
  shows "v = FV_string [] \<and> is_pos s + 4 = is_end s \<Longrightarrow> slot_reader t s = Inl (Throw (Stream_Error overrun))"
    "\<not> (v = FV_string [] \<and> is_pos s + 4 = is_end s) \<Longrightarrow> slot_reader t s = Inr (v, s\<lparr>is_pos := is_pos s + 4\<rparr>)"
proof -
  have z: "slot_reader t s = rbind (flatunpack t s) (\<lambda>(v, _). Inr (v, s\<lparr>is_pos := is_pos s + 4\<rparr>))"
    using slot_step(1) [of t s 0] assms by simp
  note r = read_u32_holds [OF assms(4-6)]
  have nul: "is_read 0 (s\<lparr>is_pos := is_pos s + 4\<rparr>) = Inr ([], s\<lparr>is_pos := is_pos s + 4\<rparr>)"
    by (simp add: is_read_def)
  have rem: "is_remaining (s\<lparr>is_pos := is_pos s + 4\<rparr>) = is_end s - (is_pos s + 4)"
    using is_remaining_inv [OF r(2)] by simp
  show "slot_reader t s = Inl (Throw (Stream_Error overrun))" if "v = FV_string [] \<and> is_pos s + 4 = is_end s"
  proof -
    have "t = FL_string" "is_end s = is_pos s + 4" using that assms(2) by simp_all
    then show ?thesis unfolding z by (simp add: r(1) nul may_throw_def is_skip_def rem)
  qed
  show "\<not> (v = FV_string [] \<and> is_pos s + 4 = is_end s) \<Longrightarrow> slot_reader t s = Inr (v, s\<lparr>is_pos := is_pos s + 4\<rparr>)"
    using assms(2,3,6) unfolding z
    by (auto simp: empty_seq_def r(1) nul may_throw_def is_skip_def rem split: flat_ty.splits)
qed

text \<open>The members of a struct or the elements of a vector, from the slots on.\<close>

definition fields_fail :: "nat \<Rightarrow> flat_ty list \<Rightarrow> flat_val list \<Rightarrow> byte list \<Rightarrow> byte list \<Rightarrow> input_stream \<Rightarrow> bool" where
  "fields_fail d ts vs s h st \<longleftrightarrow>
     fields_open ts vs \<and> (if has_heap ts vs then is_pos st + d + length h = is_end st else is_pos st + length s = is_end st)"

definition fields_there :: "nat \<Rightarrow> byte list \<Rightarrow> byte list \<Rightarrow> input_stream \<Rightarrow> bool" where
  "fields_there d s h st \<longleftrightarrow>
     is_inv st \<and> bytes_at (is_mem st) (is_pos st) s \<and> bytes_at (is_mem st) (is_pos st + d) h \<and> length s \<le> d \<and>
     is_pos st + d + length h \<le> is_end st \<and> d + length h < 2 ^ 31"

lemma fields_there_line:
  "fields_there d (a @ s) h st \<Longrightarrow> fields_there (d - length a) s h (st\<lparr>is_pos := is_pos st + length a\<rparr>)"
  by (auto simp: fields_there_def is_inv_def)

lemma fields_there_ptr:
  "fields_there d (a @ s) (b @ h) st \<Longrightarrow>
   fields_there (d - length a + length b) s h (st\<lparr>is_pos := is_pos st + length a\<rparr>)"
  by (auto simp: fields_there_def is_inv_def add.assoc)

lemma flat_fields_read:
  fixes st :: input_stream
  assumes "\<forall>v \<in> set vs. \<forall>t. flat_typed t v \<longrightarrow> flat_wf t \<longrightarrow> reads_back t v" "list_all2 flat_typed ts vs" "list_all flat_wf ts"
    "img_fields d ts vs = (s, h)" "fields_there d s h st"
  shows "unpack_members (map slot_reader ts) st =
    (if fields_fail d ts vs s h st then Inl (Throw (Stream_Error overrun)) else Inr (vs, st\<lparr>is_pos := is_pos st + length s\<rparr>))"
  using assms
proof (induction vs arbitrary: ts d s h st)
  case Nil
  then show ?case by (auto simp: fields_fail_def)
next
  case (Cons v vs)
  obtain t ts' where ts: "ts = t # ts'" "flat_typed t v" "flat_wf t" "list_all2 flat_typed ts' vs" "list_all flat_wf ts'"
    using Cons.prems(2,3) by (auto simp: list_all2_Cons2)
  have "\<forall>v \<in> set vs. \<forall>t. flat_typed t v \<longrightarrow> flat_wf t \<longrightarrow> reads_back t v" using Cons.prems(1) by simp
  note IH = Cons.IH [OF this ts(4,5)]
  have rb: "reads_back t v" using Cons.prems(1) ts(2,3) by simp
  note img = Cons.prems(4) [unfolded ts(1)] and there = Cons.prems(5)
  show ?case
  proof (cases rule: member_cases [where t = t and v = v])
    case flat
    obtain s' where s': "img_fields (d - flatpack_size t) ts' vs = (s', h)" "s = flat_bytes t v @ s'"
      by (rule img_fields_line [OF img flat ts(2,3)])
    have len: "length (flat_bytes t v) = flatpack_size t" by (rule img_in_line(3) [OF ts(2,3) flat])
    let ?st = "st\<lparr>is_pos := is_pos st + flatpack_size t\<rparr>"
    have there': "fields_there (d - flatpack_size t) s' h ?st"
      using fields_there_line [OF there [unfolded s'(2)]] by (simp add: len)
    have "flatunpack t st = Inr (v, ?st)"
      using reads_backD(2) [OF rb, of st] flat_not_open [OF ts(2,3) flat] flat there
      by (auto simp: fields_there_def s'(2) len)
    moreover have "fields_fail d ts (v # vs) s h st \<longleftrightarrow> fields_fail (d - flatpack_size t) ts' vs s' h ?st"
      using flat there by (auto simp: fields_fail_def ts(1) s'(2) len fields_there_def)
    ultimately show ?thesis
      using IH [OF s'(1) there'] flat by (simp add: ts(1) unpack_slot_def s'(2) len add.assoc)
  next
    case null
    obtain s' where s': "img_fields (d - 4) ts' vs = (s', h)" "s = word_le 4 (0 :: u32) @ s'"
      by (rule img_fields_null [OF img null])
    let ?st = "st\<lparr>is_pos := is_pos st + 4\<rparr>"
    have there': "fields_there (d - 4) s' h ?st"
      using fields_there_line [OF there [unfolded s'(2)]] by simp
    have heap: "h = [] \<longleftrightarrow> \<not> has_heap ts' vs" by (rule heap_nonempty [OF ts(4,5) s'(1)])
    have l: "length s' = sum_list (map slot_size ts')" by (rule length_img_fields [OF ts(4,5) s'(1)])
    have e: "is_pos st + 4 \<le> is_end st" "4 \<le> d" using there by (auto simp: fields_there_def s'(2))
    note step = null_step [OF null(1) ts(2) null(2)]
    show ?thesis
    proof (cases "v = FV_string [] \<and> is_pos st + 4 = is_end st")
      case True
      then have "length h = 0 \<and> length s' = 0" using there e True unfolding fields_there_def s'(2) length_append length_word_le by linarith
      then have "h = []" "s' = []" by simp_all
      then have "fields_fail d ts (v # vs) s h st"
        using True null heap by (auto simp: fields_fail_def ts(1) s'(2) l [symmetric])
      then show ?thesis
        using step(1) [of st] True there e by (simp add: ts(1) fields_there_def s'(2))
    next
      case False
      have "fields_fail d ts (v # vs) s h st \<longleftrightarrow> fields_fail (d - 4) ts' vs s' h ?st"
        using null False e by (auto simp: fields_fail_def ts(1) s'(2) l [symmetric])
      moreover have "slot_reader t st = Inr (v, ?st)"
        using step(2) [of st] False there e by (simp add: fields_there_def s'(2))
      ultimately show ?thesis
        using IH [OF s'(1) there'] by (simp add: ts(1) s'(2) add.assoc)
    qed
  next
    case ptr
    let ?b = "flat_bytes t v" and ?st = "st\<lparr>is_pos := is_pos st + 4\<rparr>" and ?sub = "st\<lparr>is_pos := is_pos st + d\<rparr>"
    obtain s' h' where s': "img_fields (d - 4 + length ?b) ts' vs = (s', h')"
      "s = word_le 4 (of_nat d :: u32) @ s'" "h = ?b @ h'"
      by (rule img_fields_ptr [OF img ptr])
    have there': "fields_there (d - 4 + length ?b) s' h' ?st"
      using fields_there_ptr [OF there [unfolded s'(2,3)]] by simp
    have heap: "h' = [] \<longleftrightarrow> \<not> has_heap ts' vs" by (rule heap_nonempty [OF ts(4,5) s'(1)])
    have b: "?b \<noteq> []" by (rule bytes_nonempty [OF ts(2,3) ptr(1)])
    have e: "is_inv st" "bytes_at (is_mem st) (is_pos st) (word_le 4 (of_nat d :: u32))" "is_pos st + 4 \<le> is_end st"
      "is_pos st + d \<le> is_end st" "d < 2 ^ 31" "4 + length s' \<le> d" "bytes_at (is_mem ?sub) (is_pos ?sub) ?b"
      "is_pos st + d + length ?b + length h' \<le> is_end st" "length ?b < 2 ^ 31"
      using there by (auto simp: fields_there_def s'(2,3))
    note step = slot_step [OF ptr(1) e(1-5)]
    have sub: "is_pos ?sub + length ?b \<le> is_end ?sub" using e(8) by simp
    note rbk = reads_backD [OF rb step(2) e(7) sub e(9)]
    show ?thesis
    proof (cases "open_end t v \<and> is_pos st + d + length ?b = is_end st")
      case True
      then have "h' = []" using e(8) by auto
      then have "fields_fail d ts (v # vs) s h st"
        using True ptr heap by (simp add: fields_fail_def ts(1) s'(3) add.assoc)
      then show ?thesis using rbk(1) True by (simp add: ts(1) step(1))
    next
      case False
      have "is_pos st + (4 + length s') < is_end st" using e(6,8) b by (cases ?b) auto
      then have "fields_fail d ts (v # vs) s h st \<longleftrightarrow> fields_fail (d - 4 + length ?b) ts' vs s' h' ?st"
        using ptr False heap e(6) by (auto simp: fields_fail_def ts(1) s'(2,3))
      moreover obtain x where "flatunpack t ?sub = Inr (v, x)" using rbk(2) False by auto
      ultimately show ?thesis
        using IH [OF s'(1) there'] by (simp add: ts(1) step(1) s'(2) add.assoc)
    qed
  qed
qed

section \<open>Every value\<close>

lemma unpack_items_replicate: "unpack_items n f s = unpack_members (replicate n f) s"
  by (induction n arbitrary: s) simp_all

lemma length_items:
  "\<forall>v \<in> set vs. flat_typed t v \<Longrightarrow> flat_wf t \<Longrightarrow> \<not> contains_offset t \<Longrightarrow> length (img_items t vs) = length vs * flatpack_size t"
  by (induction vs) (simp_all add: img_in_line(1))

lemma flat_items_read:
  fixes s :: input_stream
  assumes "\<forall>v \<in> set vs. reads_back t v \<and> flat_typed t v" "flat_wf t" "\<not> contains_offset t" "is_inv s"
    "bytes_at (is_mem s) (is_pos s) (img_items t vs)" "is_pos s + length (img_items t vs) \<le> is_end s"
    "length (img_items t vs) < 2 ^ 31"
  shows "unpack_items (length vs) (slot_reader t) s = Inr (vs, s\<lparr>is_pos := is_pos s + length (img_items t vs)\<rparr>)"
  using assms
proof (induction vs arbitrary: s)
  case (Cons v vs)
  have v: "reads_back t v" "flat_typed t v" using Cons.prems(1) by simp_all
  have img: "fst (flat_img t v) = flat_bytes t v" using img_in_line(2) [OF v(2) Cons.prems(2,3)] by simp
  have len: "length (flat_bytes t v) = flatpack_size t" by (rule img_in_line(3) [OF v(2) Cons.prems(2,3)])
  have "flatunpack t s = Inr (v, s\<lparr>is_pos := is_pos s + flatpack_size t\<rparr>)"
    using reads_backD(2) [OF v(1) Cons.prems(4)] flat_not_open [OF v(2) Cons.prems(2,3)] Cons.prems(3,5-7) by (simp add: img len)
  moreover have "unpack_items (length vs) (slot_reader t) (s\<lparr>is_pos := is_pos s + flatpack_size t\<rparr>) =
      Inr (vs, s\<lparr>is_pos := is_pos s + flatpack_size t + length (img_items t vs)\<rparr>)"
    using Cons.IH [of "s\<lparr>is_pos := is_pos s + flatpack_size t\<rparr>"] Cons.prems by (auto simp: img len is_inv_def)
  ultimately show ?case using Cons.prems(3) by (simp add: unpack_slot_def img len add.assoc)
qed simp

lemma read_rest:
  fixes s :: input_stream
  assumes "is_inv s" "bytes_at (is_mem s) (is_pos s) (word_le 4 (of_nat n :: u32) @ xs)" "is_pos s + (4 + length xs) \<le> is_end s" "n < 2 ^ 31"
  shows "read_u32 s = Inr (of_nat n, s\<lparr>is_pos := is_pos s + 4\<rparr>)" "unat (of_nat n :: u32) = n"
    "is_inv (s\<lparr>is_pos := is_pos s + 4\<rparr>)" "bytes_at (is_mem s) (is_pos s + 4) xs"
  using read_u32_holds [of s "of_nat n"] assms by (simp_all add: unat_of_nat_u32)

lemma reads_vector:
  assumes "\<forall>v \<in> set vs. \<forall>t. flat_typed t v \<longrightarrow> flat_wf t \<longrightarrow> reads_back t v" "\<forall>v \<in> set vs. flat_typed t v" "flat_wf (FL_vector t)"
  shows "reads_back (FL_vector t) (FV_vector vs)"
  unfolding reads_back_def
proof (intro allI impI)
  fix s :: input_stream
  let ?b = "flat_bytes (FL_vector t) (FV_vector vs)" and ?s = "s\<lparr>is_pos := is_pos s + 4\<rparr>"
  assume s: "is_inv s" "bytes_at (is_mem s) (is_pos s) ?b" "is_pos s + length ?b \<le> is_end s" "length ?b < 2 ^ 31"
  show "if open_end (FL_vector t) (FV_vector vs) \<and> is_pos s + length ?b = is_end s
        then flatunpack (FL_vector t) s = Inl (Throw (Stream_Error overrun))
        else \<exists>s'. flatunpack (FL_vector t) s = Inr (FV_vector vs, s') \<and>
          (\<not> contains_offset (FL_vector t) \<longrightarrow> s' = s\<lparr>is_pos := is_pos s + flatpack_size (FL_vector t)\<rparr>)"
  proof (cases "contains_offset t")
    case True
    obtain x h where x: "img_fields (4 * length vs) (replicate (length vs) t) vs = (x, h)" by fastforce
    have b: "?b = word_le 4 (of_nat (length vs) :: u32) @ x @ h" using x True by (simp add: flat_bytes_def)
    have ty: "list_all2 flat_typed (replicate (length vs) t) vs" "list_all flat_wf (replicate (length vs) t)"
      using assms(2,3) by (simp_all add: list_all2_conv_all_nth list_all_iff)
    have l: "length x = 4 * length vs"
      using length_img_fields [OF ty x] True by (simp add: sum_list_replicate)
    have n: "length vs < 2 ^ 31" using s(4) l by (simp add: b)
    note r = read_rest [OF s(1) s(2) [unfolded b] _ n]
    have there: "fields_there (4 * length vs) x h ?s"
      using r(3,4) s l by (simp add: fields_there_def b)
    have heap: "h = [] \<longleftrightarrow> \<not> has_heap (replicate (length vs) t) vs" by (rule heap_nonempty [OF ty x])
    have "unpack_items (length vs) (slot_reader t) ?s =
      (if fields_fail (4 * length vs) (replicate (length vs) t) vs x h ?s then Inl (Throw (Stream_Error overrun))
       else Inr (vs, ?s\<lparr>is_pos := is_pos ?s + length x\<rparr>))"
      unfolding unpack_items_replicate map_replicate [of slot_reader, symmetric]
      by (rule flat_fields_read [OF assms(1) ty x there])
    moreover have "fields_fail (4 * length vs) (replicate (length vs) t) vs x h ?s \<longleftrightarrow>
        open_end (FL_vector t) (FV_vector vs) \<and> is_pos s + length ?b = is_end s"
      using heap True l by (auto simp: fields_fail_def b)
    ultimately show ?thesis using r s(3) True by (simp add: b)
  next
    case False
    have b: "?b = word_le 4 (of_nat (length vs) :: u32) @ img_items t vs" using False by (simp add: flat_bytes_def)
    have "length vs * 1 \<le> length vs * flatpack_size t" using assms(3) False by (intro mult_le_mono2) simp
    also have "\<dots> = length (img_items t vs)"
      using assms False by (intro length_items [symmetric]) simp_all
    finally have n: "length vs < 2 ^ 31" using s(4) by (simp add: b)
    note r = read_rest [OF s(1) s(2) [unfolded b] _ n]
    have "unpack_items (length vs) (slot_reader t) ?s = Inr (vs, ?s\<lparr>is_pos := is_pos ?s + length (img_items t vs)\<rparr>)"
      by (rule flat_items_read) (use assms False r s in \<open>simp_all add: b\<close>)
    then show ?thesis using r s(3) False by (simp add: b)
  qed
qed

lemma alt_index_nth: "distinct (map fst alts) \<Longrightarrow> i < length alts \<Longrightarrow> alts ! i = (hash, t) \<Longrightarrow> alt_index hash alts = Some i"
proof (induction alts arbitrary: i)
  case (Cons a alts)
  obtain h u where a: "a = (h, u)" by (cases a)
  show ?case
  proof (cases i)
    case 0
    then show ?thesis using Cons.prems a by simp
  next
    case (Suc j)
    then have "alts ! j = (hash, t)" "j < length alts" using Cons.prems by simp_all
    moreover from this have "(hash, t) \<in> set alts" by (metis nth_mem)
    then have "h \<noteq> hash" using Cons.prems(1) a by force
    ultimately show ?thesis using Cons a Suc by simp
  qed
qed simp

lemma init_variant_index: "distinct (map fst alts) \<Longrightarrow> i < length alts \<Longrightarrow> alts ! i = (hash, t) \<Longrightarrow> init_variant hash alts = i"
  by (simp add: init_variant_def alt_index_nth)

lemma reads_variant:
  assumes "reads_back t v" "flat_typed t v" "flat_wf t" "i < length alts" "alts ! i = (hash, t)" "distinct (map fst alts)"
    "contains_offset (FL_variant alts) \<or> inline_alt t"
  shows "reads_back (FL_variant alts) (FV_variant i v)"
  unfolding reads_back_def
proof (intro allI impI)
  fix s :: input_stream
  let ?b = "flat_bytes (FL_variant alts) (FV_variant i v)" and ?s = "s\<lparr>is_pos := is_pos s + 16\<rparr>"
  assume s: "is_inv s" "bytes_at (is_mem s) (is_pos s) ?b" "is_pos s + length ?b \<le> is_end s" "length ?b < 2 ^ 31"
  have idx: "init_variant hash alts = i"
    using assms(4-6) by (simp add: init_variant_index)
  have hash: "le_word (word_le 8 hash) = hash" by (simp add: le_word_word_le)
  show "if open_end (FL_variant alts) (FV_variant i v) \<and> is_pos s + length ?b = is_end s
        then flatunpack (FL_variant alts) s = Inl (Throw (Stream_Error overrun))
        else \<exists>s'. flatunpack (FL_variant alts) s = Inr (FV_variant i v, s') \<and>
          (\<not> contains_offset (FL_variant alts) \<longrightarrow> s' = s\<lparr>is_pos := is_pos s + flatpack_size (FL_variant alts)\<rparr>)"
  proof (cases "inline_alt t")
    case True
    then have t: "\<not> contains_offset t" "flatpack_size t \<le> 8" by (simp_all add: inline_alt_def)
    note img = img_in_line [OF assms(2,3) t(1)]
    let ?z = "replicate (8 - length (flat_bytes t v)) (0 :: byte)"
    have b: "?b = word_le 8 hash @ flat_bytes t v @ ?z"
      using True assms(5) img(2) by (simp add: flat_bytes_def [of "FL_variant alts"])
    have len: "length ?b = 16" using t(2) by (simp add: b img(3))
    note r = read_holds' [OF s(1,2) s(3) [unfolded len] len [symmetric]]
    let ?sub = "input_stream_vec (flat_bytes t v @ ?z)"
    have "\<exists>s'. flatunpack t ?sub = Inr (v, s')"
      using reads_backD(2) [OF assms(1), of ?sub] flat_not_open [OF assms(2,3) t(1)] t(2)
      by (auto simp: input_stream_vec_def is_inv_def img(3) bytes_at_def)
    moreover have "drop 8 ?b = flat_bytes t v @ ?z" "take 8 ?b = word_le 8 hash" by (simp_all add: b)
    ultimately show ?thesis
      using True assms(4,5) r idx hash by (auto simp: may_throw_def Let_def)
  next
    case False
    then have c: "contains_offset (FL_variant alts)" using assms(7) by simp
    let ?w = "word_le 8 hash @ word_le 4 (0 :: u32) @ word_le 4 (4 :: u32)"
    have b: "?b = ?w @ flat_bytes t v"
      using False assms(5) by (simp add: flat_bytes_def split: prod.splits)
    have "bytes_at (is_mem s) (is_pos s) ?w" "is_pos s + 16 \<le> is_end s"
      using s(2,3) by (simp_all add: b)
    note r = read_holds' [OF s(1) this(1) this(2), simplified]
    have parts: "take 8 ?w = word_le 8 hash" "drop 12 ?w = word_le 4 (4 :: u32)" by simp_all
    have "le_word (word_le 4 (4 :: u32)) = (4 :: u32)" by (rule le_word_word_le) simp
    moreover have "deref 4 ?s = Inr ?s"
      using s(3) by (simp add: deref_def input_stream_of_def b may_throw_def)
    ultimately have step: "flatunpack (FL_variant alts) s = rbind (flatunpack t ?s) (\<lambda>(v, _). Inr (FV_variant i v, ?s))"
      using False assms(4,5) r(1) idx hash by (simp add: may_throw_def Let_def)
    have h: "bytes_at (is_mem ?s) (is_pos ?s) (flat_bytes t v)" "is_pos ?s + length (flat_bytes t v) \<le> is_end ?s"
      "length (flat_bytes t v) < 2 ^ 31"
      using s by (simp_all add: b add.commute)
    note rbk = reads_backD [OF assms(1) r(2) h]
    have "open_end (FL_variant alts) (FV_variant i v) \<and> is_pos s + length ?b = is_end s \<longleftrightarrow>
        open_end t v \<and> is_pos ?s + length (flat_bytes t v) = is_end ?s"
      using False assms(5) by (simp add: b add.assoc)
    then show ?thesis
      using rbk c unfolding step by (cases "open_end t v \<and> is_pos ?s + length (flat_bytes t v) = is_end ?s") auto
  qed
qed

lemma reads_sized:
  assumes "v = FV_string bs \<or> v = FV_ptr bs" "flat_typed t v"
  shows "reads_back t v"
  unfolding reads_back_def
proof (intro allI impI)
  fix s :: input_stream
  let ?b = "flat_bytes t v" and ?s = "s\<lparr>is_pos := is_pos s + 4\<rparr>" and ?s' = "s\<lparr>is_pos := is_pos s + 4 + length bs\<rparr>"
  assume s: "is_inv s" "bytes_at (is_mem s) (is_pos s) ?b" "is_pos s + length ?b \<le> is_end s" "length ?b < 2 ^ 31"
  define e where "e = (if v = FV_string bs \<and> bs \<noteq> [] then [0 :: byte] else [])"
  have b: "?b = word_le 4 (of_nat (length bs) :: u32) @ bs @ e" using assms(1) by (auto simp: flat_bytes_def e_def)
  have n: "length bs < 2 ^ 31" using s(4) by (simp add: b)
  have le: "is_pos s + (4 + length (bs @ e)) \<le> is_end s" using s(3) by (simp add: b)
  note r = read_rest [OF s(1) s(2) [unfolded b] le n]
  have len: "length ?b = 4 + length bs + length e" by (simp add: b)
  have x: "is_read (length bs) ?s = Inr (bs, ?s')" "is_inv ?s'"
    using read_holds [of ?s bs] r s(3) by (simp_all add: b)
  have rem: "is_remaining ?s' = is_end s - (is_pos s + 4 + length bs)" using is_remaining_inv [OF x(2)] by simp
  show "if open_end t v \<and> is_pos s + length ?b = is_end s then flatunpack t s = Inl (Throw (Stream_Error overrun))
        else \<exists>s'. flatunpack t s = Inr (v, s') \<and> (\<not> contains_offset t \<longrightarrow> s' = s\<lparr>is_pos := is_pos s + flatpack_size t\<rparr>)"
    using assms(1)
  proof
    assume v: "v = FV_ptr bs"
    then have "t = FL_ptr" using assms(2) by simp
    then show ?thesis using v r x by (simp add: may_throw_def)
  next
    assume v: "v = FV_string bs"
    then have t: "t = FL_string" using assms(2) by simp
    have e: "length e = (if bs = [] then 0 else 1)" using v by (simp add: e_def)
    have "flatunpack t s = rbind (may_throw (is_skip 1 ?s')) (\<lambda>s. Inr (FV_string bs, s))"
      using r x by (simp add: t may_throw_def)
    moreover have "is_skip 1 ?s' =
        (if bs = [] \<and> is_pos s + length ?b = is_end s then Inl (Stream_Error overrun)
         else Inr (s\<lparr>is_pos := is_pos s + 4 + length bs + 1\<rparr>))"
      unfolding is_skip_def rem using le e len by (auto split: if_splits)
    ultimately show ?thesis using v t by (cases "bs = []") (simp_all add: may_throw_def)
  qed
qed

lemma all_read: "flat_typed t v \<Longrightarrow> flat_wf t \<Longrightarrow> reads_back t v"
proof (induction v arbitrary: t)
  case (FV_num bs)
  have b: "flat_bytes t (FV_num bs) = bs" "t = FL_num (length bs)" using FV_num by (simp_all add: flat_bytes_def)
  show ?case
    unfolding reads_back_def
  proof (intro allI impI)
    fix s :: input_stream
    assume s: "is_inv s" "bytes_at (is_mem s) (is_pos s) (flat_bytes t (FV_num bs))"
      "is_pos s + length (flat_bytes t (FV_num bs)) \<le> is_end s"
    show "if open_end t (FV_num bs) \<and> is_pos s + length (flat_bytes t (FV_num bs)) = is_end s
        then flatunpack t s = Inl (Throw (Stream_Error overrun))
        else \<exists>s'. flatunpack t s = Inr (FV_num bs, s') \<and>
          (\<not> contains_offset t \<longrightarrow> s' = s\<lparr>is_pos := is_pos s + flatpack_size t\<rparr>)"
      using read_holds(1) [OF s(1) s(2) [unfolded b(1)] s(3) [unfolded b(1)]] by (simp add: b(2) may_throw_def)
  qed
next
  case (FV_string bs)
  then show ?case by (intro reads_sized) auto
next
  case (FV_ptr bs)
  then show ?case by (intro reads_sized) auto
next
  case (FV_vector vs)
  then obtain u where u: "t = FL_vector u" by (cases t) auto
  show ?case unfolding u by (rule reads_vector) (use FV_vector u in auto)
next
  case (FV_struct vs)
  then obtain ts where ts: "t = FL_struct ts" by (cases t) auto
  have ty: "list_all2 flat_typed ts vs" using FV_struct.prems(1) unfolding ts typed_struct .
  have wf: "list_all flat_wf ts" using FV_struct.prems(2) by (simp add: ts)
  obtain x h where x: "img_fields (flatpack_size t) ts vs = (x, h)" by fastforce
  have l: "length x = flatpack_size t" using length_img_fields [OF ty wf x] by (simp add: ts flatpack_size_struct)
  have b: "flat_bytes t (FV_struct vs) = x @ h" using x by (simp add: flat_bytes_def ts)
  have heap: "h = [] \<longleftrightarrow> \<not> has_heap ts vs" by (rule heap_nonempty [OF ty wf x])
  have IH: "\<forall>v \<in> set vs. \<forall>t. flat_typed t v \<longrightarrow> flat_wf t \<longrightarrow> reads_back t v" using FV_struct.IH by blast
  show ?case
    unfolding reads_back_def
  proof (intro allI impI)
    fix s :: input_stream
    assume s: "is_inv s" "bytes_at (is_mem s) (is_pos s) (flat_bytes t (FV_struct vs))"
      "is_pos s + length (flat_bytes t (FV_struct vs)) \<le> is_end s" "length (flat_bytes t (FV_struct vs)) < 2 ^ 31"
    have "fields_there (flatpack_size t) x h s" using s l by (simp add: fields_there_def b)
    note r = flat_fields_read [OF IH ty wf x this]
    have "fields_fail (flatpack_size t) ts vs x h s \<longleftrightarrow>
        open_end t (FV_struct vs) \<and> is_pos s + length (flat_bytes t (FV_struct vs)) = is_end s"
      using heap l by (auto simp: fields_fail_def ts b [unfolded ts])
    then show "if open_end t (FV_struct vs) \<and> is_pos s + length (flat_bytes t (FV_struct vs)) = is_end s
        then flatunpack t s = Inl (Throw (Stream_Error overrun))
        else \<exists>s'. flatunpack t s = Inr (FV_struct vs, s') \<and>
          (\<not> contains_offset t \<longrightarrow> s' = s\<lparr>is_pos := is_pos s + flatpack_size t\<rparr>)"
      using r l by (simp add: ts)
  qed
next
  case (FV_variant i v)
  then obtain alts where alts: "t = FL_variant alts" by (cases t) auto
  obtain h u where hu: "alts ! i = (h, u)" by (cases "alts ! i")
  have i: "i < length alts" "flat_typed u v" using FV_variant.prems(1) by (simp_all add: alts hu)
  then have mem: "(h, u) \<in> set alts" using hu nth_mem by metis
  have wf: "flat_wf u" "distinct (map fst alts)" "contains_offset (FL_variant alts) \<or> inline_alt u"
    using FV_variant.prems(2) mem by (auto simp: alts)
  show ?case
    unfolding alts by (rule reads_variant [OF FV_variant.IH [OF i(2) wf(1)] i(2) wf(1) i(1) hu wf(2,3)])
qed

end
