(* ===== verification/Clio_Flatbuf_Props.thy ===== *)
theory Clio_Flatbuf_Props
  imports Clio_Flatbuf_Read
begin

text \<open>
  What holds of the flat buffers as a whole: the round trip through \<^verbatim>\<open>flat_ptr\<close>, that reading untrusted
  bytes stays inside of them, that a view of packed bytes leads to the packed member, and what the code
  gets wrong.
\<close>

section \<open>The round trip\<close>


definition flat_ex_ty :: flat_ty where
  "flat_ex_ty = FL_struct [FL_num 2, FL_string, FL_variant [(7, FL_num 1), (8, FL_string)], FL_vector FL_string]"

definition flat_ex :: flat_val where
  "flat_ex = FV_struct [FV_num [1, 2], FV_string [65], FV_variant 1 (FV_string [66]), FV_vector [FV_string [], FV_string [67]]]"


section \<open>Untrusted bytes\<close>

text \<open>
  The buffer cut down to the bytes from some place before the position to the end of the stream; a
  reader is safe where it cannot tell the difference.
\<close>

definition cut_stream :: "nat \<Rightarrow> input_stream \<Rightarrow> input_stream" where
  "cut_stream lo s = \<lparr>is_mem = drop lo (take (is_end s) (is_mem s)), is_pos = is_pos s - lo, is_end = is_end s - lo\<rparr>"

definition moved :: "input_stream \<Rightarrow> input_stream \<Rightarrow> bool" where
  "moved s s' \<longleftrightarrow> is_inv s' \<and> is_pos s \<le> is_pos s' \<and> is_mem s' = is_mem s \<and> is_end s' = is_end s"

definition safe_at :: "('v \<Rightarrow> bool) \<Rightarrow> (input_stream \<Rightarrow> fault + 'v \<times> input_stream) \<Rightarrow> nat \<Rightarrow> input_stream \<Rightarrow> bool" where
  "safe_at P f lo s \<longleftrightarrow>
     (case f s of
        Inl e \<Rightarrow> e = Throw (Stream_Error overrun) \<and> f (cut_stream lo s) = Inl e
      | Inr (v, s') \<Rightarrow> P v \<and> moved s s' \<and> f (cut_stream lo s) = Inr (v, cut_stream lo s'))"

definition safe_reader :: "('v \<Rightarrow> bool) \<Rightarrow> (input_stream \<Rightarrow> fault + 'v \<times> input_stream) \<Rightarrow> bool" where
  "safe_reader P f \<longleftrightarrow> (\<forall>lo s. is_inv s \<longrightarrow> lo \<le> is_pos s \<longrightarrow> safe_at P f lo s)"

lemma safe_readerI: "(\<And>lo s. is_inv s \<Longrightarrow> lo \<le> is_pos s \<Longrightarrow> safe_at P f lo s) \<Longrightarrow> safe_reader P f"
  by (simp add: safe_reader_def)

lemma safe_readerD: "safe_reader P f \<Longrightarrow> is_inv s \<Longrightarrow> lo \<le> is_pos s \<Longrightarrow> safe_at P f lo s"
  by (simp add: safe_reader_def)

lemma safe_cong: "(\<And>s. f s = g s) \<Longrightarrow> safe_at P g lo s \<Longrightarrow> safe_at P f lo s"
  by (subst ext [of f g]) simp_all

lemma is_inv_cut: "is_inv s \<Longrightarrow> lo \<le> is_pos s \<Longrightarrow> is_inv (cut_stream lo s)"
  by (auto simp: is_inv_def cut_stream_def)

lemma moved_refl: "is_inv s \<Longrightarrow> moved s s"
  by (simp add: moved_def)

lemma moved_trans: "moved s s' \<Longrightarrow> moved s' s'' \<Longrightarrow> moved s s''"
  by (auto simp: moved_def)

lemma safe_return: "is_inv s \<Longrightarrow> P v \<Longrightarrow> safe_at P (\<lambda>s. Inr (v, s)) lo s"
  by (simp add: safe_at_def moved_refl)

lemma safe_bind:
  assumes "safe_at P f lo s" "lo \<le> is_pos s"
    "\<And>v s'. P v \<Longrightarrow> f s = Inr (v, s') \<Longrightarrow> moved s s' \<Longrightarrow> is_inv s' \<Longrightarrow> lo \<le> is_pos s' \<Longrightarrow> safe_at Q (g v) lo s'"
  shows "safe_at Q (\<lambda>s. rbind (f s) (\<lambda>(v, s). g v s)) lo s"
proof (cases "f s")
  case (Inl e)
  then show ?thesis using assms(1) by (simp add: safe_at_def)
next
  case (Inr r)
  obtain v s' where r: "r = (v, s')" by (cases r)
  have v: "P v" "moved s s'" "f (cut_stream lo s) = Inr (v, cut_stream lo s')"
    using assms(1) Inr r by (simp_all add: safe_at_def)
  then have "safe_at Q (g v) lo s'"
    using assms(2,3) Inr r by (simp add: moved_def)
  then show ?thesis
    using Inr r v moved_trans by (auto simp: safe_at_def split: sum.splits)
qed

lemma cut_bytes:
  "lo \<le> is_pos s \<Longrightarrow> is_pos s + n \<le> is_end s \<Longrightarrow>
   take n (drop (is_pos (cut_stream lo s)) (is_mem (cut_stream lo s))) = take n (drop (is_pos s) (is_mem s))"
  by (simp add: cut_stream_def drop_take min_def)

lemma cut_simps [simp]:
  "is_pos (cut_stream lo s) = is_pos s - lo" "is_end (cut_stream lo s) = is_end s - lo"
  by (simp_all add: cut_stream_def)

lemma cut_advance: "lo \<le> is_pos s \<Longrightarrow> (cut_stream lo s)\<lparr>is_pos := is_pos s - lo + n\<rparr> = cut_stream lo (s\<lparr>is_pos := is_pos s + n\<rparr>)"
  by (simp add: cut_stream_def)

lemma safe_read:
  assumes "is_inv s" "lo \<le> is_pos s"
  shows "safe_at (\<lambda>bs. length bs = n) (\<lambda>s. may_throw (is_read n s)) lo s"
proof (cases "is_pos s + n \<le> is_end s")
  case True
  then have "is_read n s = Inr (take n (drop (is_pos s) (is_mem s)), s\<lparr>is_pos := is_pos s + n\<rparr>)"
    "is_read n (cut_stream lo s) = Inr (take n (drop (is_pos s) (is_mem s)), cut_stream lo (s\<lparr>is_pos := is_pos s + n\<rparr>))"
    using assms cut_bytes [OF assms(2) True] is_inv_cut [OF assms] cut_advance [OF assms(2)]
    by (simp_all add: is_read_def is_remaining_inv)
  moreover have "moved s (s\<lparr>is_pos := is_pos s + n\<rparr>)" "n \<le> length (is_mem s) - is_pos s"
    using assms(1) True by (auto simp: moved_def is_inv_def)
  ultimately show ?thesis by (simp add: safe_at_def may_throw_def)
next
  case False
  then have "is_end s - is_pos s < n" using assms(1) by (auto simp: is_inv_def)
  then show ?thesis using assms is_inv_cut [OF assms] by (simp add: safe_at_def may_throw_def is_read_def is_remaining_inv)
qed

lemma safe_map:
  assumes "safe_at P f lo s" "\<And>v. P v \<Longrightarrow> Q (g v)"
  shows "safe_at Q (\<lambda>s. rbind (f s) (\<lambda>(v, s). Inr (g v, s))) lo s"
  using assms by (auto simp: safe_at_def split: sum.splits)

text \<open>Behind a pointer: not before the four bytes that were read last.\<close>

lemma deref_cut:
  assumes "is_inv s" "lo + 4 \<le> is_pos s"
  shows "case deref w s of
      Inl e \<Rightarrow> e = Throw (Stream_Error overrun) \<and> deref w (cut_stream lo s) = Inl e
    | Inr sub \<Rightarrow> is_inv sub \<and> lo \<le> is_pos sub \<and> deref w (cut_stream lo s) = Inr (cut_stream lo sub)"
proof -
  have "is_pos s - lo + unat w - 4 = is_pos s + unat w - 4 - lo" using assms(2) by simp
  moreover have "lo \<le> is_pos s + unat w - 4" "lo \<le> is_end s" using assms by (auto simp: is_inv_def)
  ultimately show ?thesis
    using assms(1) by (auto simp: deref_def input_stream_of_def may_throw_def is_inv_def cut_stream_def)
qed

lemma safe_deref:
  assumes "safe_reader P f" "is_inv s" "lo + 4 \<le> is_pos s" "\<And>v. P v \<Longrightarrow> Q (g v)"
  shows "safe_at Q (\<lambda>s. rbind (deref w s) (\<lambda>sub. rbind (f sub) (\<lambda>(v, _). Inr (g v, s)))) lo s"
proof (cases "deref w s")
  case (Inl e)
  then show ?thesis using deref_cut [OF assms(2,3), of w] by (simp add: safe_at_def)
next
  case (Inr sub)
  then have "is_inv sub" "lo \<le> is_pos sub" "deref w (cut_stream lo s) = Inr (cut_stream lo sub)"
    using deref_cut [OF assms(2,3), of w] by simp_all
  moreover from this have "safe_at P f lo sub" using assms(1) by (simp add: safe_reader_def)
  ultimately show ?thesis
    using Inr assms(2,4) by (auto simp: safe_at_def moved_refl split: sum.splits)
qed

lemma safe_u32: "is_inv s \<Longrightarrow> lo \<le> is_pos s \<Longrightarrow> safe_at (\<lambda>_. True) read_u32 lo s"
  unfolding read_u32_def by (rule safe_map [OF safe_read]) auto

lemma read_u32_pos: "read_u32 s = Inr (w, s') \<Longrightarrow> is_pos s' = is_pos s + 4"
  by (auto simp: read_u32_def may_throw_def is_read_def split: if_splits)

lemma safe_slot: "safe_reader P f \<Longrightarrow> safe_reader P (unpack_slot ptr f)"
proof (cases ptr)
  case True
  assume f: "safe_reader P f"
  show ?thesis
  proof (rule safe_readerI)
    fix lo and s :: input_stream assume s: "is_inv s" "lo \<le> is_pos s"
    have "safe_at P (\<lambda>s. rbind (read_u32 s) (\<lambda>(w, s). rbind (deref w s) (\<lambda>sub. rbind (f sub) (\<lambda>(v, _). Inr (v, s))))) lo s"
      by (rule safe_bind [OF safe_u32 [OF s] s(2)], rule safe_deref [OF f]) (use s(2) read_u32_pos in auto)
    then show "safe_at P (unpack_slot ptr f) lo s" using True by (simp add: unpack_slot_def [abs_def])
  qed
qed simp

lemma safe_items:
  assumes "safe_reader P f"
  shows "safe_reader (\<lambda>vs. \<forall>v \<in> set vs. P v) (unpack_items n f)"
proof (induction n)
  case 0
  show ?case by (simp add: safe_reader_def safe_return)
next
  case (Suc n)
  show ?case
  proof (rule safe_readerI)
    fix lo and s :: input_stream assume s: "is_inv s" "lo \<le> is_pos s"
    have "safe_at (\<lambda>vs. \<forall>v \<in> set vs. P v) (\<lambda>s. rbind (f s) (\<lambda>(v, s). rbind (unpack_items n f s) (\<lambda>(vs, s). Inr (v # vs, s)))) lo s"
      by (rule safe_bind [OF safe_readerD [OF assms s] s(2)], rule safe_map [OF safe_readerD [OF Suc.IH]]) auto
    then show "safe_at (\<lambda>vs. \<forall>v \<in> set vs. P v) (unpack_items (Suc n) f) lo s" by (rule safe_cong [rotated]) simp
  qed
qed

lemma safe_members:
  assumes "list_all (\<lambda>t. safe_reader (flat_typed t) (f t)) ts"
  shows "safe_reader (\<lambda>vs. list_all2 flat_typed ts vs) (unpack_members (map f ts))"
  using assms
proof (induction ts)
  case Nil
  show ?case by (simp add: safe_reader_def safe_return)
next
  case (Cons t ts)
  have t: "safe_reader (flat_typed t) (f t)" and IH: "safe_reader (list_all2 flat_typed ts) (unpack_members (map f ts))"
    using Cons by simp_all
  show ?case
  proof (rule safe_readerI)
    fix lo and s :: input_stream assume s: "is_inv s" "lo \<le> is_pos s"
    have "safe_at (\<lambda>vs. list_all2 flat_typed (t # ts) vs)
      (\<lambda>s. rbind (f t s) (\<lambda>(v, s). rbind (unpack_members (map f ts) s) (\<lambda>(vs, s). Inr (v # vs, s)))) lo s"
      by (rule safe_bind [OF safe_readerD [OF t s] s(2)], rule safe_map [OF safe_readerD [OF IH]]) auto
    then show "safe_at (\<lambda>vs. list_all2 flat_typed (t # ts) vs) (unpack_members (map f (t # ts))) lo s" by (rule safe_cong [rotated]) simp
  qed
qed

text \<open>A \<^verbatim>\<open>std::variant\<close> has an alternative.\<close>

fun inhabited_ty :: "flat_ty \<Rightarrow> bool" where
  "inhabited_ty (FL_vector t) \<longleftrightarrow> inhabited_ty t"
| "inhabited_ty (FL_struct ts) \<longleftrightarrow> list_all inhabited_ty ts"
| "inhabited_ty (FL_variant alts) \<longleftrightarrow> alts \<noteq> [] \<and> (\<forall>(h, t) \<in> set alts. inhabited_ty t)"
| "inhabited_ty _ \<longleftrightarrow> True"

lemma alt_index_less: "alt_index type alts = Some i \<Longrightarrow> i < length alts"
  by (induction alts arbitrary: i) (auto split: if_splits)

lemma init_variant_less: "alts \<noteq> [] \<Longrightarrow> init_variant type alts < length alts"
  by (auto simp: init_variant_def alt_index_less split: option.splits)

lemma safe_weaken: "safe_at P f lo s \<Longrightarrow> (\<And>v. P v \<Longrightarrow> Q v) \<Longrightarrow> safe_at Q f lo s"
  by (auto simp: safe_at_def split: sum.splits)

lemma safe_skip:
  assumes "is_inv s" "lo \<le> is_pos s" "P v"
  shows "safe_at P (\<lambda>s. rbind (may_throw (is_skip n s)) (\<lambda>s. Inr (v, s))) lo s"
proof -
  have "rbind (may_throw (is_skip n s)) (\<lambda>s. Inr (v, s)) = rbind (may_throw (is_read n s)) (\<lambda>(bs, s). Inr (v, s))"
    for s :: input_stream
    by (simp add: is_skip_def is_read_def may_throw_def)
  then show ?thesis using safe_map [OF safe_read [OF assms(1,2)], of n P "\<lambda>_. v"] assms(3) by simp
qed

text \<open>An object read from bytes that lie elsewhere.\<close>

lemma safe_elsewhere:
  assumes "safe_reader P f" "is_inv s" "is_inv s0" "\<And>v. P v \<Longrightarrow> Q (g v)"
  shows "safe_at Q (\<lambda>s. rbind (f s0) (\<lambda>(v, _). Inr (g v, s))) lo s"
  using safe_readerD [OF assms(1,3), of 0] assms(2,4) by (auto simp: safe_at_def moved_refl split: sum.splits)

lemma safe_variant:
  assumes "\<forall>(h, t) \<in> set alts. safe_reader (flat_typed t) (\<lambda>s. flatunpack t s)" "alts \<noteq> []"
  shows "safe_reader (flat_typed (FL_variant alts)) (\<lambda>s. flatunpack (FL_variant alts) s)"
proof (rule safe_readerI)
  fix lo and s :: input_stream assume s: "is_inv s" "lo \<le> is_pos s"
  show "safe_at (flat_typed (FL_variant alts)) (\<lambda>s. flatunpack (FL_variant alts) s) lo s"
    unfolding flatunpack.simps
  proof (rule safe_bind [OF safe_read [OF s] s(2)])
    fix fv and s' :: input_stream
    assume fv: "length fv = 16" "may_throw (is_read 16 s) = Inr (fv, s')" and s': "is_inv s'"
    define i where "i = init_variant (le_word (take 8 fv)) alts"
    have i: "i < length alts" unfolding i_def by (rule init_variant_less [OF assms(2)])
    then have f: "safe_reader (flat_typed (snd (alts ! i))) (\<lambda>s. flatunpack (snd (alts ! i)) s)"
      using assms(1) nth_mem [of i alts] by (simp add: split_def)
    have pos: "lo + 4 \<le> is_pos s'" using fv(2) s(2) by (auto simp: may_throw_def is_read_def split: if_splits)
    have inv0: "is_inv (input_stream_vec (drop 8 fv))" using fv(1) by (simp add: input_stream_vec_def is_inv_def)
    show "safe_at (flat_typed (FL_variant alts))
     (\<lambda>s. let i = init_variant (le_word (take 8 fv)) alts
          in if i < length alts
             then let t = snd (alts ! i)
                  in if inline_alt t
                     then rbind (flatunpack t (input_stream_vec (drop 8 fv))) (\<lambda>(v, _). Inr (FV_variant i v, s))
                     else rbind (deref (le_word (drop 12 fv)) s)
                            (\<lambda>sub. rbind (flatunpack t sub) (\<lambda>(v, _). Inr (FV_variant i v, s)))
             else Inl Memory_Fault) lo s'"
    proof (cases "inline_alt (snd (alts ! i))")
      case True
      show ?thesis
        by (rule safe_cong [rotated], rule safe_elsewhere [OF f s' inv0, of "flat_typed (FL_variant alts)" "FV_variant i"])
           (use i True in \<open>simp_all add: i_def Let_def\<close>)
    next
      case False
      show ?thesis
        by (rule safe_cong [rotated], rule safe_deref [OF f s' pos, of "flat_typed (FL_variant alts)" "FV_variant i" "le_word (drop 12 fv)"])
           (use i False in \<open>simp_all add: i_def Let_def\<close>)
    qed
  qed
qed

lemma flat_all_safe: "inhabited_ty t \<Longrightarrow> safe_reader (flat_typed t) (\<lambda>s. flatunpack t s)"
proof (induction t)
  case (FL_num n)
  show ?case by (rule safe_readerI) (simp, rule safe_map [OF safe_read], auto)
next
  case FL_string
  show ?case
    by (rule safe_readerI)
       (simp only: flatunpack.simps, rule safe_bind [OF safe_u32], assumption+, rule safe_bind [OF safe_read], assumption+,
        rule safe_skip, auto)
next
  case FL_ptr
  show ?case
    by (rule safe_readerI)
       (simp only: flatunpack.simps, rule safe_bind [OF safe_u32], assumption+, rule safe_map [OF safe_read], auto)
next
  case (FL_vector t)
  then have t: "safe_reader (flat_typed t) (slot_reader t)" by (simp add: safe_slot)
  show ?case
    by (rule safe_readerI)
       (simp only: flatunpack.simps, rule safe_bind [OF safe_u32], assumption+,
        rule safe_map [OF safe_readerD [OF safe_items [OF t]]], auto)
next
  case (FL_struct ts)
  then have "list_all (\<lambda>t. safe_reader (flat_typed t) (slot_reader t)) ts" by (auto simp: list_all_iff intro: safe_slot)
  note m = safe_members [OF this]
  show ?case
    by (rule safe_readerI)
       (simp only: flatunpack.simps, rule safe_map [OF safe_readerD [OF m]], auto simp: typed_struct simp del: flat_typed.simps)
next
  case (FL_variant alts)
  then show ?case by (intro safe_variant) (force simp: snds.simps)+
qed


definition flat_ex_stream :: input_stream where
  "flat_ex_stream = \<lparr>is_mem = [9, 9, 1, 2, 4, 0, 0, 0, 1, 0, 0, 0, 65, 0, 9], is_pos = 2, is_end = 14\<rparr>"


end
