(* ===== verification/Clio_Flatbuf_View.thy ===== *)
theory Clio_Flatbuf_View
  imports Clio_Flatbuf_Read Clio_Flatbuf_Props
begin

text \<open>
  Views: the address a view operation computes in packed bytes is the one of the packed member, so that a
  path of member, element and visitor calls leads to what the same path leads to in the value.
\<close>

section \<open>Members and elements\<close>

lemma mem_u32_holds: "bytes_at mem a (word_le 4 (w :: u32)) \<Longrightarrow> mem_u32 mem a = Inr w"
  by (simp add: mem_u32_def bytes_at_def le_word_word_le)

lemma mem_u64_holds: "bytes_at mem a (word_le 8 (w :: u64)) \<Longrightarrow> mem_u64 mem a = Inr w"
  by (simp add: mem_u64_def bytes_at_def le_word_word_le)

text \<open>The packed object behind the slot at an address.\<close>

definition slot_holds :: "flat_ty \<Rightarrow> flat_val \<Rightarrow> byte list \<Rightarrow> nat \<Rightarrow> bool" where
  "slot_holds t v m p \<longleftrightarrow>
     (if contains_offset t
      then \<exists>k < 2 ^ 31. bytes_at m p (word_le 4 (of_nat k :: u32)) \<and> bytes_at m (p + k) (flat_bytes t v)
      else bytes_at m p (flat_bytes t v))"

lemma null_bytes: "empty_seq v \<Longrightarrow> flat_typed t v \<Longrightarrow> flat_bytes t v = word_le 4 (0 :: u32)"
  by (auto simp: empty_seq_def flat_bytes_def split: flat_ty.splits)

lemma fields_at:
  "list_all2 flat_typed ts vs \<Longrightarrow> list_all flat_wf ts \<Longrightarrow> img_fields d ts vs = (s, h) \<Longrightarrow> i < length vs \<Longrightarrow>
   bytes_at m p s \<Longrightarrow> bytes_at m (p + d) h \<Longrightarrow> length s \<le> d \<Longrightarrow> d + length h < 2 ^ 31 \<Longrightarrow>
   slot_holds (ts ! i) (vs ! i) m (p + tuple_offset i ts)"
proof (induction vs arbitrary: ts d s h p i)
  case (Cons v vs)
  obtain t ts' where ts: "ts = t # ts'" "flat_typed t v" "flat_wf t" "list_all2 flat_typed ts' vs" "list_all flat_wf ts'"
    using Cons.prems(1,2) by (auto simp: list_all2_Cons2)
  note img = Cons.prems(3) [unfolded ts(1)] and IH = Cons.IH [OF ts(4,5)]
  show ?case
  proof (cases rule: member_cases [where t = t and v = v])
    case flat
    obtain s' where s': "img_fields (d - flatpack_size t) ts' vs = (s', h)" "s = flat_bytes t v @ s'"
      by (rule img_fields_line [OF img flat ts(2,3)])
    have len: "length (flat_bytes t v) = flatpack_size t" by (rule img_in_line(3) [OF ts(2,3) flat])
    show ?thesis
      using IH [OF s'(1), of "i - 1" "p + flatpack_size t"] Cons.prems(4-) flat s'(2) len
      by (cases i) (auto simp: ts(1) slot_holds_def [of t] add_ac)
  next
    case null
    obtain s' where s': "img_fields (d - 4) ts' vs = (s', h)" "s = word_le 4 (0 :: u32) @ s'"
      by (rule img_fields_null [OF img null])
    have "slot_holds t v m p"
      using null Cons.prems(5) null_bytes [OF null(2) ts(2)] s'(2) by (auto simp: slot_holds_def intro: exI [of _ 0])
    then show ?thesis
      using IH [OF s'(1), of "i - 1" "p + 4"] Cons.prems(4-) null s'(2)
      by (cases i) (auto simp: ts(1) add_ac)
  next
    case ptr
    obtain s' h' where s': "img_fields (d - 4 + length (flat_bytes t v)) ts' vs = (s', h')"
      "s = word_le 4 (of_nat d :: u32) @ s'" "h = flat_bytes t v @ h'"
      by (rule img_fields_ptr [OF img ptr])
    have "slot_holds t v m p"
      using ptr Cons.prems(5-) s'(2,3) by (auto simp: slot_holds_def intro: exI [of _ d])
    then show ?thesis
      using IH [OF s'(1), of "i - 1" "p + 4"] Cons.prems(4-) ptr s'(2,3)
      by (cases i) (auto simp: ts(1) add_ac)
  qed
qed simp

lemma items_at:
  assumes "\<forall>v \<in> set vs. flat_typed t v" "flat_wf t" "\<not> contains_offset t" "i < length vs" "bytes_at m p (img_items t vs)"
  shows "bytes_at m (p + i * flatpack_size t) (flat_bytes t (vs ! i))"
  using assms
proof (induction vs arbitrary: p i)
  case (Cons v vs)
  have v: "flat_bytes t v = fst (flat_img t v)" "length (flat_bytes t v) = flatpack_size t"
    using img_in_line [of t v] Cons.prems(1-3) by simp_all
  show ?case
    using Cons.IH [of "i - 1" "p + flatpack_size t"] Cons.prems v
    by (cases i) (auto simp: add_ac)
qed simp

lemma length_img_items:
  "\<forall>v \<in> set vs. flat_typed t v \<Longrightarrow> flat_wf t \<Longrightarrow> \<not> contains_offset t \<Longrightarrow> length (img_items t vs) = length vs * flatpack_size t"
  by (induction vs) (simp_all add: img_in_line)

lemma tuple_offset_replicate: "contains_offset t \<Longrightarrow> i \<le> n \<Longrightarrow> tuple_offset i (replicate n t) = 4 * i"
proof (induction n arbitrary: i)
  case (Suc n)
  then show ?case by (cases i) simp_all
qed simp

section \<open>Paths\<close>

text \<open>
  A member of a struct, an element of a vector, or the alternative a visitor is called with. There are
  views of the types of \<^verbatim>\<open>viewable\<close>: a struct gives members in line as C++ objects and none that are
  variants, the elements of a vector are not variants in line, and a flat pointer is viewed through its
  object.
\<close>

datatype view_step = Member nat | Element nat | Visit

fun viewable :: "flat_ty \<Rightarrow> bool" where
  "viewable (FL_num n) \<longleftrightarrow> True"
| "viewable FL_string \<longleftrightarrow> True"
| "viewable FL_ptr \<longleftrightarrow> False"
| "viewable (FL_vector t) \<longleftrightarrow> viewable t \<and> (contains_offset t \<or> (\<forall>alts. t \<noteq> FL_variant alts))"
| "viewable (FL_struct ts) \<longleftrightarrow>
     list_all (\<lambda>t. viewable t \<and> (contains_offset t \<or> (\<exists>n. t = FL_num n)) \<and> (\<forall>alts. t \<noteq> FL_variant alts)) ts"
| "viewable (FL_variant alts) \<longleftrightarrow> (\<forall>(h, t) \<in> set alts. viewable t)"

fun val_at :: "flat_val \<Rightarrow> view_step list \<Rightarrow> flat_val option" where
  "val_at v [] = Some v"
| "val_at (FV_struct vs) (Member i # path) = (if i < length vs then val_at (vs ! i) path else None)"
| "val_at (FV_vector vs) (Element i # path) = (if i < length vs then val_at (vs ! i) path else None)"
| "val_at (FV_variant i v) (Visit # path) = val_at v path"
| "val_at _ _ = None"

fun view_at :: "flat_ty \<Rightarrow> view_step list \<Rightarrow> byte list \<Rightarrow> nat \<Rightarrow> fault + flat_ty \<times> nat" where
  "view_at t [] mem a = Inr (t, a)"
| "view_at (FL_struct ts) (Member i # path) mem a = rbind (view_member ts i mem a) (view_at (ts ! i) path mem)"
| "view_at (FL_vector t) (Element i # path) mem a = rbind (view_element t i mem a) (view_at t path mem)"
| "view_at (FL_variant alts) (Visit # path) mem a =
     rbind (view_visit alts mem a) (\<lambda>r.
     case r of Some (i, q) \<Rightarrow> view_at (snd (alts ! i)) path mem q | None \<Rightarrow> Inl Memory_Fault)"
| "view_at _ _ mem a = Inl Memory_Fault"

text \<open>Where one step leads.\<close>

lemma holds_split: "length xs + length ys < 2 ^ 31 \<Longrightarrow> bytes_at m a (xs @ ys) \<Longrightarrow>
    bytes_at m a xs \<and> bytes_at m (a + length xs) ys \<and> length xs < 2 ^ 31 \<and> length ys < 2 ^ 31"
  by simp

lemma unat_small: "k < 2 ^ 31 \<Longrightarrow> unat (of_nat k :: u32) = k"
  by (rule unat_of_nat_u32) simp

lemma slot_get:
  assumes "slot_holds t v m p" "contains_offset t" "t = FL_ptr \<Longrightarrow> u = FL_vector w"
  shows "\<exists>q. offset_get u m p = Inr q \<and> (u \<noteq> FL_ptr \<longrightarrow> bytes_at m q (flat_bytes t v))"
proof -
  obtain k where k: "k < 2 ^ 31" "bytes_at m p (word_le 4 (of_nat k :: u32))" "bytes_at m (p + k) (flat_bytes t v)"
    using assms(1,2) by (auto simp: slot_holds_def)
  then show ?thesis using mem_u32_holds [OF k(2)] unat_small [OF k(1)] by (simp add: offset_get_def)
qed

lemma view_member_at:
  assumes "list_all2 flat_typed ts vs" "flat_wf (FL_struct ts)" "i < length vs" "ts ! i \<noteq> FL_ptr"
    "bytes_at m a (flat_bytes (FL_struct ts) (FV_struct vs))" "length (flat_bytes (FL_struct ts) (FV_struct vs)) < 2 ^ 31"
  shows "\<exists>q. view_member ts i m a = Inr q \<and> bytes_at m q (flat_bytes (ts ! i) (vs ! i))"
proof -
  let ?d = "flatpack_size (FL_struct ts)"
  obtain x h where x: "img_fields ?d ts vs = (x, h)" by fastforce
  have wf: "list_all flat_wf ts" using assms(2) by simp
  have l: "length x = ?d" using length_img_fields [OF assms(1) wf x] by (simp add: flatpack_size_struct)
  have b: "flat_bytes (FL_struct ts) (FV_struct vs) = x @ h" using x by (simp add: flat_bytes_def)
  have h: "bytes_at m a x" "bytes_at m (a + ?d) h" "?d + length h < 2 ^ 31" using assms(5,6) l by (simp_all add: b)
  have "slot_holds (ts ! i) (vs ! i) m (a + tuple_offset i ts)"
    by (rule fields_at [OF assms(1) wf x assms(3) h(1,2)]) (use l h(3) in simp_all)
  then show ?thesis
    using slot_get [of "ts ! i" "vs ! i" m _ "ts ! i"] assms(4) by (auto simp: view_member_def Let_def slot_holds_def)
qed

lemma view_element_at:
  assumes "\<forall>v \<in> set vs. flat_typed t v" "flat_wf (FL_vector t)" "viewable (FL_vector t)" "i < length vs"
    "bytes_at m a (flat_bytes (FL_vector t) (FV_vector vs))" "length (flat_bytes (FL_vector t) (FV_vector vs)) < 2 ^ 31"
  shows "\<exists>q. view_element t i m a = Inr q \<and> bytes_at m q (flat_bytes t (vs ! i))"
proof (cases "contains_offset t")
  case True
  let ?ts = "replicate (length vs) t"
  obtain x h where x: "img_fields (4 * length vs) ?ts vs = (x, h)" by fastforce
  have ty: "list_all2 flat_typed ?ts vs" "list_all flat_wf ?ts" using assms(1,2) by (auto simp: list_all2_conv_all_nth list_all_iff)
  have l: "length x = 4 * length vs" using length_img_fields [OF ty x] True by (simp add: sum_list_replicate)
  have b: "flat_bytes (FL_vector t) (FV_vector vs) = word_le 4 (of_nat (length vs) :: u32) @ x @ h"
    using x True by (simp add: flat_bytes_def)
  have h: "bytes_at m (a + 4) x" "bytes_at m (a + 4 + 4 * length vs) h" "4 * length vs + length h < 2 ^ 31"
    "bytes_at m a (word_le 4 (of_nat (length vs) :: u32))"
    using assms(5,6) l by (simp_all add: b)
  then have n: "length vs < 2 ^ 31" by simp
  have "slot_holds (?ts ! i) (vs ! i) m (a + 4 + tuple_offset i ?ts)"
    by (rule fields_at [OF ty x assms(4) h(1,2)]) (use l h(3) in simp_all)
  then have "slot_holds t (vs ! i) m (a + 4 + 4 * i)"
    using assms(4) True by (simp add: tuple_offset_replicate)
  then show ?thesis
    using slot_get [of t "vs ! i" m _ "FL_vector t"] True assms(4) mem_u32_holds [OF h(4)] unat_small [OF n]
    by (simp add: view_element_def)
next
  case False
  have b: "flat_bytes (FL_vector t) (FV_vector vs) = word_le 4 (of_nat (length vs) :: u32) @ img_items t vs"
    using False by (simp add: flat_bytes_def)
  have wf: "flat_wf t" using assms(2) by simp
  have h: "bytes_at m (a + 4) (img_items t vs)" "length vs * flatpack_size t < 2 ^ 31"
    "bytes_at m a (word_le 4 (of_nat (length vs) :: u32))"
    using assms(5,6) length_img_items [OF assms(1) wf False] by (simp_all add: b)
  have "0 < flatpack_size t" using assms(2) False by simp
  then have "length vs \<le> length vs * flatpack_size t" by simp
  then have n: "length vs < 2 ^ 31" using h(2) by (rule le_less_trans)
  have at: "bytes_at m (a + 4 + i * flatpack_size t) (flat_bytes t (vs ! i))"
    by (rule items_at [OF assms(1) wf False assms(4) h(1)])
  have "i * flatpack_size t \<le> length vs * flatpack_size t" using assms(4) by simp
  then have "i * flatpack_size t < 2 ^ 31" using h(2) by (rule le_less_trans)
  from unat_small [OF this] have "unat (of_nat i * of_nat (flatpack_size t) :: u32) = i * flatpack_size t" by simp
  moreover obtain n ts where "t = FL_num n \<or> t = FL_struct ts"
    using False assms(3) by (cases t) auto
  ultimately show ?thesis
    using at False assms(4) mem_u32_holds [OF h(3)] unat_small [OF n] by (auto simp: view_element_def)
qed

lemma view_visit_at:
  assumes "flat_typed (FL_variant alts) (FV_variant i v)" "flat_wf (FL_variant alts)"
    "bytes_at m a (flat_bytes (FL_variant alts) (FV_variant i v))"
  shows "\<exists>q. view_visit alts m a = Inr (Some (i, q)) \<and> bytes_at m q (flat_bytes (snd (alts ! i)) v)"
proof -
  obtain hash t where ht: "alts ! i = (hash, t)" by (cases "alts ! i")
  have i: "i < length alts" "flat_typed t v" using assms(1) ht by simp_all
  then have mem: "(hash, t) \<in> set alts" using ht nth_mem by metis
  have wf: "flat_wf t" "distinct (map fst alts)" using assms(2) mem by auto
  have idx: "alt_index hash alts = Some i" by (rule alt_index_nth [OF wf(2) i(1) ht])
  show ?thesis
  proof (cases "inline_alt t")
    case True
    then have "\<not> contains_offset t" by (simp add: inline_alt_def)
    note img = img_in_line [OF i(2) wf(1) this]
    have b: "flat_bytes (FL_variant alts) (FV_variant i v) = word_le 8 hash @ flat_bytes t v @ replicate (8 - length (flat_bytes t v)) 0"
      using True ht img(2) by (simp add: flat_bytes_def [of "FL_variant alts"])
    have "bytes_at m a (word_le 8 hash)" "bytes_at m (a + 8) (flat_bytes t v)" using assms(3) by (simp_all add: b)
    then show ?thesis using True ht idx mem_u64_holds by (simp add: view_visit_def)
  next
    case False
    have b: "flat_bytes (FL_variant alts) (FV_variant i v) =
        word_le 8 hash @ word_le 4 (0 :: u32) @ word_le 4 (4 :: u32) @ flat_bytes t v"
      using False ht by (simp add: flat_bytes_def split: prod.splits)
    have "bytes_at m a (word_le 8 hash)" "bytes_at m (a + 12) (word_le 4 (4 :: u32))" "bytes_at m (a + 16) (flat_bytes t v)"
      using assms(3) by (simp_all add: b add.assoc)
    moreover from this(3) have "bytes_at m (16 + a) (flat_bytes t v)" by (simp only: add.commute)
    ultimately show ?thesis using False ht idx mem_u64_holds mem_u32_holds by (simp add: view_visit_def)
  qed
qed

lemma holds_length: "bytes_at m a xs \<Longrightarrow> length m < 2 ^ 31 \<Longrightarrow> length xs < 2 ^ 31"
  by (simp add: bytes_at_def)



section \<open>What the code gets wrong\<close>

lemma index_from_type_found: "index_from_type hashes type = Some i \<Longrightarrow> tl hashes = [] \<or> hd hashes = type"
proof (erule index_from_type.raw_induct [rotated], goal_cases)
  case (1 f hashes type y)
  then show ?case by (cases hashes) (fastforce split: if_splits simp: bind_eq_Some_conv)+
qed

text \<open>C37 (liveness): \<^verbatim>\<open>index_from_type\<close> of a variant with several alternatives returns for the first of them
  only and runs forever for every other, and for a variant with one alternative it returns an index past
  the end when the hash is another one.\<close>

theorem flat_index_from_type:
  "index_from_type hashes type =
    (case hashes of
       [] \<Rightarrow> None
     | h # hs \<Rightarrow> if hs = [] then Some (if h = type then 0 else 1) else if h = type then Some 0 else None)"
proof (cases hashes)
  case Nil
  then show ?thesis by (simp add: index_from_type.simps [of "[]"])
next
  case (Cons h hs)
  show ?thesis
  proof (cases "hs = [] \<or> h = type")
    case True
    then show ?thesis using Cons by (subst index_from_type.simps) auto
  next
    case False
    then have "index_from_type hashes type = None"
      using index_from_type_found [of hashes type] Cons by (cases "index_from_type hashes type") auto
    then show ?thesis using Cons False by simp
  qed
qed


end
