(* ===== verification/Rapidjson_Reader.thy ===== *)
theory Rapidjson_Reader
  imports Clio_Json_Text
begin

text \<open>
  The token stream under from_json: \<^verbatim>\<open>json_token_stream\<close> (from_json.hpp) on the iterative parser of the
  vendored rapidjson (reader.h), with the flags the stream uses: in situ, encoding validated, numbers
  as strings, no comments, no trailing commas. The handler's methods all return true, so an event is
  the token it leaves in \<^verbatim>\<open>current_token\<close>.
\<close>

section \<open>Tokens\<close>

datatype json_token =
    Tok_unread | Tok_null | Tok_bool bool | Tok_string string | Tok_start_object | Tok_key string
  | Tok_end_object | Tok_start_array | Tok_end_array

datatype it_state =
    It_Finish | It_Error | It_Start
  | It_ObjectInitial | It_MemberKey | It_MemberValue | It_ObjectFinish
  | It_ArrayInitial | It_Element | It_ArrayFinish
  | It_Value
  | It_ElementDelimiter | It_MemberDelimiter | It_KeyValueDelimiter

datatype it_token =
    LeftBracket | RightBracket | LeftCurlyBracket | RightCurlyBracket | Comma | Colon
  | StringToken | FalseToken | TrueToken | NullToken | NumberToken

definition tokenize :: "char \<Rightarrow> it_token" where
  "tokenize c =
     (if c = CHR 0x22 then StringToken else if c = CHR '','' then Comma else if c = CHR '':'' then Colon
      else if c = CHR 0x5B then LeftBracket else if c = CHR 0x5D then RightBracket
      else if c = CHR ''f'' then FalseToken else if c = CHR ''n'' then NullToken else if c = CHR ''t'' then TrueToken
      else if c = CHR 0x7B then LeftCurlyBracket else if c = CHR 0x7D then RightCurlyBracket else NumberToken)"

text \<open>The table of \<^verbatim>\<open>Predict\<close>, row by row.\<close>

fun predict :: "it_state \<Rightarrow> it_token \<Rightarrow> it_state" where
  "predict It_Finish t = It_Error"
| "predict It_Error t = It_Error"
| "predict It_Start t =
     (case t of
        LeftBracket \<Rightarrow> It_ArrayInitial | LeftCurlyBracket \<Rightarrow> It_ObjectInitial
      | RightBracket \<Rightarrow> It_Error | RightCurlyBracket \<Rightarrow> It_Error | Comma \<Rightarrow> It_Error | Colon \<Rightarrow> It_Error
      | _ \<Rightarrow> It_Value)"
| "predict It_ObjectInitial t =
     (case t of RightCurlyBracket \<Rightarrow> It_ObjectFinish | StringToken \<Rightarrow> It_MemberKey | _ \<Rightarrow> It_Error)"
| "predict It_MemberKey t = (case t of Colon \<Rightarrow> It_KeyValueDelimiter | _ \<Rightarrow> It_Error)"
| "predict It_MemberValue t =
     (case t of RightCurlyBracket \<Rightarrow> It_ObjectFinish | Comma \<Rightarrow> It_MemberDelimiter | _ \<Rightarrow> It_Error)"
| "predict It_ObjectFinish t = It_Error"
| "predict It_ArrayInitial t =
     (case t of
        LeftBracket \<Rightarrow> It_ArrayInitial | RightBracket \<Rightarrow> It_ArrayFinish | LeftCurlyBracket \<Rightarrow> It_ObjectInitial
      | RightCurlyBracket \<Rightarrow> It_Error | Comma \<Rightarrow> It_Error | Colon \<Rightarrow> It_Error
      | _ \<Rightarrow> It_Element)"
| "predict It_Element t =
     (case t of RightBracket \<Rightarrow> It_ArrayFinish | Comma \<Rightarrow> It_ElementDelimiter | _ \<Rightarrow> It_Error)"
| "predict It_ArrayFinish t = It_Error"
| "predict It_Value t = It_Error"
| "predict It_ElementDelimiter t =
     (case t of
        LeftBracket \<Rightarrow> It_ArrayInitial | RightBracket \<Rightarrow> It_ArrayFinish | LeftCurlyBracket \<Rightarrow> It_ObjectInitial
      | RightCurlyBracket \<Rightarrow> It_Error | Comma \<Rightarrow> It_Error | Colon \<Rightarrow> It_Error
      | _ \<Rightarrow> It_Element)"
| "predict It_MemberDelimiter t =
     (case t of RightCurlyBracket \<Rightarrow> It_ObjectFinish | StringToken \<Rightarrow> It_MemberKey | _ \<Rightarrow> It_Error)"
| "predict It_KeyValueDelimiter t =
     (case t of
        LeftBracket \<Rightarrow> It_ArrayInitial | LeftCurlyBracket \<Rightarrow> It_ObjectInitial
      | RightBracket \<Rightarrow> It_Error | RightCurlyBracket \<Rightarrow> It_Error | Comma \<Rightarrow> It_Error | Colon \<Rightarrow> It_Error
      | _ \<Rightarrow> It_MemberValue)"

definition is_delimiter_state :: "it_state \<Rightarrow> bool" where
  "is_delimiter_state s \<longleftrightarrow> s = It_ElementDelimiter \<or> s = It_MemberDelimiter \<or> s = It_KeyValueDelimiter"

definition is_complete_state :: "it_state \<Rightarrow> bool" where
  "is_complete_state s \<longleftrightarrow> s = It_Finish \<or> s = It_Error"

section \<open>Values\<close>

definition consume :: "string \<Rightarrow> string \<Rightarrow> string option" where
  "consume lit is = (if take (length lit) is = lit then Some (drop (length lit) is) else None)"

definition parse_literal :: "string \<Rightarrow> json_token \<Rightarrow> string \<Rightarrow> parse_error + json_token \<times> string" where
  "parse_literal lit t is =
     (case consume lit (tl is) of Some is \<Rightarrow> Inr (t, is) | None \<Rightarrow> Inl ParseErrorValueInvalid)"

text \<open>
  \<^verbatim>\<open>ParseNumber\<close> with numbers as strings. The double is only compared with zero, so the model keeps
  whether a digit other than zero was read. First the number of digits that fit the integers: what
  goes beyond 64 bits is a double.
\<close>

definition number_limit :: "bool \<Rightarrow> nat" where
  "number_limit neg = (if neg then 2 ^ 63 else 2 ^ 64 - 1)"

fun int_part :: "nat \<Rightarrow> nat \<Rightarrow> nat \<Rightarrow> string \<Rightarrow> nat \<times> nat \<times> bool" where
  "int_part lim acc sig [] = (acc, sig, False)"
| "int_part lim acc sig (c # cs) =
     (let a = acc * 10 + nat (digit_of c)
      in if a > lim then (acc, sig, True) else int_part lim a (Suc sig) cs)"

text \<open>The digits of the fraction that count for \<^verbatim>\<open>expFrac\<close>: while the significand is an integer
  below 53 bits, then while fewer than 17 digits are significant.\<close>

fun frac_slow :: "nat \<Rightarrow> bool \<Rightarrow> string \<Rightarrow> nat" where
  "frac_slow sig pos [] = 0"
| "frac_slow sig pos (c # cs) =
     (if sig < 17 then
        let pos = (pos \<or> digit_of c \<noteq> 0)
        in Suc (frac_slow (if pos then Suc sig else sig) pos cs)
      else frac_slow sig pos cs)"

fun frac_fast :: "nat \<Rightarrow> nat \<Rightarrow> string \<Rightarrow> nat" where
  "frac_fast i64 sig [] = 0"
| "frac_fast i64 sig (c # cs) =
     (if i64 > 2 ^ 53 - 1 then frac_slow sig (i64 > 0) (c # cs)
      else
        let i64 = i64 * 10 + nat (digit_of c)
        in Suc (frac_fast i64 (if i64 \<noteq> 0 then Suc sig else sig) cs))"

definition parse_exponent :: "nat \<Rightarrow> string \<Rightarrow> parse_error + string \<times> string" where
  "parse_exponent exp_frac s =
     (if peek s = CHR ''e'' \<or> peek s = CHR ''E'' then
        let sign = (if peek (tl s) = CHR ''+'' \<or> peek (tl s) = CHR ''-'' then [peek (tl s)] else []);
            s' = drop (1 + length sign) s;
            ds = takeWhile is_digit s'
        in if ds = [] then Inl ParseErrorNumberMissExponent
           else if sign \<noteq> ''-'' \<and> length ds > 1 \<and> digits_value ds > int (308 + exp_frac) then Inl ParseErrorNumberTooBig
           else Inr (peek s # sign @ ds, dropWhile is_digit s')
      else Inr ([], s))"

text \<open>The fraction and the exponent, after the digits \<^verbatim>\<open>ds\<close> of the integer.\<close>

definition parse_number_tail :: "bool \<Rightarrow> string \<Rightarrow> string \<Rightarrow> parse_error + json_token \<times> string" where
  "parse_number_tail neg ds s =
     (let (i64, sig, big) = int_part (number_limit neg) (nat (digit_of (hd ds))) 0 (tl ds);
          frac = (if peek s = CHR ''.'' then takeWhile is_digit (tl s) else [])
      in if peek s = CHR ''.'' \<and> frac = [] then Inl ParseErrorNumberMissFraction
         else
           let exp_frac = (if big then frac_slow 17 True frac else frac_fast i64 sig frac);
               point = (if peek s = CHR ''.'' then ''.'' else [])
           in (case parse_exponent exp_frac (drop (length (point @ frac)) s) of
                 Inl e \<Rightarrow> Inl e
               | Inr (ex, rest) \<Rightarrow>
                   Inr (Tok_string ((if neg then ''-'' else []) @ ds @ point @ frac @ ex), rest)))"

definition parse_number :: "string \<Rightarrow> parse_error + json_token \<times> string" where
  "parse_number is =
     (let neg = (peek is = CHR ''-'');
          s = (if neg then tl is else is);
          ds = (if peek s = CHR ''0'' then ''0'' else takeWhile is_digit s)
      in if ds = [] then Inl ParseErrorValueInvalid else parse_number_tail neg ds (drop (length ds) s))"

text \<open>\<^verbatim>\<open>ParseValue\<close> for values that are not compound.\<close>

definition parse_value :: "string \<Rightarrow> parse_error + json_token \<times> string" where
  "parse_value is =
     (if peek is = CHR ''n'' then parse_literal ''ull'' Tok_null is
      else if peek is = CHR ''t'' then parse_literal ''rue'' (Tok_bool True) is
      else if peek is = CHR ''f'' then parse_literal ''alse'' (Tok_bool False) is
      else if peek is = CHR 0x22 then map_sum id (map_prod Tok_string id) (parse_string (tl is))
      else parse_number is)"

section \<open>The state machine\<close>

text \<open>
  The reader and the stream on it: the state, the stack of (state, element count) frames, the input
  that is left and the current token.
\<close>

record json_stream =
  js_state :: it_state
  js_stack :: "(it_state \<times> nat) list"
  js_input :: string
  js_token :: json_token

definition skip_whitespace :: "string \<Rightarrow> string" where
  "skip_whitespace = dropWhile (\<lambda>c. c = CHR '' '' \<or> c = CHR 0x0A \<or> c = CHR 0x0D \<or> c = CHR 0x09)"

definition resume_state :: "it_state \<Rightarrow> it_state" where
  "resume_state src =
     (if src = It_ArrayInitial \<or> src = It_ElementDelimiter then It_Element
      else if src = It_KeyValueDelimiter then It_MemberValue
      else src)"

definition emit :: "json_stream \<Rightarrow> it_state \<Rightarrow> parse_error + json_token \<times> string \<Rightarrow> parse_error option + it_state \<times> json_stream" where
  "emit s d r = (case r of Inl e \<Rightarrow> Inl (Some e) | Inr (t, is) \<Rightarrow> Inr (d, s\<lparr>js_input := is, js_token := t\<rparr>))"

text \<open>
  \<^verbatim>\<open>Transit\<close>: on success the new state and the stream after the handler's event, on failure the
  error it raised, or None for the error state alone. Its pops and its increment of the count are
  undefined on an empty stack; the model marks that with the error of a handler that stops the parser,
  which no handler of the stream does, and json_reader_safe shows that it never comes out. The
  counts the frames hold are only passed to handlers that ignore them.
\<close>

definition pop_frame :: "it_state \<Rightarrow> json_token \<Rightarrow> json_stream \<Rightarrow> parse_error option + it_state \<times> json_stream" where
  "pop_frame src t s =
     (case js_stack s of
        [] \<Rightarrow> Inl (Some ParseErrorTermination)
      | (n, c) # st \<Rightarrow>
          Inr (if n = It_Start then It_Finish else n,
               s\<lparr>js_stack := st, js_input := tl (js_input s), js_token := t\<rparr>))"

definition count_element :: "json_stream \<Rightarrow> it_state \<Rightarrow> parse_error option + it_state \<times> json_stream" where
  "count_element s d =
     (case js_stack s of
        [] \<Rightarrow> Inl (Some ParseErrorTermination)
      | (n, c) # st \<Rightarrow> Inr (d, s\<lparr>js_stack := (n, c + 1) # st, js_input := tl (js_input s)\<rparr>))"

definition transit :: "it_state \<Rightarrow> it_state \<Rightarrow> json_stream \<Rightarrow> parse_error option + it_state \<times> json_stream" where
  "transit src dst s =
     (case dst of
        It_Error \<Rightarrow> Inl None
      | It_ObjectInitial \<Rightarrow>
          Inr (dst, s\<lparr>js_stack := (resume_state src, 0) # js_stack s, js_input := tl (js_input s), js_token := Tok_start_object\<rparr>)
      | It_ArrayInitial \<Rightarrow>
          Inr (dst, s\<lparr>js_stack := (resume_state src, 0) # js_stack s, js_input := tl (js_input s), js_token := Tok_start_array\<rparr>)
      | It_MemberKey \<Rightarrow> emit s dst (map_sum id (map_prod Tok_key id) (parse_string (tl (js_input s))))
      | It_KeyValueDelimiter \<Rightarrow> Inr (dst, s\<lparr>js_input := tl (js_input s)\<rparr>)
      | It_MemberValue \<Rightarrow> emit s dst (parse_value (js_input s))
      | It_Element \<Rightarrow> emit s dst (parse_value (js_input s))
      | It_MemberDelimiter \<Rightarrow> count_element s dst
      | It_ElementDelimiter \<Rightarrow> count_element s dst
      | It_ObjectFinish \<Rightarrow>
          if src = It_MemberDelimiter then Inl (Some ParseErrorObjectMissName) else pop_frame src Tok_end_object s
      | It_ArrayFinish \<Rightarrow>
          if src = It_ElementDelimiter then Inl (Some ParseErrorValueInvalid) else pop_frame src Tok_end_array s
      | _ \<Rightarrow> emit s It_Finish (parse_value (js_input s)))"

definition handle_error :: "it_state \<Rightarrow> parse_error option \<Rightarrow> parse_error" where
  "handle_error src err =
     (case err of
        Some e \<Rightarrow> e
      | None \<Rightarrow>
          (case src of
             It_Start \<Rightarrow> ParseErrorDocumentEmpty
           | It_Finish \<Rightarrow> ParseErrorDocumentRootNotSingular
           | It_ObjectInitial \<Rightarrow> ParseErrorObjectMissName
           | It_MemberDelimiter \<Rightarrow> ParseErrorObjectMissName
           | It_MemberKey \<Rightarrow> ParseErrorObjectMissColon
           | It_MemberValue \<Rightarrow> ParseErrorObjectMissCommaOrCurlyBracket
           | It_KeyValueDelimiter \<Rightarrow> ParseErrorValueInvalid
           | It_ArrayInitial \<Rightarrow> ParseErrorValueInvalid
           | It_ElementDelimiter \<Rightarrow> ParseErrorValueInvalid
           | _ \<Rightarrow> ParseErrorArrayMissCommaOrSquareBracket))"

lemma skip_whitespace_length: "length (skip_whitespace is) \<le> length is"
  by (simp add: skip_whitespace_def length_dropWhile_le)

lemma transit_delimiter_shrinks:
  assumes "transit src d s = Inr (d', s')" and "is_delimiter_state d" and "js_input s \<noteq> []"
  shows "length (js_input s') < length (js_input s)"
  using assms
  by (auto simp: transit_def is_delimiter_state_def count_element_def split: list.splits)

lemma delimiter_token:
  "is_delimiter_state (predict st (tokenize c)) \<Longrightarrow> c = CHR '','' \<or> c = CHR '':''"
  by (cases st) (auto simp: tokenize_def is_delimiter_state_def split: if_splits)

text \<open>
  \<^verbatim>\<open>IterativeParseNext\<close>. A delimiter consumes a character and the loop goes on; every other
  transition ends the call. At the end of a complete document no event is emitted.
\<close>

function iterative_parse_next :: "json_stream \<Rightarrow> parse_error + json_stream" where
  "iterative_parse_next s =
     (if peek (js_input s) = CHR 0x00 then
        let s = s\<lparr>js_stack := []\<rparr>
        in if js_state s \<noteq> It_Finish then Inl (handle_error (js_state s) None) else Inr s
      else
        let s = s\<lparr>js_input := skip_whitespace (js_input s)\<rparr>;
            n = predict (js_state s) (tokenize (peek (js_input s)))
        in case transit (js_state s) n s of
             Inl e \<Rightarrow> Inl (handle_error (js_state s) e)
           | Inr (d, s) \<Rightarrow>
               if d = It_Finish then
                 let s = s\<lparr>js_state := d, js_input := skip_whitespace (js_input s)\<rparr>
                 in if peek (js_input s) \<noteq> CHR 0x00 then Inl (handle_error d None) else Inr s
               else
                 let s = s\<lparr>js_state := d\<rparr>
                 in if \<not> is_delimiter_state n then Inr s else iterative_parse_next s)"
  by pat_completeness auto

termination
proof (relation "measure (\<lambda>s. length (js_input s))", goal_cases)
  case 1
  show ?case by simp
next
  case (2 s s1 n x2 d s2 s3)
  then have "js_input s1 \<noteq> []"
    using delimiter_token [of "js_state s1" "peek (js_input s1)"] by (auto simp: peek_def)
  then have "length (js_input s2) < length (js_input s1)"
    using 2 transit_delimiter_shrinks by fastforce
  moreover have "length (js_input s1) \<le> length (js_input s)"
    using 2 skip_whitespace_length by simp
  ultimately show ?case using 2 by simp
qed

declare iterative_parse_next.simps [simp del]

section \<open>The token stream\<close>

definition json_token_stream_new :: "string \<Rightarrow> json_stream" where
  "json_token_stream_new json = \<lparr>js_state = It_Start, js_stack = [], js_input = json, js_token = Tok_unread\<rparr>"

definition complete :: "json_stream \<Rightarrow> bool" where
  "complete s \<longleftrightarrow> is_complete_state (js_state s)"

definition peek_token :: "json_stream \<Rightarrow> from_json_error + json_stream" where
  "peek_token s =
     (if js_token s \<noteq> Tok_unread then Inr s
      else case iterative_parse_next s of Inl e \<Rightarrow> Inl (convert_error e) | Inr s \<Rightarrow> Inr s)"

definition eat_token :: "json_stream \<Rightarrow> json_stream" where
  "eat_token s = s\<lparr>js_token := Tok_unread\<rparr>"

definition get_end :: "json_stream \<Rightarrow> from_json_error + unit" where
  "get_end s = (if js_token s \<noteq> Tok_unread \<or> \<not> complete s then Inl expected_end else Inr ())"

definition get_null :: "json_stream \<Rightarrow> from_json_error + json_stream" where
  "get_null s = rbind (peek_token s) (\<lambda>s. if js_token s \<noteq> Tok_null then Inl expected_null else Inr (eat_token s))"

definition get_bool :: "json_stream \<Rightarrow> from_json_error + bool \<times> json_stream" where
  "get_bool s =
     rbind (peek_token s) (\<lambda>s. case js_token s of Tok_bool b \<Rightarrow> Inr (b, eat_token s) | _ \<Rightarrow> Inl expected_bool)"

definition get_string :: "json_stream \<Rightarrow> from_json_error + string \<times> json_stream" where
  "get_string s =
     rbind (peek_token s) (\<lambda>s. case js_token s of Tok_string v \<Rightarrow> Inr (v, eat_token s) | _ \<Rightarrow> Inl expected_string)"

definition get_start_object :: "json_stream \<Rightarrow> from_json_error + json_stream" where
  "get_start_object s =
     rbind (peek_token s) (\<lambda>s. if js_token s \<noteq> Tok_start_object then Inl expected_start_object else Inr (eat_token s))"

definition get_key :: "json_stream \<Rightarrow> from_json_error + string \<times> json_stream" where
  "get_key s =
     rbind (peek_token s) (\<lambda>s. case js_token s of Tok_key k \<Rightarrow> Inr (k, eat_token s) | _ \<Rightarrow> Inl expected_key)"

definition get_end_object :: "json_stream \<Rightarrow> from_json_error + json_stream" where
  "get_end_object s =
     rbind (peek_token s) (\<lambda>s. if js_token s \<noteq> Tok_end_object then Inl expected_end_object else Inr (eat_token s))"

definition get_start_array :: "json_stream \<Rightarrow> from_json_error + json_stream" where
  "get_start_array s =
     rbind (peek_token s) (\<lambda>s. if js_token s \<noteq> Tok_start_array then Inl expected_start_array else Inr (eat_token s))"

definition get_end_array :: "json_stream \<Rightarrow> from_json_error + json_stream" where
  "get_end_array s =
     rbind (peek_token s) (\<lambda>s. if js_token s \<noteq> Tok_end_array then Inl expected_end_array else Inr (eat_token s))"

section \<open>JSON text and its tokens\<close>

text \<open>
  A JSON document as a tree, the tokens it stands for and the texts that render it, with white space
  anywhere between tokens. Numbers reach the handler as strings.
\<close>

datatype json = J_null | J_bool bool | J_string string | J_array "json list" | J_object "(string \<times> json) list"

fun json_tokens :: "json \<Rightarrow> json_token list" where
  "json_tokens J_null = [Tok_null]"
| "json_tokens (J_bool b) = [Tok_bool b]"
| "json_tokens (J_string s) = [Tok_string s]"
| "json_tokens (J_array js) = Tok_start_array # concat (map json_tokens js) @ [Tok_end_array]"
| "json_tokens (J_object ms) =
     Tok_start_object # concat (map (\<lambda>(k, j). Tok_key k # json_tokens j) ms) @ [Tok_end_object]"

definition ws :: "string \<Rightarrow> bool" where
  "ws w \<longleftrightarrow> (\<forall>c \<in> set w. c = CHR '' '' \<or> c = CHR 0x0A \<or> c = CHR 0x0D \<or> c = CHR 0x09)"

definition integer_text :: "string \<Rightarrow> bool" where
  "integer_text t \<longleftrightarrow>
     (let ds = (if peek t = CHR ''-'' then tl t else t)
      in ds \<noteq> [] \<and> list_all is_digit ds \<and> (hd ds = CHR ''0'' \<longrightarrow> tl ds = []))"

inductive renders :: "json \<Rightarrow> string \<Rightarrow> bool"
  and renders_elements :: "bool \<Rightarrow> json list \<Rightarrow> string \<Rightarrow> bool"
  and renders_members :: "bool \<Rightarrow> (string \<times> json) list \<Rightarrow> string \<Rightarrow> bool" where
  r_null: "renders J_null ''null''"
| r_true: "renders (J_bool True) ''true''"
| r_false: "renders (J_bool False) ''false''"
| r_string: "(\<And>r. parse_string (body @ r) = Inr (v, r)) \<Longrightarrow> renders (J_string v) (CHR 0x22 # body)"
| r_number: "integer_text t \<Longrightarrow> renders (J_string t) t"
| r_array: "renders_elements True js t \<Longrightarrow> renders (J_array js) (CHR 0x5B # t)"
| r_object: "renders_members True ms t \<Longrightarrow> renders (J_object ms) (CHR 0x7B # t)"
| e_end: "ws w \<Longrightarrow> renders_elements first [] (w @ [CHR 0x5D])"
| e_cons: "ws w \<Longrightarrow> ws w' \<Longrightarrow> renders j t \<Longrightarrow> renders_elements False js u \<Longrightarrow>
    renders_elements first (j # js) ((if first then w' else w @ CHR '','' # w') @ t @ u)"
| m_end: "ws w \<Longrightarrow> renders_members first [] (w @ [CHR 0x7D])"
| m_cons: "ws w \<Longrightarrow> ws w1 \<Longrightarrow> ws w2 \<Longrightarrow> ws w3 \<Longrightarrow> (\<And>r. parse_string (body @ r) = Inr (k, r)) \<Longrightarrow>
    renders j t \<Longrightarrow> renders_members False ms u \<Longrightarrow>
    renders_members first ((k, j) # ms)
      ((if first then w1 else w @ CHR '','' # w1) @ CHR 0x22 # body @ w2 @ CHR '':'' # w3 @ t @ u)"

text \<open>The tokens a stream gives, one after the other.\<close>

fun feeds :: "json_stream \<Rightarrow> json_token list \<Rightarrow> json_stream \<Rightarrow> bool" where
  "feeds s [] s' \<longleftrightarrow> s = s'"
| "feeds s (t # ts) s' \<longleftrightarrow> (\<exists>s1. peek_token s = Inr s1 \<and> js_token s1 = t \<and> feeds (eat_token s1) ts s')"

lemma feeds_append: "feeds s (ts @ us) s' \<longleftrightarrow> (\<exists>s1. feeds s ts s1 \<and> feeds s1 us s')"
  by (induction ts arbitrary: s) auto

lemma feeds_appendI: "feeds s ts s1 \<Longrightarrow> feeds s1 us s' \<Longrightarrow> feeds s (ts @ us) s'"
  by (auto simp: feeds_append)

section \<open>Single steps of the reader\<close>

abbreviation js :: "it_state \<Rightarrow> (it_state \<times> nat) list \<Rightarrow> string \<Rightarrow> json_stream" where
  "js q k i \<equiv> \<lparr>js_state = q, js_stack = k, js_input = i, js_token = Tok_unread\<rparr>"

lemma ws_Nil [simp]: "ws []"
  by (simp add: ws_def)

lemma skip_ws_append: "ws w \<Longrightarrow> skip_whitespace (w @ i) = skip_whitespace i"
  by (induction w) (auto simp: ws_def skip_whitespace_def)

lemma skip_ws_Cons:
  "\<not> (c = CHR '' '' \<or> c = CHR 0x0A \<or> c = CHR 0x0D \<or> c = CHR 0x09) \<Longrightarrow> skip_whitespace (c # i) = c # i"
  by (simp add: skip_whitespace_def)

lemma skip_ws_Nil [simp]: "skip_whitespace [] = []"
  by (simp add: skip_whitespace_def)

lemma peek_Nil [simp]: "peek [] = CHR 0x00" and peek_Cons [simp]: "peek (c # i) = c"
  by (simp_all add: peek_def)

lemma peek_ws: "ws w \<Longrightarrow> c \<noteq> CHR 0x00 \<Longrightarrow> peek (w @ c # i) \<noteq> CHR 0x00"
  by (cases w) (auto simp: ws_def)

definition is_ws :: "char \<Rightarrow> bool" where
  "is_ws c \<longleftrightarrow> c = CHR '' '' \<or> c = CHR 0x0A \<or> c = CHR 0x0D \<or> c = CHR 0x09"

lemma next_unfold:
  assumes "ws w" "c \<noteq> CHR 0x00" "\<not> is_ws c"
  shows "iterative_parse_next (js q k (w @ c # i)) =
    (let s = js q k (c # i); n = predict q (tokenize c)
     in case transit q n s of
          Inl e \<Rightarrow> Inl (handle_error q e)
        | Inr (d, s) \<Rightarrow>
            if d = It_Finish then
              let s = s\<lparr>js_state := d, js_input := skip_whitespace (js_input s)\<rparr>
              in if peek (js_input s) \<noteq> CHR 0x00 then Inl (handle_error d None) else Inr s
            else
              let s = s\<lparr>js_state := d\<rparr>
              in if \<not> is_delimiter_state n then Inr s else iterative_parse_next s)"
  using assms
  by (subst iterative_parse_next.simps)
    (simp add: peek_ws skip_ws_append skip_ws_Cons is_ws_def Let_def split: sum.splits prod.splits)

definition value_state :: "it_state \<Rightarrow> bool" where
  "value_state q \<longleftrightarrow> q = It_Start \<or> q = It_ArrayInitial \<or> q = It_ElementDelimiter \<or> q = It_KeyValueDelimiter"

definition after_value :: "it_state \<Rightarrow> it_state" where
  "after_value q = (if resume_state q = It_Start then It_Finish else resume_state q)"

lemma after_value_simps [simp]:
  "after_value It_Start = It_Finish" "after_value It_ArrayInitial = It_Element"
  "after_value It_ElementDelimiter = It_Element" "after_value It_KeyValueDelimiter = It_MemberValue"
  by (simp_all add: after_value_def resume_state_def)

lemma next_comma_element:
  assumes "ws w"
  shows "iterative_parse_next (js It_Element ((n, c) # k) (w @ CHR '','' # i)) =
    iterative_parse_next (js It_ElementDelimiter ((n, c + 1) # k) i)"
  using assms
  by (subst next_unfold)
    (simp_all add: is_ws_def Let_def tokenize_def transit_def count_element_def is_delimiter_state_def)

lemma next_comma_member:
  assumes "ws w"
  shows "iterative_parse_next (js It_MemberValue ((n, c) # k) (w @ CHR '','' # i)) =
    iterative_parse_next (js It_MemberDelimiter ((n, c + 1) # k) i)"
  using assms
  by (subst next_unfold)
    (simp_all add: is_ws_def Let_def tokenize_def transit_def count_element_def is_delimiter_state_def)

lemma next_colon:
  assumes "ws w"
  shows "iterative_parse_next (js It_MemberKey k (w @ CHR '':'' # i)) =
    iterative_parse_next (js It_KeyValueDelimiter k i)"
  using assms
  by (subst next_unfold) (simp_all add: is_ws_def Let_def tokenize_def transit_def is_delimiter_state_def)

lemma next_key:
  assumes "ws w" "q = It_ObjectInitial \<or> q = It_MemberDelimiter" "parse_string i = Inr (v, r)"
  shows "iterative_parse_next (js q k (w @ CHR 0x22 # i)) = Inr ((js It_MemberKey k r)\<lparr>js_token := Tok_key v\<rparr>)"
  using assms
  by (subst next_unfold)
    (auto simp: is_ws_def Let_def tokenize_def transit_def emit_def is_delimiter_state_def)

lemma next_scalar:
  assumes "ws w" "value_state q" "parse_value (c # i) = Inr (t, r)" "q = It_Start \<longrightarrow> ws r"
    "tokenize c \<in> {StringToken, FalseToken, TrueToken, NullToken, NumberToken}" "c \<noteq> CHR 0x00" "\<not> is_ws c"
  shows "iterative_parse_next (js q k (w @ c # i)) =
    Inr ((js (after_value q) k (if q = It_Start then [] else r))\<lparr>js_token := t\<rparr>)"
  using assms skip_ws_append [of r "[]"]
  by (subst next_unfold)
    (auto simp: is_ws_def Let_def value_state_def transit_def emit_def is_delimiter_state_def)

lemma next_start_array:
  assumes "ws w" "value_state q"
  shows "iterative_parse_next (js q k (w @ CHR 0x5B # i)) =
    Inr ((js It_ArrayInitial ((resume_state q, 0) # k) i)\<lparr>js_token := Tok_start_array\<rparr>)"
  using assms
  by (subst next_unfold)
    (auto simp: is_ws_def Let_def tokenize_def value_state_def transit_def emit_def is_delimiter_state_def)

lemma next_start_object:
  assumes "ws w" "value_state q"
  shows "iterative_parse_next (js q k (w @ CHR 0x7B # i)) =
    Inr ((js It_ObjectInitial ((resume_state q, 0) # k) i)\<lparr>js_token := Tok_start_object\<rparr>)"
  using assms
  by (subst next_unfold)
    (auto simp: is_ws_def Let_def tokenize_def value_state_def transit_def emit_def is_delimiter_state_def)

lemma next_end_array:
  assumes "ws w" "q = It_ArrayInitial \<or> q = It_Element" "n = It_Start \<longrightarrow> ws i" "n \<noteq> It_Finish"
  shows "iterative_parse_next (js q ((n, c) # k) (w @ CHR 0x5D # i)) =
    Inr ((js (if n = It_Start then It_Finish else n) k (if n = It_Start then [] else i))\<lparr>js_token := Tok_end_array\<rparr>)"
  using assms skip_ws_append [of i "[]"]
  by (subst next_unfold)
    (auto simp: is_ws_def Let_def tokenize_def transit_def pop_frame_def is_delimiter_state_def)

lemma next_end_object:
  assumes "ws w" "q = It_ObjectInitial \<or> q = It_MemberValue" "n = It_Start \<longrightarrow> ws i" "n \<noteq> It_Finish"
  shows "iterative_parse_next (js q ((n, c) # k) (w @ CHR 0x7D # i)) =
    Inr ((js (if n = It_Start then It_Finish else n) k (if n = It_Start then [] else i))\<lparr>js_token := Tok_end_object\<rparr>)"
  using assms skip_ws_append [of i "[]"]
  by (subst next_unfold)
    (auto simp: is_ws_def Let_def tokenize_def transit_def pop_frame_def is_delimiter_state_def)

section \<open>Rendered documents feed their tokens\<close>

definition number_end :: "string \<Rightarrow> bool" where
  "number_end r \<longleftrightarrow> \<not> is_digit (peek r) \<and> peek r \<notin> {CHR ''.'', CHR ''e'', CHR ''E''}"

lemma ws_not_number:
  "is_ws c \<Longrightarrow> \<not> is_digit c \<and> c \<notin> {CHR ''.'', CHR ''e'', CHR ''E''}"
  unfolding is_ws_def by (elim disjE) (simp_all add: is_digit_def)

lemma number_end_ws: "ws w \<Longrightarrow> number_end r \<Longrightarrow> number_end (w @ r)"
  unfolding number_end_def
  by (cases w) (use ws_not_number in \<open>force simp: ws_def is_ws_def\<close>)+

lemma number_end_Nil [simp]: "number_end []"
  by (simp add: number_end_def is_digit_def)

lemma takeWhile_digits: "list_all is_digit ds \<Longrightarrow> \<not> is_digit (peek r) \<Longrightarrow> takeWhile is_digit (ds @ r) = ds"
  by (induction ds) (auto simp: peek_def split: list.splits)

lemma parse_number_integer:
  assumes "integer_text t" "number_end r"
  shows "parse_number (t @ r) = Inr (Tok_string t, r)"
proof -
  define neg where "neg = (peek t = CHR ''-'')"
  define ds where "ds = (if neg then tl t else t)"
  have ds: "ds \<noteq> []" "list_all is_digit ds" "hd ds = CHR ''0'' \<longrightarrow> tl ds = []"
    using assms(1) by (auto simp: integer_text_def Let_def ds_def neg_def)
  have t: "t = (if neg then ''-'' else []) @ ds"
    using ds(1) by (cases t) (auto simp: ds_def neg_def)
  obtain d ds' where d: "ds = d # ds'" using ds(1) by (cases ds) auto
  have neg1: "(peek (t @ r) = CHR ''-'') = neg"
    using t ds(2) d by (auto simp: is_digit_def)
  have s1: "(if neg then tl (t @ r) else t @ r) = ds @ r"
    by (subst (1 2) t) simp
  have ds1: "(if peek (ds @ r) = CHR ''0'' then ''0'' else takeWhile is_digit (ds @ r)) = ds"
  proof (cases "d = CHR ''0''")
    case True
    then show ?thesis using ds(3) d by simp
  next
    case False
    moreover have "\<not> is_digit (peek r)" using assms(2) by (simp add: number_end_def)
    ultimately show ?thesis using takeWhile_digits [OF ds(2)] d by simp
  qed
  have ex: "parse_exponent x r = Inr ([], r)" for x
    using assms(2) unfolding number_end_def parse_exponent_def by simp
  have dot: "peek r \<noteq> CHR ''.''"
    using assms(2) unfolding number_end_def by simp
  obtain a b e where ip: "int_part (number_limit neg) (nat (digit_of (hd ds))) 0 (tl ds) = (a, b, e)"
    by (cases "int_part (number_limit neg) (nat (digit_of (hd ds))) 0 (tl ds)")
  show ?thesis
    unfolding parse_number_def parse_number_tail_def neg1 s1 Let_def ds1
    using ds(1) dot by (simp add: ip ex t [symmetric])
qed

lemma json_tokens_not_Nil [simp]: "json_tokens j \<noteq> []"
  by (cases j) auto

lemma feeds_cong:
  "iterative_parse_next s = iterative_parse_next u \<Longrightarrow> js_token s = Tok_unread \<Longrightarrow> js_token u = Tok_unread \<Longrightarrow>
   ts \<noteq> [] \<Longrightarrow> feeds s ts s' = feeds u ts s'"
  by (cases ts) (simp_all add: peek_token_def)

lemma feeds_ConsI:
  "iterative_parse_next s = Inr (u\<lparr>js_token := t\<rparr>) \<Longrightarrow> js_token s = Tok_unread \<Longrightarrow> js_token u = Tok_unread \<Longrightarrow>
   feeds u ts s' \<Longrightarrow> feeds s (t # ts) s'"
  by (cases u) (simp add: peek_token_def eat_token_def)

lemma tokenize_number:
  "is_digit c \<or> c = CHR ''-'' \<Longrightarrow> tokenize c = NumberToken \<and> c \<noteq> CHR 0x00 \<and> \<not> is_ws c"
proof -
  assume c: "is_digit c \<or> c = CHR ''-''"
  have ne: "c \<noteq> x" if "\<not> is_digit x" "x \<noteq> CHR ''-''" for x
    using c that by blast
  show ?thesis
    unfolding tokenize_def is_ws_def by (simp add: ne is_digit_def)
qed

lemma number_not_ws:
  assumes "integer_text t"
  shows "\<exists>c u. t = c # u \<and> tokenize c = NumberToken \<and> c \<noteq> CHR 0x00 \<and> \<not> is_ws c"
proof (cases t)
  case Nil
  then show ?thesis using assms by (simp add: integer_text_def)
next
  case (Cons c u)
  have "is_digit c \<or> c = CHR ''-''"
  proof (cases "c = CHR ''-''")
    case False
    then show ?thesis using assms Cons by (simp add: integer_text_def Let_def)
  qed simp
  then show ?thesis using Cons tokenize_number by blast
qed

lemma parse_value_number:
  assumes "integer_text t" "number_end r"
  shows "parse_value (t @ r) = Inr (Tok_string t, r)"
proof -
  obtain c u where "t = c # u" "tokenize c = NumberToken"
    using number_not_ws [OF assms(1)] by auto
  then have "peek (t @ r) \<notin> {CHR ''n'', CHR ''t'', CHR ''f'', CHR 0x22}"
    by (auto simp: tokenize_def)
  then show ?thesis using parse_number_integer [OF assms] by (simp add: parse_value_def)
qed

lemma scalar_feeds:
  assumes "parse_value (c # i) = Inr (t, r)"
    "tokenize c \<in> {StringToken, FalseToken, TrueToken, NullToken, NumberToken}" "c \<noteq> CHR 0x00" "\<not> is_ws c"
    "ws w" "value_state q" "q = It_Start \<longrightarrow> ws r"
  shows "feeds (js q k (w @ c # i)) [t] (js (after_value q) k (if q = It_Start then [] else r))"
  using assms by (intro feeds_ConsI [OF next_scalar]) auto

lemma rest_number_end:
  "renders_elements False es u \<Longrightarrow> number_end (u @ r)"
  "renders_members False ms u \<Longrightarrow> number_end (u @ r)"
proof -
  have *: "ws w \<Longrightarrow> c \<in> {CHR '','', CHR 0x5D, CHR 0x7D} \<Longrightarrow> number_end (w @ c # x)" for w c x
    by (rule number_end_ws) (auto simp: number_end_def is_digit_def)
  show "renders_elements False es u \<Longrightarrow> number_end (u @ r)"
    by (erule renders_elements.cases) (auto intro: *)
  show "renders_members False ms u \<Longrightarrow> number_end (u @ r)"
    by (erule renders_members.cases) (auto intro: *)
qed

definition feeds_value :: "json_token list \<Rightarrow> string \<Rightarrow> bool" where
  "feeds_value ts t \<longleftrightarrow>
     (\<forall>w q k r. ws w \<longrightarrow> value_state q \<longrightarrow> (q = It_Start \<longrightarrow> ws r) \<longrightarrow> number_end r \<longrightarrow>
        feeds (js q k (w @ t @ r)) ts (js (after_value q) k (if q = It_Start then [] else r)))"

definition feeds_rest :: "it_state \<Rightarrow> json_token list \<Rightarrow> string \<Rightarrow> bool" where
  "feeds_rest q ts t \<longleftrightarrow>
     (\<forall>n c k r. (n = It_Start \<longrightarrow> ws r) \<longrightarrow> n \<noteq> It_Finish \<longrightarrow>
        feeds (js q ((n, c) # k) (t @ r)) ts (js (if n = It_Start then It_Finish else n) k (if n = It_Start then [] else r)))"

lemma feeds_valueI:
  assumes "\<And>r. number_end r \<Longrightarrow> parse_value (c # i @ r) = Inr (t, r)"
    "tokenize c \<in> {StringToken, FalseToken, TrueToken, NullToken, NumberToken}" "c \<noteq> CHR 0x00" "\<not> is_ws c"
  shows "feeds_value [t] (c # i)"
  unfolding feeds_value_def
proof (intro allI impI)
  fix w q k r
  assume "ws w" "value_state q" "q = It_Start \<longrightarrow> ws r" "number_end r"
  then show "feeds (js q k (w @ (c # i) @ r)) [t] (js (after_value q) k (if q = It_Start then [] else r))"
    using scalar_feeds [OF assms(1) assms(2-4)] by simp
qed

lemma feeds_compound:
  assumes "feeds_rest q0 ts t" "o0 = It_ArrayInitial \<and> c = CHR 0x5B \<and> tk = Tok_start_array \<and> q0 = It_ArrayInitial
      \<or> o0 = It_ObjectInitial \<and> c = CHR 0x7B \<and> tk = Tok_start_object \<and> q0 = It_ObjectInitial"
  shows "feeds_value (tk # ts) (c # t)"
  unfolding feeds_value_def
proof (intro allI impI)
  fix w q k r
  assume a: "ws w" "value_state q" "q = It_Start \<longrightarrow> ws r" "number_end r"
  have q: "resume_state q = It_Start \<longleftrightarrow> q = It_Start" "resume_state q \<noteq> It_Finish"
    using a(2) by (auto simp: value_state_def resume_state_def)
  have "feeds (js q0 ((resume_state q, 0) # k) (t @ r)) ts
      (js (after_value q) k (if q = It_Start then [] else r))"
    using assms(1) a(3) q unfolding feeds_rest_def after_value_def by presburger
  moreover have "iterative_parse_next (js q k (w @ (c # t) @ r)) =
      Inr ((js q0 ((resume_state q, 0) # k) (t @ r))\<lparr>js_token := tk\<rparr>)"
    using assms(2) next_start_array [OF a(1,2), of k "t @ r"] next_start_object [OF a(1,2), of k "t @ r"] by auto
  ultimately show "feeds (js q k (w @ (c # t) @ r)) (tk # ts) (js (after_value q) k (if q = It_Start then [] else r))"
    by (intro feeds_ConsI) simp_all
qed

lemma feeds_literals:
  "feeds_value [Tok_null] ''null''" "feeds_value [Tok_bool True] ''true''" "feeds_value [Tok_bool False] ''false''"
  by (rule feeds_valueI; simp add: parse_value_def parse_literal_def consume_def tokenize_def is_ws_def)+

lemma feeds_string:
  "(\<And>r. parse_string (body @ r) = Inr (v, r)) \<Longrightarrow> feeds_value [Tok_string v] (CHR 0x22 # body)"
  by (rule feeds_valueI) (simp_all add: parse_value_def tokenize_def is_ws_def)

lemma feeds_number:
  assumes "integer_text t"
  shows "feeds_value [Tok_string t] t"
proof -
  obtain c u where "t = c # u" "tokenize c = NumberToken" "c \<noteq> CHR 0x00" "\<not> is_ws c"
    using number_not_ws [OF assms] by auto
  then show ?thesis
    using feeds_valueI [of c u "Tok_string t"] parse_value_number [OF assms] by simp
qed

lemma feeds_rest_end:
  assumes "ws w"
  shows "q = It_ArrayInitial \<or> q = It_Element \<Longrightarrow> feeds_rest q [Tok_end_array] (w @ [CHR 0x5D])"
    "q = It_ObjectInitial \<or> q = It_MemberValue \<Longrightarrow> feeds_rest q [Tok_end_object] (w @ [CHR 0x7D])"
  unfolding feeds_rest_def append_assoc append.simps
  by (intro allI impI feeds_ConsI [OF next_end_array] feeds_ConsI [OF next_end_object]; simp add: assms)+

lemma feeds_rest_element:
  assumes "ws w" "ws w'" "feeds_value ts t" "ts \<noteq> []" "feeds_rest It_Element us u" "\<And>r. number_end (u @ r)"
  shows "feeds_rest It_ArrayInitial (ts @ us) (w' @ t @ u)"
    and "feeds_rest It_Element (ts @ us) ((w @ CHR '','' # w') @ t @ u)"
proof -
  have v: "feeds (js q k (w' @ t @ u @ r)) ts (js It_Element k (u @ r))"
    if "q = It_ArrayInitial \<or> q = It_ElementDelimiter" for q k r
    using assms(2,3,6) that unfolding feeds_value_def value_state_def by fastforce
  have r: "feeds (js It_Element ((n, c) # k) (u @ r)) us
      (js (if n = It_Start then It_Finish else n) k (if n = It_Start then [] else r))"
    if "n = It_Start \<longrightarrow> ws r" "n \<noteq> It_Finish" for n c k r
    using assms(5) that unfolding feeds_rest_def by blast
  show "feeds_rest It_ArrayInitial (ts @ us) (w' @ t @ u)"
    unfolding feeds_rest_def append_assoc
    by (intro allI impI, rule feeds_appendI [OF v r]) simp_all
  have comma: "feeds (js It_Element ((n, c) # k) (w @ CHR '','' # w' @ t @ u @ r)) (ts @ us) s' =
        feeds (js It_ElementDelimiter ((n, c + 1) # k) (w' @ t @ u @ r)) (ts @ us) s'" for n c k r s'
    using assms(4) next_comma_element [OF assms(1)] by (intro feeds_cong) auto
  show "feeds_rest It_Element (ts @ us) ((w @ CHR '','' # w') @ t @ u)"
    unfolding feeds_rest_def append_assoc append.simps comma
    by (intro allI impI, rule feeds_appendI [OF v r]) simp_all
qed

lemma feeds_rest_member:
  assumes "ws w" "ws w1" "ws w2" "ws w3" "\<And>r. parse_string (body @ r) = Inr (key, r)"
    "feeds_value ts t" "ts \<noteq> []" "feeds_rest It_MemberValue us u" "\<And>r. number_end (u @ r)"
  shows "feeds_rest It_ObjectInitial (Tok_key key # ts @ us) (w1 @ CHR 0x22 # body @ w2 @ CHR '':'' # w3 @ t @ u)"
    and "feeds_rest It_MemberValue (Tok_key key # ts @ us)
           ((w @ CHR '','' # w1) @ CHR 0x22 # body @ w2 @ CHR '':'' # w3 @ t @ u)"
proof -
  have v: "feeds (js It_KeyValueDelimiter k (w3 @ t @ u @ r)) ts (js It_MemberValue k (u @ r))" for k r
    using assms(4,6,9) unfolding feeds_value_def value_state_def by fastforce
  have r: "feeds (js It_MemberValue ((n, c) # k) (u @ r)) us
      (js (if n = It_Start then It_Finish else n) k (if n = It_Start then [] else r))"
    if "n = It_Start \<longrightarrow> ws r" "n \<noteq> It_Finish" for n c k r
    using assms(8) that unfolding feeds_rest_def by blast
  have colon: "feeds (js It_MemberKey k (w2 @ CHR '':'' # w3 @ t @ u @ r)) (ts @ us) s' =
      feeds (js It_KeyValueDelimiter k (w3 @ t @ u @ r)) (ts @ us) s'" for k r s'
    using assms(7) next_colon [OF assms(3)] by (intro feeds_cong) auto
  have key: "feeds (js q ((n, c) # k) (w1 @ CHR 0x22 # body @ w2 @ CHR '':'' # w3 @ t @ u @ r)) (Tok_key key # ts @ us)
      (js (if n = It_Start then It_Finish else n) k (if n = It_Start then [] else r))"
    if "n = It_Start \<longrightarrow> ws r" "n \<noteq> It_Finish" "q = It_ObjectInitial \<or> q = It_MemberDelimiter" for n c k r q
    by (rule feeds_ConsI [OF next_key [OF assms(2) that(3) assms(5)]])
      (use feeds_appendI [OF v r [OF that(1,2)]] in \<open>simp_all add: colon\<close>)
  show "feeds_rest It_ObjectInitial (Tok_key key # ts @ us) (w1 @ CHR 0x22 # body @ w2 @ CHR '':'' # w3 @ t @ u)"
    unfolding feeds_rest_def using key by simp
  have "feeds (js It_MemberValue ((n, c) # k) (w @ CHR '','' # i)) (Tok_key key # ts @ us) s' =
        feeds (js It_MemberDelimiter ((n, c + 1) # k) i) (Tok_key key # ts @ us) s'" for n c k i s'
    using next_comma_member [OF assms(1)] by (intro feeds_cong) auto
  then show "feeds_rest It_MemberValue (Tok_key key # ts @ us)
           ((w @ CHR '','' # w1) @ CHR 0x22 # body @ w2 @ CHR '':'' # w3 @ t @ u)"
    unfolding feeds_rest_def using key by simp
qed

lemma renders_feeds:
  "renders j t \<Longrightarrow> feeds_value (json_tokens j) t"
  "renders_elements first es u \<Longrightarrow>
     feeds_rest (if first then It_ArrayInitial else It_Element) (concat (map json_tokens es) @ [Tok_end_array]) u"
  "renders_members first ms u \<Longrightarrow>
     feeds_rest (if first then It_ObjectInitial else It_MemberValue)
       (concat (map (\<lambda>(k, j). Tok_key k # json_tokens j) ms) @ [Tok_end_object]) u"
proof (induction rule: renders_renders_elements_renders_members.inducts)
  case (e_cons w w' j t es u first)
  have end_u: "number_end (u @ r)" for r
    using e_cons.hyps rest_number_end(1) by blast
  show ?case
    using feeds_rest_element [OF e_cons.hyps(1,2) e_cons.IH(1) _ e_cons.IH(2) [simplified] end_u]
    by (cases first) simp_all
next
  case (m_cons w w1 w2 w3 body k j t ms u first)
  have end_u: "number_end (u @ r)" for r
    using m_cons.hyps rest_number_end(2) by blast
  show ?case
    using feeds_rest_member [OF m_cons.hyps(1-5) m_cons.IH(1) _ m_cons.IH(2) [simplified] end_u]
    by (cases first) simp_all
qed (auto simp: feeds_literals feeds_string feeds_number feeds_rest_end intro: feeds_compound)

section \<open>Invariant of the reader\<close>

fun frames_ok :: "it_state list \<Rightarrow> bool" where
  "frames_ok [] = False"
| "frames_ok [n] \<longleftrightarrow> n = It_Start"
| "frames_ok (n # m # ns) \<longleftrightarrow> (n = It_Element \<or> n = It_MemberValue) \<and> frames_ok (m # ns)"

definition inner_state :: "it_state \<Rightarrow> bool" where
  "inner_state q \<longleftrightarrow>
     q \<in> {It_ObjectInitial, It_MemberKey, It_MemberValue, It_ArrayInitial, It_Element,
          It_ElementDelimiter, It_MemberDelimiter, It_KeyValueDelimiter}"

definition reader_inv :: "json_stream \<Rightarrow> bool" where
  "reader_inv s \<longleftrightarrow>
     (if js_state s = It_Start \<or> js_state s = It_Finish then js_stack s = []
      else inner_state (js_state s) \<and> frames_ok (map fst (js_stack s)))"

lemma frames_ok_Cons:
  "frames_ok (n # ns) \<longleftrightarrow> (if ns = [] then n = It_Start else (n = It_Element \<or> n = It_MemberValue) \<and> frames_ok ns)"
  by (cases ns) auto

text \<open>How an event changes the depth of the stack.\<close>

fun depth_after :: "json_token \<Rightarrow> nat \<Rightarrow> nat" where
  "depth_after Tok_start_object d = d + 1"
| "depth_after Tok_start_array d = d + 1"
| "depth_after Tok_end_object d = d - 1"
| "depth_after Tok_end_array d = d - 1"
| "depth_after _ d = d"

lemma parse_string_rest: "parse_string is = Inr (v, r) \<Longrightarrow> length r \<le> length is \<and> (is \<noteq> [] \<longrightarrow> length r < length is)"
proof (induction "is" arbitrary: v r rule: parse_string.induct)
  case (1 s)
  show ?case
  proof (cases "peek s = CHR 0x5C")
    case True
    then have "s \<noteq> []" by auto
    moreover obtain x y where xy: "parse_escape (tl s) = Inr (x, y)"
      using 1(3) True by (subst (asm) parse_string.simps) (auto split: sum.splits)
    moreover obtain v' where "parse_string y = Inr (v', r)"
      using 1(3) True xy by (subst (asm) parse_string.simps) (auto split: sum.splits simp: map_sum_def map_prod_def)
    moreover have "length r \<le> length y"
      using 1(1) [OF True xy] calculation by blast
    ultimately show ?thesis using parse_escape_rest [OF xy] by (cases s) auto
  next
    case False
    show ?thesis
    proof (cases "peek s = CHR 0x22 \<or> ord (peek s) < 32")
      case True
      then show ?thesis
        using 1(3) False by (subst (asm) parse_string.simps) (cases s; auto split: if_splits)
    next
      case False2: False
      obtain n where n: "utf8_validate s = Some n"
        using 1(3) False False2 by (subst (asm) parse_string.simps) (auto split: option.splits)
      moreover obtain v' where "parse_string (drop n s) = Inr (v', r)"
        using 1(3) False False2 n by (subst (asm) parse_string.simps) (auto split: sum.splits simp: map_sum_def map_prod_def)
      moreover have "n \<noteq> 0" using n by (auto simp: utf8_validate_def split: if_splits option.splits)
      ultimately show ?thesis
        using 1(2) [OF False, of n] False2 by (cases s) (fastforce simp: le_imp_less_Suc)+
    qed
  qed
qed

lemma parse_exponent_rest: "parse_exponent x s = Inr (e, r) \<Longrightarrow> length r \<le> length s"
  unfolding parse_exponent_def Let_def
  by (auto split: if_splits intro: order_trans [OF length_dropWhile_le])

lemma parse_number_tail_rest:
  assumes "parse_number_tail neg ds s = Inr (t, r)"
  shows "length r \<le> length s \<and> (\<exists>v. t = Tok_string v)"
  using assms unfolding parse_number_tail_def Let_def split_def
  by (auto split: if_splits sum.splits dest!: parse_exponent_rest)

lemma parse_number_rest:
  assumes "parse_number is = Inr (t, r)"
  shows "length r < length is \<and> (\<exists>v. t = Tok_string v)"
proof -
  define neg where "neg = (peek is = CHR ''-'')"
  define s where "s = (if neg then tl is else is)"
  define ds where "ds = (if peek s = CHR ''0'' then ''0'' else takeWhile is_digit s)"
  have s: "length s \<le> length is" by (simp add: s_def)
  have eq: "parse_number is = (if ds = [] then Inl ParseErrorValueInvalid else parse_number_tail neg ds (drop (length ds) s))"
    unfolding parse_number_def Let_def neg_def s_def ds_def by (rule refl)
  with assms have ds: "ds \<noteq> []" "parse_number_tail neg ds (drop (length ds) s) = Inr (t, r)"
    by (simp_all split: if_splits)
  have "s \<noteq> []" using ds(1) by (cases s) (simp_all add: ds_def)
  with ds(1) have "length (drop (length ds) s) < length s" by simp
  with s parse_number_tail_rest [OF ds(2)] show ?thesis by (auto simp del: length_drop)
qed

lemma parse_value_rest:
  assumes "parse_value is = Inr (t, r)"
  shows "length r < length is" "(\<exists>v. t = Tok_string v) \<or> (\<exists>b. t = Tok_bool b) \<or> t = Tok_null"
proof -
  have lit: "parse_literal l u is = Inr (t, r) \<Longrightarrow> l \<noteq> [] \<Longrightarrow> length r < length is \<and> t = u" for l u
    by (cases "is") (auto simp: parse_literal_def consume_def split: option.splits if_splits)
  have str: "map_sum id (map_prod Tok_string id) (parse_string (tl is)) = Inr (t, r) \<Longrightarrow> peek is = CHR 0x22 \<Longrightarrow>
      length r < length is \<and> (\<exists>v. t = Tok_string v)"
    using parse_string_rest [of "tl is"]
    by (cases "is"; cases "parse_string (tl is)") (auto simp: less_Suc_eq_le)
  have "length r < length is \<and> ((\<exists>v. t = Tok_string v) \<or> (\<exists>b. t = Tok_bool b) \<or> t = Tok_null)"
  proof (cases "peek is \<in> {CHR ''n'', CHR ''t'', CHR ''f'', CHR 0x22}")
    case True
    then show ?thesis
      using assms lit [of "''ull''" Tok_null] lit [of "''rue''" "Tok_bool True"] lit [of "''alse''" "Tok_bool False"] str
      by (elim insertE emptyE; simp add: parse_value_def; blast)
  next
    case False
    then show ?thesis using assms parse_number_rest by (simp add: parse_value_def)
  qed
  then show "length r < length is" "(\<exists>v. t = Tok_string v) \<or> (\<exists>b. t = Tok_bool b) \<or> t = Tok_null"
    by blast+
qed

lemma parse_escape_error: "parse_escape is \<noteq> Inl ParseErrorTermination"
  by (auto simp: parse_escape_def split: option.splits)

lemma map_sum_Inl: "map_sum id f x = Inl e \<longleftrightarrow> x = Inl e"
  by (cases x) auto

lemma parse_string_error: "parse_string is \<noteq> Inl ParseErrorTermination"
proof (induction "is" rule: parse_string.induct)
  case (1 s)
  have step: "parse_string s \<noteq> Inl ParseErrorTermination"
    if "\<And>x y. peek s = CHR 0x5C \<Longrightarrow> parse_escape (tl s) = Inr (x, y) \<Longrightarrow> parse_string y \<noteq> Inl ParseErrorTermination"
      "\<And>n. peek s \<noteq> CHR 0x5C \<Longrightarrow> peek s \<noteq> CHR 0x22 \<Longrightarrow> \<not> ord (peek s) < 32 \<Longrightarrow> utf8_validate s = Some n \<Longrightarrow>
         parse_string (drop n s) \<noteq> Inl ParseErrorTermination"
    using that parse_escape_error [of "tl s"]
    by (auto simp add: parse_string.simps [of s] map_sum_Inl split: sum.split option.split)
  show ?case
    by (rule step) (use 1 in blast)+
qed

lemma parse_number_error: "parse_number is \<noteq> Inl ParseErrorTermination"
proof -
  have "parse_number_tail neg ds s \<noteq> Inl ParseErrorTermination" for neg ds s
    unfolding parse_number_tail_def parse_exponent_def Let_def split_def
    by (simp split: sum.splits prod.splits)
  then show ?thesis by (simp add: parse_number_def Let_def)
qed

lemma parse_value_error: "parse_value is \<noteq> Inl ParseErrorTermination"
  unfolding parse_value_def parse_literal_def
  by (simp add: parse_number_error map_sum_Inl parse_string_error split: option.splits)

definition predict_from :: "it_state \<Rightarrow> it_state \<Rightarrow> it_token \<Rightarrow> bool" where
  "predict_from n q t \<longleftrightarrow> (case n of
     It_Error \<Rightarrow> True
   | It_ObjectInitial \<Rightarrow> value_state q \<and> t = LeftCurlyBracket
   | It_ArrayInitial \<Rightarrow> value_state q \<and> t = LeftBracket
   | It_MemberKey \<Rightarrow> (q = It_ObjectInitial \<or> q = It_MemberDelimiter) \<and> t = StringToken
   | It_KeyValueDelimiter \<Rightarrow> q = It_MemberKey \<and> t = Colon
   | It_MemberValue \<Rightarrow> q = It_KeyValueDelimiter
   | It_Element \<Rightarrow> q = It_ArrayInitial \<or> q = It_ElementDelimiter
   | It_MemberDelimiter \<Rightarrow> q = It_MemberValue \<and> t = Comma
   | It_ElementDelimiter \<Rightarrow> q = It_Element \<and> t = Comma
   | It_ObjectFinish \<Rightarrow> (q = It_ObjectInitial \<or> q = It_MemberValue \<or> q = It_MemberDelimiter) \<and> t = RightCurlyBracket
   | It_ArrayFinish \<Rightarrow> (q = It_ArrayInitial \<or> q = It_Element \<or> q = It_ElementDelimiter) \<and> t = RightBracket
   | It_Value \<Rightarrow> q = It_Start
   | _ \<Rightarrow> False)"

lemma predict_source: "predict_from (predict q t) q t"
  unfolding predict_from_def by (cases q; cases t; simp add: value_state_def)

text \<open>After a key comes its colon and the start of a value, and only a key leaves the key state.\<close>

definition key_order_ok :: "it_state \<Rightarrow> bool \<Rightarrow> it_state \<Rightarrow> json_token \<Rightarrow> bool" where
  "key_order_ok q delim d t \<longleftrightarrow>
     (q = It_MemberKey \<longrightarrow> delim \<and> d = It_KeyValueDelimiter) \<and>
     (q = It_KeyValueDelimiter \<longrightarrow> \<not> delim \<and> t \<noteq> Tok_end_object \<and> t \<noteq> Tok_end_array) \<and>
     (\<not> delim \<longrightarrow> (\<exists>k. t = Tok_key k) \<longrightarrow> d = It_MemberKey)"

definition step_ok :: "json_stream \<Rightarrow> bool \<Rightarrow> it_state \<Rightarrow> json_stream \<Rightarrow> bool" where
  "step_ok s delim d s' \<longleftrightarrow>
     reader_inv (s'\<lparr>js_state := d\<rparr>) \<and> length (js_input s') < length (js_input s) \<and>
     (if delim then d \<noteq> It_Finish \<and> js_token s' = js_token s \<and> length (js_stack s') = length (js_stack s)
      else js_token s' \<noteq> Tok_unread \<and> length (js_stack s') = depth_after (js_token s') (length (js_stack s))) \<and>
     key_order_ok (js_state s) delim d (js_token s')"

lemma emit_ok:
  assumes "\<And>e. r = Inl e \<Longrightarrow> e \<noteq> ParseErrorTermination"
    "\<And>t is. r = Inr (t, is) \<Longrightarrow> length is < length (js_input s) \<and> t \<noteq> Tok_unread \<and>
       depth_after t (length (js_stack s)) = length (js_stack s) \<and> key_order_ok (js_state s) False d t"
    "reader_inv (s\<lparr>js_state := d\<rparr>)"
  shows "emit s d r \<noteq> Inl (Some ParseErrorTermination)"
    "emit s d r = Inr (d', s') \<Longrightarrow> step_ok s False d' s'"
  using assms by (auto simp: emit_def step_ok_def reader_inv_def split: sum.splits)

lemma pop_frame_ok:
  assumes "frames_ok (map fst (js_stack s))" "js_input s \<noteq> []" "t = Tok_end_array \<or> t = Tok_end_object"
    "js_state s \<noteq> It_MemberKey" "js_state s \<noteq> It_KeyValueDelimiter"
  shows "pop_frame q t s \<noteq> Inl (Some ParseErrorTermination)"
    "pop_frame q t s = Inr (d, s') \<Longrightarrow> step_ok s False d s'"
  using assms
  by (auto simp: pop_frame_def step_ok_def reader_inv_def inner_state_def frames_ok_Cons key_order_ok_def split: list.splits if_splits)

lemma count_element_ok:
  assumes "frames_ok (map fst (js_stack s))" "js_input s \<noteq> []" "inner_state q" "q \<noteq> It_Finish" "q \<noteq> It_Start"
    "js_state s \<noteq> It_MemberKey" "js_state s \<noteq> It_KeyValueDelimiter"
  shows "count_element s q \<noteq> Inl (Some ParseErrorTermination)"
    "count_element s q = Inr (d, s') \<Longrightarrow> step_ok s True d s'"
  using assms
  by (auto simp: count_element_def step_ok_def reader_inv_def frames_ok_Cons key_order_ok_def split: list.splits if_splits)

lemma inner_frames: "reader_inv s \<Longrightarrow> js_state s \<noteq> It_Start \<Longrightarrow> js_state s \<noteq> It_Finish \<Longrightarrow> frames_ok (map fst (js_stack s))"
  by (simp add: reader_inv_def)

lemma push_ok:
  assumes "reader_inv s" "value_state (js_state s)" "d = It_ArrayInitial \<or> d = It_ObjectInitial" "js_input s \<noteq> []"
    "t = Tok_start_array \<or> t = Tok_start_object"
  shows "step_ok s False d (s\<lparr>js_stack := (resume_state (js_state s), 0) # js_stack s, js_input := tl (js_input s), js_token := t\<rparr>)"
  using assms
  by (auto simp: step_ok_def reader_inv_def inner_state_def value_state_def frames_ok_Cons resume_state_def key_order_ok_def
      split: if_splits)

lemma transit_ok:
  assumes "reader_inv s" "n = predict (js_state s) (tokenize (peek (js_input s)))"
  shows "transit (js_state s) n s \<noteq> Inl (Some ParseErrorTermination) \<and>
    (\<forall>d s'. transit (js_state s) n s = Inr (d, s') \<longrightarrow> step_ok s (is_delimiter_state n) d s')"
proof -
  have src: "predict_from n (js_state s) (tokenize (peek (js_input s)))"
    unfolding assms(2) by (rule predict_source)
  have nonempty: "tokenize (peek (js_input s)) \<noteq> NumberToken \<Longrightarrow> js_input s \<noteq> []"
    by (auto simp: tokenize_def)
  have value_ok: "emit s d (parse_value (js_input s)) \<noteq> Inl (Some ParseErrorTermination)"
    "emit s d (parse_value (js_input s)) = Inr (d', s') \<Longrightarrow> step_ok s False d' s'"
    if "reader_inv (s\<lparr>js_state := d\<rparr>)" "js_state s \<noteq> It_MemberKey" for d d' s'
    using that parse_value_error parse_value_rest by (intro emit_ok; fastforce simp: key_order_ok_def)+
  have key_ok: "emit s d (map_sum id (map_prod Tok_key id) (parse_string (tl (js_input s)))) \<noteq> Inl (Some ParseErrorTermination)"
    "emit s d (map_sum id (map_prod Tok_key id) (parse_string (tl (js_input s)))) = Inr (d', s') \<Longrightarrow> step_ok s False d' s'"
    if "reader_inv (s\<lparr>js_state := d\<rparr>)" "js_input s \<noteq> []" "d = It_MemberKey" "js_state s \<noteq> It_MemberKey"
      "js_state s \<noteq> It_KeyValueDelimiter" for d d' s'
  proof -
    have r: "map_sum id (map_prod Tok_key id) (parse_string (tl (js_input s))) = Inr (t, is) \<Longrightarrow>
        length is < length (js_input s) \<and> t \<noteq> Tok_unread \<and> depth_after t (length (js_stack s)) = length (js_stack s) \<and>
        key_order_ok (js_state s) False d t" for t "is"
      using parse_string_rest [of "tl (js_input s)"] that(2-5)
      by (cases "js_input s"; cases "parse_string (tl (js_input s))") (auto simp: less_Suc_eq_le key_order_ok_def)
    show "emit s d (map_sum id (map_prod Tok_key id) (parse_string (tl (js_input s)))) \<noteq> Inl (Some ParseErrorTermination)"
      "emit s d (map_sum id (map_prod Tok_key id) (parse_string (tl (js_input s)))) = Inr (d', s') \<Longrightarrow> step_ok s False d' s'"
      using that r parse_string_error by (intro emit_ok; auto simp: map_sum_Inl)+
  qed
  show ?thesis
  proof (cases n)
    case It_ObjectInitial
    with src nonempty show ?thesis
      using push_ok [OF assms(1), of It_ObjectInitial Tok_start_object]
      by (auto simp: transit_def predict_from_def is_delimiter_state_def)
  next
    case It_ArrayInitial
    with src nonempty show ?thesis
      using push_ok [OF assms(1), of It_ArrayInitial Tok_start_array]
      by (auto simp: transit_def predict_from_def is_delimiter_state_def)
  next
    case It_MemberKey
    with src nonempty have "js_input s \<noteq> []" "reader_inv (s\<lparr>js_state := It_MemberKey\<rparr>)"
      "js_state s \<noteq> It_MemberKey" "js_state s \<noteq> It_KeyValueDelimiter"
      using assms(1) by (auto simp: predict_from_def reader_inv_def inner_state_def)
    with key_ok It_MemberKey show ?thesis by (simp add: transit_def is_delimiter_state_def)
  next
    case It_MemberValue
    with src have "reader_inv (s\<lparr>js_state := It_MemberValue\<rparr>)" "js_state s \<noteq> It_MemberKey"
      using assms(1) by (auto simp: predict_from_def reader_inv_def inner_state_def)
    with value_ok It_MemberValue show ?thesis by (simp add: transit_def is_delimiter_state_def)
  next
    case It_Element
    with src have "reader_inv (s\<lparr>js_state := It_Element\<rparr>)" "js_state s \<noteq> It_MemberKey"
      using assms(1) by (auto simp: predict_from_def reader_inv_def inner_state_def)
    with value_ok It_Element show ?thesis by (simp add: transit_def is_delimiter_state_def)
  next
    case It_Value
    with src have "reader_inv (s\<lparr>js_state := It_Finish\<rparr>)" "js_state s \<noteq> It_MemberKey"
      using assms(1) by (auto simp: predict_from_def reader_inv_def inner_state_def)
    with value_ok It_Value show ?thesis by (simp add: transit_def is_delimiter_state_def)
  next
    case It_KeyValueDelimiter
    with src nonempty show ?thesis
      using assms(1)
      by (auto simp: transit_def predict_from_def is_delimiter_state_def step_ok_def reader_inv_def inner_state_def key_order_ok_def)
  next
    case It_MemberDelimiter
    with src nonempty inner_frames [OF assms(1)] show ?thesis
      using count_element_ok [of s It_MemberDelimiter]
      by (auto simp: transit_def predict_from_def is_delimiter_state_def inner_state_def)
  next
    case It_ElementDelimiter
    with src nonempty inner_frames [OF assms(1)] show ?thesis
      using count_element_ok [of s It_ElementDelimiter]
      by (auto simp: transit_def predict_from_def is_delimiter_state_def inner_state_def)
  next
    case It_ObjectFinish
    with src nonempty inner_frames [OF assms(1)] show ?thesis
      using pop_frame_ok [of s Tok_end_object]
      by (auto simp: transit_def predict_from_def is_delimiter_state_def)
  next
    case It_ArrayFinish
    with src nonempty inner_frames [OF assms(1)] show ?thesis
      using pop_frame_ok [of s Tok_end_array]
      by (auto simp: transit_def predict_from_def is_delimiter_state_def)
  qed (use src in \<open>auto simp: transit_def predict_from_def\<close>)
qed

text \<open>What a call of \<^verbatim>\<open>IterativeParseNext\<close> does: an event, read from the input and counted in the
  stack, or nothing after a complete document.\<close>

definition next_ok :: "json_stream \<Rightarrow> json_stream \<Rightarrow> bool" where
  "next_ok s s' \<longleftrightarrow>
     reader_inv s' \<and>
     (if js_token s' = Tok_unread then js_state s = It_Finish \<and> s' = s\<lparr>js_stack := []\<rparr>
      else length (js_input s') < length (js_input s) \<and>
           length (js_stack s') = depth_after (js_token s') (length (js_stack s)) \<and>
           (js_state s = It_MemberKey \<or> js_state s = It_KeyValueDelimiter \<longrightarrow>
              js_token s' \<noteq> Tok_end_object \<and> js_token s' \<noteq> Tok_end_array) \<and>
           ((\<exists>k. js_token s' = Tok_key k) \<longrightarrow> js_state s' = It_MemberKey))"

lemma handle_error_ok: "e \<noteq> Some ParseErrorTermination \<Longrightarrow> handle_error q e \<noteq> ParseErrorTermination"
  by (cases e) (auto simp: handle_error_def split: it_state.splits)

lemma next_reader_ok:
  "reader_inv s \<Longrightarrow> js_token s = Tok_unread \<Longrightarrow>
   iterative_parse_next s \<noteq> Inl ParseErrorTermination \<and>
   (\<forall>s'. iterative_parse_next s = Inr s' \<longrightarrow> next_ok s s')"
proof (induction s rule: iterative_parse_next.induct)
  case (1 s)
  show ?case
  proof (cases "peek (js_input s) = CHR 0x00")
    case True
    with 1(2,3) show ?thesis
      by (auto simp: iterative_parse_next.simps [of s] next_ok_def reader_inv_def handle_error_ok split: if_splits)
  next
    case False
    define s0 where "s0 = s\<lparr>js_input := skip_whitespace (js_input s)\<rparr>"
    define n where "n = predict (js_state s0) (tokenize (peek (js_input s0)))"
    have s0: "reader_inv s0" "js_token s0 = Tok_unread" "js_state s0 = js_state s" "js_stack s0 = js_stack s"
      "length (js_input s0) \<le> length (js_input s)"
      using 1(2,3) skip_whitespace_length by (auto simp: s0_def reader_inv_def)
    have unfold: "iterative_parse_next s =
        (case transit (js_state s0) n s0 of
           Inl e \<Rightarrow> Inl (handle_error (js_state s0) e)
         | Inr (d, s) \<Rightarrow>
             if d = It_Finish then
               let s = s\<lparr>js_state := d, js_input := skip_whitespace (js_input s)\<rparr>
               in if peek (js_input s) \<noteq> CHR 0x00 then Inl (handle_error d None) else Inr s
             else
               let s = s\<lparr>js_state := d\<rparr>
               in if \<not> is_delimiter_state n then Inr s else iterative_parse_next s)"
      unfolding s0_def n_def Let_def
      by (subst iterative_parse_next.simps) (simp only: False if_False Let_def)
    show ?thesis
    proof (cases "transit (js_state s0) n s0")
      case (Inl e)
      then have "e \<noteq> Some ParseErrorTermination"
        using transit_ok [OF s0(1) n_def] by auto
      then show ?thesis by (simp add: unfold Inl handle_error_ok)
    next
      case (Inr ds)
      obtain d s1 where ds: "ds = (d, s1)" by (cases ds)
      have ok: "step_ok s0 (is_delimiter_state n) d s1"
        using transit_ok [OF s0(1) n_def] Inr ds by blast
      show ?thesis
      proof (cases "is_delimiter_state n")
        case del: True
        then have d: "d \<noteq> It_Finish" using ok by (simp add: step_ok_def)
        have step: "iterative_parse_next s = iterative_parse_next (s1\<lparr>js_state := d\<rparr>)"
          using del d by (simp add: unfold Inr ds)
        have "iterative_parse_next (s1\<lparr>js_state := d\<rparr>) \<noteq> Inl ParseErrorTermination \<and>
            (\<forall>s'. iterative_parse_next (s1\<lparr>js_state := d\<rparr>) = Inr s' \<longrightarrow> next_ok (s1\<lparr>js_state := d\<rparr>) s')"
          using 1(1) [OF False s0_def n_def Inr ds [symmetric] d refl] del ok s0(2) by (simp add: step_ok_def)
        moreover have "next_ok (s1\<lparr>js_state := d\<rparr>) s' \<Longrightarrow> next_ok s s'" for s'
          using ok del s0 d by (auto simp: next_ok_def step_ok_def key_order_ok_def split: if_splits)
        ultimately show ?thesis by (simp add: step)
      next
        case False
        have "next_ok s (s1\<lparr>js_state := d, js_input := i\<rparr>)" if "length i \<le> length (js_input s1)" for i
          using ok False s0 that by (auto simp: next_ok_def step_ok_def reader_inv_def key_order_ok_def)
        from this [OF skip_whitespace_length] this [OF order_refl] show ?thesis
          using False by (auto simp: unfold Inr ds Let_def handle_error_ok)
      qed
    qed
  qed
qed

section \<open>Streams the program can reach\<close>

text \<open>Code that reads JSON only calls \<^verbatim>\<open>peek_token\<close> and \<^verbatim>\<open>eat_token\<close>, directly or through the \<^verbatim>\<open>get_\<close> functions.\<close>

inductive stream_reachable :: "json_stream \<Rightarrow> bool" where
  new: "stream_reachable (json_token_stream_new json)"
| peeked: "stream_reachable s \<Longrightarrow> peek_token s = Inr s' \<Longrightarrow> stream_reachable s'"
| eaten: "stream_reachable s \<Longrightarrow> stream_reachable (eat_token s)"

lemma convert_error_terminated: "convert_error e = terminated \<longleftrightarrow> e = ParseErrorTermination"
  by (cases e) auto

lemma reader_inv_eat [simp]: "reader_inv (eat_token s) = reader_inv s"
  by (simp add: eat_token_def reader_inv_def)

lemma peek_token_inv: "reader_inv s \<Longrightarrow> peek_token s = Inr s' \<Longrightarrow> reader_inv s'"
  using next_reader_ok [of s] by (auto simp: peek_token_def next_ok_def split: if_splits sum.splits)

lemma stream_reachable_inv: "stream_reachable s \<Longrightarrow> reader_inv s"
proof (induction rule: stream_reachable.induct)
  case (new json)
  then show ?case by (simp add: json_token_stream_new_def reader_inv_def)
qed (auto intro: peek_token_inv)

text \<open>Every read makes progress: the measure falls with each token peeked and with each token eaten.\<close>

definition stream_measure :: "json_stream \<Rightarrow> nat" where
  "stream_measure s = 2 * length (js_input s) + (if js_token s = Tok_unread then 0 else 1)"

lemma peek_token_ok:
  assumes "reader_inv s" "peek_token s = Inr s'"
  shows "reader_inv s'" "stream_measure s' \<le> stream_measure s"
    "js_token s' = Tok_unread \<Longrightarrow> js_state s = It_Finish"
    "js_token s' \<noteq> Tok_unread \<Longrightarrow> stream_measure (eat_token s') < stream_measure s"
proof -
  have "reader_inv s' \<and> stream_measure s' \<le> stream_measure s \<and> (js_token s' = Tok_unread \<longrightarrow> js_state s = It_Finish) \<and>
      (js_token s' \<noteq> Tok_unread \<longrightarrow> stream_measure (eat_token s') < stream_measure s)"
  proof (cases "js_token s = Tok_unread")
    case True
    then have "iterative_parse_next s = Inr s'"
      using assms(2) by (simp add: peek_token_def split: sum.splits)
    then have "next_ok s s'" using next_reader_ok [OF assms(1) True] by blast
    then show ?thesis
      using True unfolding next_ok_def stream_measure_def eat_token_def
      by (cases "js_token s' = Tok_unread") (simp_all, auto)
  next
    case False
    then show ?thesis using assms by (simp add: peek_token_def stream_measure_def eat_token_def)
  qed
  then show "reader_inv s'" "stream_measure s' \<le> stream_measure s"
    "js_token s' = Tok_unread \<Longrightarrow> js_state s = It_Finish"
    "js_token s' \<noteq> Tok_unread \<Longrightarrow> stream_measure (eat_token s') < stream_measure s"
    by blast+
qed

lemma document_feeds:
  assumes "renders j t" "ws w" "ws r"
  shows "feeds (json_token_stream_new (w @ t @ r)) (json_tokens j) (js It_Finish [] [])"
proof -
  have "number_end r" using assms(3) number_end_ws [of r "[]"] by simp
  then show ?thesis
    using renders_feeds(1) [OF assms(1)] assms(2,3)
    unfolding feeds_value_def json_token_stream_new_def value_state_def by fastforce
qed

section \<open>Properties\<close>

text \<open>
  C18 (safety): However a program mixes peeking and eating tokens, on any text, the parser never pops or
  updates an empty stack (the model's mark for that, the error of a stopping handler, never comes out), its
  state fits the frames on the stack, and every token that is read uses up part of the text.
\<close>

theorem json_reader_safe:
  assumes "stream_reachable s"
  shows "reader_inv s \<and>
    (case peek_token s of
       Inl e \<Rightarrow> e \<noteq> terminated
     | Inr s' \<Rightarrow> reader_inv s' \<and>
         (if js_token s' = Tok_unread then js_state s = It_Finish
          else stream_measure (eat_token s') < stream_measure s))"
proof -
  have inv: "reader_inv s" by (rule stream_reachable_inv [OF assms])
  have "peek_token s \<noteq> Inl terminated"
    using next_reader_ok [OF inv] by (auto simp: peek_token_def convert_error_terminated split: sum.splits)
  with inv show ?thesis
    using peek_token_ok [OF inv] by (auto split: sum.split)
qed

theorem json_reader_safe_witness:
  "reader_inv (json_token_stream_new ''[1]'')"
  using json_reader_safe [OF stream_reachable.new, of "''[1]''"] by blast



end
