(* ===== verification/Clio_Json.thy ===== *)
theory Clio_Json
  imports Rapidjson_Reader Clio_Stream "HOL-Library.AList"
begin

text \<open>
  JSON conversion of C++ values: \<^verbatim>\<open>to_json\<close> (to_json.hpp) on plain and on pretty streams, and
  \<^verbatim>\<open>from_json\<close> (from_json.hpp) on the token stream. A value carries what its static type tells the
  writer (width of an integer, name of the alternative of a variant, names of the reflected data
  members); a type tells the reader what to expect. Reflected member functions are never written and
  read like unknown keys, so they are left out.

  Reading an optional does not compile (\<^verbatim>\<open>stream.get_null()\<close> returns void and is tested), so there is no
  type for it; optionals are only written. Floating point numbers rest on libraries that are not
  modelled.
\<close>

section \<open>Values and types\<close>

datatype jval =
    V_bool bool
  | V_int bool nat int
  | V_string string
  | V_bytes "byte list"
  | V_vector "jval list"
  | V_optional "jval option"
  | V_variant string jval
  | V_tuple "jval list"
  | V_struct "(string \<times> jval) list"

text \<open>The reader's types; a struct lists the initialiser of each member.\<close>

datatype jty =
    T_bool
  | T_int bool nat
  | T_string
  | T_bytes
  | T_vector jty
  | T_variant "(string \<times> jty) list"
  | T_tuple "jty list"
  | T_struct "(string \<times> jty \<times> jval) list"

section \<open>Writing\<close>

text \<open>
  An output stream collects writes. A \<^verbatim>\<open>pretty_stream\<close> keeps the current indentation; on every other
  stream the indentation functions of stream.hpp do nothing.
\<close>

record json_out =
  jo_writes :: "string list"
  jo_pretty :: bool
  jo_indent_size :: nat
  jo_current_indent :: string

definition jwrite :: "string \<Rightarrow> json_out \<Rightarrow> json_out" where
  "jwrite t out = out\<lparr>jo_writes := jo_writes out @ [t]\<rparr>"

definition increase_indent :: "json_out \<Rightarrow> json_out" where
  "increase_indent out =
     (if jo_pretty out then
        out\<lparr>jo_current_indent := jo_current_indent out @ replicate (jo_indent_size out) (CHR '' '')\<rparr>
      else out)"

definition decrease_indent :: "json_out \<Rightarrow> json_out result" where
  "decrease_indent out =
     (if jo_pretty out then
        if length (jo_current_indent out) < jo_indent_size out then Inl (Stream_Error overrun)
        else Inr (out\<lparr>jo_current_indent :=
               take (length (jo_current_indent out) - jo_indent_size out) (jo_current_indent out)\<rparr>)
      else Inr out)"

definition write_colon :: "json_out \<Rightarrow> json_out" where
  "write_colon out = jwrite (if jo_pretty out then '': '' else '':'') out"

definition write_newline :: "json_out \<Rightarrow> json_out" where
  "write_newline out =
     (if jo_pretty out then jwrite (jo_current_indent out) (jwrite [CHR 0x0A] out) else out)"

text \<open>An empty optional member of a struct is skipped; any other empty optional is null.\<close>

definition absent :: "jval \<Rightarrow> bool" where
  "absent v \<longleftrightarrow> v = V_optional None"

fun to_json :: "jval \<Rightarrow> json_out \<Rightarrow> json_out result"
  and to_json_elements :: "bool \<Rightarrow> jval list \<Rightarrow> json_out \<Rightarrow> (bool \<times> json_out) result"
  and to_json_items :: "nat \<Rightarrow> jval list \<Rightarrow> json_out \<Rightarrow> json_out result"
  and to_json_fields :: "bool \<Rightarrow> (string \<times> jval) list \<Rightarrow> json_out \<Rightarrow> (bool \<times> json_out) result" where
  "to_json (V_bool b) out = Inr (jwrite (if b then ''true'' else ''false'') out)"
| "to_json (V_int sg w i) out = Inr (jwrite (int_to_json w i) out)"
| "to_json (V_string s) out = Inr (jwrite (to_json_string s) out)"
| "to_json (V_bytes bs) out = Inr (jwrite (to_json_hex bs) out)"
| "to_json (V_vector vs) out =
     rbind (to_json_elements True vs (jwrite [CHR 0x5B] out)) (\<lambda>(first, out).
     rbind (if first then Inr out else rbind (decrease_indent out) (\<lambda>out. Inr (write_newline out))) (\<lambda>out.
     Inr (jwrite [CHR 0x5D] out)))"
| "to_json (V_optional vo) out = (case vo of Some v \<Rightarrow> to_json v out | None \<Rightarrow> Inr (jwrite ''null'' out))"
| "to_json (V_variant name v) out =
     rbind (to_json v (jwrite '','' (jwrite (to_json_string name) (jwrite [CHR 0x5B] out)))) (\<lambda>out.
     Inr (jwrite [CHR 0x5D] out))"
| "to_json (V_tuple vs) out =
     (let out = jwrite [CHR 0x5B] out
      in if vs = [] then Inr (jwrite [CHR 0x5D] out)
         else
           rbind (to_json_items 0 vs (increase_indent out)) (\<lambda>out.
           rbind (decrease_indent out) (\<lambda>out.
           Inr (jwrite [CHR 0x5D] (write_newline out)))))"
| "to_json (V_struct fs) out =
     rbind (to_json_fields True fs (jwrite [CHR 0x7B] out)) (\<lambda>(first, out).
     rbind (if first then Inr out else rbind (decrease_indent out) (\<lambda>out. Inr (write_newline out))) (\<lambda>out.
     Inr (jwrite [CHR 0x7D] out)))"
| "to_json_elements first [] out = Inr (first, out)"
| "to_json_elements first (v # vs) out =
     rbind (to_json v (write_newline (if first then increase_indent out else jwrite '','' out))) (\<lambda>out.
     to_json_elements False vs out)"
| "to_json_items idx [] out = Inr out"
| "to_json_items idx (v # vs) out =
     (let out = write_newline out;
          out = (if idx \<noteq> 0 then jwrite '','' out else out)
      in rbind (to_json v out) (\<lambda>out. to_json_items (idx + 1) vs out))"
| "to_json_fields first [] out = Inr (first, out)"
| "to_json_fields first ((name, v) # fs) out =
     (if absent v then to_json_fields first fs out
      else
        let out = write_newline (if first then increase_indent out else jwrite '','' out);
            out = write_colon (jwrite (to_json_string name) out)
        in rbind (to_json v out) (\<lambda>out. to_json_fields False fs out))"

text \<open>\<^verbatim>\<open>convert_to_json\<close> and \<^verbatim>\<open>format_json\<close> run the writer twice, on a sizing stream and on a buffer.\<close>

definition plain_out :: json_out where
  "plain_out = \<lparr>jo_writes = [], jo_pretty = False, jo_indent_size = 4, jo_current_indent = []\<rparr>"

definition pretty_out :: json_out where
  "pretty_out = \<lparr>jo_writes = [], jo_pretty = True, jo_indent_size = 4, jo_current_indent = []\<rparr>"

definition convert_to_json :: "jval \<Rightarrow> byte list result" where
  "convert_to_json v =
     rbind (to_json v plain_out) (\<lambda>out. two_pass True (map bytes_of (jo_writes out)) [])"

definition format_json :: "jval \<Rightarrow> byte list result" where
  "format_json v =
     rbind (to_json v pretty_out) (\<lambda>out. two_pass True (map bytes_of (jo_writes out)) [])"

section \<open>Reading\<close>

text \<open>
  The reader writes into an object that exists; a member the text does not mention keeps its value.
  \<^verbatim>\<open>init\<close> is the value-initialised object of a type.
\<close>

fun init :: "jty \<Rightarrow> jval" where
  "init T_bool = V_bool False"
| "init (T_int sg w) = V_int sg w 0"
| "init T_string = V_string []"
| "init T_bytes = V_bytes []"
| "init (T_vector ty) = V_vector []"
| "init (T_variant alts) = (case alts of (name, ty) # _ \<Rightarrow> V_variant name (init ty) | [] \<Rightarrow> V_variant [] (V_bool False))"
| "init (T_tuple tys) = V_tuple (map init tys)"
| "init (T_struct fds) = V_struct (map (\<lambda>(name, ty, v). (name, v)) fds)"

text \<open>A reader that may not return: None when the fuel runs out.\<close>

type_synonym 'a jres = "(from_json_error + 'a) option"

definition okmap :: "('a \<Rightarrow> 'b) \<Rightarrow> 'e + 'a \<Rightarrow> 'e + 'b" where
  "okmap f r = (case r of Inl e \<Rightarrow> Inl e | Inr x \<Rightarrow> Inr (f x))"

lemma okmap_simps [simp]: "okmap f (Inl e) = Inl e" "okmap f (Inr x) = Inr (f x)"
  by (simp_all add: okmap_def)

lemma okmap_okmap [simp]: "okmap f (okmap g r) = okmap (\<lambda>x. f (g x)) r"
  by (cases r) simp_all

text \<open>\<^verbatim>\<open>from_json_skip_value\<close>; the depth is an unsigned integer of 64 bits.\<close>

definition skip_depth :: "json_token \<Rightarrow> nat \<Rightarrow> nat" where
  "skip_depth t depth =
     (if t = Tok_start_object \<or> t = Tok_start_array then (depth + 1) mod 2 ^ 64
      else if t = Tok_end_object \<or> t = Tok_end_array then (depth + 2 ^ 64 - 1) mod 2 ^ 64
      else depth)"

primrec skip_value :: "nat \<Rightarrow> nat \<Rightarrow> json_stream \<Rightarrow> json_stream jres" where
  "skip_value 0 depth s = None"
| "skip_value (Suc n) depth s =
     fbind (Some (peek_token s)) (\<lambda>s.
     let depth = skip_depth (js_token s) depth; s = eat_token s
     in if depth \<noteq> 0 then skip_value n depth s else Some (Inr s))"

definition from_json_skip_value :: "nat \<Rightarrow> json_stream \<Rightarrow> json_stream jres" where
  "from_json_skip_value n s = skip_value n 0 s"

definition member_of :: "jval \<Rightarrow> string \<Rightarrow> jval" where
  "member_of v k = (case v of V_struct fs \<Rightarrow> (case map_of fs k of Some v \<Rightarrow> v | None \<Rightarrow> V_struct []) | _ \<Rightarrow> V_struct [])"

definition set_member :: "string \<Rightarrow> jval \<Rightarrow> jval \<Rightarrow> jval" where
  "set_member k v cur = (case cur of V_struct fs \<Rightarrow> V_struct (AList.update k v fs) | _ \<Rightarrow> cur)"

text \<open>
  The loops of the readers of vectors, tuples and objects, over the reader \<^verbatim>\<open>rd\<close> of what they hold.
\<close>

type_synonym jreader = "jty \<Rightarrow> jval \<Rightarrow> json_stream \<Rightarrow> (jval \<times> json_stream) jres"

primrec from_json_elements :: "jreader \<Rightarrow> nat \<Rightarrow> jty \<Rightarrow> jval list \<Rightarrow> json_stream \<Rightarrow> (jval \<times> json_stream) jres" where
  "from_json_elements rd 0 ty acc s = None"
| "from_json_elements rd (Suc n) ty acc s =
     fbind (Some (peek_token s)) (\<lambda>s.
     if js_token s = Tok_end_array then
       fbind (Some (get_end_array s)) (\<lambda>s. Some (Inr (V_vector acc, s)))
     else
       fbind (rd ty (init ty) s) (\<lambda>(v, s). from_json_elements rd n ty (acc @ [v]) s))"

fun from_json_items :: "jreader \<Rightarrow> jty list \<Rightarrow> jval list \<Rightarrow> json_stream \<Rightarrow> (jval list \<times> json_stream) jres" where
  "from_json_items rd [] vs s = Some (Inr ([], s))"
| "from_json_items rd (ty # tys) vs s =
     fbind (Some (peek_token s)) (\<lambda>s.
     fbind (if js_token s = Tok_end_array then Some (Inr (hd vs, s)) else rd ty (hd vs) s) (\<lambda>(v, s).
     fbind (from_json_items rd tys (tl vs) s) (\<lambda>(vs, s). Some (Inr (v # vs, s)))))"

text \<open>\<^verbatim>\<open>from_json_object\<close> with the callback of the reflected reader.\<close>

primrec from_json_members ::
  "jreader \<Rightarrow> nat \<Rightarrow> (string \<times> jty \<times> jval) list \<Rightarrow> jval \<Rightarrow> json_stream \<Rightarrow> (jval \<times> json_stream) jres" where
  "from_json_members rd 0 fds cur s = None"
| "from_json_members rd (Suc n) fds cur s =
     fbind (Some (peek_token s)) (\<lambda>s.
     if js_token s = Tok_end_object then
       fbind (Some (get_end_object s)) (\<lambda>s. Some (Inr (cur, s)))
     else
       fbind (Some (get_key s)) (\<lambda>(key, s).
       case map_of fds key of
         Some (ty, _) \<Rightarrow>
           fbind (rd ty (member_of cur key) s) (\<lambda>(v, s).
           from_json_members rd n fds (set_member key v cur) s)
       | None \<Rightarrow>
           fbind (from_json_skip_value n s) (\<lambda>s. from_json_members rd n fds cur s)))"

primrec from_json :: "nat \<Rightarrow> jreader" where
  "from_json 0 = (\<lambda>ty cur s. None)"
| "from_json (Suc n) = (\<lambda>ty cur s.
     case ty of
       T_bool \<Rightarrow> fbind (Some (get_bool s)) (\<lambda>(b, s). Some (Inr (V_bool b, s)))
     | T_int sg w \<Rightarrow>
         fbind (Some (get_string s)) (\<lambda>(r, s).
         fbind (Some (from_json_int sg w r)) (\<lambda>i. Some (Inr (V_int sg w i, s))))
     | T_string \<Rightarrow> fbind (Some (get_string s)) (\<lambda>(r, s). Some (Inr (V_string r, s)))
     | T_bytes \<Rightarrow>
         fbind (Some (get_string s)) (\<lambda>(r, s).
         fbind (Some (from_json_hex r)) (\<lambda>bs. Some (Inr (V_bytes bs, s))))
     | T_vector ty \<Rightarrow> fbind (Some (get_start_array s)) (\<lambda>s. from_json_elements (from_json n) n ty [] s)
     | T_variant alts \<Rightarrow>
         fbind (Some (get_start_array s)) (\<lambda>s.
         fbind (Some (get_string s)) (\<lambda>(type, s).
         case map_of alts type of
           None \<Rightarrow> Some (Inl invalid_type_for_variant)
         | Some ty \<Rightarrow>
             fbind (from_json n ty (init ty) s) (\<lambda>(v, s).
             fbind (Some (get_end_array s)) (\<lambda>s. Some (Inr (V_variant type v, s))))))
     | T_tuple tys \<Rightarrow>
         fbind (Some (peek_token s)) (\<lambda>s.
         if js_token s = Tok_null then Some (Inr (V_tuple (map init tys), s))
         else
           fbind (if tys \<noteq> [] \<and> js_token s \<noteq> Tok_start_array then
                    fbind (from_json n (hd tys) (init (hd tys)) s) (\<lambda>(v, s).
                    Some (Inr (v # map init (tl tys), s)))
                  else Some (Inr (map init tys, s))) (\<lambda>(vs, s).
           fbind (Some (get_start_array s)) (\<lambda>s.
           fbind (from_json_items (from_json n) tys vs s) (\<lambda>(vs, s).
           fbind (Some (get_end_array s)) (\<lambda>s. Some (Inr (V_tuple vs, s)))))))
     | T_struct fds \<Rightarrow> fbind (Some (get_start_object s)) (\<lambda>s. from_json_members (from_json n) n fds cur s))"

text \<open>\<^verbatim>\<open>from_json<T>(std::string)\<close> reads into an object of the type. It does not call \<^verbatim>\<open>get_end\<close>.\<close>

definition from_json_text :: "nat \<Rightarrow> jty \<Rightarrow> jval \<Rightarrow> string \<Rightarrow> jval jres" where
  "from_json_text n ty x json =
     fbind (from_json n ty x (json_token_stream_new json)) (\<lambda>(v, s). Some (Inr v))"

section \<open>What is written\<close>

definition int_chars :: "int \<Rightarrow> string" where
  "int_chars v = (if v < 0 then ''-'' else []) @ rev (push_digits (nat \<bar>v\<bar>))"

definition hex_chars :: "byte list \<Rightarrow> string" where
  "hex_chars bs = concat (map hex_pair bs)"

text \<open>The document a value is written as.\<close>

fun json_of :: "jval \<Rightarrow> json" where
  "json_of (V_bool b) = J_bool b"
| "json_of (V_int sg w i) = J_string (int_chars i)"
| "json_of (V_string s) = J_string (sanitize s)"
| "json_of (V_bytes bs) = J_string (hex_chars bs)"
| "json_of (V_vector vs) = J_array (map json_of vs)"
| "json_of (V_optional vo) = (case vo of Some v \<Rightarrow> json_of v | None \<Rightarrow> J_null)"
| "json_of (V_variant name v) = J_array [J_string (sanitize name), json_of v]"
| "json_of (V_tuple vs) = J_array (map json_of vs)"
| "json_of (V_struct fs) =
     J_object (map (\<lambda>(k, v). (sanitize k, json_of v)) (filter (\<lambda>(k, v). \<not> absent v) fs))"

text \<open>Every integer in a value is one of its type.\<close>

fun ints_ok :: "jval \<Rightarrow> bool" where
  "ints_ok (V_int sg w i) \<longleftrightarrow> w \<in> {8, 16, 32, 64, 128} \<and> int_min sg w \<le> i \<and> i \<le> int_max sg w"
| "ints_ok (V_vector vs) \<longleftrightarrow> (\<forall>v \<in> set vs. ints_ok v)"
| "ints_ok (V_optional vo) \<longleftrightarrow> (case vo of Some v \<Rightarrow> ints_ok v | None \<Rightarrow> True)"
| "ints_ok (V_variant name v) \<longleftrightarrow> ints_ok v"
| "ints_ok (V_tuple vs) \<longleftrightarrow> (\<forall>v \<in> set vs. ints_ok v)"
| "ints_ok (V_struct fs) \<longleftrightarrow> (\<forall>(k, v) \<in> set fs. ints_ok v)"
| "ints_ok _ \<longleftrightarrow> True"

definition simple_char :: "char \<Rightarrow> bool" where
  "simple_char c \<longleftrightarrow> 32 \<le> ord c \<and> ord c < 128 \<and> c \<noteq> CHR 0x22 \<and> c \<noteq> CHR 0x5C"

lemma parse_simple: "list_all simple_char s \<Longrightarrow> parse_string (s @ CHR 0x22 # r) = Inr (s, r)"
proof (induction s)
  case Nil
  show ?case by (subst parse_string.simps) simp
next
  case (Cons c s)
  then show ?case
    by (subst parse_string.simps) (auto simp: simple_char_def utf8_validate_def)
qed

lemma digit_simple: "is_digit c \<Longrightarrow> simple_char c"
  by (auto simp: is_digit_def simple_char_def)

lemma int_chars_simple: "list_all simple_char (int_chars i)"
proof -
  have "list_all simple_char (rev (push_digits n))" for n
    using push_digits_value [of n] digit_simple by (auto simp: list_all_iff)
  then show ?thesis by (simp add: int_chars_def simple_char_def)
qed

lemma last_push_digits: "n \<noteq> 0 \<Longrightarrow> last (push_digits n) \<noteq> CHR ''0''"
proof (induction n rule: push_digits.induct)
  case (1 n)
  show ?case
  proof (cases "n div 10 = 0")
    case True
    then have "n mod 10 \<noteq> 0" using 1(2) by presburger
    moreover have "digit_of (chr (48 + n mod 10)) = int (n mod 10)" using chr_digit [of "n mod 10"] by simp
    moreover have "digit_of (CHR ''0'') = 0" by (simp add: digit_of_def)
    ultimately have "chr (48 + n mod 10) \<noteq> CHR ''0''" by force
    moreover have "push_digits n = [chr (48 + n mod 10)]" using True by (subst push_digits.simps) simp
    ultimately show ?thesis by (simp only: last_ConsL [OF refl] not_False_eq_True)
  next
    case False
    then have "push_digits n = chr (48 + n mod 10) # push_digits (n div 10)"
      by (subst push_digits.simps) simp
    moreover have "push_digits (n div 10) \<noteq> []" using push_digits_value by blast
    ultimately show ?thesis using 1(1) [OF False False] by (simp only: last.simps if_False not_False_eq_True)
  qed
qed

lemma int_chars_text: "integer_text (int_chars i)"
proof -
  obtain ds where ds: "rev (push_digits (nat \<bar>i\<bar>)) = ds" by blast
  have d: "list_all is_digit ds" "ds \<noteq> []"
    using push_digits_value [of "nat \<bar>i\<bar>"] by (auto simp: ds [symmetric])
  have "hd ds = CHR ''0'' \<longrightarrow> tl ds = []"
  proof (cases "i = 0")
    case True
    then have "ds = [chr 48]" by (subst ds [symmetric], subst push_digits.simps) simp
    then show ?thesis by simp
  next
    case False
    then have "last (push_digits (nat \<bar>i\<bar>)) \<noteq> CHR ''0''" by (intro last_push_digits) simp
    then show ?thesis using d(2) by (simp add: ds [symmetric] hd_rev)
  qed
  moreover have "peek ds \<noteq> CHR ''-''" using d by (cases ds) (auto simp: is_digit_def)
  ultimately show ?thesis using d by (simp add: int_chars_def integer_text_def ds)
qed

lemma renders_quoted: "list_all simple_char c \<Longrightarrow> renders (J_string c) ([CHR 0x22] @ c @ [CHR 0x22])"
  using r_string [of "c @ [CHR 0x22]" c] parse_simple by simp

lemma renders_int:
  assumes "w \<in> {8, 16, 32, 64, 128}" "int_min sg w \<le> i" "i \<le> int_max sg w"
  shows "renders (J_string (int_chars i)) (int_to_json w i)"
proof -
  have "int_to_json w i = (if w > 32 then [CHR 0x22] @ int_chars i @ [CHR 0x22] else int_chars i)"
    unfolding int_chars_def by (rule int_text(1) [OF assms])
  then show ?thesis
    using renders_quoted [OF int_chars_simple] r_number [OF int_chars_text] by simp
qed

lemma parse_to_json_string: "to_json_string s = CHR 0x22 # (encode s @ [CHR 0x22])"
    "parse_string ((encode s @ [CHR 0x22]) @ r) = Inr (sanitize s, r)"
  by (simp_all add: to_json_string_def string_body_encode parse_string_encode)

lemma renders_to_json_string: "renders (J_string (sanitize s)) (to_json_string s)"
  unfolding parse_to_json_string(1) by (rule r_string) (rule parse_to_json_string(2))

lemma hex_digit_simple: "n < 16 \<Longrightarrow> simple_char (hex_digit n)"
proof -
  assume "n < 16"
  then have "n \<in> {0,1,2,3,4,5,6,7,8,9,10,11,12,13,14,15}" by (simp; presburger)
  then show ?thesis by (auto simp: hex_digit_def hex_digits_def simple_char_def)
qed

lemma renders_hex: "renders (J_string (hex_chars bs)) (to_json_hex bs)"
proof -
  have "list_all simple_char (hex_pair b)" for b
  proof -
    have "unat (drop_bit 4 b) < 16" using unat_byte_less [of b] by (simp add: unat_drop_bit_div less_mult_imp_div_less)
    moreover have "b AND 15 \<le> 15" by (rule word_and_le1)
    then have "unat (b AND 15) < 16" unfolding word_le_nat_alt by simp
    ultimately show ?thesis by (simp add: hex_pair_def hex_digit_simple)
  qed
  then have "list_all simple_char (hex_chars bs)" by (induction bs) (simp_all add: hex_chars_def)
  from renders_quoted [OF this] show ?thesis by (simp add: to_json_hex_def hex_chars_def)
qed

section \<open>The writer renders the document\<close>

text \<open>The text an output stream has collected, and what the writer keeps of the stream.\<close>

definition jo_text :: "json_out \<Rightarrow> string" where
  "jo_text out = concat (jo_writes out)"

definition same_layout :: "json_out \<Rightarrow> json_out \<Rightarrow> bool" where
  "same_layout out out' \<longleftrightarrow>
     jo_pretty out' = jo_pretty out \<and> jo_indent_size out' = jo_indent_size out \<and>
     jo_current_indent out' = jo_current_indent out"

definition deeper :: "json_out \<Rightarrow> json_out \<Rightarrow> bool" where
  "deeper out out' \<longleftrightarrow> same_layout (increase_indent out) out'"

definition layout_ok :: "json_out \<Rightarrow> bool" where
  "layout_ok out \<longleftrightarrow> ws (jo_current_indent out)"

lemma jo_text_jwrite [simp]: "jo_text (jwrite t out) = jo_text out @ t"
  by (simp add: jo_text_def jwrite_def)

lemma jo_text_indent [simp]: "jo_text (increase_indent out) = jo_text out"
  by (simp add: jo_text_def increase_indent_def)

lemma same_layout_simps [simp]:
  "same_layout out out" "same_layout out (jwrite t out') = same_layout out out'"
  "same_layout (jwrite t out) out' = same_layout out out'"
  by (auto simp: same_layout_def jwrite_def)

lemma same_layout_trans: "same_layout a b \<Longrightarrow> same_layout b c \<Longrightarrow> same_layout a c"
  by (simp add: same_layout_def)

lemma layout_ok_simps [simp]: "layout_ok (jwrite t out) = layout_ok out"
  by (simp add: layout_ok_def jwrite_def)

lemma layout_ok_same: "layout_ok out \<Longrightarrow> same_layout out out' \<Longrightarrow> layout_ok out'"
  by (simp add: layout_ok_def same_layout_def)

lemma ws_append: "ws (a @ b) \<longleftrightarrow> ws a \<and> ws b"
  by (simp add: ws_def ball_Un)

lemma ws_spaces: "ws (replicate n (CHR '' ''))"
  by (simp add: ws_def)

lemma layout_ok_increase: "layout_ok out \<Longrightarrow> layout_ok (increase_indent out)"
  by (simp add: layout_ok_def increase_indent_def ws_append ws_spaces)

lemma write_newline_text:
  assumes "layout_ok out"
  shows "\<exists>w. ws w \<and> jo_text (write_newline out) = jo_text out @ w \<and> same_layout out (write_newline out)"
proof (cases "jo_pretty out")
  case True
  have "ws (CHR 0x0A # jo_current_indent out)"
    using assms by (simp add: layout_ok_def ws_def)
  moreover have "jo_text (write_newline out) = jo_text out @ CHR 0x0A # jo_current_indent out"
    using True by (simp add: write_newline_def)
  moreover have "same_layout out (write_newline out)"
    by (simp add: write_newline_def)
  ultimately show ?thesis by blast
next
  case False
  then show ?thesis by (intro exI [of _ "[]"]) (simp add: write_newline_def)
qed

lemma write_colon_text:
  "\<exists>w. ws w \<and> jo_text (write_colon out) = jo_text out @ CHR '':'' # w \<and> same_layout out (write_colon out)"
proof -
  have "write_colon out = jwrite (CHR '':'' # (if jo_pretty out then '' '' else [])) out"
    by (simp add: write_colon_def)
  moreover have "ws (if jo_pretty out then '' '' else [])" by (simp add: ws_def)
  ultimately show ?thesis by (metis jo_text_jwrite same_layout_simps(1,2))
qed

lemma same_layout_increase: "same_layout out out' \<Longrightarrow> same_layout (increase_indent out) (increase_indent out')"
  by (auto simp: same_layout_def increase_indent_def)

lemma decrease_deeper:
  assumes "deeper out out'"
  shows "\<exists>out''. decrease_indent out' = Inr out'' \<and> same_layout out out'' \<and> jo_text out'' = jo_text out'"
  using assms by (auto simp: deeper_def same_layout_def increase_indent_def decrease_indent_def jo_text_def split: if_splits)

lemma deeper_same: "deeper out a \<Longrightarrow> same_layout a b \<Longrightarrow> deeper out b" "same_layout out out0 \<Longrightarrow> deeper out0 a \<Longrightarrow> deeper out a"
  by (auto simp: deeper_def same_layout_def increase_indent_def split: if_splits)

lemma deeper_jwrite [simp]: "deeper (jwrite t out) out' = deeper out out'"
  by (auto simp: deeper_def same_layout_def increase_indent_def jwrite_def)

text \<open>What each writer promises, for elements, items and members still to be followed by the end.\<close>

definition writes_value :: "json \<Rightarrow> json_out \<Rightarrow> json_out result \<Rightarrow> bool" where
  "writes_value j out r \<longleftrightarrow>
     (\<exists>out' t. r = Inr out' \<and> jo_text out' = jo_text out @ t \<and> same_layout out out' \<and> renders j t)"

definition writes_elements :: "bool \<Rightarrow> json list \<Rightarrow> json_out \<Rightarrow> (bool \<times> json_out) result \<Rightarrow> bool" where
  "writes_elements first es out r \<longleftrightarrow>
     (\<exists>out' t. r = Inr (first \<and> es = [], out') \<and> jo_text out' = jo_text out @ t \<and>
        (if first \<and> es \<noteq> [] then deeper out out' else same_layout out out') \<and>
        (\<forall>w. ws w \<longrightarrow> renders_elements first es (t @ w @ [CHR 0x5D])))"

definition writes_members :: "bool \<Rightarrow> (string \<times> json) list \<Rightarrow> json_out \<Rightarrow> (bool \<times> json_out) result \<Rightarrow> bool" where
  "writes_members first ms out r \<longleftrightarrow>
     (\<exists>out' t. r = Inr (first \<and> ms = [], out') \<and> jo_text out' = jo_text out @ t \<and>
        (if first \<and> ms \<noteq> [] then deeper out out' else same_layout out out') \<and>
        (\<forall>w. ws w \<longrightarrow> renders_members first ms (t @ w @ [CHR 0x7D])))"

definition writes_items :: "nat \<Rightarrow> json list \<Rightarrow> json_out \<Rightarrow> json_out result \<Rightarrow> bool" where
  "writes_items idx es out r \<longleftrightarrow>
     (\<exists>out' t. r = Inr out' \<and> jo_text out' = jo_text out @ t \<and> same_layout out out' \<and>
        (\<forall>w. ws w \<longrightarrow> renders_elements (idx = 0) es (t @ w @ [CHR 0x5D])))"

lemma writes_closing:
  assumes "layout_ok out" "if ne then deeper out out' else same_layout out out'"
    "jo_text out' = jo_text out @ pre" "\<And>w. ws w \<Longrightarrow> renders j (pre @ w @ [c])"
  shows "writes_value j out
    (rbind (if \<not> ne then Inr out' else rbind (decrease_indent out') (\<lambda>out. Inr (write_newline out))) (\<lambda>out.
     Inr (jwrite [c] out)))"
proof (cases ne)
  case True
  with assms(2) obtain o2 where o2: "decrease_indent out' = Inr o2" "same_layout out o2" "jo_text o2 = jo_text out'"
    using decrease_deeper [of out out'] by auto
  obtain w where w: "ws w" "jo_text (write_newline o2) = jo_text o2 @ w" "same_layout o2 (write_newline o2)"
    using write_newline_text layout_ok_same [OF assms(1) o2(2)] by blast
  show ?thesis
    unfolding writes_value_def
    by (rule exI [of _ "jwrite [c] (write_newline o2)"], rule exI [of _ "pre @ w @ [c]"])
      (use True o2 w assms(3,4) same_layout_trans in auto)
next
  case False
  show ?thesis
    unfolding writes_value_def
    by (rule exI [of _ "jwrite [c] out'"], rule exI [of _ "pre @ [c]"])
      (use False assms(2,3) assms(4) [of "[]"] in auto)
qed

definition fields_of :: "(string \<times> jval) list \<Rightarrow> (string \<times> json) list" where
  "fields_of fs = map (\<lambda>(k, v). (sanitize k, json_of v)) (filter (\<lambda>(k, v). \<not> absent v) fs)"

lemma fields_of_simps [simp]:
  "fields_of [] = []"
  "fields_of ((k, v) # fs) = (if absent v then fields_of fs else (sanitize k, json_of v) # fields_of fs)"
  by (simp_all add: fields_of_def)

lemma writes_valueI: "renders j t \<Longrightarrow> writes_value j out (Inr (jwrite t out))"
  by (auto simp: writes_value_def)

lemma writes_elements_Cons:
  assumes "layout_ok out" "r0 = write_newline (if first then increase_indent out else jwrite '','' out)"
    "writes_value j r0 (Inr out1)" "writes_elements False es out1 r"
  shows "writes_elements first (j # es) out r"
proof -
  define pre where "pre = (if first then [] else '','')"
  define o0 where "o0 = (if first then increase_indent out else jwrite '','' out)"
  have lay: "layout_ok o0" using assms(1) layout_ok_increase by (simp add: o0_def)
  obtain w0 where w0: "ws w0" "jo_text r0 = jo_text o0 @ w0" "same_layout o0 r0"
    using write_newline_text [OF lay] assms(2) by (auto simp: o0_def)
  have t0: "jo_text o0 = jo_text out @ pre" by (simp add: o0_def pre_def)
  obtain t where t: "jo_text out1 = jo_text r0 @ t" "same_layout r0 out1" "renders j t"
    using assms(3) by (auto simp: writes_value_def)
  obtain out' u where u: "r = Inr (False, out')" "jo_text out' = jo_text out1 @ u" "same_layout out1 out'"
    "\<And>w. ws w \<Longrightarrow> renders_elements False es (u @ w @ [CHR 0x5D])"
    using assms(4) by (auto simp: writes_elements_def)
  have lay': "same_layout o0 out'" using w0(3) t(2) u(3) same_layout_trans by blast
  have "renders_elements first (j # es) ((pre @ w0 @ t @ u) @ w @ [CHR 0x5D])" if "ws w" for w
    using e_cons [OF ws_Nil w0(1) t(3) u(4) [OF that], of first] by (auto simp: pre_def)
  moreover have "if first then deeper out out' else same_layout out out'"
    using lay' by (auto simp: o0_def deeper_def)
  moreover have "jo_text out' = jo_text out @ (pre @ w0 @ t @ u)"
    using t0 w0 t u by simp
  ultimately show ?thesis
    using u(1) unfolding writes_elements_def by force
qed

lemma writes_items_Cons:
  assumes "layout_ok out" "r0 = (if idx \<noteq> 0 then jwrite '','' (write_newline out) else write_newline out)"
    "writes_value j r0 (Inr out1)" "writes_items (idx + 1) es out1 r"
  shows "writes_items idx (j # es) out r"
proof -
  obtain w0 where w0: "ws w0" "jo_text (write_newline out) = jo_text out @ w0" "same_layout out (write_newline out)"
    using write_newline_text [OF assms(1)] by auto
  define pre where "pre = w0 @ (if idx \<noteq> 0 then '','' else [])"
  have r0: "jo_text r0 = jo_text out @ pre" "same_layout out r0"
    using w0 by (simp_all add: assms(2) pre_def)
  obtain t where t: "jo_text out1 = jo_text r0 @ t" "same_layout r0 out1" "renders j t"
    using assms(3) by (auto simp: writes_value_def)
  obtain out' u where u: "r = Inr out'" "jo_text out' = jo_text out1 @ u" "same_layout out1 out'"
    "\<And>w. ws w \<Longrightarrow> renders_elements False es (u @ w @ [CHR 0x5D])"
    using assms(4) by (auto simp: writes_items_def)
  have "renders_elements (idx = 0) (j # es) ((pre @ t @ u) @ w @ [CHR 0x5D])" if "ws w" for w
    using e_cons [OF w0(1) ws_Nil t(3) u(4) [OF that], of "idx = 0"]
      e_cons [OF ws_Nil w0(1) t(3) u(4) [OF that], of "idx = 0"] by (simp add: pre_def split: if_splits)
  moreover have "same_layout out out'" using r0(2) t(2) u(3) same_layout_trans by blast
  moreover have "jo_text out' = jo_text out @ (pre @ t @ u)"
    using r0 t u by simp
  ultimately show ?thesis
    using u(1) unfolding writes_items_def by force
qed

lemma writes_members_Cons:
  assumes "layout_ok out" "r0 = write_newline (if first then increase_indent out else jwrite '','' out)"
    "writes_value j (write_colon (jwrite (to_json_string k) r0)) (Inr out1)" "writes_members False ms out1 r"
  shows "writes_members first ((sanitize k, j) # ms) out r"
proof -
  define pre where "pre = (if first then [] else '','')"
  define o0 where "o0 = (if first then increase_indent out else jwrite '','' out)"
  define kt where "kt = encode k @ [CHR 0x22]"
  have lay: "layout_ok o0" using assms(1) layout_ok_increase by (simp add: o0_def)
  obtain w0 where w0: "ws w0" "jo_text r0 = jo_text o0 @ w0" "same_layout o0 r0"
    using write_newline_text [OF lay] assms(2) by (auto simp: o0_def)
  have t0: "jo_text o0 = jo_text out @ pre" by (simp add: o0_def pre_def)
  define oc where "oc = write_colon (jwrite (to_json_string k) r0)"
  obtain w3 where w3: "ws w3" "jo_text oc = jo_text r0 @ CHR 0x22 # kt @ CHR '':'' # w3" "same_layout r0 oc"
    using write_colon_text [of "jwrite (to_json_string k) r0"]
    unfolding oc_def by (auto simp: parse_to_json_string(1) kt_def)
  obtain t where t: "jo_text out1 = jo_text oc @ t" "same_layout oc out1" "renders j t"
    using assms(3) by (auto simp: writes_value_def oc_def)
  obtain out' u where u: "r = Inr (False, out')" "jo_text out' = jo_text out1 @ u" "same_layout out1 out'"
    "\<And>w. ws w \<Longrightarrow> renders_members False ms (u @ w @ [CHR 0x7D])"
    using assms(4) by (auto simp: writes_members_def)
  have lay': "same_layout o0 out'" using w0(3) w3(3) t(2) u(3) same_layout_trans by blast
  have kp: "parse_string (kt @ r) = Inr (sanitize k, r)" for r
    unfolding kt_def by (rule parse_to_json_string(2))
  have "renders_members first ((sanitize k, j) # ms) ((pre @ w0 @ CHR 0x22 # kt @ CHR '':'' # w3 @ t @ u) @ w @ [CHR 0x7D])"
    if "ws w" for w
    using m_cons [OF ws_Nil w0(1) ws_Nil w3(1) kp t(3) u(4) [OF that], of first] by (auto simp: pre_def)
  moreover have "if first then deeper out out' else same_layout out out'"
    using lay' by (auto simp: o0_def deeper_def)
  moreover have "jo_text out' = jo_text out @ (pre @ w0 @ CHR 0x22 # kt @ CHR '':'' # w3 @ t @ u)"
    using t0 w0 w3 t u by simp
  ultimately show ?thesis
    using u(1) unfolding writes_members_def by force
qed

lemma to_json_writes:
  "layout_ok out \<Longrightarrow> ints_ok v \<Longrightarrow> writes_value (json_of v) out (to_json v out)"
  "layout_ok out \<Longrightarrow> (\<forall>v \<in> set vs. ints_ok v) \<Longrightarrow>
     writes_elements first (map json_of vs) out (to_json_elements first vs out)"
  "layout_ok out \<Longrightarrow> (\<forall>v \<in> set vs. ints_ok v) \<Longrightarrow>
     writes_items idx (map json_of vs) out (to_json_items idx vs out)"
  "layout_ok out \<Longrightarrow> (\<forall>(k, v) \<in> set fs. ints_ok v) \<Longrightarrow>
     writes_members first (fields_of fs) out (to_json_fields first fs out)"
proof (induction v out and first vs out and idx vs out and first fs out
    rule: to_json_to_json_elements_to_json_items_to_json_fields.induct)
  case (5 vs out)
  then obtain out' t where el: "to_json_elements True vs (jwrite [CHR 0x5B] out) = Inr (vs = [], out')"
    "jo_text out' = jo_text out @ [CHR 0x5B] @ t" "if vs \<noteq> [] then deeper out out' else same_layout out out'"
    "\<And>w. ws w \<Longrightarrow> renders_elements True (map json_of vs) (t @ w @ [CHR 0x5D])"
    by (auto simp: writes_elements_def split: if_splits)
  have "writes_value (J_array (map json_of vs)) out
    (rbind (if \<not> vs \<noteq> [] then Inr out' else rbind (decrease_indent out') (\<lambda>out. Inr (write_newline out))) (\<lambda>out.
     Inr (jwrite [CHR 0x5D] out)))"
    by (rule writes_closing [OF 5(2) el(3,2)]) (use r_array el(4) in simp)
  then show ?case by (simp add: el(1))
next
  case (7 name v out)
  then obtain out1 t where v: "to_json v (jwrite '','' (jwrite (to_json_string name) (jwrite [CHR 0x5B] out))) = Inr out1"
    "jo_text out1 = jo_text out @ [CHR 0x5B] @ to_json_string name @ '','' @ t" "same_layout out out1" "renders (json_of v) t"
    by (auto simp: writes_value_def)
  have "renders_elements False [json_of v] ('','' @ t @ [CHR 0x5D])"
    using e_cons [OF ws_Nil ws_Nil v(4) e_end [OF ws_Nil], of False] by simp
  from e_cons [OF ws_Nil ws_Nil renders_to_json_string [of name] this, of True]
  have "renders (json_of (V_variant name v)) ([CHR 0x5B] @ to_json_string name @ '','' @ t @ [CHR 0x5D])"
    by (simp add: r_array)
  then show ?case
    unfolding writes_value_def
    by (intro exI [of _ "jwrite [CHR 0x5D] out1"] exI [of _ "[CHR 0x5B] @ to_json_string name @ '','' @ t @ [CHR 0x5D]"])
      (use v in simp)
next
  case (8 vs out)
  show ?case
  proof (cases "vs = []")
    case True
    then show ?thesis
      using r_array [OF e_end [OF ws_Nil]] by (auto simp: writes_value_def)
  next
    case False
    have lay: "layout_ok (increase_indent (jwrite [CHR 0x5B] out))"
      using 8(2) by (simp add: layout_ok_increase)
    obtain out' t where el: "to_json_items 0 vs (increase_indent (jwrite [CHR 0x5B] out)) = Inr out'"
      "jo_text out' = jo_text out @ [CHR 0x5B] @ t" "same_layout (increase_indent (jwrite [CHR 0x5B] out)) out'"
      "\<And>w. ws w \<Longrightarrow> renders_elements True (map json_of vs) (t @ w @ [CHR 0x5D])"
      using 8(1) [OF refl False lay] 8(3) by (auto simp: writes_items_def)
    have d: "if vs \<noteq> [] then deeper out out' else same_layout out out'"
      using False el(3) deeper_same(2) [of out "jwrite [CHR 0x5B] out"] by (simp add: deeper_def)
    have "writes_value (J_array (map json_of vs)) out
      (rbind (if \<not> vs \<noteq> [] then Inr out' else rbind (decrease_indent out') (\<lambda>out. Inr (write_newline out))) (\<lambda>out.
       Inr (jwrite [CHR 0x5D] out)))"
      by (rule writes_closing [OF 8(2) d el(2)]) (use r_array el(4) in simp)
    then show ?thesis using False by (simp add: el(1) Let_def rbind_assoc)
  qed
next
  case (9 fs out)
  then obtain out' t where el: "to_json_fields True fs (jwrite [CHR 0x7B] out) = Inr (fields_of fs = [], out')"
    "jo_text out' = jo_text out @ [CHR 0x7B] @ t" "if fields_of fs \<noteq> [] then deeper out out' else same_layout out out'"
    "\<And>w. ws w \<Longrightarrow> renders_members True (fields_of fs) (t @ w @ [CHR 0x7D])"
    by (auto simp: writes_members_def split: if_splits)
  have "writes_value (J_object (fields_of fs)) out
    (rbind (if \<not> fields_of fs \<noteq> [] then Inr out' else rbind (decrease_indent out') (\<lambda>out. Inr (write_newline out))) (\<lambda>out.
     Inr (jwrite [CHR 0x7D] out)))"
    by (rule writes_closing [OF 9(2) el(3,2)]) (use r_object el(4) in simp)
  then show ?case by (simp add: el(1) fields_of_def)
next
  case (11 first v vs out)
  let ?r0 = "write_newline (if first then increase_indent out else jwrite '','' out)"
  have lay: "layout_ok ?r0"
    using write_newline_text layout_ok_increase [OF 11(3)] 11(3) layout_ok_same by (metis layout_ok_simps)
  obtain out1 where v: "writes_value (json_of v) ?r0 (Inr out1)" "to_json v ?r0 = Inr out1" "layout_ok out1"
    using 11(1) [OF lay] 11(4) layout_ok_same [OF lay] by (auto simp: writes_value_def)
  show ?case
    using writes_elements_Cons [OF 11(3) refl v(1)] 11(2) [OF v(2) v(3)] 11(4) v(2) by simp
next
  case (13 idx v vs out)
  let ?r0 = "if idx \<noteq> 0 then jwrite '','' (write_newline out) else write_newline out"
  have lay: "layout_ok ?r0"
    using write_newline_text [OF 13(3)] layout_ok_same [OF 13(3)] by auto
  obtain out1 where v: "writes_value (json_of v) ?r0 (Inr out1)" "to_json v ?r0 = Inr out1" "layout_ok out1"
    using 13(1) [OF refl refl lay] 13(4) layout_ok_same [OF lay] by (auto simp: writes_value_def)
  show ?case
    using writes_items_Cons [OF 13(3) refl v(1)] 13(2) [OF refl refl v(2) v(3)] 13(4) v(2) by (simp add: Let_def)
next
  case (15 first name v fs out)
  show ?case
  proof (cases "absent v")
    case True
    then show ?thesis using 15(1) [OF True 15(4)] 15(5) by simp
  next
    case False
    let ?r0 = "write_newline (if first then increase_indent out else jwrite '','' out)"
    let ?r1 = "write_colon (jwrite (to_json_string name) ?r0)"
    have "layout_ok ?r0"
      using write_newline_text layout_ok_increase [OF 15(4)] 15(4) layout_ok_same by (metis layout_ok_simps)
    then have lay: "layout_ok ?r1"
      using write_colon_text layout_ok_same by (metis layout_ok_simps)
    obtain out1 where v: "writes_value (json_of v) ?r1 (Inr out1)" "to_json v ?r1 = Inr out1" "layout_ok out1"
      using 15(2) [OF False refl refl lay] 15(5) layout_ok_same [OF lay] by (auto simp: writes_value_def)
    show ?thesis
      using writes_members_Cons [OF 15(4) refl v(1)] 15(3) [OF False refl refl v(2) v(3)] 15(5) v(2) False
      by (simp add: Let_def)
  qed
qed (auto simp: renders_int renders_to_json_string renders_hex r_null r_true r_false writes_elements_def writes_items_def writes_members_def
    intro!: writes_valueI e_end m_end split: option.splits)

end
