(* ===== verification/Clio_Json_Read.thy ===== *)
theory Clio_Json_Read
  imports Clio_Json
begin

text \<open>
  What \<^verbatim>\<open>from_json\<close> does with a whole text: skipping consumes one value, the streaming reader
  computes what a decoder of documents says, reading ends on every text for types without tuples,
  results have their types, and what was written reads back.
\<close>

section \<open>Skipping a value\<close>

fun jdepth :: "json \<Rightarrow> nat" where
  "jdepth (J_array es) = Suc (foldr (\<lambda>e. max (jdepth e)) es 0)"
| "jdepth (J_object ms) = Suc (foldr (\<lambda>(k, e). max (jdepth e)) ms 0)"
| "jdepth _ = 0"

lemma skip_depth_simps:
  "t = Tok_start_object \<or> t = Tok_start_array \<Longrightarrow> d + 1 < 2 ^ 64 \<Longrightarrow> skip_depth t d = d + 1"
  "t = Tok_end_object \<or> t = Tok_end_array \<Longrightarrow> 0 < d \<Longrightarrow> d < 2 ^ 64 \<Longrightarrow> skip_depth t d = d - 1"
  "t \<notin> {Tok_start_object, Tok_start_array, Tok_end_object, Tok_end_array} \<Longrightarrow> skip_depth t d = d"
proof -
  show "t = Tok_start_object \<or> t = Tok_start_array \<Longrightarrow> d + 1 < 2 ^ 64 \<Longrightarrow> skip_depth t d = d + 1"
    by (simp add: skip_depth_def del: power_numeral)
  assume t: "t = Tok_end_object \<or> t = Tok_end_array" and d: "0 < d" "d < 2 ^ 64"
  have "d + 2 ^ 64 - 1 = d - 1 + 2 ^ 64" using d by linarith
  moreover have "(d - 1 + 2 ^ 64) mod 2 ^ 64 = d - 1"
    using d unfolding mod_add_self2 by (intro mod_less) linarith
  ultimately have "(d + 2 ^ 64 - 1) mod 2 ^ 64 = d - 1" by (simp only:)
  then show "skip_depth t d = d - 1" using t unfolding skip_depth_def by auto
qed (simp add: skip_depth_def)

lemma skip_step:
  "peek_token s = Inr s1 \<Longrightarrow> skip_value (Suc n) d s =
     (if skip_depth (js_token s1) d \<noteq> 0 then skip_value n (skip_depth (js_token s1) d) (eat_token s1)
      else Some (Inr (eat_token s1)))"
  by (simp add: Let_def)

declare skip_value.simps(2) [simp del]

definition skips :: "json_token list \<Rightarrow> nat \<Rightarrow> bool" where
  "skips ts h \<longleftrightarrow>
     (\<forall>s s' d n. feeds s ts s' \<longrightarrow> 0 < d \<longrightarrow> d + h < 2 ^ 64 \<longrightarrow> skip_value (n + length ts) d s = skip_value n d s')"

lemma skips_append: "skips ts h \<Longrightarrow> skips us h \<Longrightarrow> skips (ts @ us) h"
  unfolding skips_def feeds_append length_append
proof (intro allI impI, elim exE conjE)
  fix s s' d n s1
  assume a: "\<forall>s s' d n. feeds s ts s' \<longrightarrow> 0 < d \<longrightarrow> d + h < 2 ^ 64 \<longrightarrow> skip_value (n + length ts) d s = skip_value n d s'"
    "\<forall>s s' d n. feeds s us s' \<longrightarrow> 0 < d \<longrightarrow> d + h < 2 ^ 64 \<longrightarrow> skip_value (n + length us) d s = skip_value n d s'"
    "0 < d" "d + h < 2 ^ 64" "feeds s ts s1" "feeds s1 us s'"
  have "skip_value ((n + length us) + length ts) d s = skip_value (n + length us) d s1"
    using a(1,3-5) by blast
  also have "\<dots> = skip_value n d s'" using a(2,3,4,6) by blast
  finally show "skip_value (n + (length ts + length us)) d s = skip_value n d s'"
    by (simp only: add.assoc add.commute [of "length us"])
qed

lemma skips_mono: "skips ts h \<Longrightarrow> h \<le> h' \<Longrightarrow> skips ts h'"
  unfolding skips_def
proof (intro allI impI)
  fix s s' d n
  assume a: "\<forall>s s' d n. feeds s ts s' \<longrightarrow> 0 < d \<longrightarrow> d + h < 2 ^ 64 \<longrightarrow> skip_value (n + length ts) d s = skip_value n d s'"
    "h \<le> h'" "feeds s ts s'" "0 < d" "d + h' < 2 ^ 64"
  have "d + h < 2 ^ 64" using a(2,5) by (rule le_less_trans [OF add_left_mono])
  with a(1,3,4) show "skip_value (n + length ts) d s = skip_value n d s'" by blast
qed

lemma skips_Nil: "skips [] h"
  by (simp add: skips_def)

lemma skips_scalar:
  "t \<notin> {Tok_start_object, Tok_start_array, Tok_end_object, Tok_end_array} \<Longrightarrow> skips [t] h"
  by (auto simp: skips_def skip_step skip_depth_simps)

lemma skips_block:
  assumes "skips ts h" "a = Tok_start_array \<or> a = Tok_start_object" "b = Tok_end_array \<or> b = Tok_end_object"
  shows "skips (a # ts @ [b]) (Suc h)"
    and "feeds s (a # ts @ [b]) s' \<Longrightarrow> h < 2 ^ 64 - 1 \<Longrightarrow> skip_value (n + length (a # ts @ [b])) 0 s = Some (Inr s')"
proof -
  have block: "skip_value (n + length (a # ts @ [b])) d s = (if d = 0 then Some (Inr s') else skip_value n d s')"
    if f: "feeds s (a # ts @ [b]) s'" "d + Suc h < 2 ^ 64" for s s' d n
  proof -
    obtain s1 s2 s3 where s: "peek_token s = Inr s1" "js_token s1 = a" "feeds (eat_token s1) ts s2"
      "peek_token s2 = Inr s3" "js_token s3 = b" "s' = eat_token s3"
    proof -
      obtain s1 where "peek_token s = Inr s1" "js_token s1 = a" "feeds (eat_token s1) (ts @ [b]) s'"
        using f(1) by auto
      moreover then obtain s2 where "feeds (eat_token s1) ts s2" "feeds s2 [b] s'"
        unfolding feeds_append by blast
      moreover then obtain s3 where "peek_token s2 = Inr s3" "js_token s3 = b" "s' = eat_token s3"
        by auto
      ultimately show thesis using that by blast
    qed
    have "skip_value (n + length (a # ts @ [b])) d s = skip_value (Suc n + length ts) (d + 1) (eat_token s1)"
      using skip_depth_simps(1) [of a d] assms(2) f(2) s(2) by (auto simp add: skip_step [OF s(1)])
    also have "\<dots> = skip_value (Suc n) (d + 1) s2"
      using assms(1) s(3) f(2) unfolding skips_def by (metis Suc_eq_plus1 add_Suc_right add_Suc zero_less_Suc)
    also have "\<dots> = (if d = 0 then Some (Inr s') else skip_value n d s')"
      using skip_depth_simps(2) [of b "d + 1"] assms(3) f(2) s(5,6) by (auto simp add: skip_step [OF s(4)])
    finally show ?thesis .
  qed
  show "skips (a # ts @ [b]) (Suc h)"
    unfolding skips_def using block by auto
  show "feeds s (a # ts @ [b]) s' \<Longrightarrow> h < 2 ^ 64 - 1 \<Longrightarrow> skip_value (n + length (a # ts @ [b])) 0 s = Some (Inr s')"
    using block [of s s' 0] by simp
qed

lemma skips_concat: "(\<And>x. x \<in> set xs \<Longrightarrow> skips (f x) h) \<Longrightarrow> skips (concat (map f xs)) h"
  by (induction xs) (auto intro: skips_append skips_Nil)

lemma foldr_max: "x \<in> set xs \<Longrightarrow> f x \<le> foldr (\<lambda>e. max (f e)) xs (0 :: nat)"
  by (induction xs) auto

lemma jdepth_elements: "e \<in> set es \<Longrightarrow> jdepth e \<le> foldr (\<lambda>e. max (jdepth e)) es 0"
  by (rule foldr_max)

lemma jdepth_members: "(k, e) \<in> set ms \<Longrightarrow> jdepth e \<le> foldr (\<lambda>(k, e). max (jdepth e)) ms 0"
  using foldr_max [of "(k, e)" ms "\<lambda>(k, e). jdepth e"] by (simp add: case_prod_unfold)

lemma skips_json: "skips (json_tokens j) (jdepth j)"
proof (induction j)
  case (J_array es)
  have "skips (concat (map json_tokens es)) (foldr (\<lambda>e. max (jdepth e)) es 0)"
    by (rule skips_concat) (blast intro: skips_mono J_array jdepth_elements)
  then show ?case by (simp add: skips_block(1))
next
  case (J_object ms)
  have "skips (Tok_key k # json_tokens e) (foldr (\<lambda>(k, e). max (jdepth e)) ms 0)" if "(k, e) \<in> set ms" for k e
  proof -
    have "skips (json_tokens e) (foldr (\<lambda>(k, e). max (jdepth e)) ms 0)"
      using skips_mono [OF _ jdepth_members [OF that]] J_object that by force
    from skips_append [OF skips_scalar this, of "Tok_key k"] show ?thesis by simp
  qed
  then have "skips (concat (map (\<lambda>(k, j). Tok_key k # json_tokens j) ms)) (foldr (\<lambda>(k, e). max (jdepth e)) ms 0)"
    by (intro skips_concat) auto
  then show ?case by (simp add: skips_block(1))
qed (auto intro: skips_scalar)

lemma skip_json:
  assumes "feeds s (json_tokens j) s'" "jdepth j < 2 ^ 64" "length (json_tokens j) \<le> n"
  shows "from_json_skip_value n s = Some (Inr s')"
proof -
  obtain m where n: "n = m + length (json_tokens j)"
    using assms(3) by (metis add.commute le_Suc_ex)
  show ?thesis
  proof (cases j)
    case (J_array es)
    have "skips (concat (map json_tokens es)) (foldr (\<lambda>e. max (jdepth e)) es 0)"
      by (rule skips_concat) (blast intro: skips_mono skips_json jdepth_elements)
    from skips_block(2) [OF this, of Tok_start_array Tok_end_array s s' m] assms(1,2) show ?thesis
      by (simp add: J_array n from_json_skip_value_def)
  next
    case (J_object ms)
    obtain ts h where t: "json_tokens j = Tok_start_object # ts @ [Tok_end_object]" "jdepth j = Suc h"
      "ts = concat (map (\<lambda>(k, j). Tok_key k # json_tokens j) ms)" "h = foldr (\<lambda>(k, e). max (jdepth e)) ms 0"
      using J_object by simp
    have "skips (Tok_key k # json_tokens e) h" if "(k, e) \<in> set ms" for k e
      using skips_append [OF skips_scalar skips_mono [OF skips_json jdepth_members [OF that]], of "Tok_key k"]
      by (simp add: t)
    then have "skips ts h" unfolding t(3) by (intro skips_concat) auto
    from skips_block(2) [OF this, of Tok_start_object Tok_end_object s s' m] assms(1,2) t show ?thesis
      by (simp add: n from_json_skip_value_def)
  qed (use assms(1) in \<open>auto simp: n from_json_skip_value_def skip_step skip_depth_simps\<close>)
qed

section \<open>A decoder of documents\<close>

text \<open>
  What a read means for the document it reads: members set what they name, in order, an unknown key is
  passed over, a repeated key writes into the same member again, and the first error ends the read.
  A tuple is only described for arrays (None is no description): for everything else the code does
  not read one value.
\<close>

fun expected :: "jty \<Rightarrow> from_json_error" where
  "expected T_bool = expected_bool"
| "expected (T_int sg w) = expected_string"
| "expected T_string = expected_string"
| "expected T_bytes = expected_string"
| "expected (T_vector ty) = expected_start_array"
| "expected (T_variant alts) = expected_start_array"
| "expected (T_tuple tys) = (case tys of [] \<Rightarrow> expected_start_array | ty # _ \<Rightarrow> expected ty)"
| "expected (T_struct fds) = expected_start_object"

text \<open>The elements of arrays and the members of objects, over the decoder \<^verbatim>\<open>d\<close> of what they hold.\<close>

fun decode_elements :: "('a \<Rightarrow> jval jres) \<Rightarrow> 'a list \<Rightarrow> jval list jres" where
  "decode_elements d [] = Some (Inr [])"
| "decode_elements d (e # es) = fbind (d e) (\<lambda>v. fbind (decode_elements d es) (\<lambda>vs. Some (Inr (v # vs))))"

fun decode_items :: "(jty \<Rightarrow> jval \<Rightarrow> 'a \<Rightarrow> jval jres) \<Rightarrow> jty list \<Rightarrow> jval list \<Rightarrow> 'a list \<Rightarrow> jval list jres" where
  "decode_items d [] vs es = (if es = [] then Some (Inr []) else Some (Inl expected_end_array))"
| "decode_items d (ty # tys) vs es =
     fbind (case es of [] \<Rightarrow> Some (Inr (hd vs)) | e # es \<Rightarrow> d ty (hd vs) e) (\<lambda>v.
     fbind (decode_items d tys (tl vs) (tl es)) (\<lambda>vs. Some (Inr (v # vs))))"

fun decode_members ::
  "(jty \<Rightarrow> jval \<Rightarrow> 'a \<Rightarrow> jval jres) \<Rightarrow> (string \<times> jty \<times> jval) list \<Rightarrow> jval \<Rightarrow> (string \<times> 'a) list \<Rightarrow> jval jres" where
  "decode_members d fds cur [] = Some (Inr cur)"
| "decode_members d fds cur ((k, e) # ms) =
     (case map_of fds k of
        Some (ty, _) \<Rightarrow> fbind (d ty (member_of cur k) e) (\<lambda>v. decode_members d fds (set_member k v cur) ms)
      | None \<Rightarrow> decode_members d fds cur ms)"

lemma decode_elements_cong [fundef_cong]:
  "es = es' \<Longrightarrow> (\<And>e. e \<in> set es' \<Longrightarrow> d e = d' e) \<Longrightarrow> decode_elements d es = decode_elements d' es'"
  by (induction es arbitrary: es') auto

lemma decode_items_cong [fundef_cong]:
  "tys = tys' \<Longrightarrow> vs = vs' \<Longrightarrow> es = es' \<Longrightarrow> (\<And>ty v e. e \<in> set es' \<Longrightarrow> d ty v e = d' ty v e) \<Longrightarrow>
   decode_items d tys vs es = decode_items d' tys' vs' es'"
proof (induction tys arbitrary: tys' vs vs' es es')
  case (Cons ty tys)
  have "decode_items d tys (tl vs) (tl es) = decode_items d' tys (tl vs) (tl es)"
    by (rule Cons.IH [OF refl refl refl]) (use Cons.prems in \<open>cases es; auto\<close>)
  then show ?case using Cons.prems by (cases es) auto
qed auto

lemma decode_members_cong [fundef_cong]:
  "fds = fds' \<Longrightarrow> cur = cur' \<Longrightarrow> ms = ms' \<Longrightarrow> (\<And>ty v k e. (k, e) \<in> set ms' \<Longrightarrow> d ty v e = d' ty v e) \<Longrightarrow>
   decode_members d fds cur ms = decode_members d' fds' cur' ms'"
proof (induction ms arbitrary: ms' cur cur')
  case (Cons m ms)
  obtain k e where m: "m = (k, e)" by (cases m)
  have "decode_members d fds c ms = decode_members d' fds' c ms" for c
    by (rule Cons.IH [OF Cons.prems(1) refl refl]) (use Cons.prems in force)
  moreover have "d ty v e = d' ty v e" for ty v
    using Cons.prems(4) [of k e ty v] m unfolding Cons.prems(3) [symmetric] by simp
  ultimately show ?case using Cons.prems(1,2) m unfolding Cons.prems(3) [symmetric]
    by (simp split: option.splits prod.splits)
qed auto

lemma size_json_member: "(k, e) \<in> set ms \<Longrightarrow> size e \<le> size_list (size_prod (\<lambda>x. 0) size) ms"
  by (rule size_list_estimation' [of "(k, e)"]) auto

function decode :: "jty \<Rightarrow> jval \<Rightarrow> json \<Rightarrow> jval jres" where
  "decode ty cur j =
     (case ty of
        T_bool \<Rightarrow> Some (case j of J_bool b \<Rightarrow> Inr (V_bool b) | _ \<Rightarrow> Inl expected_bool)
      | T_int sg w \<Rightarrow> Some (case j of J_string r \<Rightarrow> okmap (V_int sg w) (from_json_int sg w r) | _ \<Rightarrow> Inl expected_string)
      | T_string \<Rightarrow> Some (case j of J_string r \<Rightarrow> Inr (V_string r) | _ \<Rightarrow> Inl expected_string)
      | T_bytes \<Rightarrow> Some (case j of J_string r \<Rightarrow> okmap V_bytes (from_json_hex r) | _ \<Rightarrow> Inl expected_string)
      | T_vector ty \<Rightarrow>
          (case j of
             J_array es \<Rightarrow> fbind (decode_elements (decode ty (init ty)) es) (\<lambda>vs. Some (Inr (V_vector vs)))
           | _ \<Rightarrow> Some (Inl expected_start_array))
      | T_variant alts \<Rightarrow>
          (case j of
             J_array es \<Rightarrow>
               (case es of
                  J_string type # rest \<Rightarrow>
                    (case map_of alts type of
                       None \<Rightarrow> Some (Inl invalid_type_for_variant)
                     | Some ty \<Rightarrow>
                         (case rest of
                            [] \<Rightarrow> Some (Inl (expected ty))
                          | e # es' \<Rightarrow>
                              fbind (decode ty (init ty) e) (\<lambda>v.
                              Some (if es' = [] then Inr (V_variant type v) else Inl expected_end_array))))
                | _ \<Rightarrow> Some (Inl expected_string))
           | _ \<Rightarrow> Some (Inl expected_start_array))
      | T_tuple tys \<Rightarrow>
          (case j of
             J_array es \<Rightarrow> fbind (decode_items decode tys (map init tys) es) (\<lambda>vs. Some (Inr (V_tuple vs)))
           | _ \<Rightarrow> None)
      | T_struct fds \<Rightarrow>
          (case j of
             J_object ms \<Rightarrow> decode_members decode fds cur ms
           | _ \<Rightarrow> Some (Inl expected_start_object)))"
  by pat_completeness auto

termination
  by (relation "measure (\<lambda>(ty, cur, j). size j)")
    (auto simp: less_Suc_eq_le size_list_estimation' dest: size_json_member)

declare decode.simps [simp del]

section \<open>The reader decodes the document\<close>

text \<open>With enough fuel a reader settles on a result.\<close>

definition settled :: "(nat \<Rightarrow> 'a jres) \<Rightarrow> from_json_error + 'a \<Rightarrow> bool" where
  "settled f r \<longleftrightarrow> (\<exists>N. \<forall>n\<ge>N. f n = Some r)"

lemma settled_Suc: "settled (\<lambda>n. f (Suc n)) r \<Longrightarrow> settled f r"
  unfolding settled_def by (metis Suc_le_D Suc_le_mono)

lemma settled_const [simp]: "settled (\<lambda>n. Some r) r"
  by (simp add: settled_def)

lemma settled_bind:
  "settled f (Inr x) \<Longrightarrow> settled (g x) r \<Longrightarrow> settled (\<lambda>n. fbind (f n) (\<lambda>x. g x n)) r"
  "settled f (Inl e) \<Longrightarrow> settled (\<lambda>n. fbind (f n) (\<lambda>x. g x n)) (Inl e)"
proof -
  assume "settled f (Inr x)" "settled (g x) r"
  then obtain N M where "\<And>n. n \<ge> N \<Longrightarrow> f n = Some (Inr x)" "\<And>n. n \<ge> M \<Longrightarrow> g x n = Some r"
    by (auto simp: settled_def)
  then show "settled (\<lambda>n. fbind (f n) (\<lambda>x. g x n)) r"
    unfolding settled_def by (intro exI [of _ "max N M"]) simp
qed (unfold settled_def, metis fbind_simps(2))

definition reads_ok :: "json \<Rightarrow> bool" where
  "reads_ok j \<longleftrightarrow>
     (\<forall>ty cur r s s'. decode ty cur j = Some r \<longrightarrow> feeds s (json_tokens j) s' \<longrightarrow>
        settled (\<lambda>n. from_json n ty cur s) (okmap (\<lambda>v. (v, s')) r))"

lemma feeds_get:
  assumes "feeds s (t # ts) s'" "t \<noteq> Tok_unread"
  obtains sp s1 where "peek_token s = Inr sp" "js_token sp = t" "feeds sp (t # ts) s'" "feeds s1 ts s'"
    "get_bool s = (case t of Tok_bool b \<Rightarrow> Inr (b, s1) | _ \<Rightarrow> Inl expected_bool)"
    "get_string s = (case t of Tok_string b \<Rightarrow> Inr (b, s1) | _ \<Rightarrow> Inl expected_string)"
    "get_key s = (case t of Tok_key b \<Rightarrow> Inr (b, s1) | _ \<Rightarrow> Inl expected_key)"
    "get_start_array s = (if t = Tok_start_array then Inr s1 else Inl expected_start_array)"
    "get_end_array s = (if t = Tok_end_array then Inr s1 else Inl expected_end_array)"
    "get_start_object s = (if t = Tok_start_object then Inr s1 else Inl expected_start_object)"
    "get_end_object s = (if t = Tok_end_object then Inr s1 else Inl expected_end_object)"
proof -
  obtain sp where sp: "peek_token s = Inr sp" "js_token sp = t" "feeds (eat_token sp) ts s'"
    using assms(1) by auto
  then have "peek_token sp = Inr sp" using assms(2) by (simp add: peek_token_def)
  then have "feeds sp (t # ts) s'" using sp by simp
  then show thesis
    using that [OF sp(1,2) _ sp(3)] sp(1,2)
    by (simp add: get_bool_def get_string_def get_key_def get_start_array_def get_end_array_def
        get_start_object_def get_end_object_def)
qed

lemma head_token:
  obtains t ts where "json_tokens j = t # ts" "t \<noteq> Tok_unread" "t \<noteq> Tok_end_array" "t \<noteq> Tok_end_object" "\<forall>k. t \<noteq> Tok_key k"
    "t = Tok_null \<longleftrightarrow> j = J_null" "t = Tok_start_array \<longleftrightarrow> (\<exists>es. j = J_array es)" "t = Tok_start_object \<longleftrightarrow> (\<exists>ms. j = J_object ms)"
    "\<And>b. t = Tok_bool b \<longleftrightarrow> j = J_bool b" "\<And>v. t = Tok_string v \<longleftrightarrow> j = J_string v"
  by (cases j) auto

lemma from_json_expected:
  "feeds s (Tok_end_array # ts) s' \<Longrightarrow> settled (\<lambda>n. from_json n ty cur s) (Inl (expected ty))"
proof (induction ty arbitrary: cur s)
  case (T_tuple tys)
  obtain sp where sp: "peek_token s = Inr sp" "js_token sp = Tok_end_array" "feeds sp (Tok_end_array # ts) s'"
    using feeds_get [OF T_tuple.prems] by blast
  have start: "get_start_array sp = Inl expected_start_array"
    by (rule feeds_get [OF sp(3)]) simp_all
  show ?case
  proof (cases tys)
    case Nil
    show ?thesis by (rule settled_Suc) (use sp start Nil in simp)
  next
    case (Cons ty tys')
    have A: "settled (\<lambda>n. from_json n ty (init ty) sp) (Inl (expected ty))"
      by (rule T_tuple.IH [OF _ sp(3)]) (simp add: Cons)
    show ?thesis
      by (rule settled_Suc) (simp add: sp(1,2) Cons, rule settled_bind(2) [OF settled_bind(2) [OF A]])
  qed
qed (rule settled_Suc, erule feeds_get, simp, simp)+

text \<open>The loops settle when what they read does; their own fuel and that of the reader may differ.\<close>

definition settled2 :: "(nat \<Rightarrow> nat \<Rightarrow> 'a jres) \<Rightarrow> from_json_error + 'a \<Rightarrow> bool" where
  "settled2 f r \<longleftrightarrow> (\<exists>N. \<forall>n\<ge>N. \<forall>m\<ge>N. f n m = Some r)"

lemma settled2_diag: "settled2 f r \<Longrightarrow> settled (\<lambda>n. f n n) r"
  by (auto simp: settled2_def settled_def)

lemma settled2_Suc: "settled2 (\<lambda>n m. f n (Suc m)) r \<Longrightarrow> settled2 f r"
  unfolding settled2_def by (metis Suc_le_D Suc_le_mono le_Suc_eq le_trans)

lemma settled2_const [simp]: "settled2 (\<lambda>n m. Some r) r"
  by (simp add: settled2_def)

lemma settled2_bind:
  "settled f (Inr x) \<Longrightarrow> settled2 (\<lambda>n m. g x n m) r \<Longrightarrow> settled2 (\<lambda>n m. fbind (f n) (\<lambda>x. g x n m)) r"
  "settled f (Inl e) \<Longrightarrow> settled2 (\<lambda>n m. fbind (f n) (\<lambda>x. g x n m)) (Inl e)"
  "settled f (Inr y) \<Longrightarrow> settled2 (\<lambda>n m. h y n m) r \<Longrightarrow> settled2 (\<lambda>n m. fbind (f m) (\<lambda>x. h x n m)) r"
proof -
  assume "settled f (Inr x)" "settled2 (\<lambda>n m. g x n m) r"
  then obtain N M where "\<And>n. n \<ge> N \<Longrightarrow> f n = Some (Inr x)" "\<And>n m. n \<ge> M \<Longrightarrow> m \<ge> M \<Longrightarrow> g x n m = Some r"
    unfolding settled_def settled2_def by blast
  then show "settled2 (\<lambda>n m. fbind (f n) (\<lambda>x. g x n m)) r"
    unfolding settled2_def by (intro exI [of _ "max N M"]) simp
next
  assume "settled f (Inr y)" "settled2 (\<lambda>n m. h y n m) r"
  then obtain N M where "\<And>n. n \<ge> N \<Longrightarrow> f n = Some (Inr y)" "\<And>n m. n \<ge> M \<Longrightarrow> m \<ge> M \<Longrightarrow> h y n m = Some r"
    unfolding settled_def settled2_def by blast
  then show "settled2 (\<lambda>n m. fbind (f m) (\<lambda>x. h x n m)) r"
    unfolding settled2_def by (intro exI [of _ "max N M"]) simp
qed (unfold settled_def settled2_def, metis fbind_simps(2))

lemma reads_okD:
  "reads_ok j \<Longrightarrow> decode ty cur j = Some r \<Longrightarrow> feeds s (json_tokens j) s' \<Longrightarrow>
   settled (\<lambda>n. from_json n ty cur s) (okmap (\<lambda>v. (v, s')) r)"
  by (simp add: reads_ok_def)

lemma fbind_eq_Some:
  "fbind m f = Some r \<longleftrightarrow> (\<exists>e. m = Some (Inl e) \<and> r = Inl e) \<or> (\<exists>x. m = Some (Inr x) \<and> f x = Some r)"
  by (cases m; simp; rename_tac y; case_tac y; auto)

lemma fbind_okmap: "fbind m (\<lambda>x. Some (Inr (f x))) = map_option (okmap f) m"
  by (simp add: fbind_def okmap_def split: option.split sum.split)

lemma feeds_peeked: "peek_token s = Inr sp \<Longrightarrow> js_token sp \<noteq> Tok_unread \<Longrightarrow> ts \<noteq> [] \<Longrightarrow> feeds s ts s' \<Longrightarrow> feeds sp ts s'"
  by (cases ts) (auto simp: peek_token_def)

text \<open>The next token is that of a value, or the end.\<close>

lemma feeds_value_start:
  assumes "feeds s (json_tokens e @ us) s'"
  obtains sp s1 where "peek_token s = Inr sp" "js_token sp \<noteq> Tok_end_array" "js_token sp \<noteq> Tok_end_object"
    "feeds sp (json_tokens e) s1" "feeds s1 us s'" "get_end_array s = Inl expected_end_array"
proof -
  obtain t ts where t: "json_tokens e = t # ts" "t \<noteq> Tok_unread" "t \<noteq> Tok_end_array" "t \<noteq> Tok_end_object"
    by (rule head_token)
  have "feeds s (t # ts @ us) s'" using assms t by simp
  then obtain sp where sp: "peek_token s = Inr sp" "js_token sp = t" "feeds sp (t # ts @ us) s'"
    "get_end_array s = Inl expected_end_array"
    using feeds_get [OF _ t(2)] t(3) by (metis (no_types, lifting))
  moreover have "feeds sp (json_tokens e @ us) s'" using sp(3) t(1) by simp
  ultimately show thesis
    using that [OF sp(1)] t unfolding feeds_append by blast
qed

lemma feeds_end:
  assumes "feeds s [Tok_end_array] s'"
  shows "\<exists>sp. peek_token s = Inr sp \<and> js_token sp = Tok_end_array \<and> feeds sp [Tok_end_array] s' \<and> get_end_array sp = Inr s'"
    "get_end_array s = Inr s'"
proof -
  obtain sp where sp: "peek_token s = Inr sp" "js_token sp = Tok_end_array" "feeds sp [Tok_end_array] s'"
    using feeds_get [OF assms] by blast
  have *: "feeds x [Tok_end_array] s' \<Longrightarrow> get_end_array x = Inr s'" for x
    by (erule feeds_get) simp_all
  show "\<exists>sp. peek_token s = Inr sp \<and> js_token sp = Tok_end_array \<and> feeds sp [Tok_end_array] s' \<and> get_end_array sp = Inr s'"
    using sp * by blast
  show "get_end_array s = Inr s'" by (rule * [OF assms])
qed

declare feeds.simps(2) [simp del]

lemma elements_ok:
  assumes "\<And>e. e \<in> set es \<Longrightarrow> reads_ok e" "decode_elements (decode ty (init ty)) es = Some r"
    "feeds s (concat (map json_tokens es) @ [Tok_end_array]) s'"
  shows "settled2 (\<lambda>n m. from_json_elements (from_json n) m ty acc s) (okmap (\<lambda>vs. (V_vector (acc @ vs), s')) r)"
  using assms
proof (induction es arbitrary: acc r s)
  case Nil
  then obtain sp where sp: "peek_token s = Inr sp" "js_token sp = Tok_end_array" "get_end_array sp = Inr s'"
    using feeds_end(1) [of s s'] by auto
  moreover have "r = Inr []" using Nil(2) by simp
  ultimately show ?case
    by (intro settled2_Suc [of "\<lambda>n m. from_json_elements (from_json n) m ty acc s"]) simp
next
  case (Cons e es)
  have "feeds s (json_tokens e @ concat (map json_tokens es) @ [Tok_end_array]) s'" using Cons.prems(3) by simp
  then obtain sp s1 where sp: "peek_token s = Inr sp" "js_token sp \<noteq> Tok_end_array"
    "feeds sp (json_tokens e) s1" "feeds s1 (concat (map json_tokens es) @ [Tok_end_array]) s'"
    by (rule feeds_value_start)
  have step: "from_json_elements (from_json n) (Suc m) ty acc s =
      fbind (from_json n ty (init ty) sp) (\<lambda>(v, s). from_json_elements (from_json n) m ty (acc @ [v]) s)" for n m
    using sp by simp
  note suc = settled2_Suc [of "\<lambda>n m. from_json_elements (from_json n) m ty acc s"]
  from Cons.prems(2) consider (err) err where "decode ty (init ty) e = Some (Inl err)" "r = Inl err"
    | (ok) v r' where "decode ty (init ty) e = Some (Inr v)" "decode_elements (decode ty (init ty)) es = Some r'"
        "r = okmap (\<lambda>vs. v # vs) r'"
    by (auto simp: fbind_eq_Some fbind_okmap)
  then show ?case
  proof cases
    case err
    from reads_okD [OF _ err(1) sp(3)] Cons.prems(1)
    have "settled (\<lambda>n. from_json n ty (init ty) sp) (Inl err)" by simp
    then show ?thesis
      by (intro suc) (simp only: step err(2) okmap_simps settled2_bind(2))
  next
    case ok
    from reads_okD [OF _ ok(1) sp(3)] Cons.prems(1)
    have v: "settled (\<lambda>n. from_json n ty (init ty) sp) (Inr (v, s1))" by simp
    have "settled2 (\<lambda>n m. from_json_elements (from_json n) m ty (acc @ [v]) s1)
        (okmap (\<lambda>vs. (V_vector ((acc @ [v]) @ vs), s')) r')"
      by (rule Cons.IH [OF _ ok(2) sp(4)]) (use Cons.prems(1) in simp)
    then show ?thesis
      unfolding ok(3) by (intro suc, unfold step, intro settled2_bind(1) [OF v]) simp
  qed
qed

text \<open>Tuples: what is done with the items once they are read is \<^verbatim>\<open>f\<close>.\<close>

definition finish_items :: "nat \<Rightarrow> jty list \<Rightarrow> jval list \<Rightarrow> json_stream \<Rightarrow> (jval list \<Rightarrow> 'a) \<Rightarrow> ('a \<times> json_stream) jres" where
  "finish_items n tys vs s f =
     fbind (from_json_items (from_json n) tys vs s) (\<lambda>(vs, s).
     fbind (Some (get_end_array s)) (\<lambda>s. Some (Inr (f vs, s))))"

lemma finish_items_Cons:
  assumes "peek_token s = Inr sp"
  shows "finish_items n (ty # tys) vs s f =
    (if js_token sp = Tok_end_array then finish_items n tys (tl vs) sp (\<lambda>us. f (hd vs # us))
     else fbind (from_json n ty (hd vs) sp) (\<lambda>(v, s). finish_items n tys (tl vs) s (\<lambda>us. f (v # us))))"
proof -
  have "fbind (fbind x (\<lambda>(vs, s). Some (Inr (v # vs, s)))) (\<lambda>(vs, s). fbind (Some (get_end_array s)) (\<lambda>s. Some (Inr (f vs, s))))
      = fbind x (\<lambda>(vs, s). fbind (Some (get_end_array s)) (\<lambda>s. Some (Inr (f (v # vs), s))))" for v x
    by (simp add: fbind_def split: option.split sum.split)
  moreover have "fbind (fbind y (\<lambda>(v, s). g v s)) h = fbind y (\<lambda>(v, s). fbind (g v s) h)"
    for y :: "(jval \<times> json_stream) jres" and g and h :: "jval list \<times> json_stream \<Rightarrow> ('a \<times> json_stream) jres"
    by (simp add: fbind_def split: option.split sum.split)
  ultimately show ?thesis
    using assms by (simp add: finish_items_def)
qed

lemma items_ok:
  assumes "\<And>e. e \<in> set es \<Longrightarrow> reads_ok e" "decode_items decode tys vs es = Some r"
    "feeds s (concat (map json_tokens es) @ [Tok_end_array]) s'"
  shows "settled (\<lambda>n. finish_items n tys vs s f) (okmap (\<lambda>vs. (f vs, s')) r)"
  using assms
proof (induction tys arbitrary: vs es r s f)
  case Nil
  show ?case
  proof (cases es)
    case Nil': Nil
    then have "get_end_array s = Inr s'" using Nil(3) by (simp add: feeds_end)
    moreover have "r = Inr []" using Nil(2) Nil' by simp
    ultimately show ?thesis by (simp add: finish_items_def)
  next
    case (Cons e es')
    have "feeds s (json_tokens e @ concat (map json_tokens es') @ [Tok_end_array]) s'" using Nil(3) Cons by simp
    then have "get_end_array s = Inl expected_end_array" by (rule feeds_value_start)
    moreover have "r = Inl expected_end_array" using Nil(2) Cons by simp
    ultimately show ?thesis by (simp add: finish_items_def)
  qed
next
  case (Cons ty tys)
  show ?case
  proof (cases es)
    case Nil
    then obtain sp where sp: "peek_token s = Inr sp" "js_token sp = Tok_end_array" "feeds sp [Tok_end_array] s'"
      using feeds_end(1) [of s s'] Cons.prems(3) by auto
    obtain r' where r: "decode_items decode tys (tl vs) [] = Some r'" "r = okmap (\<lambda>us. hd vs # us) r'"
      using Cons.prems(2) Nil by (auto simp: fbind_eq_Some fbind_okmap)
    show ?thesis
      using Cons.IH [OF _ r(1), of sp "\<lambda>us. f (hd vs # us)"] sp(3)
      by (simp add: finish_items_Cons [OF sp(1)] sp(2) r(2))
  next
    case (Cons e es')
    note es = Cons
    have "feeds s (json_tokens e @ concat (map json_tokens es') @ [Tok_end_array]) s'"
      using Cons.prems(3) es by simp
    then obtain sp s1 where sp: "peek_token s = Inr sp" "js_token sp \<noteq> Tok_end_array"
      "feeds sp (json_tokens e) s1" "feeds s1 (concat (map json_tokens es') @ [Tok_end_array]) s'"
      by (rule feeds_value_start)
    have e: "reads_ok e" "\<And>x. x \<in> set es' \<Longrightarrow> reads_ok x" using Cons.prems(1) es by auto
    from Cons.prems(2) es consider (err) err where "decode ty (hd vs) e = Some (Inl err)" "r = Inl err"
      | (ok) v r' where "decode ty (hd vs) e = Some (Inr v)" "decode_items decode tys (tl vs) es' = Some r'"
          "r = okmap (\<lambda>vs. v # vs) r'"
      by (auto simp: fbind_eq_Some fbind_okmap)
    then show ?thesis
    proof cases
      case err
      from reads_okD [OF e(1) err(1) sp(3)] have A: "settled (\<lambda>n. from_json n ty (hd vs) sp) (Inl err)" by simp
      show ?thesis
        unfolding finish_items_Cons [OF sp(1)] err(2) using sp(2) settled_bind(2) [OF A] by simp
    next
      case ok
      from reads_okD [OF e(1) ok(1) sp(3)] have A: "settled (\<lambda>n. from_json n ty (hd vs) sp) (Inr (v, s1))" by simp
      have "settled (\<lambda>n. finish_items n tys (tl vs) s1 (\<lambda>us. f (v # us))) (okmap (\<lambda>us. (f (v # us), s')) r')"
        by (rule Cons.IH [OF e(2) ok(2) sp(4)])
      then show ?thesis
        unfolding finish_items_Cons [OF sp(1)] ok(3) using sp(2)
        by (simp, intro settled_bind(1) [OF A]) simp
    qed
  qed
qed

text \<open>Objects: known members are read into the object, unknown ones skipped.\<close>

lemma feeds_end_object:
  assumes "feeds s [Tok_end_object] s'"
  shows "\<exists>sp. peek_token s = Inr sp \<and> js_token sp = Tok_end_object \<and> get_end_object sp = Inr s'"
proof -
  obtain sp where sp: "peek_token s = Inr sp" "js_token sp = Tok_end_object" "feeds sp [Tok_end_object] s'"
    using feeds_get [OF assms] by blast
  have "get_end_object sp = Inr s'"
    by (rule feeds_get [OF sp(3)]) simp_all
  with sp show ?thesis by blast
qed

lemma feeds_key:
  assumes "feeds s (Tok_key k # us) s'"
  shows "\<exists>sp s1. peek_token s = Inr sp \<and> js_token sp \<noteq> Tok_end_object \<and> get_key sp = Inr (k, s1) \<and> feeds s1 us s'"
proof -
  obtain sp where sp: "peek_token s = Inr sp" "js_token sp = Tok_key k" "feeds sp (Tok_key k # us) s'"
    using feeds_get [OF assms] by blast
  obtain s1 where "get_key sp = Inr (k, s1)" "feeds s1 us s'"
    by (rule feeds_get [OF sp(3)]) simp_all
  with sp show ?thesis by auto
qed

lemma members_ok:
  assumes "\<And>k e. (k, e) \<in> set ms \<Longrightarrow> reads_ok e \<and> jdepth e < 2 ^ 64" "decode_members decode fds cur ms = Some r"
    "feeds s (concat (map (\<lambda>(k, j). Tok_key k # json_tokens j) ms) @ [Tok_end_object]) s'"
  shows "settled2 (\<lambda>n m. from_json_members (from_json n) m fds cur s) (okmap (\<lambda>v. (v, s')) r)"
  using assms
proof (induction ms arbitrary: cur r s)
  case Nil
  then obtain sp where sp: "peek_token s = Inr sp" "js_token sp = Tok_end_object" "get_end_object sp = Inr s'"
    using feeds_end_object [of s s'] by auto
  moreover have "r = Inr cur" using Nil(2) by simp
  ultimately show ?case
    by (intro settled2_Suc [of "\<lambda>n m. from_json_members (from_json n) m fds cur s"]) simp
next
  case (Cons p ms)
  obtain k e where p: "p = (k, e)" by (cases p)
  have e: "reads_ok e" "jdepth e < 2 ^ 64" and ms: "\<And>k e. (k, e) \<in> set ms \<Longrightarrow> reads_ok e \<and> jdepth e < 2 ^ 64"
    using Cons.prems(1) p by auto
  have "feeds s (Tok_key k # json_tokens e @ concat (map (\<lambda>(k, j). Tok_key k # json_tokens j) ms) @ [Tok_end_object]) s'"
    using Cons.prems(3) p by simp
  then obtain sp s1 where sp1: "peek_token s = Inr sp" "js_token sp \<noteq> Tok_end_object" "get_key sp = Inr (k, s1)"
    "feeds s1 (json_tokens e @ concat (map (\<lambda>(k, j). Tok_key k # json_tokens j) ms) @ [Tok_end_object]) s'"
    using feeds_key by blast
  obtain s2 where "feeds s1 (json_tokens e) s2"
    "feeds s2 (concat (map (\<lambda>(k, j). Tok_key k # json_tokens j) ms) @ [Tok_end_object]) s'"
    using sp1(4) unfolding feeds_append by blast
  note sp = sp1(1-3) this
  note suc = settled2_Suc [of "\<lambda>n m. from_json_members (from_json n) m fds cur s"]
  show ?case
  proof (cases "map_of fds k")
    case None
    have step: "from_json_members (from_json n) (Suc m) fds cur s =
        fbind (from_json_skip_value m s1) (\<lambda>s. from_json_members (from_json n) m fds cur s)" for n m
      using sp None by simp
    have "settled (\<lambda>m. from_json_skip_value m s1) (Inr s2)"
      unfolding settled_def using skip_json [OF sp(4) e(2)] by blast
    moreover have "settled2 (\<lambda>n m. from_json_members (from_json n) m fds cur s2) (okmap (\<lambda>v. (v, s')) r)"
      by (rule Cons.IH [OF ms _ sp(5)]) (use Cons.prems(2) p None in simp_all)
    ultimately show ?thesis
      by (intro suc, unfold step) (rule settled2_bind(3))
  next
    case (Some tyv)
    obtain ty v0 where ty: "tyv = (ty, v0)" by (cases tyv)
    have step: "from_json_members (from_json n) (Suc m) fds cur s =
        fbind (from_json n ty (member_of cur k) s1) (\<lambda>(v, s). from_json_members (from_json n) m fds (set_member k v cur) s)" for n m
      using sp Some ty by simp
    from Cons.prems(2) p Some ty consider (err) err where "decode ty (member_of cur k) e = Some (Inl err)" "r = Inl err"
      | (ok) v where "decode ty (member_of cur k) e = Some (Inr v)" "decode_members decode fds (set_member k v cur) ms = Some r"
      by (auto simp: fbind_eq_Some)
    then show ?thesis
    proof cases
      case err
      from reads_okD [OF e(1) err(1) sp(4)] have A: "settled (\<lambda>n. from_json n ty (member_of cur k) s1) (Inl err)" by simp
      show ?thesis
        unfolding err(2) okmap_simps by (intro suc, unfold step) (rule settled2_bind(2) [OF A])
    next
      case ok
      from reads_okD [OF e(1) ok(1) sp(4)] have A: "settled (\<lambda>n. from_json n ty (member_of cur k) s1) (Inr (v, s2))" by simp
      have "settled2 (\<lambda>n m. from_json_members (from_json n) m fds (set_member k v cur) s2) (okmap (\<lambda>v. (v, s')) r)"
        by (rule Cons.IH [OF ms ok(2) sp(5)])
      then show ?thesis
        by (intro suc, unfold step, intro settled2_bind(1) [OF A]) simp
    qed
  qed
qed

lemma jdepth_sub:
  "e \<in> set es \<Longrightarrow> jdepth (J_array es) < 2 ^ 64 \<Longrightarrow> jdepth e < 2 ^ 64"
  "(k, e) \<in> set ms \<Longrightarrow> jdepth (J_object ms) < 2 ^ 64 \<Longrightarrow> jdepth e < 2 ^ 64"
  using jdepth_elements [of e es] jdepth_members [of k e ms] by simp_all

lemma feeds_scalar:
  assumes "feeds s (json_tokens j) s'"
  shows "get_bool s = (case j of J_bool b \<Rightarrow> Inr (b, s') | _ \<Rightarrow> Inl expected_bool)"
    "get_string s = (case j of J_string v \<Rightarrow> Inr (v, s') | _ \<Rightarrow> Inl expected_string)"
proof -
  obtain t ts where t: "json_tokens j = t # ts" "t \<noteq> Tok_unread"
    by (rule head_token [of j])
  obtain s1 where g: "get_bool s = (case t of Tok_bool b \<Rightarrow> Inr (b, s1) | _ \<Rightarrow> Inl expected_bool)"
    "get_string s = (case t of Tok_string b \<Rightarrow> Inr (b, s1) | _ \<Rightarrow> Inl expected_string)" "feeds s1 ts s'"
    using feeds_get [OF assms [unfolded t(1)] t(2)] by blast
  then show "get_bool s = (case j of J_bool b \<Rightarrow> Inr (b, s') | _ \<Rightarrow> Inl expected_bool)"
    "get_string s = (case j of J_string v \<Rightarrow> Inr (v, s') | _ \<Rightarrow> Inl expected_string)"
    using t(1) by (cases j; auto)+
qed

lemma decode_scalar_ok:
  assumes "decode ty cur j = Some r" "feeds s (json_tokens j) s'" "ty \<in> {T_bool, T_int sg w, T_string, T_bytes}"
  shows "from_json (Suc n) ty cur s = Some (okmap (\<lambda>v. (v, s')) r)"
  using assms(1,3) feeds_scalar [OF assms(2)]
  by (cases j) (auto simp: decode.simps fbind_def okmap_def split: sum.split)

lemma feeds_array:
  assumes "feeds s (json_tokens j) s'"
  shows "j = J_array es \<Longrightarrow> \<exists>sp s1. peek_token s = Inr sp \<and> js_token sp = Tok_start_array \<and> get_start_array s = Inr s1 \<and>
      get_start_array sp = Inr s1 \<and> feeds s1 (concat (map json_tokens es) @ [Tok_end_array]) s'"
    "\<nexists>es. j = J_array es \<Longrightarrow> get_start_array s = Inl expected_start_array"
    "j = J_object ms \<Longrightarrow> \<exists>s1. get_start_object s = Inr s1 \<and>
      feeds s1 (concat (map (\<lambda>(k, j). Tok_key k # json_tokens j) ms) @ [Tok_end_object]) s'"
    "\<nexists>ms. j = J_object ms \<Longrightarrow> get_start_object s = Inl expected_start_object"
proof -
  obtain t ts where t: "json_tokens j = t # ts" "t \<noteq> Tok_unread" "t = Tok_start_array \<longleftrightarrow> (\<exists>es. j = J_array es)"
    "t = Tok_start_object \<longleftrightarrow> (\<exists>ms. j = J_object ms)" by (rule head_token)
  obtain sp s1 where g: "peek_token s = Inr sp" "js_token sp = t" "feeds s1 ts s'"
    "get_start_array s = (if t = Tok_start_array then Inr s1 else Inl expected_start_array)"
    "get_start_object s = (if t = Tok_start_object then Inr s1 else Inl expected_start_object)"
    using feeds_get [OF assms [unfolded t(1)] t(2)] by blast
  have "peek_token sp = Inr sp" using g(2) t(2) by (simp add: peek_token_def)
  then have "get_start_array sp = get_start_array s" using g(1) by (simp add: get_start_array_def)
  with g t show "j = J_array es \<Longrightarrow> \<exists>sp s1. peek_token s = Inr sp \<and> js_token sp = Tok_start_array \<and> get_start_array s = Inr s1 \<and>
      get_start_array sp = Inr s1 \<and> feeds s1 (concat (map json_tokens es) @ [Tok_end_array]) s'"
    by auto
  from g t show "\<nexists>es. j = J_array es \<Longrightarrow> get_start_array s = Inl expected_start_array"
    "j = J_object ms \<Longrightarrow> \<exists>s1. get_start_object s = Inr s1 \<and>
      feeds s1 (concat (map (\<lambda>(k, j). Tok_key k # json_tokens j) ms) @ [Tok_end_object]) s'"
    "\<nexists>ms. j = J_object ms \<Longrightarrow> get_start_object s = Inl expected_start_object"
    by auto
qed

lemma variant_ok:
  assumes "\<And>e. e \<in> set es \<Longrightarrow> reads_ok e" "decode (T_variant alts) cur (J_array es) = Some r"
    "feeds s (json_tokens (J_array es)) s'"
  shows "settled (\<lambda>n. from_json n (T_variant alts) cur s) (okmap (\<lambda>v. (v, s')) r)"
proof -
  obtain s1 where s1: "get_start_array s = Inr s1" "feeds s1 (concat (map json_tokens es) @ [Tok_end_array]) s'"
    using feeds_array(1) [OF assms(3) refl] by blast
  show ?thesis
  proof (cases "\<exists>type rest. es = J_string type # rest")
    case False
    have "get_string s1 = Inl expected_string"
    proof (cases es)
      case Nil
      with s1(2) have "feeds s1 [Tok_end_array] s'" by simp
      then show ?thesis by (rule feeds_get) simp_all
    next
      case (Cons e rest)
      with s1(2) have "feeds s1 (json_tokens e @ concat (map json_tokens rest) @ [Tok_end_array]) s'" by simp
      then obtain s2 where "feeds s1 (json_tokens e) s2" unfolding feeds_append by blast
      from feeds_scalar(2) [OF this] show ?thesis using False Cons by (cases e) auto
    qed
    moreover have "r = Inl expected_string"
      using assms(2) False by (auto simp: decode.simps split: list.splits json.splits)
    ultimately show ?thesis using s1(1) by (intro settled_Suc [of "\<lambda>n. from_json n (T_variant alts) cur s"]) simp
  next
    case True
    then obtain type rest where es: "es = J_string type # rest" by blast
    have "feeds s1 (json_tokens (J_string type) @ concat (map json_tokens rest) @ [Tok_end_array]) s'"
      using s1(2) es by simp
    then obtain s2 where s2: "get_string s1 = Inr (type, s2)" "feeds s2 (concat (map json_tokens rest) @ [Tok_end_array]) s'"
      unfolding feeds_append using feeds_scalar(2) by fastforce
    note suc = settled_Suc [of "\<lambda>n. from_json n (T_variant alts) cur s"]
    show ?thesis
    proof (cases "map_of alts type")
      case None
      then have "r = Inl invalid_type_for_variant" using assms(2) es by (simp add: decode.simps)
      then show ?thesis using s1(1) s2(1) None by (intro suc) simp
    next
      case (Some ty)
      have step: "from_json (Suc n) (T_variant alts) cur s =
          fbind (from_json n ty (init ty) s2) (\<lambda>(v, s). fbind (Some (get_end_array s)) (\<lambda>s. Some (Inr (V_variant type v, s))))" for n
        using s1(1) s2(1) Some by simp
      show ?thesis
      proof (cases rest)
        case Nil
        then have "settled (\<lambda>n. from_json n ty (init ty) s2) (Inl (expected ty))"
          using s2(2) from_json_expected by simp
        moreover have "r = Inl (expected ty)" using assms(2) es Nil Some by (simp add: decode.simps)
        ultimately show ?thesis by (intro suc, unfold step) (simp only: okmap_simps settled_bind(2))
      next
        case (Cons e more')
        have e: "reads_ok e" using assms(1) es Cons by simp
        have "feeds s2 (json_tokens e @ concat (map json_tokens more') @ [Tok_end_array]) s'" using s2(2) Cons by simp
        then obtain s3 where s3: "feeds s2 (json_tokens e) s3" "feeds s3 (concat (map json_tokens more') @ [Tok_end_array]) s'"
          unfolding feeds_append by blast
        have "\<exists>d. decode ty (init ty) e = Some d \<and>
            r = (case d of Inl x \<Rightarrow> Inl x | Inr v \<Rightarrow> if more' = [] then Inr (V_variant type v) else Inl expected_end_array)"
          using assms(2) es Cons Some by (auto simp: decode.simps [of "T_variant alts"] fbind_eq_Some)
        then obtain d where d: "decode ty (init ty) e = Some d"
          "r = (case d of Inl x \<Rightarrow> Inl x | Inr v \<Rightarrow> if more' = [] then Inr (V_variant type v) else Inl expected_end_array)"
          by blast
        have A: "settled (\<lambda>n. from_json n ty (init ty) s2) (okmap (\<lambda>v. (v, s3)) d)" by (rule reads_okD [OF e d(1) s3(1)])
        show ?thesis
        proof (cases d)
          case (Inl x)
          then show ?thesis using A d(2) by (intro suc, unfold step) (simp add: settled_bind(2))
        next
          case (Inr v)
          have "get_end_array s3 = (if more' = [] then Inr s' else Inl expected_end_array)"
          proof (cases more')
            case Nil
            then show ?thesis using s3(2) feeds_end(2) by simp
          next
            case (Cons e' m')
            then have "feeds s3 (json_tokens e' @ concat (map json_tokens m') @ [Tok_end_array]) s'" using s3(2) by simp
            then show ?thesis using Cons by (auto elim: feeds_value_start)
          qed
          then have "(case (v, s3) of (v, s) \<Rightarrow> fbind (Some (get_end_array s)) (\<lambda>s. Some (Inr (V_variant type v, s)))) =
              Some (okmap (\<lambda>v. (v, s')) r)"
            unfolding d(2) by (simp add: Inr)
          moreover have "settled (\<lambda>n. from_json n ty (init ty) s2) (Inr (v, s3))" using A Inr by simp
          ultimately show ?thesis
            by (intro suc, unfold step) (rule settled_bind(1), assumption, simp only: settled_const)
        qed
      qed
    qed
  qed
qed

lemma reads_okI:
  assumes es: "\<And>es e. j = J_array es \<Longrightarrow> e \<in> set es \<Longrightarrow> reads_ok e"
    and ms: "\<And>ms k e. j = J_object ms \<Longrightarrow> (k, e) \<in> set ms \<Longrightarrow> reads_ok e \<and> jdepth e < 2 ^ 64"
  shows "reads_ok j"
  unfolding reads_ok_def
proof (intro allI impI)
  fix ty cur r s s'
  assume d: "decode ty cur j = Some r" and f: "feeds s (json_tokens j) s'"
  note suc = settled_Suc [of "\<lambda>n. from_json n ty cur s"]
  have scalar: "settled (\<lambda>n. from_json n ty cur s) (okmap (\<lambda>v. (v, s')) r)" if "ty \<in> {T_bool, T_int sg w, T_string, T_bytes}" for sg w
    by (rule suc) (simp only: decode_scalar_ok [OF d f that] settled_const)
  show "settled (\<lambda>n. from_json n ty cur s) (okmap (\<lambda>v. (v, s')) r)"
  proof (cases ty)
    case (T_vector ty')
    show ?thesis
    proof (cases "\<exists>es. j = J_array es")
      case True
      then obtain es s1 where j: "j = J_array es" and s1: "get_start_array s = Inr s1"
        "feeds s1 (concat (map json_tokens es) @ [Tok_end_array]) s'"
        using feeds_array(1) [OF f] by blast
      obtain r' where r': "decode_elements (decode ty' (init ty')) es = Some r'" "r = okmap V_vector r'"
        using d T_vector j by (auto simp: decode.simps [of "T_vector ty'"] fbind_okmap)
      have "settled2 (\<lambda>n m. from_json_elements (from_json n) m ty' [] s1) (okmap (\<lambda>vs. (V_vector ([] @ vs), s')) r')"
        by (rule elements_ok [OF es [OF j] r'(1) s1(2)])
      from settled2_diag [OF this] show ?thesis
        by (intro suc) (simp add: T_vector s1(1) r'(2))
    next
      case False
      then have "r = Inl expected_start_array" using d T_vector by (cases j) (auto simp: decode.simps)
      then show ?thesis using feeds_array(2) [OF f False] T_vector by (intro suc) simp
    qed
  next
    case (T_variant alts)
    show ?thesis
    proof (cases "\<exists>es. j = J_array es")
      case True
      then obtain es' where j: "j = J_array es'" by blast
      show ?thesis using variant_ok [OF es [OF j]] d f T_variant j by simp
    next
      case False
      then have "r = Inl expected_start_array" using d T_variant by (cases j) (auto simp: decode.simps)
      then show ?thesis using feeds_array(2) [OF f False] T_variant by (intro suc) simp
    qed
  next
    case (T_tuple tys)
    then obtain es where j: "j = J_array es" using d by (cases j) (auto simp: decode.simps)
    obtain sp s1 where s1: "peek_token s = Inr sp" "js_token sp = Tok_start_array" "get_start_array sp = Inr s1"
      "feeds s1 (concat (map json_tokens es) @ [Tok_end_array]) s'"
      using feeds_array(1) [OF f j] by blast
    obtain r' where r': "decode_items decode tys (map init tys) es = Some r'" "r = okmap V_tuple r'"
      using d T_tuple j by (auto simp: decode.simps [of "T_tuple tys"] fbind_okmap)
    have "settled (\<lambda>n. finish_items n tys (map init tys) s1 V_tuple) (okmap (\<lambda>vs. (V_tuple vs, s')) r')"
      by (rule items_ok [OF es [OF j] r'(1) s1(4)])
    then show ?thesis
      by (intro suc) (simp add: T_tuple s1 r'(2) finish_items_def)
  next
    case (T_struct fds)
    show ?thesis
    proof (cases "\<exists>ms. j = J_object ms")
      case True
      then obtain ms' s1 where j: "j = J_object ms'" and s1: "get_start_object s = Inr s1"
        "feeds s1 (concat (map (\<lambda>(k, j). Tok_key k # json_tokens j) ms') @ [Tok_end_object]) s'"
        using feeds_array(3) [OF f] by blast
      have "decode_members decode fds cur ms' = Some r" using d T_struct j by (simp add: decode.simps [of "T_struct fds"])
      from settled2_diag [OF members_ok [OF ms [OF j] this s1(2)]] show ?thesis
        by (intro suc) (simp add: T_struct s1(1))
    next
      case False
      then have "r = Inl expected_start_object" using d T_struct by (cases j) (auto simp: decode.simps)
      then show ?thesis using feeds_array(4) [OF f False] T_struct by (intro suc) simp
    qed
  qed (use scalar in auto)
qed

lemma decode_reads: "jdepth j < 2 ^ 64 \<Longrightarrow> reads_ok j"
proof (induction j)
  case (J_array es)
  show ?case by (rule reads_okI) (use J_array jdepth_sub(1) in auto)
next
  case (J_object ms)
  show ?case by (rule reads_okI) (use J_object jdepth_sub(2) in fastforce)+
qed (rule reads_okI; simp)+

section \<open>Reading ends\<close>

fun tuple_free :: "jty \<Rightarrow> bool" where
  "tuple_free (T_vector ty) \<longleftrightarrow> tuple_free ty"
| "tuple_free (T_variant alts) \<longleftrightarrow> (\<forall>(name, ty) \<in> set alts. tuple_free ty)"
| "tuple_free (T_tuple tys) \<longleftrightarrow> False"
| "tuple_free (T_struct fds) \<longleftrightarrow> (\<forall>(name, ty, v) \<in> set fds. tuple_free ty)"
| "tuple_free _ \<longleftrightarrow> True"

definition stream_ok :: "json_stream \<Rightarrow> bool" where
  "stream_ok s \<longleftrightarrow>
     reader_inv s \<and> ((\<exists>k. js_token s = Tok_key k) \<longrightarrow> js_state s = It_MemberKey) \<and>
     length (js_input s) + length (js_stack s) < 2 ^ 64"

text \<open>A read that returns either fails or leaves a good stream with less to read.\<close>

definition returns :: "nat \<Rightarrow> (json_stream \<Rightarrow> 'a \<Rightarrow> bool) \<Rightarrow> 'a jres \<Rightarrow> ('a \<Rightarrow> json_stream) \<Rightarrow> bool" where
  "returns k P r st \<longleftrightarrow>
     (case r of None \<Rightarrow> False | Some (Inl e) \<Rightarrow> True
      | Some (Inr x) \<Rightarrow> stream_ok (st x) \<and> stream_measure (st x) < k \<and> P (st x) x)"

lemma stream_ok_eat [simp]: "stream_ok s \<Longrightarrow> stream_ok (eat_token s)"
  by (simp add: stream_ok_def eat_token_def reader_inv_def)

lemma eat_measure: "stream_measure (eat_token s) \<le> stream_measure s" "js_token (eat_token s) = Tok_unread"
  by (simp_all add: stream_measure_def eat_token_def)

lemma eat_simps [simp]:
  "js_stack (eat_token s) = js_stack s" "js_token (eat_token s) = Tok_unread" "js_state (eat_token s) = js_state s"
  by (simp_all add: eat_token_def)

lemma depth_after_le: "depth_after t d \<le> Suc d"
  by (cases t) auto

lemma peek_ok:
  assumes "stream_ok s" "peek_token s = Inr s'"
  shows "stream_ok s'" "stream_measure s' \<le> stream_measure s"
    "js_token s' \<noteq> Tok_unread \<Longrightarrow> stream_measure (eat_token s') < stream_measure s"
proof -
  have "stream_ok s'"
  proof (cases "js_token s = Tok_unread")
    case True
    then have n: "iterative_parse_next s = Inr s'"
      using assms(2) by (simp add: peek_token_def split: sum.splits)
    have "next_ok s s'" using next_reader_ok [of s] assms(1) True n by (auto simp: stream_ok_def)
    then show ?thesis
      using assms(1) depth_after_le [of "js_token s'" "length (js_stack s)"]
      unfolding next_ok_def stream_ok_def by (cases "js_token s' = Tok_unread") auto
  next
    case False
    then show ?thesis using assms by (simp add: peek_token_def)
  qed
  then show "stream_ok s'" "stream_measure s' \<le> stream_measure s"
    "js_token s' \<noteq> Tok_unread \<Longrightarrow> stream_measure (eat_token s') < stream_measure s"
    using peek_token_ok assms by (auto simp: stream_ok_def)
qed

lemma get_ok:
  assumes "stream_ok s"
  shows "get_bool s = Inr (b, s') \<Longrightarrow> stream_ok s' \<and> stream_measure s' < stream_measure s"
    "get_string s = Inr (v, s') \<Longrightarrow> stream_ok s' \<and> stream_measure s' < stream_measure s"
    "get_start_array s = Inr s' \<Longrightarrow> stream_ok s' \<and> stream_measure s' < stream_measure s"
    "get_end_array s = Inr s' \<Longrightarrow> stream_ok s' \<and> stream_measure s' < stream_measure s"
    "get_start_object s = Inr s' \<Longrightarrow> stream_ok s' \<and> stream_measure s' < stream_measure s"
    "get_end_object s = Inr s' \<Longrightarrow> stream_ok s' \<and> stream_measure s' < stream_measure s"
    "get_key s = Inr (k, s') \<Longrightarrow>
       stream_ok s' \<and> stream_measure s' < stream_measure s \<and> js_state s' = It_MemberKey \<and> js_token s' = Tok_unread"
proof -
  have *: "peek_token s = Inr sp \<Longrightarrow> js_token sp \<noteq> Tok_unread \<Longrightarrow> stream_ok (eat_token sp) \<and>
      stream_measure (eat_token sp) < stream_measure s \<and> stream_ok sp" for sp
    using peek_ok [OF assms] by auto
  have "get_bool s = Inr (b, s') \<or> get_string s = Inr (v, s') \<or> get_start_array s = Inr s' \<or> get_end_array s = Inr s' \<or>
      get_start_object s = Inr s' \<or> get_end_object s = Inr s' \<or> get_key s = Inr (k, s') \<Longrightarrow>
    \<exists>sp. peek_token s = Inr sp \<and> js_token sp \<noteq> Tok_unread \<and> s' = eat_token sp"
    unfolding get_bool_def get_string_def get_start_array_def get_end_array_def get_start_object_def get_end_object_def get_key_def
    by (cases "peek_token s"; simp; rename_tac sp; case_tac "js_token sp"; auto)
  with * show "get_bool s = Inr (b, s') \<Longrightarrow> stream_ok s' \<and> stream_measure s' < stream_measure s"
    "get_string s = Inr (v, s') \<Longrightarrow> stream_ok s' \<and> stream_measure s' < stream_measure s"
    "get_start_array s = Inr s' \<Longrightarrow> stream_ok s' \<and> stream_measure s' < stream_measure s"
    "get_end_array s = Inr s' \<Longrightarrow> stream_ok s' \<and> stream_measure s' < stream_measure s"
    "get_start_object s = Inr s' \<Longrightarrow> stream_ok s' \<and> stream_measure s' < stream_measure s"
    "get_end_object s = Inr s' \<Longrightarrow> stream_ok s' \<and> stream_measure s' < stream_measure s"
    by blast+
  assume key: "get_key s = Inr (k, s')"
  then obtain sp where sp: "peek_token s = Inr sp" "js_token sp = Tok_key k" "s' = eat_token sp"
    unfolding get_key_def by (cases "peek_token s"; simp; rename_tac sp; case_tac "js_token sp"; auto)
  then show "stream_ok s' \<and> stream_measure s' < stream_measure s \<and> js_state s' = It_MemberKey \<and> js_token s' = Tok_unread"
    using * [of sp] by (auto simp: stream_ok_def)
qed

lemma skip_returns:
  assumes "stream_ok s" "js_token s = Tok_unread" "0 < d" "length (js_stack s) = d + b" "0 < b" "stream_measure s < n"
  shows "returns (stream_measure s) (\<lambda>s x. True) (skip_value n d s) id"
  using assms
proof (induction n arbitrary: s d)
  case (Suc n)
  show ?case
  proof (cases "peek_token s")
    case (Inl e)
    then show ?thesis by (simp add: returns_def skip_value.simps)
  next
    case (Inr s1)
    note pk = peek_ok [OF Suc.prems(1) Inr]
    have nx: "next_ok s s1"
      using next_reader_ok [of s] Suc.prems(1,2) Inr by (auto simp: stream_ok_def peek_token_def split: sum.splits)
    have nf: "js_state s \<noteq> It_Finish"
      using Suc.prems(1,4,5) by (auto simp: stream_ok_def reader_inv_def)
    then have tk: "js_token s1 \<noteq> Tok_unread" "length (js_stack s1) = depth_after (js_token s1) (d + b)"
      using nx Suc.prems(4) by (auto simp: next_ok_def split: if_splits)
    have lt: "stream_measure (eat_token s1) < stream_measure s" using pk(3) tk(1) by blast
    have b64: "d + b < 2 ^ 64" "length (js_stack s1) < 2 ^ 64"
      using Suc.prems(1,4) pk(1) by (auto simp: stream_ok_def)
    have sd: "skip_depth (js_token s1) d + b = length (js_stack s1)"
    proof (cases "js_token s1 \<in> {Tok_start_object, Tok_start_array, Tok_end_object, Tok_end_array}")
      case True
      then show ?thesis
        using tk(2) b64 Suc.prems(3,5) skip_depth_simps(1,2) [of "js_token s1" d] by auto
    next
      case False
      then show ?thesis using tk(2) skip_depth_simps(3) [OF False] by (cases "js_token s1") auto
    qed
    show ?thesis
    proof (cases "skip_depth (js_token s1) d = 0")
      case True
      then show ?thesis using lt pk(1) by (simp add: skip_step [OF Inr] returns_def)
    next
      case False
      have "returns (stream_measure (eat_token s1)) (\<lambda>s x. True) (skip_value n (skip_depth (js_token s1) d) (eat_token s1)) id"
        by (rule Suc.IH) (use False sd lt Suc.prems pk(1) in auto)
      then show ?thesis
        using False lt unfolding skip_step [OF Inr] by (auto simp: returns_def split: option.splits sum.splits)
    qed
  qed
qed simp

lemma from_json_skip_returns:
  assumes "stream_ok s" "js_token s = Tok_unread" "js_state s = It_MemberKey" "stream_measure s < n"
  shows "returns (stream_measure s) (\<lambda>s x. True) (from_json_skip_value n s) id"
proof (cases n)
  case (Suc m)
  show ?thesis
  proof (cases "peek_token s")
    case (Inl e)
    then show ?thesis by (simp add: returns_def skip_value.simps from_json_skip_value_def Suc)
  next
    case (Inr s1)
    note pk = peek_ok [OF assms(1) Inr]
    have nx: "next_ok s s1"
      using next_reader_ok [of s] assms(1,2) Inr by (auto simp: stream_ok_def peek_token_def split: sum.splits)
    then have tk: "js_token s1 \<noteq> Tok_unread" "js_token s1 \<noteq> Tok_end_object" "js_token s1 \<noteq> Tok_end_array"
      "length (js_stack s1) = depth_after (js_token s1) (length (js_stack s))"
      using assms(3) by (auto simp: next_ok_def split: if_splits)
    have ne: "0 < length (js_stack s)" using assms(1,3) by (auto simp: stream_ok_def reader_inv_def)
    have lt: "stream_measure (eat_token s1) < stream_measure s" using pk(3) tk(1) by blast
    show ?thesis
    proof (cases "js_token s1 = Tok_start_object \<or> js_token s1 = Tok_start_array")
      case False
      then have "skip_depth (js_token s1) 0 = 0" using tk(2,3) skip_depth_simps(3) by simp
      then show ?thesis using lt pk(1) by (simp add: skip_step [OF Inr] returns_def from_json_skip_value_def Suc)
    next
      case True
      then have "skip_depth (js_token s1) 0 = 1" using skip_depth_simps(1) [of "js_token s1" 0] by simp
      moreover have "returns (stream_measure (eat_token s1)) (\<lambda>s x. True) (skip_value m 1 (eat_token s1)) id"
        by (rule skip_returns [where b = "length (js_stack s)"])
          (use True tk(4) ne lt pk(1) assms(4) Suc in auto)
      ultimately show ?thesis
        using lt by (auto simp: skip_step [OF Inr] returns_def from_json_skip_value_def Suc split: option.splits sum.splits)
    qed
  qed
qed (use assms in simp)

lemma returnsI_err [simp]: "returns k P (Some (Inl e)) st"
  by (simp add: returns_def)

lemma returns_bind:
  assumes "returns k P m st" "\<And>x. m = Some (Inr x) \<Longrightarrow> stream_ok (st x) \<Longrightarrow> stream_measure (st x) < k \<Longrightarrow> P (st x) x \<Longrightarrow> returns k' Q (f x) st'"
  shows "returns k' Q (fbind m f) st'"
  using assms by (auto simp: returns_def fbind_def split: option.splits sum.splits)

lemma returns_mono: "returns k P r st \<Longrightarrow> k \<le> k' \<Longrightarrow> returns k' P r st"
  by (auto simp: returns_def split: option.splits sum.splits)

definition good_reader :: "nat \<Rightarrow> jreader \<Rightarrow> bool" where
  "good_reader n rd \<longleftrightarrow>
     (\<forall>ty cur s. tuple_free ty \<longrightarrow> stream_ok s \<longrightarrow> stream_measure s < n \<longrightarrow>
        returns (stream_measure s) (\<lambda>s x. True) (rd ty cur s) snd)"

lemma elements_return:
  "good_reader n rd \<Longrightarrow> tuple_free ty \<Longrightarrow> stream_ok s \<Longrightarrow> stream_measure s < n \<Longrightarrow> stream_measure s < m \<Longrightarrow>
   returns (stream_measure s + 1) (\<lambda>s x. True) (from_json_elements rd m ty acc s) snd"
proof (induction m arbitrary: acc s)
  case (Suc m)
  show ?case
  proof (cases "peek_token s")
    case (Inr s1)
    note pk = peek_ok [OF Suc.prems(3) Inr]
    show ?thesis
    proof (cases "js_token s1 = Tok_end_array")
      case True
      then show ?thesis
        using pk get_ok(4) [OF pk(1)] by (cases "get_end_array s1") (auto simp: Inr returns_def)
    next
      case False
      have "returns (stream_measure s1) (\<lambda>s x. True) (rd ty (init ty) s1) snd"
        using Suc.prems pk unfolding good_reader_def by auto
      moreover have "returns (stream_measure s + 1) (\<lambda>s x. True) (case x of (v, s) \<Rightarrow> from_json_elements rd m ty (acc @ [v]) s) snd"
        if "stream_ok (snd x)" "stream_measure (snd x) < stream_measure s1" for x
      proof -
        have "returns (stream_measure (snd x) + 1) (\<lambda>s x. True) (from_json_elements rd m ty (acc @ [fst x]) (snd x)) snd"
          by (rule Suc.IH) (use Suc.prems that pk(2) in auto)
        then show ?thesis using that(2) pk(2) by (cases x) (auto elim: returns_mono)
      qed
      ultimately show ?thesis
        using False by (simp add: Inr) (rule returns_bind)
    qed
  qed simp
qed simp

lemma members_return:
  "good_reader n rd \<Longrightarrow> (\<forall>(name, ty, v) \<in> set fds. tuple_free ty) \<Longrightarrow> stream_ok s \<Longrightarrow> stream_measure s < n \<Longrightarrow>
   stream_measure s < m \<Longrightarrow> returns (stream_measure s + 1) (\<lambda>s x. True) (from_json_members rd m fds cur s) snd"
proof (induction m arbitrary: cur s)
  case (Suc m)
  show ?case
  proof (cases "peek_token s")
    case (Inr s1)
    note pk = peek_ok [OF Suc.prems(3) Inr]
    have IH: "returns (stream_measure s + 1) (\<lambda>s x. True) (from_json_members rd m fds cur s') snd"
      if "stream_ok s'" "stream_measure s' < stream_measure s" for cur s'
      by (rule returns_mono [OF Suc.IH [OF Suc.prems(1,2) that(1)]]) (use Suc.prems(4,5) that(2) in auto)
    show ?thesis
    proof (cases "js_token s1 = Tok_end_object")
      case True
      then show ?thesis
        using pk get_ok(6) [OF pk(1)] by (cases "get_end_object s1") (auto simp: Inr returns_def)
    next
      case False
      show ?thesis
      proof (cases "get_key s1")
        case (Inl e)
        then show ?thesis using False by (simp add: Inr)
      next
        case key: (Inr ks)
        obtain k s2 where ks: "ks = (k, s2)" by (cases ks)
        have s2: "stream_ok s2" "stream_measure s2 < stream_measure s" "js_state s2 = It_MemberKey" "js_token s2 = Tok_unread"
          using get_ok(7) [OF pk(1) key [unfolded ks]] pk(2) by auto
        show ?thesis
        proof (cases "map_of fds k")
          case None
          have sk: "returns (stream_measure s2) (\<lambda>s x. True) (from_json_skip_value m s2) id"
            using from_json_skip_returns [OF s2(1,4,3)] s2(2) Suc.prems(5) by simp
          show ?thesis
            using False by (simp add: Inr key ks None) (rule returns_bind [OF sk], use IH s2(2) in auto)
        next
          case (Some tyv)
          obtain ty v0 where ty: "tyv = (ty, v0)" by (cases tyv)
          have "(k, ty, v0) \<in> set fds" using Some ty by (auto dest: map_of_SomeD)
          then have "tuple_free ty" using Suc.prems(2) by auto
          then have rd: "returns (stream_measure s2) (\<lambda>s x. True) (rd ty (member_of cur k) s2) snd"
            using Suc.prems s2 unfolding good_reader_def by auto
          show ?thesis
            using False by (simp add: Inr key ks Some ty) (rule returns_bind [OF rd], use IH s2(2) in \<open>auto split: prod.split\<close>)
        qed
      qed
    qed
  qed simp
qed simp

lemma from_json_good: "good_reader n (from_json n)"
proof (induction n)
  case 0
  show ?case by (simp add: good_reader_def)
next
  case (Suc n)
  show ?case
    unfolding good_reader_def
  proof (intro allI impI)
    fix ty cur s
    assume a: "tuple_free ty" "stream_ok s" "stream_measure s < Suc n"
    note g = get_ok [OF a(2)]
    show "returns (stream_measure s) (\<lambda>s x. True) (from_json (Suc n) ty cur s) snd"
    proof (cases ty)
      case T_bool
      then show ?thesis using g(1) by (cases "get_bool s") (auto simp: returns_def)
    next
      case (T_int sg w)
      then show ?thesis using g(2)
        by (cases "get_string s") (auto simp: returns_def fbind_def split: sum.split)
    next
      case T_string
      then show ?thesis using g(2) by (cases "get_string s") (auto simp: returns_def)
    next
      case T_bytes
      then show ?thesis using g(2)
        by (cases "get_string s") (auto simp: returns_def fbind_def split: sum.split)
    next
      case (T_vector ty')
      show ?thesis
      proof (cases "get_start_array s")
        case (Inr s1)
        have "returns (stream_measure s1 + 1) (\<lambda>s x. True) (from_json_elements (from_json n) n ty' [] s1) snd"
          by (rule elements_return [OF Suc.IH]) (use a g(3) [OF Inr] T_vector in auto)
        then show ?thesis using g(3) [OF Inr] by (auto simp: T_vector Inr elim!: returns_mono)
      qed (simp add: T_vector)
    next
      case (T_struct fds)
      show ?thesis
      proof (cases "get_start_object s")
        case (Inr s1)
        have "returns (stream_measure s1 + 1) (\<lambda>s x. True) (from_json_members (from_json n) n fds cur s1) snd"
          by (rule members_return [OF Suc.IH]) (use a g(5) [OF Inr] T_struct in auto)
        then show ?thesis using g(5) [OF Inr] by (auto simp: T_struct Inr elim!: returns_mono)
      qed (simp add: T_struct)
    next
      case (T_variant alts)
      show ?thesis
      proof (cases "get_start_array s")
        case (Inr s1)
        note s1 = g(3) [OF Inr]
        show ?thesis
        proof (cases "get_string s1")
          case str: (Inr ts)
          obtain type s2 where ts: "ts = (type, s2)" by (cases ts)
          have s2: "stream_ok s2" "stream_measure s2 < stream_measure s"
            using get_ok(2) [OF conjunct1 [OF s1] str [unfolded ts]] s1 by auto
          show ?thesis
          proof (cases "map_of alts type")
            case (Some ty')
            have "(type, ty') \<in> set alts" using Some by (rule map_of_SomeD)
            then have "tuple_free ty'" using a(1) T_variant by auto
            then have rd: "returns (stream_measure s2) (\<lambda>s x. True) (from_json n ty' (init ty') s2) snd"
              using Suc.IH s2 a(3) unfolding good_reader_def by auto
            have close: "returns (stream_measure s) (\<lambda>s x. True)
                (fbind (Some (get_end_array s3)) (\<lambda>s. Some (Inr (V_variant type v, s)))) snd"
              if "stream_ok s3" "stream_measure s3 < stream_measure s2" for v s3
              using get_ok(4) [OF that(1)] that(2) s2(2) by (cases "get_end_array s3") (auto simp: returns_def)
            show ?thesis
              by (simp add: T_variant Inr str ts Some) (rule returns_bind [OF rd], use close in \<open>auto split: prod.split\<close>)
          qed (simp add: T_variant Inr str ts)
        qed (simp add: T_variant Inr)
      qed (simp add: T_variant)
    qed (use a(1) in simp)
  qed
qed

section \<open>Types\<close>

inductive has_type :: "jty \<Rightarrow> jval \<Rightarrow> bool" where
  "has_type T_bool (V_bool b)"
| "w \<in> {8, 16, 32, 64, 128} \<Longrightarrow> int_min sg w \<le> i \<Longrightarrow> i \<le> int_max sg w \<Longrightarrow> has_type (T_int sg w) (V_int sg w i)"
| "has_type T_string (V_string s)"
| "has_type T_bytes (V_bytes bs)"
| "(\<forall>v \<in> set vs. has_type ty v) \<Longrightarrow> has_type (T_vector ty) (V_vector vs)"
| "map_of alts name = Some ty \<Longrightarrow> has_type ty v \<Longrightarrow> has_type (T_variant alts) (V_variant name v)"
| "list_all2 has_type tys vs \<Longrightarrow> has_type (T_tuple tys) (V_tuple vs)"
| "list_all2 (\<lambda>f g. fst g = fst f \<and> has_type (fst (snd f)) (snd g)) fds fs \<Longrightarrow> has_type (T_struct fds) (V_struct fs)"

inductive_cases has_type_cases:
  "has_type (T_int sg w) v" "has_type (T_vector ty) v" "has_type (T_variant alts) v" "has_type (T_tuple tys) v"
  "has_type (T_struct fds) v"

inductive_simps has_type_simps:
  "has_type T_bool v" "has_type (T_int sg w) v" "has_type T_string v" "has_type T_bytes v"
  "has_type (T_vector ty) (V_vector vs)" "has_type (T_tuple tys) (V_tuple vs)" "has_type (T_struct fds) (V_struct fs)"
  "has_type (T_variant alts) (V_variant name v)"

text \<open>C++ types: a variant has alternatives, members have different names and initialisers of their types.\<close>

fun type_ok :: "jty \<Rightarrow> bool" where
  "type_ok (T_int sg w) \<longleftrightarrow> w \<in> {8, 16, 32, 64, 128}"
| "type_ok (T_vector ty) \<longleftrightarrow> type_ok ty"
| "type_ok (T_variant alts) \<longleftrightarrow> alts \<noteq> [] \<and> (\<forall>(name, ty) \<in> set alts. type_ok ty)"
| "type_ok (T_tuple tys) \<longleftrightarrow> (\<forall>ty \<in> set tys. type_ok ty)"
| "type_ok (T_struct fds) \<longleftrightarrow> distinct (map fst fds) \<and> (\<forall>(name, ty, v) \<in> set fds. type_ok ty \<and> has_type ty v)"
| "type_ok _ \<longleftrightarrow> True"

lemma init_has_type: "type_ok ty \<Longrightarrow> has_type ty (init ty)"
proof (induction ty)
  case (T_int sg w)
  then show ?case by (auto simp: has_type_simps int_min_def int_max_def)
next
  case (T_variant alts)
  then obtain name ty rest where alts: "alts = (name, ty) # rest" by (cases alts) auto
  then have "has_type ty (init ty)" using T_variant.IH [of "(name, ty)" ty] T_variant.prems by simp
  then show ?case by (simp add: alts has_type_simps)
next
  case (T_tuple tys)
  then show ?case by (simp add: has_type_simps list_all2_map2 list_all2_same)
next
  case (T_struct fds)
  then show ?case by (auto simp: has_type_simps list_all2_map2 list_all2_same split_def)
qed (auto simp: has_type_simps)

text \<open>Reading and replacing a member of a struct.\<close>

lemma struct_member:
  assumes "list_all2 (\<lambda>f g. fst g = fst f \<and> has_type (fst (snd f)) (snd g)) fds fs" "map_of fds k = Some (ty, d)"
  shows "has_type ty (member_of (V_struct fs) k)"
    "has_type ty v \<Longrightarrow> list_all2 (\<lambda>f g. fst g = fst f \<and> has_type (fst (snd f)) (snd g)) fds (AList.update k v fs)"
  using assms
proof (induction fds fs rule: list_all2_induct)
  case (Cons f fds g fs)
  obtain n ty' d' n' v' where f: "f = (n, ty', d')" "g = (n', v')" by (metis prod.exhaust)
  {
    case 1
    then show ?case using Cons f by (auto simp: member_of_def split: if_splits option.splits)
  next
    case 2
    then show ?case using Cons f by (auto split: if_splits)
  }
qed simp_all

lemma has_type_member:
  assumes "has_type (T_struct fds) cur" "map_of fds k = Some (ty, d)"
  shows "has_type ty (member_of cur k)" "has_type ty v \<Longrightarrow> has_type (T_struct fds) (set_member k v cur)"
proof -
  obtain fs where cur: "cur = V_struct fs" "list_all2 (\<lambda>f g. fst g = fst f \<and> has_type (fst (snd f)) (snd g)) fds fs"
    using assms(1) by (auto elim: has_type_cases)
  show "has_type ty (member_of cur k)" "has_type ty v \<Longrightarrow> has_type (T_struct fds) (set_member k v cur)"
    using struct_member [OF cur(2) assms(2)] by (simp_all add: cur(1) set_member_def has_type_simps)
qed

section \<open>Documents read back as the values they were written from\<close>

fun texts_ok :: "jval \<Rightarrow> bool" where
  "texts_ok (V_string s) \<longleftrightarrow> utf8_valid s"
| "texts_ok (V_vector vs) \<longleftrightarrow> (\<forall>v \<in> set vs. texts_ok v)"
| "texts_ok (V_optional vo) \<longleftrightarrow> (case vo of Some v \<Rightarrow> texts_ok v | None \<Rightarrow> True)"
| "texts_ok (V_variant name v) \<longleftrightarrow> utf8_valid name \<and> texts_ok v"
| "texts_ok (V_tuple vs) \<longleftrightarrow> (\<forall>v \<in> set vs. texts_ok v)"
| "texts_ok (V_struct fs) \<longleftrightarrow> (\<forall>(k, v) \<in> set fs. utf8_valid k \<and> texts_ok v)"
| "texts_ok _ \<longleftrightarrow> True"

lemma from_json_int_chars:
  "w \<in> {8, 16, 32, 64, 128} \<Longrightarrow> int_min sg w \<le> i \<Longrightarrow> i \<le> int_max sg w \<Longrightarrow> from_json_int sg w (int_chars i) = Inr i"
  unfolding int_chars_def by (rule int_text(2))

lemma from_json_hex_chars: "from_json_hex (hex_chars bs) = Inr bs"
proof -
  have "even (length (hex_chars bs))" by (induction bs) (simp_all add: hex_chars_def hex_pair_def)
  then show ?thesis by (simp add: from_json_hex_def hex_chars_def unhex_pairs)
qed

lemma decode_elements_json:
  "(\<And>v. v \<in> set vs \<Longrightarrow> d (json_of v) = Some (Inr v)) \<Longrightarrow> decode_elements d (map json_of vs) = Some (Inr vs)"
  by (induction vs) simp_all

lemma decode_items_json:
  "list_all2 (\<lambda>ty v. \<forall>cur. has_type ty cur \<longrightarrow> d ty cur (json_of v) = Some (Inr v)) tys vs \<Longrightarrow> list_all2 has_type tys cs \<Longrightarrow>
   decode_items d tys cs (map json_of vs) = Some (Inr vs)"
proof (induction tys vs arbitrary: cs rule: list_all2_induct)
  case (Cons ty tys v vs)
  then show ?case by (cases cs) auto
qed simp

lemma typed_not_absent: "has_type ty v \<Longrightarrow> \<not> absent v"
  by (auto simp: absent_def elim: has_type.cases)

lemma update_middle: "k \<notin> fst ` set fs \<Longrightarrow> AList.update k v (fs @ (k, c) # cs) = fs @ (k, v) # cs"
  by (induction fs) auto

lemma decode_members_json:
  assumes "list_all2 (\<lambda>f g. fst g = fst f \<and> utf8_valid (fst f) \<and> has_type (fst (snd f)) (snd g) \<and>
      (\<forall>cur. has_type (fst (snd f)) cur \<longrightarrow> d (fst (snd f)) cur (json_of (snd g)) = Some (Inr (snd g)))) fds2 fs2"
    "list_all2 (\<lambda>f g. fst g = fst f \<and> has_type (fst (snd f)) (snd g)) fds2 cs" "distinct (map fst (fds1 @ fds2))"
    "map fst fs1 = map fst fds1"
  shows "decode_members d (fds1 @ fds2) (V_struct (fs1 @ cs)) (fields_of fs2) = Some (Inr (V_struct (fs1 @ fs2)))"
  using assms
proof (induction fds2 fs2 arbitrary: fds1 fs1 cs rule: list_all2_induct)
  case (Cons f fds2 g fs2)
  obtain n ty x where f: "f = (n, ty, x)" by (cases f)
  obtain n' v where g: "g = (n', v)" by (cases g)
  note step = Cons.hyps(1) [unfolded f g fst_conv snd_conv]
  obtain c cs' where cs: "cs = (n, c) # cs'" "has_type ty c"
    "list_all2 (\<lambda>f g. fst g = fst f \<and> has_type (fst (snd f)) (snd g)) fds2 cs'"
    using Cons.prems(1) f by (cases cs) auto
  have nin: "n \<notin> fst ` set fds1" "n \<notin> fst ` set fs1"
    using Cons.prems(2) f Cons.prems(3) by (auto simp: image_set simp del: set_map)
  have mo: "map_of (fds1 @ f # fds2) n = Some (ty, x)"
    using nin(1) f by (simp add: map_add_def map_of_eq_None_iff [THEN iffD2])
  have mem: "member_of (V_struct (fs1 @ cs)) n = c"
    using nin(2) cs(1) by (simp add: member_of_def map_add_def map_of_eq_None_iff [THEN iffD2])
  have upd: "set_member n v (V_struct (fs1 @ cs)) = V_struct ((fs1 @ [(n, v)]) @ cs')"
    using update_middle [OF nin(2)] cs(1) by (simp add: set_member_def)
  have "decode_members d ((fds1 @ [f]) @ fds2) (V_struct ((fs1 @ [(n, v)]) @ cs')) (fields_of fs2) =
      Some (Inr (V_struct ((fs1 @ [(n, v)]) @ fs2)))"
    by (rule Cons.IH [OF cs(3)]) (use Cons.prems(2,3) f in simp_all)
  then show ?case
    using step mo mem upd cs(2) typed_not_absent [of ty v] by (simp add: g sanitize_valid)
qed simp

lemma decode_json_of:
  "has_type ty v \<Longrightarrow> type_ok ty \<Longrightarrow> texts_ok v \<Longrightarrow> has_type ty cur \<Longrightarrow> decode ty cur (json_of v) = Some (Inr v)"
proof (induction arbitrary: cur rule: has_type.induct)
  case (5 vs ty)
  have "decode_elements (decode ty (init ty)) (map json_of vs) = Some (Inr vs)"
    by (rule decode_elements_json) (use 5 init_has_type in auto)
  then show ?case by (simp add: decode.simps [of "T_vector ty"])
next
  case (6 alts name ty v)
  have "type_ok ty" using 6 by (auto dest: map_of_SomeD)
  then show ?case using 6 init_has_type [of ty] by (simp add: decode.simps [of "T_variant alts"] sanitize_valid)
next
  case (7 tys vs)
  have "list_all2 (\<lambda>ty v. \<forall>cur. has_type ty cur \<longrightarrow> decode ty cur (json_of v) = Some (Inr v)) tys vs"
    by (rule list.rel_mono_strong [OF 7(1)]) (use 7(2,3) in auto)
  moreover have "list_all2 has_type tys (map init tys)"
    using 7(2) init_has_type by (simp add: list_all2_map2 list_all2_same)
  ultimately show ?case by (simp add: decode.simps [of "T_tuple tys"] decode_items_json)
next
  case (8 fds fs)
  obtain cs where cs: "cur = V_struct cs" "list_all2 (\<lambda>f g. fst g = fst f \<and> has_type (fst (snd f)) (snd g)) fds cs"
    using 8(4) by (auto elim: has_type_cases)
  have "list_all2 (\<lambda>f g. fst g = fst f \<and> utf8_valid (fst f) \<and> has_type (fst (snd f)) (snd g) \<and>
      (\<forall>cur. has_type (fst (snd f)) cur \<longrightarrow> decode (fst (snd f)) cur (json_of (snd g)) = Some (Inr (snd g)))) fds fs"
    by (rule list.rel_mono_strong [OF 8(1)]) (use 8(2,3) in force)
  from decode_members_json [OF this cs(2), of "[]" "[]"] show ?case
    using 8(2) by (simp add: decode.simps [of "T_struct fds"] cs(1) fields_of_def [symmetric])
qed (auto simp: decode.simps sanitize_valid from_json_int_chars from_json_hex_chars)

section \<open>Reads keep the types\<close>

definition typed_reader :: "jreader \<Rightarrow> bool" where
  "typed_reader rd \<longleftrightarrow>
     (\<forall>ty cur s v s'. rd ty cur s = Some (Inr (v, s')) \<longrightarrow> type_ok ty \<longrightarrow> has_type ty cur \<longrightarrow> has_type ty v)"

lemma typed_readerD:
  "typed_reader rd \<Longrightarrow> rd ty cur s = Some (Inr (v, s')) \<Longrightarrow> type_ok ty \<Longrightarrow> has_type ty cur \<Longrightarrow> has_type ty v"
  unfolding typed_reader_def by blast

lemma fbind_Inr: "fbind m f = Some (Inr y) \<longleftrightarrow> (\<exists>x. m = Some (Inr x) \<and> f x = Some (Inr y))"
  by (auto simp: fbind_eq_Some)

lemma elements_typed:
  "typed_reader rd \<Longrightarrow> type_ok ty \<Longrightarrow> from_json_elements rd m ty acc s = Some (Inr (v, s')) \<Longrightarrow>
   \<forall>a \<in> set acc. has_type ty a \<Longrightarrow> has_type (T_vector ty) v"
proof (induction m arbitrary: acc s)
  case (Suc m)
  then show ?case
    using typed_readerD [OF Suc.prems(1) _ Suc.prems(2) init_has_type [OF Suc.prems(2)]]
    by (auto simp: fbind_Inr has_type_simps split: if_splits)
qed simp

lemma items_typed:
  "typed_reader rd \<Longrightarrow> \<forall>ty \<in> set tys. type_ok ty \<Longrightarrow> from_json_items rd tys cs s = Some (Inr (vs, s')) \<Longrightarrow>
   list_all2 has_type tys cs \<Longrightarrow> list_all2 has_type tys vs"
proof (induction tys arbitrary: cs vs s s')
  case (Cons ty tys)
  obtain c cs' where cs: "cs = c # cs'" "has_type ty c" "list_all2 has_type tys cs'"
    using Cons.prems(4) by (cases cs) auto
  note step = Cons.prems(3) [unfolded cs(1) from_json_items.simps list.sel fbind_Inr]
  from step obtain sp p where r: "(if js_token sp = Tok_end_array then Some (Inr (c, sp)) else rd ty c sp) = Some (Inr p)"
    "(case p of (v, s) \<Rightarrow> fbind (from_json_items rd tys cs' s) (\<lambda>(vs, s). Some (Inr (v # vs, s)))) = Some (Inr (vs, s'))"
    by blast
  obtain v s1 where p: "p = (v, s1)" by (cases p)
  obtain us where us: "from_json_items rd tys cs' s1 = Some (Inr (us, s'))" "vs = v # us"
    using r(2) p by (auto simp: fbind_Inr)
  have "has_type ty v"
    using r(1) p typed_readerD [OF Cons.prems(1)] Cons.prems(2) cs(2) by (auto split: if_splits)
  then show ?case using Cons.IH [OF Cons.prems(1) _ us(1) cs(3)] Cons.prems(2) us(2) by simp
qed simp

lemma members_typed:
  "typed_reader rd \<Longrightarrow> type_ok (T_struct fds) \<Longrightarrow> from_json_members rd m fds cur s = Some (Inr (v, s')) \<Longrightarrow>
   has_type (T_struct fds) cur \<Longrightarrow> has_type (T_struct fds) v"
proof (induction m arbitrary: cur s)
  case (Suc m)
  obtain sp where sp: "peek_token s = Inr sp" using Suc.prems(3) by (auto simp: fbind_Inr)
  show ?case
  proof (cases "js_token sp = Tok_end_object")
    case True
    then show ?thesis using Suc.prems sp by (auto simp: fbind_Inr)
  next
    case False
    then obtain k s1 where k: "get_key sp = Inr (k, s1)" using Suc.prems(3) sp by (auto simp: fbind_Inr)
    show ?thesis
    proof (cases "map_of fds k")
      case None
      then show ?thesis using Suc.prems sp k False Suc.IH by (auto simp: fbind_Inr)
    next
      case (Some tyv)
      obtain ty d where ty: "tyv = (ty, d)" by (cases tyv)
      note mem = has_type_member [OF Suc.prems(4) Some [unfolded ty]]
      have "(k, ty, d) \<in> set fds" using Some ty by (auto dest: map_of_SomeD)
      then have ok: "type_ok ty" using Suc.prems(2) by auto
      obtain v' s2 where v': "rd ty (member_of cur k) s1 = Some (Inr (v', s2))"
        "from_json_members rd m fds (set_member k v' cur) s2 = Some (Inr (v, s'))"
        using Suc.prems(3) sp k False Some ty by (auto simp: fbind_Inr)
      have "has_type ty v'" by (rule typed_readerD [OF Suc.prems(1) v'(1) ok mem(1)])
      then show ?thesis by (rule Suc.IH [OF Suc.prems(1,2) v'(2) mem(2)])
    qed
  qed
qed simp

lemma from_json_int_range:
  "w \<in> {8, 16, 32, 64, 128} \<Longrightarrow> from_json_int sg w r = Inr i \<Longrightarrow> int_min sg w \<le> i \<and> i \<le> int_max sg w"
  using from_json_int_correct_aux [of w sg r]
  by (auto simp: json_int_spec_def Let_def split: if_splits)

lemma from_json_typed: "typed_reader (from_json n)"
proof (induction n)
  case (Suc n)
  show ?case
    unfolding typed_reader_def
  proof (intro allI impI)
    fix ty cur s v s'
    assume a: "from_json (Suc n) ty cur s = Some (Inr (v, s'))" "type_ok ty" "has_type ty cur"
    show "has_type ty v"
    proof (cases ty)
      case (T_int sg w)
      then show ?thesis using a from_json_int_range by (auto simp: fbind_Inr has_type_simps)
    next
      case (T_vector ty')
      then obtain s1 where "from_json_elements (from_json n) n ty' [] s1 = Some (Inr (v, s'))"
        using a(1) by (auto simp: fbind_Inr)
      from elements_typed [OF Suc.IH _ this] show ?thesis using a(2) T_vector by simp
    next
      case (T_struct fds)
      then obtain s1 where "from_json_members (from_json n) n fds cur s1 = Some (Inr (v, s'))"
        using a(1) by (auto simp: fbind_Inr)
      from members_typed [OF Suc.IH _ this] show ?thesis using a(2,3) T_struct by simp
    next
      case (T_variant alts)
      then obtain type ty' s2 v' s3 where t: "map_of alts type = Some ty'" "from_json n ty' (init ty') s2 = Some (Inr (v', s3))"
        "v = V_variant type v'"
        using a(1) by (auto simp: fbind_Inr split: option.splits)
      have "type_ok ty'" using a(2) T_variant map_of_SomeD [OF t(1)] by auto
      then have "has_type ty' v'" using typed_readerD [OF Suc.IH t(2)] init_has_type by blast
      then show ?thesis using t T_variant by (simp add: has_type_simps)
    next
      case (T_tuple tys)
      have inits: "list_all2 has_type tys (map init tys)"
        using a(2) T_tuple init_has_type by (simp add: list_all2_map2 list_all2_same)
      obtain sp where sp: "peek_token s = Inr sp" using a(1) T_tuple by (auto simp: fbind_Inr)
      show ?thesis
      proof (cases "js_token sp = Tok_null")
        case True
        then show ?thesis using a(1) T_tuple sp inits by (auto simp: has_type_simps)
      next
        case False
        then obtain cs s1 s2 us s3 where r:
          "(if tys \<noteq> [] \<and> js_token sp \<noteq> Tok_start_array then
              fbind (from_json n (hd tys) (init (hd tys)) sp) (\<lambda>(v, s). Some (Inr (v # map init (tl tys), s)))
            else Some (Inr (map init tys, sp))) = Some (Inr (cs, s1))"
          "from_json_items (from_json n) tys cs s2 = Some (Inr (us, s3))" "v = V_tuple us"
          using a(1) T_tuple sp by (auto simp: fbind_Inr)
        have "list_all2 has_type tys cs"
        proof (cases "tys \<noteq> [] \<and> js_token sp \<noteq> Tok_start_array")
          case True
          then obtain ty' tys' where tys: "tys = ty' # tys'" by (cases tys) auto
          obtain v0 where v0: "from_json n ty' (init ty') sp = Some (Inr (v0, s1))" "cs = v0 # map init tys'"
            using r(1) True tys by (auto simp: fbind_Inr)
          have "has_type ty' v0"
            using typed_readerD [OF Suc.IH v0(1)] a(2) T_tuple tys init_has_type by simp
          then show ?thesis using inits tys v0(2) by simp
        next
          case False
          then show ?thesis using r(1) inits by (auto split: if_splits)
        qed
        from items_typed [OF Suc.IH _ r(2) this] show ?thesis
          using a(2) T_tuple r(3) by (simp add: has_type_simps)
      qed
    qed (use a(1) in \<open>auto simp: fbind_Inr has_type_simps\<close>)
  qed
qed (simp add: typed_reader_def)

section \<open>Properties\<close>

lemma typed_ints: "has_type ty v \<Longrightarrow> ints_ok v"
proof (induction rule: has_type.induct)
  case (7 tys vs)
  then show ?case by (auto simp: list_all2_conv_all_nth in_set_conv_nth)
next
  case (8 fds fs)
  then show ?case by (auto simp: list_all2_conv_all_nth in_set_conv_nth) (metis snd_conv)
qed auto

lemma bytes_of_concat: "concat (map bytes_of xs) = bytes_of (concat xs)"
  by (induction xs) (simp_all add: bytes_of_def)

lemma plain_written:
  assumes "ints_ok v"
  shows "\<exists>t. convert_to_json v = Inr (bytes_of t) \<and> renders (json_of v) t"
    "\<exists>t. format_json v = Inr (bytes_of t) \<and> renders (json_of v) t"
  using to_json_writes(1) [of plain_out v] to_json_writes(1) [of pretty_out v] assms
  by (auto simp: writes_value_def layout_ok_def plain_out_def pretty_out_def convert_to_json_def format_json_def
      two_pass_concat bytes_of_concat jo_text_def)

lemma text_settled:
  assumes "renders j t" "ws w" "ws r" "decode ty x j = Some res" "jdepth j < 2 ^ 64"
  shows "settled (\<lambda>n. from_json_text n ty x (w @ t @ r)) res"
proof -
  have A: "settled (\<lambda>n. from_json n ty x (json_token_stream_new (w @ t @ r))) (okmap (\<lambda>v. (v, js It_Finish [] [])) res)"
    by (rule reads_okD [OF decode_reads [OF assms(5)] assms(4) document_feeds [OF assms(1-3)]])
  show ?thesis
  proof (cases res)
    case (Inl e)
    then show ?thesis using A unfolding from_json_text_def by (simp add: settled_bind(2))
  next
    case (Inr v)
    then have "settled (\<lambda>n. from_json n ty x (json_token_stream_new (w @ t @ r))) (Inr (v, js It_Finish [] []))"
      using A by simp
    then show ?thesis unfolding from_json_text_def Inr by (rule settled_bind(1)) simp
  qed
qed

text \<open>
  C4 (refinement): On every text that renders a document, with any white space, the streaming reader
  computes what the decoder of documents says, errors included: known members are set in the order of the
  text, a repeated key writes into the member again, members the text does not name keep their value, and
  unknown keys are passed over with their whole value.
\<close>

theorem from_json_refines:
  assumes "renders j t" "ws w" "ws r" "decode ty x j = Some res" "jdepth j < 2 ^ 64"
  shows "\<exists>N. \<forall>n\<ge>N. from_json_text n ty x (w @ t @ r) = Some res"
  using text_settled [OF assms] by (simp add: settled_def)

theorem from_json_refines_witness:
  "\<exists>N. \<forall>n\<ge>N. from_json_text n (T_struct [(''a'', T_bool, V_bool False)]) (V_struct [(''a'', V_bool False)])
     ([CHR 0x7B, CHR 0x22, CHR ''b'', CHR 0x22] @ '': [null], '' @ [CHR 0x22, CHR ''a'', CHR 0x22] @ '':true'' @ [CHR 0x7D]) =
     Some (Inr (V_struct [(''a'', V_bool True)]))"
proof -
  have key: "parse_string ([c, CHR 0x22] @ r) = Inr ([c], r)" if "simple_char c" for c r
    using parse_simple [of "[c]" r] that by simp
  have a: "simple_char (CHR ''a'')" "simple_char (CHR ''b'')" "ws '' ''"
    by (simp_all add: simple_char_def ws_def)
  have arr: "renders (J_array [J_null]) ''[null]''"
    using r_array [OF e_cons [OF ws_Nil ws_Nil r_null e_end [OF ws_Nil], of True]] by simp
  note m = m_cons [OF ws_Nil a(3) ws_Nil ws_Nil key [OF a(1)] r_true m_end [OF ws_Nil], of False]
  note m' = r_object [OF m_cons [OF ws_Nil ws_Nil ws_Nil a(3) key [OF a(2)] arr m, of True]]
  have d: "decode (T_struct [(''a'', T_bool, V_bool False)]) (V_struct [(''a'', V_bool False)])
      (J_object [([CHR ''b''], J_array [J_null]), ([CHR ''a''], J_bool True)]) = Some (Inr (V_struct [(''a'', V_bool True)]))"
    by (simp add: decode.simps set_member_def)
  show ?thesis
    using from_json_refines [OF m' ws_Nil ws_Nil d] by simp
qed



text \<open>
  C34 (type): Whatever the text, a read that returns an object returns one of its type: integers in range,
  variants with a known alternative, tuples of the right length and structs with the right members.
\<close>

theorem from_json_type_safe:
  assumes "type_ok ty" "has_type ty x" "from_json_text n ty x json = Some (Inr v)"
  shows "has_type ty v"
  using assms(3) typed_readerD [OF from_json_typed _ assms(1,2)]
  by (auto simp: from_json_text_def fbind_Inr)

theorem from_json_type_safe_witness: "has_type T_bool (V_bool True)"
proof -
  have "from_json_text 1 T_bool (V_bool False) ''true'' = Some (Inr (V_bool True))"
    using feeds_scalar(1) [OF document_feeds [OF r_true ws_Nil ws_Nil]] by (simp add: from_json_text_def)
  then show ?thesis by (rule from_json_type_safe [rotated 2]) (auto simp: has_type_simps)
qed

text \<open>
  C17 (termination): Reading a type without tuples ends on every text, well formed or not, with a value or an
  error; fuel of twice the length of the text is enough.
\<close>

theorem from_json_terminates:
  assumes "tuple_free ty" "length json < 2 ^ 64" "2 * length json < n"
  shows "\<exists>r. from_json_text n ty x json = Some r"
proof -
  have "stream_ok (json_token_stream_new json)" "stream_measure (json_token_stream_new json) < n"
    using assms(2,3) by (simp_all add: stream_ok_def json_token_stream_new_def reader_inv_def stream_measure_def)
  then have "returns (stream_measure (json_token_stream_new json)) (\<lambda>s x. True)
      (from_json n ty x (json_token_stream_new json)) snd"
    using from_json_good [of n] assms(1) unfolding good_reader_def by blast
  then show ?thesis
    by (auto simp: returns_def from_json_text_def fbind_def split: option.splits sum.splits)
qed

theorem from_json_terminates_witness: "\<exists>r. from_json_text 9 (T_vector T_bool) (V_vector []) ''[nu['' = Some r"
  by (rule from_json_terminates) simp_all

lemma tuple_null_loop: "js_token s = Tok_null \<Longrightarrow> from_json_elements (from_json n) m (T_tuple tys) acc s = None"
proof (induction m arbitrary: acc)
  case (Suc m)
  then show ?case by (cases n) (simp_all add: peek_token_def)
qed simp

text \<open>
  Reading a vector of tuples from [null] never ends: the reader of tuples takes null for
  the default value without consuming it, so the vector grows for ever.
\<close>

theorem tuple_null_diverges:
  "from_json_text n (T_vector (T_tuple tys)) x ''[null]'' = None"
proof -
  have r: "renders (J_array [J_null]) ''[null]''"
    using r_array [OF e_cons [OF ws_Nil ws_Nil r_null e_end [OF ws_Nil], of True]] by simp
  obtain s1 where s1: "get_start_array (json_token_stream_new ''[null]'') = Inr s1"
    "feeds s1 (concat (map json_tokens [J_null]) @ [Tok_end_array]) (js It_Finish [] [])"
    using feeds_array(1) [OF document_feeds [OF r ws_Nil ws_Nil] refl] by auto
  obtain sp where sp: "peek_token s1 = Inr sp" "js_token sp = Tok_null"
    using s1(2) by (auto simp: feeds.simps)
  have "from_json_elements (from_json m) m' (T_tuple tys) acc s1 = None" for m m' acc
  proof (cases m')
    case (Suc k)
    have "peek_token sp = Inr sp" by (simp add: peek_token_def sp(2))
    then have "from_json_elements (from_json m) m' (T_tuple tys) acc s1 = from_json_elements (from_json m) m' (T_tuple tys) acc sp"
      by (simp add: Suc sp(1))
    then show ?thesis using tuple_null_loop [OF sp(2)] by simp
  qed simp
  then show ?thesis using s1(1) by (cases n) (simp_all add: from_json_text_def)
qed

end
