(* ===== verification/Clio_Json_Any.thy ===== *)
theory Clio_Json_Any
  imports Clio_Json_Read
begin

text \<open>
  Dynamic JSON values (json/any.hpp): \<^verbatim>\<open>json::any\<close>, its lookups, its writer and its reader on the token
  stream. The alternative for floating point numbers is left out: writing it rests on fpconv, and the
  reader never produces it, since the token stream hands numbers over as strings.
\<close>

section \<open>Values\<close>

datatype any =
    Any_null
  | Any_string string
  | Any_int32 int
  | Any_int64 int
  | Any_bool bool
  | Any_object "(string \<times> any) list"
  | Any_array "any list"
  | Any_error string

text \<open>The two lookups never fail: they answer with an error value.\<close>

definition any_at :: "any \<Rightarrow> nat \<Rightarrow> any" where
  "any_at a index =
     (case a of
        Any_array p \<Rightarrow> if index \<ge> length p then Any_error ''index out of bounds'' else p ! index
      | _ \<Rightarrow> Any_error ''not an array'')"

fun find_entry :: "(string \<times> any) list \<Rightarrow> string \<Rightarrow> any option" where
  "find_entry [] key = None"
| "find_entry ((k, v) # es) key = (if k = key then Some v else find_entry es key)"

definition any_get :: "any \<Rightarrow> string \<Rightarrow> any" where
  "any_get a key =
     (case a of
        Any_object p \<Rightarrow> (case find_entry p key of Some v \<Rightarrow> v | None \<Rightarrow> Any_error ''not an object'')
      | _ \<Rightarrow> Any_error ''not an object'')"

section \<open>Writing\<close>

text \<open>
  An object counts its members down: the first one indents, and all but the last are followed by a
  comma. \<^verbatim>\<open>size\<close> is an int, compared with the unsigned size of the vector; they are the same below
  \<^verbatim>\<open>2 ^ 31\<close> members.
\<close>

fun any_to_json :: "any \<Rightarrow> json_out \<Rightarrow> json_out result"
  and any_to_json_elements :: "bool \<Rightarrow> any list \<Rightarrow> json_out \<Rightarrow> (bool \<times> json_out) result"
  and any_to_json_entries :: "bool \<Rightarrow> (string \<times> any) list \<Rightarrow> json_out \<Rightarrow> json_out result" where
  "any_to_json Any_null out = Inr (jwrite ''null'' out)"
| "any_to_json (Any_string s) out = to_json (V_string s) out"
| "any_to_json (Any_int32 i) out = to_json (V_int True 32 i) out"
| "any_to_json (Any_int64 i) out = to_json (V_int True 64 i) out"
| "any_to_json (Any_bool b) out = to_json (V_bool b) out"
| "any_to_json (Any_error e) out = to_json (V_struct [(''what'', V_string e)]) out"
| "any_to_json (Any_array vs) out =
     rbind (any_to_json_elements True vs (jwrite [CHR 0x5B] out)) (\<lambda>(first, out).
     rbind (if first then Inr out else rbind (decrease_indent out) (\<lambda>out. Inr (write_newline out))) (\<lambda>out.
     Inr (jwrite [CHR 0x5D] out)))"
| "any_to_json (Any_object es) out =
     rbind (any_to_json_entries True es (jwrite [CHR 0x7B] out)) (\<lambda>out.
     rbind (if es = [] then Inr out else rbind (decrease_indent out) (\<lambda>out. Inr (write_newline out))) (\<lambda>out.
     Inr (jwrite [CHR 0x7D] out)))"
| "any_to_json_elements first [] out = Inr (first, out)"
| "any_to_json_elements first (v # vs) out =
     rbind (any_to_json v (write_newline (if first then increase_indent out else jwrite '','' out))) (\<lambda>out.
     any_to_json_elements False vs out)"
| "any_to_json_entries first [] out = Inr out"
| "any_to_json_entries first ((k, v) # es) out =
     (let out = write_newline (if first then increase_indent out else out);
          out = write_colon (jwrite (to_json_string k) out)
      in rbind (any_to_json v out) (\<lambda>out.
         any_to_json_entries False es (if es \<noteq> [] then jwrite '','' out else out)))"

definition any_convert_to_json :: "any \<Rightarrow> byte list result" where
  "any_convert_to_json a =
     rbind (any_to_json a plain_out) (\<lambda>out. two_pass True (map bytes_of (jo_writes out)) [])"

definition any_format_json :: "any \<Rightarrow> byte list result" where
  "any_format_json a =
     rbind (any_to_json a pretty_out) (\<lambda>out. two_pass True (map bytes_of (jo_writes out)) [])"

section \<open>Reading\<close>

text \<open>
  The kind of value is the kind of the next token. Objects and arrays append to the value they were
  called for, which is always a fresh one; an entry joins its object before its value is read, so the
  value of a key that was read twice is there twice.
\<close>

type_synonym any_reader = "json_stream \<Rightarrow> (any \<times> json_stream) jres"

primrec any_from_json_elements :: "any_reader \<Rightarrow> nat \<Rightarrow> any list \<Rightarrow> any_reader" where
  "any_from_json_elements rd 0 acc s = None"
| "any_from_json_elements rd (Suc n) acc s =
     fbind (Some (peek_token s)) (\<lambda>s.
     if js_token s = Tok_end_array then
       fbind (Some (get_end_array s)) (\<lambda>s. Some (Inr (Any_array acc, s)))
     else
       fbind (rd s) (\<lambda>(v, s). any_from_json_elements rd n (acc @ [v]) s))"

primrec any_from_json_entries :: "any_reader \<Rightarrow> nat \<Rightarrow> (string \<times> any) list \<Rightarrow> any_reader" where
  "any_from_json_entries rd 0 acc s = None"
| "any_from_json_entries rd (Suc n) acc s =
     fbind (Some (peek_token s)) (\<lambda>s.
     if js_token s = Tok_end_object then
       fbind (Some (get_end_object s)) (\<lambda>s. Some (Inr (Any_object acc, s)))
     else
       fbind (Some (get_key s)) (\<lambda>(k, s).
       fbind (rd s) (\<lambda>(v, s). any_from_json_entries rd n (acc @ [(k, v)]) s)))"

primrec any_from_json :: "nat \<Rightarrow> any_reader" where
  "any_from_json 0 = (\<lambda>s. None)"
| "any_from_json (Suc n) = (\<lambda>s.
     fbind (Some (peek_token s)) (\<lambda>s.
     case js_token s of
       Tok_null \<Rightarrow> Some (Inr (Any_null, eat_token s))
     | Tok_bool b \<Rightarrow> Some (Inr (Any_bool b, eat_token s))
     | Tok_string v \<Rightarrow> Some (Inr (Any_string v, eat_token s))
     | Tok_start_object \<Rightarrow>
         fbind (Some (get_start_object s)) (\<lambda>s. any_from_json_entries (any_from_json n) n [] s)
     | Tok_start_array \<Rightarrow>
         fbind (Some (get_start_array s)) (\<lambda>s. any_from_json_elements (any_from_json n) n [] s)
     | _ \<Rightarrow> Some (Inl value_invalid)))"

definition any_from_json_text :: "nat \<Rightarrow> string \<Rightarrow> any jres" where
  "any_from_json_text n json =
     fbind (any_from_json n (json_token_stream_new json)) (\<lambda>(v, s). Some (Inr v))"


section \<open>Dynamic values and documents\<close>

text \<open>The document a value is written as, and the value a document is read as.\<close>

fun json_of_any :: "any \<Rightarrow> json" where
  "json_of_any Any_null = J_null"
| "json_of_any (Any_string s) = J_string (sanitize s)"
| "json_of_any (Any_int32 i) = J_string (int_chars i)"
| "json_of_any (Any_int64 i) = J_string (int_chars i)"
| "json_of_any (Any_bool b) = J_bool b"
| "json_of_any (Any_object es) = J_object (map (\<lambda>(k, v). (sanitize k, json_of_any v)) es)"
| "json_of_any (Any_array vs) = J_array (map json_of_any vs)"
| "json_of_any (Any_error e) = J_object [(''what'', J_string (sanitize e))]"

fun any_of_json :: "json \<Rightarrow> any" where
  "any_of_json J_null = Any_null"
| "any_of_json (J_bool b) = Any_bool b"
| "any_of_json (J_string s) = Any_string s"
| "any_of_json (J_array es) = Any_array (map any_of_json es)"
| "any_of_json (J_object ms) = Any_object (map (\<lambda>(k, e). (k, any_of_json e)) ms)"

fun any_ints_ok :: "any \<Rightarrow> bool" where
  "any_ints_ok (Any_int32 i) \<longleftrightarrow> int_min True 32 \<le> i \<and> i \<le> int_max True 32"
| "any_ints_ok (Any_int64 i) \<longleftrightarrow> int_min True 64 \<le> i \<and> i \<le> int_max True 64"
| "any_ints_ok (Any_object es) \<longleftrightarrow> (\<forall>(k, v) \<in> set es. any_ints_ok v)"
| "any_ints_ok (Any_array vs) \<longleftrightarrow> (\<forall>v \<in> set vs. any_ints_ok v)"
| "any_ints_ok _ \<longleftrightarrow> True"

section \<open>The writer renders the document\<close>

definition any_members :: "(string \<times> any) list \<Rightarrow> (string \<times> json) list" where
  "any_members es = map (\<lambda>(k, v). (sanitize k, json_of_any v)) es"

lemma any_members_simps [simp]:
  "any_members [] = []" "any_members ((k, v) # es) = (sanitize k, json_of_any v) # any_members es"
  by (simp_all add: any_members_def)

text \<open>The comma is written before the members that follow, which are then rendered like first ones.\<close>

definition writes_entries :: "bool \<Rightarrow> (string \<times> json) list \<Rightarrow> json_out \<Rightarrow> json_out result \<Rightarrow> bool" where
  "writes_entries first ms out r \<longleftrightarrow>
     (\<exists>out' t. r = Inr out' \<and> jo_text out' = jo_text out @ t \<and>
        (if first \<and> ms \<noteq> [] then deeper out out' else same_layout out out') \<and>
        (\<forall>w. ws w \<longrightarrow> renders_members True ms (t @ w @ [CHR 0x7D])))"

inductive_cases renders_members_Cons: "renders_members True (m # ms) t"
inductive_cases renders_members_Nil: "renders_members True [] t"

lemma renders_no_members: "renders_members True [] t \<Longrightarrow> renders_members first [] t"
  by (erule renders_members_Nil) (simp add: m_end)

lemma renders_members_comma: "renders_members True (m # ms) t \<Longrightarrow> renders_members False (m # ms) (CHR '','' # t)"
  by (erule renders_members_Cons) (use m_cons [OF ws_Nil, where first = False] in \<open>fastforce\<close>)

lemma writes_entries_Cons:
  assumes "layout_ok out" "r0 = write_newline (if first then increase_indent out else out)"
    "writes_value j (write_colon (jwrite (to_json_string k) r0)) (Inr out1)"
    "writes_entries False ms (if ms \<noteq> [] then jwrite '','' out1 else out1) r"
  shows "writes_entries first ((sanitize k, j) # ms) out r"
proof -
  define o0 where "o0 = (if first then increase_indent out else out)"
  define kt where "kt = encode k @ [CHR 0x22]"
  have lay: "layout_ok o0" using assms(1) layout_ok_increase by (simp add: o0_def)
  obtain w0 where w0: "ws w0" "jo_text r0 = jo_text out @ w0" "same_layout o0 r0"
    using write_newline_text [OF lay] assms(2) by (auto simp: o0_def)
  define oc where "oc = write_colon (jwrite (to_json_string k) r0)"
  obtain w3 where w3: "ws w3" "jo_text oc = jo_text r0 @ CHR 0x22 # kt @ CHR '':'' # w3" "same_layout r0 oc"
    using write_colon_text [of "jwrite (to_json_string k) r0"]
    unfolding oc_def by (auto simp: parse_to_json_string(1) kt_def)
  obtain t where t: "jo_text out1 = jo_text oc @ t" "same_layout oc out1" "renders j t"
    using assms(3) by (auto simp: writes_value_def oc_def)
  define c where "c = (if ms \<noteq> [] then '','' else [])"
  obtain out' u where u: "r = Inr out'" "jo_text out' = jo_text out1 @ c @ u" "same_layout out1 out'"
    "\<And>w. ws w \<Longrightarrow> renders_members True ms (u @ w @ [CHR 0x7D])"
    using assms(4) by (auto simp: writes_entries_def c_def split: if_splits)
  have rest: "renders_members False ms (c @ u @ w @ [CHR 0x7D])" if "ws w" for w
  proof (cases ms)
    case Nil
    then show ?thesis using renders_no_members u(4) [OF that] by (simp add: c_def)
  next
    case (Cons m ms')
    then show ?thesis using renders_members_comma [of m ms'] u(4) [OF that] by (simp add: c_def)
  qed
  have kp: "parse_string (kt @ r) = Inr (sanitize k, r)" for r
    unfolding kt_def by (rule parse_to_json_string(2))
  have lay': "same_layout o0 out'" using w0(3) w3(3) t(2) u(3) same_layout_trans by blast
  have "renders_members True ((sanitize k, j) # ms) ((w0 @ CHR 0x22 # kt @ CHR '':'' # w3 @ t @ c @ u) @ w @ [CHR 0x7D])"
    if "ws w" for w
    using m_cons [OF ws_Nil w0(1) ws_Nil w3(1) kp t(3) rest [OF that], of True] by simp
  moreover have "if first then deeper out out' else same_layout out out'"
    using lay' by (auto simp: o0_def deeper_def)
  moreover have "jo_text out' = jo_text out @ (w0 @ CHR 0x22 # kt @ CHR '':'' # w3 @ t @ c @ u)"
    using w0 w3 t u by simp
  ultimately show ?thesis
    using u(1) unfolding writes_entries_def by force
qed

lemma layout_ok_newline: "layout_ok out \<Longrightarrow> layout_ok (write_newline out)"
  using write_newline_text layout_ok_same by blast

lemma layout_ok_colon: "layout_ok out \<Longrightarrow> layout_ok (write_colon out)"
  using write_colon_text layout_ok_same by blast

lemma writes_value_layout:
  "writes_value j out r \<Longrightarrow> layout_ok out \<Longrightarrow> \<exists>out'. r = Inr out' \<and> writes_value j out (Inr out') \<and> layout_ok out'"
  using layout_ok_same by (auto simp: writes_value_def)

lemma any_to_json_writes:
  "layout_ok out \<Longrightarrow> any_ints_ok a \<Longrightarrow> writes_value (json_of_any a) out (any_to_json a out)"
  "layout_ok out \<Longrightarrow> (\<forall>v \<in> set vs. any_ints_ok v) \<Longrightarrow>
     writes_elements first (map json_of_any vs) out (any_to_json_elements first vs out)"
  "layout_ok out \<Longrightarrow> (\<forall>(k, v) \<in> set es. any_ints_ok v) \<Longrightarrow>
     writes_entries first (any_members es) out (any_to_json_entries first es out)"
proof (induction a out and first vs out and first es out
    rule: any_to_json_any_to_json_elements_any_to_json_entries.induct)
  case (2 s out)
  then show ?case using to_json_writes(1) [of out "V_string s"] by simp
next
  case (3 i out)
  then show ?case using to_json_writes(1) [of out "V_int True 32 i"] by simp
next
  case (4 i out)
  then show ?case using to_json_writes(1) [of out "V_int True 64 i"] by simp
next
  case (5 b out)
  then show ?case using to_json_writes(1) [of out "V_bool b"] by simp
next
  case (6 e out)
  have "sanitize ''what'' = ''what''" by (rule sanitize_valid) code_simp
  then show ?case using 6 to_json_writes(1) [of out "V_struct [(''what'', V_string e)]"] by (simp add: absent_def)
next
  case (7 vs out)
  then obtain out' t where el: "any_to_json_elements True vs (jwrite [CHR 0x5B] out) = Inr (vs = [], out')"
    "jo_text out' = jo_text out @ [CHR 0x5B] @ t" "if vs \<noteq> [] then deeper out out' else same_layout out out'"
    "\<And>w. ws w \<Longrightarrow> renders_elements True (map json_of_any vs) (t @ w @ [CHR 0x5D])"
    by (auto simp: writes_elements_def split: if_splits)
  have "writes_value (J_array (map json_of_any vs)) out
    (rbind (if \<not> vs \<noteq> [] then Inr out' else rbind (decrease_indent out') (\<lambda>out. Inr (write_newline out))) (\<lambda>out.
     Inr (jwrite [CHR 0x5D] out)))"
    by (rule writes_closing [OF 7(2) el(3,2)]) (use r_array el(4) in simp)
  then show ?case by (simp add: el(1))
next
  case (8 es out)
  then obtain out' t where el: "any_to_json_entries True es (jwrite [CHR 0x7B] out) = Inr out'"
    "jo_text out' = jo_text out @ [CHR 0x7B] @ t" "if es \<noteq> [] then deeper out out' else same_layout out out'"
    "\<And>w. ws w \<Longrightarrow> renders_members True (any_members es) (t @ w @ [CHR 0x7D])"
    by (auto simp: writes_entries_def any_members_def split: if_splits)
  have "writes_value (J_object (any_members es)) out
    (rbind (if \<not> es \<noteq> [] then Inr out' else rbind (decrease_indent out') (\<lambda>out. Inr (write_newline out))) (\<lambda>out.
     Inr (jwrite [CHR 0x7D] out)))"
    by (rule writes_closing [OF 8(2) el(3,2)]) (use r_object el(4) in simp)
  then show ?case by (simp add: el(1) any_members_def)
next
  case (10 first v vs out)
  have lay: "layout_ok (write_newline (if first then increase_indent out else jwrite '','' out))"
    by (rule layout_ok_newline) (use 10(3) layout_ok_increase in simp)
  have "any_ints_ok v" using 10(4) by simp
  from writes_value_layout [OF 10(1) [OF lay this] lay] obtain out1 where
    v: "any_to_json v (write_newline (if first then increase_indent out else jwrite '','' out)) = Inr out1"
      "writes_value (json_of_any v) (write_newline (if first then increase_indent out else jwrite '','' out)) (Inr out1)"
      "layout_ok out1" by blast
  show ?case
    using writes_elements_Cons [OF 10(3) refl v(2) 10(2) [OF v(1) v(3)]] 10(4) v(1) by simp
next
  case (12 first k v es out)
  let ?r0 = "write_newline (if first then increase_indent out else out)"
  have lay: "layout_ok (write_colon (jwrite (to_json_string k) ?r0))"
    by (intro layout_ok_colon) (use 12(3) layout_ok_increase layout_ok_newline in simp)
  have "any_ints_ok v" using 12(4) by simp
  from writes_value_layout [OF 12(1) [OF refl refl lay this] lay] obtain out1 where
    v: "any_to_json v (write_colon (jwrite (to_json_string k) ?r0)) = Inr out1"
      "writes_value (json_of_any v) (write_colon (jwrite (to_json_string k) ?r0)) (Inr out1)" "layout_ok out1"
    by blast
  have lay2: "layout_ok (if es \<noteq> [] then jwrite '','' out1 else out1)" using v(3) by simp
  have "es \<noteq> [] \<longleftrightarrow> any_members es \<noteq> []" by (simp add: any_members_def)
  then show ?case
    using writes_entries_Cons [OF 12(3) refl v(2)] 12(2) [OF refl refl v(1) lay2] 12(4) v(1) by (simp add: Let_def)
qed (auto simp: r_null writes_elements_def writes_entries_def intro!: writes_valueI e_end m_end)


section \<open>The reader takes every document\<close>

lemma any_from_json_step:
  assumes "feeds s (t # ts) s'" "t \<noteq> Tok_unread"
  shows "\<exists>sp s1. peek_token s = Inr sp \<and> js_token sp = t \<and> feeds (eat_token sp) ts s' \<and>
    (t = Tok_start_array \<longrightarrow> get_start_array sp = Inr (eat_token sp)) \<and>
    (t = Tok_start_object \<longrightarrow> get_start_object sp = Inr (eat_token sp))"
proof -
  obtain sp where sp: "peek_token s = Inr sp" "js_token sp = t" "feeds (eat_token sp) ts s'"
    using assms(1) by (auto simp: feeds.simps)
  have "peek_token sp = Inr sp" using sp(2) assms(2) by (simp add: peek_token_def)
  then show ?thesis
    using sp by (auto simp: get_start_array_def get_start_object_def)
qed

lemma any_elements_ok:
  assumes "\<And>e s s'. e \<in> set es \<Longrightarrow> feeds s (json_tokens e) s' \<Longrightarrow> settled (\<lambda>n. any_from_json n s) (Inr (any_of_json e, s'))"
    "feeds s (concat (map json_tokens es) @ [Tok_end_array]) s'"
  shows "settled2 (\<lambda>n m. any_from_json_elements (any_from_json n) m acc s) (Inr (Any_array (acc @ map any_of_json es), s'))"
  using assms
proof (induction es arbitrary: acc s)
  case Nil
  then obtain sp where sp: "peek_token s = Inr sp" "js_token sp = Tok_end_array" "get_end_array sp = Inr s'"
    using feeds_end(1) [of s s'] by auto
  then show ?case
    by (intro settled2_Suc [of "\<lambda>n m. any_from_json_elements (any_from_json n) m acc s"]) simp
next
  case (Cons e es)
  have "feeds s (json_tokens e @ concat (map json_tokens es) @ [Tok_end_array]) s'" using Cons.prems(2) by simp
  then obtain sp s1 where sp: "peek_token s = Inr sp" "js_token sp \<noteq> Tok_end_array"
    "feeds sp (json_tokens e) s1" "feeds s1 (concat (map json_tokens es) @ [Tok_end_array]) s'"
    by (rule feeds_value_start)
  have step: "any_from_json_elements (any_from_json n) (Suc m) acc s =
      fbind (any_from_json n sp) (\<lambda>(v, s). any_from_json_elements (any_from_json n) m (acc @ [v]) s)" for n m
    using sp by simp
  have v: "settled (\<lambda>n. any_from_json n sp) (Inr (any_of_json e, s1))" using Cons.prems(1) sp(3) by simp
  have "settled2 (\<lambda>n m. any_from_json_elements (any_from_json n) m (acc @ [any_of_json e]) s1)
      (Inr (Any_array ((acc @ [any_of_json e]) @ map any_of_json es), s'))"
    by (rule Cons.IH [OF _ sp(4)]) (use Cons.prems(1) in simp)
  then show ?case
    by (intro settled2_Suc [of "\<lambda>n m. any_from_json_elements (any_from_json n) m acc s"], unfold step,
        intro settled2_bind(1) [OF v]) simp
qed

lemma any_entries_ok:
  assumes "\<And>k e s s'. (k, e) \<in> set ms \<Longrightarrow> feeds s (json_tokens e) s' \<Longrightarrow> settled (\<lambda>n. any_from_json n s) (Inr (any_of_json e, s'))"
    "feeds s (concat (map (\<lambda>(k, j). Tok_key k # json_tokens j) ms) @ [Tok_end_object]) s'"
  shows "settled2 (\<lambda>n m. any_from_json_entries (any_from_json n) m acc s)
    (Inr (Any_object (acc @ map (\<lambda>(k, e). (k, any_of_json e)) ms), s'))"
  using assms
proof (induction ms arbitrary: acc s)
  case Nil
  then obtain sp where sp: "peek_token s = Inr sp" "js_token sp = Tok_end_object" "get_end_object sp = Inr s'"
    using feeds_end_object [of s s'] by auto
  then show ?case
    by (intro settled2_Suc [of "\<lambda>n m. any_from_json_entries (any_from_json n) m acc s"]) simp
next
  case (Cons p ms)
  obtain k e where p: "p = (k, e)" by (cases p)
  have "feeds s (Tok_key k # json_tokens e @ concat (map (\<lambda>(k, j). Tok_key k # json_tokens j) ms) @ [Tok_end_object]) s'"
    using Cons.prems(2) p by simp
  then obtain sp s1 where sp: "peek_token s = Inr sp" "js_token sp \<noteq> Tok_end_object" "get_key sp = Inr (k, s1)"
    "feeds s1 (json_tokens e @ concat (map (\<lambda>(k, j). Tok_key k # json_tokens j) ms) @ [Tok_end_object]) s'"
    using feeds_key by blast
  obtain s2 where s2: "feeds s1 (json_tokens e) s2"
    "feeds s2 (concat (map (\<lambda>(k, j). Tok_key k # json_tokens j) ms) @ [Tok_end_object]) s'"
    using sp(4) unfolding feeds_append by blast
  have step: "any_from_json_entries (any_from_json n) (Suc m) acc s =
      fbind (any_from_json n s1) (\<lambda>(v, s). any_from_json_entries (any_from_json n) m (acc @ [(k, v)]) s)" for n m
    using sp by simp
  have v: "settled (\<lambda>n. any_from_json n s1) (Inr (any_of_json e, s2))"
    using Cons.prems(1) s2(1) p by (metis list.set_intros(1))
  have "settled2 (\<lambda>n m. any_from_json_entries (any_from_json n) m (acc @ [(k, any_of_json e)]) s2)
      (Inr (Any_object ((acc @ [(k, any_of_json e)]) @ map (\<lambda>(k, e). (k, any_of_json e)) ms), s'))"
    by (rule Cons.IH [OF _ s2(2)]) (use Cons.prems(1) in \<open>metis list.set_intros(2)\<close>)
  then show ?case
    by (intro settled2_Suc [of "\<lambda>n m. any_from_json_entries (any_from_json n) m acc s"], unfold step,
        intro settled2_bind(1) [OF v]) (simp add: p)
qed

lemma any_all_read:
  "feeds s (json_tokens j) s' \<Longrightarrow> settled (\<lambda>n. any_from_json n s) (Inr (any_of_json j, s'))"
proof (induction j arbitrary: s s')
  case (J_array es)
  obtain sp where sp: "peek_token s = Inr sp" "js_token sp = Tok_start_array" "get_start_array sp = Inr (eat_token sp)"
    "feeds (eat_token sp) (concat (map json_tokens es) @ [Tok_end_array]) s'"
    using any_from_json_step [of s Tok_start_array] J_array.prems by force
  from settled2_diag [OF any_elements_ok [OF J_array.IH sp(4), of "[]"]] show ?case
    by (intro settled_Suc [of "\<lambda>n. any_from_json n s"]) (simp add: sp)
next
  case (J_object ms)
  obtain sp where sp: "peek_token s = Inr sp" "js_token sp = Tok_start_object" "get_start_object sp = Inr (eat_token sp)"
    "feeds (eat_token sp) (concat (map (\<lambda>(k, j). Tok_key k # json_tokens j) ms) @ [Tok_end_object]) s'"
    using any_from_json_step [of s Tok_start_object] J_object.prems by force
  have IH: "settled (\<lambda>n. any_from_json n s) (Inr (any_of_json e, s'))" if "(k, e) \<in> set ms" "feeds s (json_tokens e) s'" for k e s s'
    using J_object.IH [OF that(1) _ that(2)] by simp
  from settled2_diag [OF any_entries_ok [OF IH sp(4), where acc = "[]"]] show ?case
    by (intro settled_Suc [of "\<lambda>n. any_from_json n s"]) (simp add: sp)
qed (rule settled_Suc, use any_from_json_step in \<open>fastforce simp: feeds.simps\<close>)+

section \<open>Reading ends\<close>

text \<open>No case reads nothing, so the reader ends on every text, like the readers of types without tuples.\<close>

definition any_returns :: "nat \<Rightarrow> any_reader \<Rightarrow> bool" where
  "any_returns n rd \<longleftrightarrow>
     (\<forall>s. stream_ok s \<longrightarrow> stream_measure s < n \<longrightarrow> returns (stream_measure s) (\<lambda>s x. True) (rd s) snd)"

lemma any_elements_return:
  "any_returns n rd \<Longrightarrow> stream_ok s \<Longrightarrow> stream_measure s < n \<Longrightarrow> stream_measure s < m \<Longrightarrow>
   returns (stream_measure s + 1) (\<lambda>s x. True) (any_from_json_elements rd m acc s) snd"
proof (induction m arbitrary: acc s)
  case (Suc m)
  show ?case
  proof (cases "peek_token s")
    case (Inr s1)
    note pk = peek_ok [OF Suc.prems(2) Inr]
    show ?thesis
    proof (cases "js_token s1 = Tok_end_array")
      case True
      then show ?thesis
        using pk get_ok(4) [OF pk(1)] by (cases "get_end_array s1") (auto simp: Inr returns_def)
    next
      case False
      have rd: "returns (stream_measure s1) (\<lambda>s x. True) (rd s1) snd"
        using Suc.prems pk unfolding any_returns_def by auto
      have IH: "returns (stream_measure s + 1) (\<lambda>s x. True) (any_from_json_elements rd m acc s') snd"
        if "stream_ok s'" "stream_measure s' < stream_measure s1" for acc s'
        by (rule returns_mono [OF Suc.IH [OF Suc.prems(1) that(1)]]) (use Suc.prems(3,4) pk(2) that(2) in auto)
      show ?thesis
        using False by (simp add: Inr) (rule returns_bind [OF rd], use IH in \<open>auto split: prod.split\<close>)
    qed
  qed simp
qed simp

lemma any_entries_return:
  "any_returns n rd \<Longrightarrow> stream_ok s \<Longrightarrow> stream_measure s < n \<Longrightarrow> stream_measure s < m \<Longrightarrow>
   returns (stream_measure s + 1) (\<lambda>s x. True) (any_from_json_entries rd m acc s) snd"
proof (induction m arbitrary: acc s)
  case (Suc m)
  show ?case
  proof (cases "peek_token s")
    case (Inr s1)
    note pk = peek_ok [OF Suc.prems(2) Inr]
    show ?thesis
    proof (cases "js_token s1 = Tok_end_object")
      case True
      then show ?thesis
        using pk get_ok(6) [OF pk(1)] by (cases "get_end_object s1") (auto simp: Inr returns_def)
    next
      case False
      show ?thesis
      proof (cases "get_key s1")
        case (Inl e)
        then show ?thesis using False by (simp add: Inr)
      next
        case key: (Inr ks)
        obtain k s2 where ks: "ks = (k, s2)" by (cases ks)
        have s2: "stream_ok s2" "stream_measure s2 < stream_measure s"
          using get_ok(7) [OF pk(1) key [unfolded ks]] pk(2) by auto
        have rd: "returns (stream_measure s2) (\<lambda>s x. True) (rd s2) snd"
          using Suc.prems s2 unfolding any_returns_def by auto
        have IH: "returns (stream_measure s + 1) (\<lambda>s x. True) (any_from_json_entries rd m acc s') snd"
          if "stream_ok s'" "stream_measure s' < stream_measure s2" for acc s'
          by (rule returns_mono [OF Suc.IH [OF Suc.prems(1) that(1)]]) (use Suc.prems(3,4) s2(2) that(2) in auto)
        show ?thesis
          using False by (simp add: Inr key ks) (rule returns_bind [OF rd], use IH in \<open>auto split: prod.split\<close>)
      qed
    qed
  qed simp
qed simp

lemma any_from_json_returns: "any_returns n (any_from_json n)"
proof (induction n)
  case 0
  show ?case by (simp add: any_returns_def)
next
  case (Suc n)
  show ?case
    unfolding any_returns_def
  proof (intro allI impI)
    fix s
    assume a: "stream_ok s" "stream_measure s < Suc n"
    show "returns (stream_measure s) (\<lambda>s x. True) (any_from_json (Suc n) s) snd"
    proof (cases "peek_token s")
      case (Inr sp)
      note pk = peek_ok [OF a(1) Inr]
      have eat: "returns (stream_measure s) (\<lambda>s x. True) (Some (Inr (v, eat_token sp))) snd" if "js_token sp \<noteq> Tok_unread" for v :: any
        using pk that by (simp add: returns_def)
      show ?thesis
      proof (cases "js_token sp")
        case Tok_start_array
        show ?thesis
        proof (cases "get_start_array sp")
          case r: (Inr s1)
          have "returns (stream_measure s1 + 1) (\<lambda>s x. True) (any_from_json_elements (any_from_json n) n [] s1) snd"
            by (rule any_elements_return [OF Suc.IH]) (use a pk(2) get_ok(3) [OF pk(1) r] in auto)
          then show ?thesis
            using pk(2) get_ok(3) [OF pk(1) r] by (auto simp: Inr Tok_start_array r elim!: returns_mono)
        qed (simp add: Inr Tok_start_array)
      next
        case Tok_start_object
        show ?thesis
        proof (cases "get_start_object sp")
          case r: (Inr s1)
          have "returns (stream_measure s1 + 1) (\<lambda>s x. True) (any_from_json_entries (any_from_json n) n [] s1) snd"
            by (rule any_entries_return [OF Suc.IH]) (use a pk(2) get_ok(5) [OF pk(1) r] in auto)
          then show ?thesis
            using pk(2) get_ok(5) [OF pk(1) r] by (auto simp: Inr Tok_start_object r elim!: returns_mono)
        qed (simp add: Inr Tok_start_object)
      qed (use eat in \<open>auto simp: Inr\<close>)
    qed simp
  qed
qed


section \<open>Properties\<close>

lemma any_get_first:
  "any_get (any_of_json (J_object ms)) k =
     (case map_of ms k of Some e \<Rightarrow> any_of_json e | None \<Rightarrow> Any_error ''not an object'')"
  by (induction ms) (auto simp: any_get_def split: option.splits)

text \<open>What is read back: the same value with its numbers as strings and its errors as objects.\<close>

fun as_read :: "any \<Rightarrow> any" where
  "as_read (Any_string s) = Any_string (sanitize s)"
| "as_read (Any_int32 i) = Any_string (int_chars i)"
| "as_read (Any_int64 i) = Any_string (int_chars i)"
| "as_read (Any_object es) = Any_object (map (\<lambda>(k, v). (sanitize k, as_read v)) es)"
| "as_read (Any_array vs) = Any_array (map as_read vs)"
| "as_read (Any_error e) = Any_object [(''what'', Any_string (sanitize e))]"
| "as_read a = a"

lemma any_of_json_of_any: "any_of_json (json_of_any a) = as_read a"
  by (induction a) auto

text \<open>Values made of texts alone, all valid UTF-8, are read back as they are.\<close>

fun textual :: "any \<Rightarrow> bool" where
  "textual (Any_string s) \<longleftrightarrow> utf8_valid s"
| "textual (Any_int32 i) \<longleftrightarrow> False"
| "textual (Any_int64 i) \<longleftrightarrow> False"
| "textual (Any_object es) \<longleftrightarrow> (\<forall>(k, v) \<in> set es. utf8_valid k \<and> textual v)"
| "textual (Any_array vs) \<longleftrightarrow> (\<forall>v \<in> set vs. textual v)"
| "textual (Any_error e) \<longleftrightarrow> False"
| "textual a \<longleftrightarrow> True"

lemma as_read_textual: "textual a \<Longrightarrow> as_read a = a"
proof (induction a)
  case (Any_object es)
  have "(sanitize k, as_read v) = (k, v)" if "(k, v) \<in> set es" for k v
    using Any_object that by (auto simp: sanitize_valid)
  then have "map (\<lambda>(k, v). (sanitize k, as_read v)) es = es"
    by (intro map_idI) auto
  then show ?case by simp
next
  case (Any_array vs)
  then show ?case by (simp add: map_idI)
qed (auto simp: sanitize_valid)

lemma textual_ints: "textual a \<Longrightarrow> any_ints_ok a"
  by (induction a) auto

lemma any_text_settled:
  assumes "renders j t" "ws w" "ws r"
  shows "settled (\<lambda>n. any_from_json_text n (w @ t @ r)) (Inr (any_of_json j))"
  unfolding any_from_json_text_def
  by (rule settled_bind(1) [OF any_all_read [OF document_feeds [OF assms]]]) simp

lemma any_written:
  assumes "any_ints_ok a"
  shows "\<exists>t. any_convert_to_json a = Inr (bytes_of t) \<and> renders (json_of_any a) t"
    "\<exists>t. any_format_json a = Inr (bytes_of t) \<and> renders (json_of_any a) t"
  using any_to_json_writes(1) [of plain_out a] any_to_json_writes(1) [of pretty_out a] assms
  by (auto simp: writes_value_def layout_ok_def plain_out_def pretty_out_def any_convert_to_json_def any_format_json_def
      two_pass_concat bytes_of_concat jo_text_def)

text \<open>
  C25 (roundtrip): a dynamic value, written with to_json or with format_json, reads back as the same value
  but for its numbers, which come back as strings, and its errors, which come back as objects with the
  member what; a value of valid texts alone reads back unchanged.
\<close>

theorem json_any_roundtrip:
  assumes "any_ints_ok a"
  shows "\<exists>plain pretty N. any_convert_to_json a = Inr (bytes_of plain) \<and> any_format_json a = Inr (bytes_of pretty) \<and>
    (\<forall>n\<ge>N. any_from_json_text n plain = Some (Inr (as_read a)) \<and> any_from_json_text n pretty = Some (Inr (as_read a))) \<and>
    (textual a \<longrightarrow> as_read a = a)"
proof -
  obtain p q where p: "any_convert_to_json a = Inr (bytes_of p)" "renders (json_of_any a) p"
    and q: "any_format_json a = Inr (bytes_of q)" "renders (json_of_any a) q"
    using any_written [OF assms] by blast
  obtain N M where "\<forall>n\<ge>N. any_from_json_text n p = Some (Inr (as_read a))" "\<forall>n\<ge>M. any_from_json_text n q = Some (Inr (as_read a))"
    using any_text_settled [OF p(2) ws_Nil ws_Nil] any_text_settled [OF q(2) ws_Nil ws_Nil]
    by (auto simp: settled_def any_of_json_of_any)
  then have "\<forall>n\<ge>max N M. any_from_json_text n p = Some (Inr (as_read a)) \<and> any_from_json_text n q = Some (Inr (as_read a))"
    by simp
  with p(1) q(1) as_read_textual show ?thesis by blast
qed

theorem json_any_roundtrip_witness:
  "\<exists>plain pretty N. any_convert_to_json (Any_object [(''k'', Any_array [Any_int32 (- 5), Any_null])]) = Inr (bytes_of plain) \<and>
    any_format_json (Any_object [(''k'', Any_array [Any_int32 (- 5), Any_null])]) = Inr (bytes_of pretty) \<and>
    (\<forall>n\<ge>N. any_from_json_text n plain = Some (Inr (as_read (Any_object [(''k'', Any_array [Any_int32 (- 5), Any_null])]))) \<and>
       any_from_json_text n pretty = Some (Inr (as_read (Any_object [(''k'', Any_array [Any_int32 (- 5), Any_null])])))) \<and>
    (textual (Any_object [(''k'', Any_array [Any_int32 (- 5), Any_null])]) \<longrightarrow>
       as_read (Any_object [(''k'', Any_array [Any_int32 (- 5), Any_null])]) = Any_object [(''k'', Any_array [Any_int32 (- 5), Any_null])])"
  by (rule json_any_roundtrip) (simp add: int_min_def int_max_def)

text \<open>
  The dynamic reader ends on every text, well formed or not, with a value or an error, and on
  every rendering of a document with the value of the document.
\<close>

theorem json_any_reads:
  assumes "length json < 2 ^ 64" "2 * length json < n"
  shows "\<exists>r. any_from_json_text n json = Some r \<and>
    (\<forall>j. renders j json \<longrightarrow> (\<exists>N. \<forall>m\<ge>N. any_from_json_text m json = Some (Inr (any_of_json j))))"
proof -
  have "stream_ok (json_token_stream_new json)" "stream_measure (json_token_stream_new json) < n"
    using assms by (simp_all add: stream_ok_def json_token_stream_new_def reader_inv_def stream_measure_def)
  then have "returns (stream_measure (json_token_stream_new json)) (\<lambda>s x. True)
      (any_from_json n (json_token_stream_new json)) snd"
    using any_from_json_returns [of n] unfolding any_returns_def by blast
  then have "\<exists>r. any_from_json_text n json = Some r"
    by (auto simp: returns_def any_from_json_text_def fbind_def split: option.splits sum.splits)
  moreover have "\<exists>N. \<forall>m\<ge>N. any_from_json_text m json = Some (Inr (any_of_json j))" if "renders j json" for j
    using any_text_settled [OF that ws_Nil ws_Nil] by (simp add: settled_def)
  ultimately show ?thesis by blast
qed

theorem json_any_reads_witness:
  "\<exists>r. any_from_json_text 11 ''[nul['' = Some r \<and>
    (\<forall>j. renders j ''[nul['' \<longrightarrow> (\<exists>N. \<forall>m\<ge>N. any_from_json_text m ''[nul['' = Some (Inr (any_of_json j))))"
  by (rule json_any_reads) simp_all

end
