(* ===== verification/Clio_Varint.thy ===== *)
theory Clio_Varint
  imports Clio_Stream
begin

text \<open>
  The variable-length integers of clio: the loops \<^verbatim>\<open>varuint32_to_bin\<close> (to_bin.hpp) and
  \<^verbatim>\<open>varuint32_from_bin\<close>, \<^verbatim>\<open>varuint64_from_bin\<close>, \<^verbatim>\<open>varint32_from_bin\<close>
  (from_bin.hpp), the wrapper types \<^verbatim>\<open>unsigned_int\<close> and \<^verbatim>\<open>signed_int\<close> of varint.hpp
  with their comparison operators, and the zig-zag mapping of to_bin/varint.hpp.

  Readers are written against the read operation of the stream (the template parameter) and are
  shown to respect the \<^verbatim>\<open>byte_source\<close> contract; the value theorems are then stated on byte
  lists.
\<close>

section \<open>The wrapper types\<close>

datatype unsigned_int = Unsigned_int (ui_value: u32)

datatype signed_int = Signed_int (si_value: u32) \<comment> \<open>two's complement image of an int32_t\<close>

text \<open>
  Both structs overload the comparison operators; they become the instances of the library's
  order classes. An \<^verbatim>\<open>int32_t\<close> is compared by its signed reading.
\<close>

definition unsigned_int_ge :: "unsigned_int \<Rightarrow> unsigned_int \<Rightarrow> bool" where
  "unsigned_int_ge v i \<longleftrightarrow> ui_value v \<ge> ui_value i"

definition unsigned_int_lt :: "unsigned_int \<Rightarrow> unsigned_int \<Rightarrow> bool" where
  "unsigned_int_lt i v \<longleftrightarrow> ui_value i < ui_value v"

instantiation unsigned_int :: linorder
begin

definition less_eq_unsigned_int :: "unsigned_int \<Rightarrow> unsigned_int \<Rightarrow> bool" where
  "less_eq_unsigned_int i v \<longleftrightarrow> unsigned_int_ge v i"

definition less_unsigned_int :: "unsigned_int \<Rightarrow> unsigned_int \<Rightarrow> bool" where
  "less_unsigned_int i v \<longleftrightarrow> unsigned_int_lt i v"

instance
  by standard
    (auto simp: less_eq_unsigned_int_def less_unsigned_int_def unsigned_int_ge_def unsigned_int_lt_def unsigned_int.expand)

end

lemma sint_si_value_inject: "sint (si_value x) = sint (si_value y) \<longleftrightarrow> x = y"
  by (cases x; cases y) (simp add: word_eq_iff_signed [where 'a = int])

definition signed_int_ge :: "signed_int \<Rightarrow> signed_int \<Rightarrow> bool" where
  "signed_int_ge v i \<longleftrightarrow> sint (si_value v) \<ge> sint (si_value i)"

definition signed_int_lt :: "signed_int \<Rightarrow> signed_int \<Rightarrow> bool" where
  "signed_int_lt i v \<longleftrightarrow> sint (si_value i) < sint (si_value v)"

instantiation signed_int :: linorder
begin

definition less_eq_signed_int :: "signed_int \<Rightarrow> signed_int \<Rightarrow> bool" where
  "less_eq_signed_int i v \<longleftrightarrow> signed_int_ge v i"

definition less_signed_int :: "signed_int \<Rightarrow> signed_int \<Rightarrow> bool" where
  "less_signed_int i v \<longleftrightarrow> signed_int_lt i v"

instance
  by standard
    (auto simp: less_eq_signed_int_def less_signed_int_def signed_int_ge_def signed_int_lt_def sint_si_value_inject)

end

section \<open>Writing\<close>

lemma drop_bit_7_less: "drop_bit 7 (v :: u64) \<noteq> 0 \<Longrightarrow> unat (drop_bit 7 v) < unat v"
proof -
  assume "drop_bit 7 v \<noteq> 0"
  then have "v \<noteq> 0"
    by auto
  then have "0 < unat v"
    by (simp add: unat_gt_0)
  then show ?thesis
    by (simp add: unat_drop_bit_div)
qed

text \<open>
  The do-while loop: seven bits per byte, the high bit set while bits remain. Every byte is one
  \<^verbatim>\<open>stream.write\<close> call.
\<close>

function varuint_loop :: "u64 \<Rightarrow> writes" where
  "varuint_loop val =
     (let b = ucast (val AND 0x7f) :: byte;
          val' = drop_bit 7 val;
          b' = b OR push_bit 7 (of_bool (val' > 0))
      in [b'] # (if val' \<noteq> 0 then varuint_loop val' else []))"
  by pat_completeness auto

termination
  by (relation "measure unat") (auto intro: drop_bit_7_less)

declare varuint_loop.simps [simp del]

definition varuint32_to_bin :: "u64 \<Rightarrow> writes" where
  "varuint32_to_bin val = (if drop_bit 32 val \<noteq> 0 then [] else varuint_loop val)"

definition push_varuint32 :: "byte list \<Rightarrow> u32 \<Rightarrow> byte list result" where
  "push_varuint32 bin v = run_writes vector_stream_write (varuint32_to_bin (ucast v)) bin"

text \<open>\<^verbatim>\<open>to_bin(const varuint32&)\<close> and \<^verbatim>\<open>to_bin(const varint32&)\<close>; the arithmetic
  shift of the signed value gives all ones or all zeros.\<close>

definition varuint32_obj_to_bin :: "unsigned_int \<Rightarrow> writes" where
  "varuint32_obj_to_bin obj = varuint32_to_bin (ucast (ui_value obj))"

definition zigzag :: "u32 \<Rightarrow> u32" where
  "zigzag v = push_bit 1 v XOR signed_drop_bit 31 v"

definition varint32_obj_to_bin :: "signed_int \<Rightarrow> writes" where
  "varint32_obj_to_bin obj = varuint32_to_bin (ucast (zigzag (si_value obj)))"

section \<open>Reading\<close>

text \<open>
  The loops stop with an error once the shift reaches 35 (70 for the 64-bit reader), so at most
  five (ten) bytes are consumed. Bits shifted past the width of \<^verbatim>\<open>dest\<close> are dropped.
\<close>

function varuint_read_loop ::
  "(nat \<Rightarrow> 's \<Rightarrow> (byte list \<times> 's) result) \<Rightarrow> nat \<Rightarrow> nat \<Rightarrow> 'a::len word \<Rightarrow> 's \<Rightarrow> ('a word \<times> 's) result"
where
  "varuint_read_loop rd limit shift dest s =
     (if shift \<ge> limit then Inl (Stream_Error invalid_varuint_encoding)
      else rbind (rd 1 s) (\<lambda>(bs, s).
        let b = hd bs;
            dest = dest OR push_bit shift (ucast (b AND 0x7f))
        in if b AND 0x80 \<noteq> 0 then varuint_read_loop rd limit (shift + 7) dest s
           else Inr (dest, s)))"
  by pat_completeness auto
termination
  by (relation "measure (\<lambda>(rd, limit, shift, dest, s). limit - shift)") auto

declare varuint_read_loop.simps [simp del]

definition varuint32_from_bin ::
  "(nat \<Rightarrow> 's \<Rightarrow> (byte list \<times> 's) result) \<Rightarrow> 's \<Rightarrow> (u32 \<times> 's) result" where
  "varuint32_from_bin rd s = varuint_read_loop rd 35 0 0 s"

definition varuint64_from_bin ::
  "(nat \<Rightarrow> 's \<Rightarrow> (byte list \<times> 's) result) \<Rightarrow> 's \<Rightarrow> (u64 \<times> 's) result" where
  "varuint64_from_bin rd s = varuint_read_loop rd 70 0 0 s"

definition unzigzag :: "u32 \<Rightarrow> u32" where
  "unzigzag v = (if v AND 1 \<noteq> 0 then drop_bit 1 (NOT v) OR 0x80000000 else drop_bit 1 v)"

definition varint32_from_bin ::
  "(nat \<Rightarrow> 's \<Rightarrow> (byte list \<times> 's) result) \<Rightarrow> 's \<Rightarrow> (u32 \<times> 's) result" where
  "varint32_from_bin rd s = rbind (varuint32_from_bin rd s) (\<lambda>(v, s). Inr (unzigzag v, s))"

definition varuint32_obj_from_bin ::
  "(nat \<Rightarrow> 's \<Rightarrow> (byte list \<times> 's) result) \<Rightarrow> 's \<Rightarrow> (unsigned_int \<times> 's) result" where
  "varuint32_obj_from_bin rd s =
     rbind (varuint32_from_bin rd s) (\<lambda>(v, s). Inr (Unsigned_int v, s))"

definition varint32_obj_from_bin ::
  "(nat \<Rightarrow> 's \<Rightarrow> (byte list \<times> 's) result) \<Rightarrow> 's \<Rightarrow> (signed_int \<times> 's) result" where
  "varint32_obj_from_bin rd s = rbind (varint32_from_bin rd s) (\<lambda>(v, s). Inr (Signed_int v, s))"

subsection \<open>Readers respect the stream contract\<close>

context byte_source
begin

lemma varuint_read_loop_sim:
  "iv s \<Longrightarrow> sim_res view iv (varuint_read_loop rd limit shift dest s)
     (varuint_read_loop source_read limit shift dest (view s))"
proof (induction "limit - shift" arbitrary: shift dest s rule: less_induct)
  case less
  show ?case
  proof (cases "limit \<le> shift")
    case True
    then show ?thesis
      by (simp add: varuint_read_loop.simps [of _ limit shift])
  next
    case False
    with less show ?thesis
      by (subst (1 2) varuint_read_loop.simps)
         (auto intro!: sim_res_bind [OF rd_sim] simp: Let_def)
  qed
qed

lemma varuint32_from_bin_sim:
  "iv s \<Longrightarrow> sim_res view iv (varuint32_from_bin rd s) (varuint32_from_bin source_read (view s))"
  by (simp add: varuint32_from_bin_def varuint_read_loop_sim)

lemma varuint64_from_bin_sim:
  "iv s \<Longrightarrow> sim_res view iv (varuint64_from_bin rd s) (varuint64_from_bin source_read (view s))"
  by (simp add: varuint64_from_bin_def varuint_read_loop_sim)

lemma varint32_from_bin_sim:
  "iv s \<Longrightarrow> sim_res view iv (varint32_from_bin rd s) (varint32_from_bin source_read (view s))"
  by (auto simp: varint32_from_bin_def intro!: sim_res_bind varuint32_from_bin_sim)

end

section \<open>What the reader computes\<close>

text \<open>
  \<^verbatim>\<open>varuint_spec\<close> reads the encoding at once: the bytes up to the first without continuation
  bit are seven-bit groups, least significant first. More than \<^verbatim>\<open>n\<close> groups are refused,
  missing bytes are an overrun, and the value is taken modulo the width of the result.
\<close>

definition is_cont :: "byte \<Rightarrow> bool" where
  "is_cont b \<longleftrightarrow> b AND 0x80 \<noteq> 0"

fun groups :: "byte list \<Rightarrow> nat" where
  "groups [] = 0"
| "groups (b # bs) = unat b mod 128 + 128 * groups bs"

definition varuint_spec :: "nat \<Rightarrow> byte list \<Rightarrow> ('a::len word \<times> byte list) result" where
  "varuint_spec n bs =
     (let k = length (takeWhile is_cont bs) in
      if k \<ge> n then Inl (Stream_Error invalid_varuint_encoding)
      else if k \<ge> length bs then Inl (Stream_Error overrun)
      else Inr (word_of_nat (groups (take (Suc k) bs)), drop (Suc k) bs))"

lemma or_push_7:
  "ucast (b AND 0x7f :: byte) OR push_bit 7 g = (ucast (b AND 0x7f) + 128 * g :: 'a::len word)"
proof -
  have "ucast (b AND 0x7f) OR push_bit 7 g = (ucast (b AND 0x7f) + push_bit 7 g :: 'a word)"
  proof (rule disjunctive_add [symmetric])
    fix n
    show "\<not> bit (ucast (b AND 0x7f) :: 'a word) n \<or> \<not> bit (push_bit 7 g) n"
    proof (cases "n < 7")
      case True
      then show ?thesis by (simp add: bit_push_bit_iff)
    next
      case False
      then have "\<not> bit (b AND 0x7f) n"
        by (simp add: and_mask_eq(1) bit_take_bit_iff)
      then show ?thesis by (simp only: bit_unsigned_iff simp_thms)
    qed
  qed
  then show ?thesis by (simp add: push_bit_eq_mult mult.commute)
qed

lemma of_nat_groups_Cons:
  "push_bit shift (word_of_nat (groups (b # bs)) :: 'a::len word) =
   push_bit shift (ucast (b AND 0x7f)) OR push_bit (shift + 7) (word_of_nat (groups bs))"
proof -
  have "(word_of_nat (unat b mod 128) :: 'a word) = ucast (b AND 0x7f)"
  proof -
    have "unat b mod 128 = unat (b AND 0x7f)"
      unfolding and_mask_eq(1) unat_take_bit_mod by simp
    then show ?thesis by (simp only: of_nat_unat)
  qed
  then have "(word_of_nat (groups (b # bs)) :: 'a word)
      = ucast (b AND 0x7f) OR push_bit 7 (word_of_nat (groups bs))"
    by (simp add: or_push_7)
  then show ?thesis
    by (simp add: push_bit_or push_bit_push_bit add.commute)
qed

lemma varuint_read_loop_spec:
  assumes "limit = shift + 7 * n"
  shows "varuint_read_loop source_read limit shift dest bs =
    rbind (varuint_spec n bs) (\<lambda>(v :: 'a::len word, rest). Inr (dest OR push_bit shift v, rest))"
  using assms
proof (induction n arbitrary: shift dest bs)
  case 0
  then show ?case
    by (subst varuint_read_loop.simps) (simp add: varuint_spec_def)
next
  case (Suc n)
  then have lt: "\<not> limit \<le> shift" and lim: "limit = shift + 7 + 7 * n" by simp_all
  show ?case
  proof (cases bs)
    case Nil
    with lt show ?thesis
      by (subst varuint_read_loop.simps) (simp add: varuint_spec_def source_read_def)
  next
    case (Cons b bs')
    show ?thesis
    proof (cases "is_cont b")
      case True
      then have "varuint_read_loop source_read limit shift dest bs
         = varuint_read_loop source_read limit (shift + 7) (dest OR push_bit shift (ucast (b AND 0x7f))) bs'"
        using lt Cons by (subst varuint_read_loop.simps) (simp add: is_cont_def)
      then show ?thesis
        using True Cons Suc.IH [OF lim]
        by (simp add: varuint_spec_def Let_def of_nat_groups_Cons or.assoc del: groups.simps)
    next
      case False
      then show ?thesis
        using lt Cons of_nat_groups_Cons [of shift b "[]", where 'a = 'a]
        by (subst varuint_read_loop.simps)
           (simp add: is_cont_def varuint_spec_def del: groups.simps(2))
    qed
  qed
qed

lemma varuint32_from_bin_spec: "varuint32_from_bin source_read bs = varuint_spec 5 bs"
  by (simp add: varuint32_from_bin_def varuint_read_loop_spec [where n = 5] rbind_def
      split: sum.splits)

lemma varuint64_from_bin_spec: "varuint64_from_bin source_read bs = varuint_spec 10 bs"
  by (simp add: varuint64_from_bin_def varuint_read_loop_spec [where n = 10] rbind_def
      split: sum.splits)

section \<open>Reading back what was written\<close>

lemma low_bits_loop:
  fixes v :: u64 and c :: bool
  defines "b \<equiv> ucast (v AND 0x7f) OR push_bit 7 (of_bool c) :: byte"
  shows "b AND 0x7f = ucast (take_bit 7 v)" and "b AND 0x80 \<noteq> 0 \<longleftrightarrow> c"
proof -
  show "b AND 0x7f = ucast (take_bit 7 v)"
    unfolding b_def and_mask_eq
    by (rule bit_eqI) (auto simp: bit_simps)
  show "b AND 0x80 \<noteq> 0 \<longleftrightarrow> c"
    unfolding b_def and_mask_eq and_bit_iff
    by (simp add: bit_simps)
qed

lemma push_ucast_split:
  fixes v :: u64
  shows "push_bit s (ucast (ucast (take_bit 7 v) :: byte)) OR push_bit (s + 7) (ucast (drop_bit 7 v) :: 'a word)
    = (push_bit s (ucast v) :: 'a::len word)"
proof (rule bit_word_eqI)
  fix n assume n: "n < LENGTH('a)"
  consider "n < s" | "s \<le> n" "n < s + 7" | "s + 7 \<le> n" by linarith
  then show "bit (push_bit s (ucast (ucast (take_bit 7 v) :: byte))
      OR push_bit (s + 7) (ucast (drop_bit 7 v) :: 'a word)) n = bit (push_bit s (ucast v) :: 'a word) n"
    by cases (use n in \<open>auto simp: bit_simps\<close>)
qed

lemma drop_bit_word_eq_0_iff: "drop_bit n (v :: 'a::len word) = 0 \<longleftrightarrow> unat v < 2 ^ n"
  by (simp add: unat_eq_0 [symmetric] unat_drop_bit_div div_eq_0_iff)

lemma varuint_read_loop_write:
  fixes dest :: "'a::len word"
  assumes "shift < limit" and "unat v < 2 ^ (limit - shift)"
  shows "varuint_read_loop source_read limit shift dest (concat (varuint_loop v) @ rest)
    = Inr (dest OR push_bit shift (ucast v), rest)"
  using assms
proof (induction v arbitrary: shift dest rule: varuint_loop.induct)
  case (1 v)
  let ?v' = "drop_bit 7 v"
  obtain b :: byte where b: "b AND 0x7f = ucast (take_bit 7 v)" "b AND 0x80 \<noteq> 0 \<longleftrightarrow> ?v' \<noteq> 0"
    and w: "concat (varuint_loop v) = b # (if ?v' \<noteq> 0 then concat (varuint_loop ?v') else [])"
  proof
    let ?b = "ucast (v AND 0x7f) OR push_bit 7 (of_bool (?v' > 0)) :: byte"
    show "?b AND 0x7f = ucast (take_bit 7 v)" and "?b AND 0x80 \<noteq> 0 \<longleftrightarrow> ?v' \<noteq> 0"
      by (simp_all only: low_bits_loop word_gt_0_iff)
    show "concat (varuint_loop v) = ?b # (if ?v' \<noteq> 0 then concat (varuint_loop ?v') else [])"
      by (subst varuint_loop.simps) (simp add: Let_def)
  qed
  show ?case
  proof (cases "?v' = 0")
    case True
    have "push_bit shift (ucast (ucast (take_bit 7 v) :: byte)) = (push_bit shift (ucast v) :: 'a word)"
      using push_ucast_split [of shift v, where 'a = 'a] True by simp
    with True "1.prems" b show ?thesis
      by (subst varuint_read_loop.simps) (simp add: w Let_def)
  next
    case False
    then have "2 ^ 7 \<le> unat v"
      using drop_bit_word_eq_0_iff [of 7 v] by simp
    with "1.prems" have "(2::nat) ^ 7 < 2 ^ (limit - shift)"
      by linarith
    then have lt: "shift + 7 < limit"
      by (simp add: power_strict_increasing_iff del: power_numeral)
    have "(2::nat) ^ (limit - shift) = 2 ^ 7 * 2 ^ (limit - (shift + 7))"
      using lt by (simp add: power_add [symmetric] del: power_numeral)
    then have "unat ?v' < 2 ^ (limit - (shift + 7))"
      using "1.prems" by (simp add: unat_drop_bit_div less_mult_imp_div_less mult.commute)
    with "1.IH" [of _ ?v'] False lt
    have "varuint_read_loop source_read limit (shift + 7) d (concat (varuint_loop ?v') @ rest)
        = Inr (d OR push_bit (shift + 7) (ucast ?v'), rest)" for d :: "'a word"
      by simp
    with False lt b show ?thesis
      by (subst varuint_read_loop.simps)
         (simp add: w Let_def push_ucast_split [symmetric, of shift v] or.assoc)
  qed
qed

lemma length_varuint_loop: "unat v < 2 ^ (7 * Suc n) \<Longrightarrow> length (concat (varuint_loop v)) \<le> Suc n"
proof (induction n arbitrary: v)
  case 0
  then have "drop_bit 7 v = 0" by (simp add: drop_bit_word_eq_0_iff)
  then show ?case by (subst varuint_loop.simps) (simp add: Let_def)
next
  case (Suc n)
  have "unat (drop_bit 7 v) < 2 ^ (7 * Suc n)"
    using Suc.prems by (simp add: unat_drop_bit_div power_add less_mult_imp_div_less mult.commute)
  from Suc.IH [OF this] show ?case
    by (subst varuint_loop.simps) (simp add: Let_def)
qed

lemma ucast_u32_less: "unat (ucast (v :: u32) :: u64) < 2 ^ 32"
proof -
  have "unat (ucast v :: u64) \<le> unat v"
    by (simp add: unsigned_ucast_eq)
  also have "\<dots> < 2 ^ LENGTH(32)"
    by (rule unsigned_less)
  finally show ?thesis by simp
qed

lemma varuint32_to_bin_ucast: "varuint32_to_bin (ucast (v :: u32)) = varuint_loop (ucast v)"
  using ucast_u32_less [of v] by (simp add: varuint32_to_bin_def drop_bit_word_eq_0_iff)

lemma varuint32_read_write:
  "varuint32_from_bin source_read (concat (varuint32_to_bin (ucast (v :: u32))) @ rest) = Inr (v, rest)"
proof -
  have "unat (ucast v :: u64) < 2 ^ (35 - 0)"
    using ucast_u32_less [of v] by simp
  then show ?thesis
    unfolding varuint32_from_bin_def varuint32_to_bin_ucast
    by (subst varuint_read_loop_write) (simp_all add: ucast_up_ucast_id is_up)
qed

lemma length_varuint32_to_bin:
  "length (concat (varuint32_to_bin (ucast (v :: u32)))) \<in> {1..5}"
proof -
  have "unat (ucast v :: u64) < 2 ^ (7 * Suc 4)"
    using ucast_u32_less [of v] by simp
  from length_varuint_loop [OF this]
  have "length (concat (varuint_loop (ucast v))) \<le> 5" by simp
  moreover have "concat (varuint_loop (ucast v)) \<noteq> []"
    by (subst varuint_loop.simps) (simp add: Let_def)
  ultimately show ?thesis
    by (simp add: varuint32_to_bin_ucast Suc_le_eq del: concat_eq_Nil_conv)
qed

subsection \<open>The zig-zag mapping\<close>

lemma bit_31_const: "bit (0x80000000 :: u32) n \<longleftrightarrow> n = 31"
  using bit_exp_iff [where 'a = "32 word", of 31 n] by auto

lemma bit_zigzag: "n < 32 \<Longrightarrow> bit (zigzag v) n \<longleftrightarrow> ((1 \<le> n \<and> bit v (n - 1)) \<noteq> bit v 31)"
  unfolding zigzag_def by (cases n) (auto simp only: bit_xor_iff bit_push_bit_iff bit_signed_drop_bit_iff possible_bit_word split: if_splits, auto simp: min_def split: if_splits)

lemma bit_unzigzag: "n < 32 \<Longrightarrow> bit (unzigzag v) n \<longleftrightarrow> (if n = 31 then bit v 0 else bit v (Suc n) \<noteq> bit v 0)"
proof -
  assume n: "n < 32"
  have "\<not> bit v 32" by (rule notI) (drule bit_imp_le_length, simp)
  with n show ?thesis
  unfolding unzigzag_def and_bit_iff
  by (cases "n = 31") (auto simp: bit_simps bit_31_const simp del: bit_numeral_word_iff)
qed

lemma unzigzag_zigzag [simp]: "unzigzag (zigzag v) = v"
proof (rule bit_word_eqI)
  fix n assume "n < LENGTH(32)"
  then have n: "n < 32" by simp
  show "bit (unzigzag (zigzag v)) n = bit v n"
    using n by (cases "n = 31") (auto simp add: bit_unzigzag bit_zigzag)
qed

lemma zigzag_unzigzag [simp]: "zigzag (unzigzag v) = v"
proof (rule bit_word_eqI)
  fix n assume "n < LENGTH(32)"
  then have n: "n < 32" by simp
  show "bit (zigzag (unzigzag v)) n = bit v n"
    using n by (cases n) (auto simp add: bit_unzigzag bit_zigzag)
qed

lemma varint32_read_write:
  "varint32_obj_from_bin source_read (concat (varint32_obj_to_bin x) @ rest) = Inr (x, rest)"
  by (simp add: varint32_obj_from_bin_def varint32_from_bin_def varint32_obj_to_bin_def
      varuint32_read_write)

section \<open>Properties\<close>

text \<open>
  On every input stream whose remaining bytes start with what
  \<^verbatim>\<open>varuint32_to_bin\<close> writes for a 32-bit value, \<^verbatim>\<open>varuint32_from_bin\<close> returns exactly
  that value and stops exactly behind the encoding, which takes one to five bytes.
\<close>

theorem varuint32_roundtrip:
  assumes "is_inv s" and "is_view s = concat (varuint32_to_bin (ucast (v :: u32))) @ rest"
  shows "(\<exists>s'. varuint32_from_bin is_read s = Inr (v, s') \<and> is_inv s' \<and> is_view s' = rest)
    \<and> length (concat (varuint32_to_bin (ucast v))) \<in> {1..5}"
  using ist.varuint32_from_bin_sim [OF assms(1)] length_varuint32_to_bin [of v]
  unfolding assms(2) varuint32_read_write by (blast dest: sim_res_value)

theorem varuint32_roundtrip_witness:
  "(\<exists>s'. varuint32_from_bin is_read (input_stream_vec [0xac, 0x02, 0x07]) = Inr (300, s')
      \<and> is_inv s' \<and> is_view s' = [0x07])
    \<and> length (concat (varuint32_to_bin (ucast (300 :: u32)))) \<in> {1..5}"
proof (rule varuint32_roundtrip)
  show "is_inv (input_stream_vec [0xac, 0x02, 0x07])"
    by simp
  show "is_view (input_stream_vec [0xac, 0x02, 0x07])
      = concat (varuint32_to_bin (ucast (300 :: u32))) @ [0x07]"
    by (simp, code_simp)
qed

text \<open>
  \<^verbatim>\<open>varint32\<close> objects survive writing and reading, whatever follows them;
  the zig-zag mapping behind them is a bijection of the 32-bit words.
\<close>

theorem varint32_roundtrip:
  "varint32_obj_from_bin source_read (concat (varint32_obj_to_bin x) @ rest) = Inr (x, rest)
    \<and> bij zigzag"
  by (simp add: varint32_read_write) (rule o_bij [of unzigzag]; auto)

text \<open>
  The reading loop is the closed form \<^verbatim>\<open>varuint_spec\<close>. In particular
  at most five bytes are consumed, a sixth group is an \<^verbatim>\<open>invalid_varuint_encoding\<close>, a
  truncated encoding is an \<^verbatim>\<open>overrun\<close>, and there is no error for values above
  \<^verbatim>\<open>2 ^ 32\<close>: their high bits are dropped.
\<close>

theorem varuint32_from_bin_correct:
  "varuint32_from_bin source_read bs =
    (let k = length (takeWhile is_cont bs) in
     if k \<ge> 5 then Inl (Stream_Error invalid_varuint_encoding)
     else if k \<ge> length bs then Inl (Stream_Error overrun)
     else Inr (word_of_nat (groups (take (Suc k) bs)), drop (Suc k) bs))"
  by (simp only: varuint32_from_bin_spec varuint_spec_def)

end
