(* ===== verification/Clio_Protobuf.thy ===== *)
theory Clio_Protobuf
  imports Clio_Varint
begin

text \<open>
  The protobuf encoding of reflected types, libraries/clio/include/clio/to\_protobuf.hpp,
  from\_protobuf.hpp, tuple.hpp and protobuf/any.hpp: an object is a sequence of fields, each with a
  key that holds the number of the member and the wire type of its value.

  The template functions are functions by recursion over \<^verbatim>\<open>pbty\<close>, the C++ type. The loops
  that read until the stream is empty are iterated by \<^verbatim>\<open>while_remaining\<close>, a partial function: None
  stands for a loop that does not end, and Clio\_Protobuf\_Read shows that it does not occur.
\<close>

section \<open>Types and values\<close>

text \<open>The arithmetic types, in the order of the \<^verbatim>\<open>WIRE_TYPE\<close> table.\<close>

datatype pb_num =
    PN_uint16 | PN_uint8 | PN_int16 | PN_int8 | PN_char | PN_bool
  | PN_uint64 | PN_int64 | PN_double | PN_uint32 | PN_int32 | PN_float

text \<open>Of a reflected class the numbers of its data members and the members of a
  value-initialized object. Floating point values stand for their object representation.\<close>

datatype pbval =
    PV_num int
  | PV_string "byte list"   \<comment> \<open>strings and bytes\<close>
  | PV_list "pbval list"    \<comment> \<open>the elements of a vector, the members of a tuple or a struct\<close>
  | PV_variant nat pbval

datatype pbty =
    PB_num pb_num
  | PB_varuint32
  | PB_string
  | PB_bytes
  | PB_vector pbty
  | PB_tuple "pbty list"
  | PB_variant "pbty list"
  | PB_struct "nat list" "pbval list" "pbty list"

fun num_wire_type :: "pb_num \<Rightarrow> nat" where
  "num_wire_type PN_uint16 = 0"
| "num_wire_type PN_uint8 = 0"
| "num_wire_type PN_int16 = 0"
| "num_wire_type PN_int8 = 0"
| "num_wire_type PN_char = 0"
| "num_wire_type PN_bool = 0"
| "num_wire_type PN_uint64 = 1"
| "num_wire_type PN_int64 = 1"
| "num_wire_type PN_double = 1"
| "num_wire_type PN_uint32 = 5"
| "num_wire_type PN_int32 = 5"
| "num_wire_type PN_float = 5"

definition wire_type :: "pbty \<Rightarrow> nat" where
  "wire_type t = (case t of PB_num k \<Rightarrow> num_wire_type k | PB_varuint32 \<Rightarrow> 0 | _ \<Rightarrow> 2)"

definition is_arithmetic :: "pbty \<Rightarrow> bool" where
  "is_arithmetic t \<longleftrightarrow> (case t of PB_num k \<Rightarrow> True | _ \<Rightarrow> False)"

definition num_size :: "pb_num \<Rightarrow> nat" where
  "num_size k =
     (if k \<in> {PN_uint64, PN_int64, PN_double} then 8
      else if k \<in> {PN_uint32, PN_int32, PN_float} then 4
      else if k \<in> {PN_uint16, PN_int16} then 2
      else 1)"

definition num_signed :: "pb_num \<Rightarrow> bool" where
  "num_signed k \<longleftrightarrow> k \<in> {PN_int8, PN_char, PN_int16, PN_int32, PN_int64}"

text \<open>The conversion of an integer to the type, as an assignment does it.\<close>

definition num_convert :: "pb_num \<Rightarrow> int \<Rightarrow> int" where
  "num_convert k x =
     (if k = PN_bool then of_bool (x \<noteq> 0)
      else if num_signed k then (x + 2 ^ (8 * num_size k - 1)) mod 2 ^ (8 * num_size k) - 2 ^ (8 * num_size k - 1)
      else x mod 2 ^ (8 * num_size k))"

definition num_image :: "pb_num \<Rightarrow> int \<Rightarrow> byte list" where
  "num_image k x = nat_le (num_size k) (nat (x mod 2 ^ (8 * num_size k)))"

definition num_value :: "pb_num \<Rightarrow> byte list \<Rightarrow> int" where
  "num_value k bs = num_convert k (int (le_nat bs))"

fun pb_init :: "pbty \<Rightarrow> pbval" where
  "pb_init (PB_num k) = PV_num 0"
| "pb_init PB_varuint32 = PV_num 0"
| "pb_init PB_string = PV_string []"
| "pb_init PB_bytes = PV_string []"
| "pb_init (PB_vector t) = PV_list []"
| "pb_init (PB_tuple ts) = PV_list (map pb_init ts)"
| "pb_init (PB_variant ts) = PV_variant 0 (case map pb_init ts of d # _ \<Rightarrow> d | [] \<Rightarrow> PV_list [])"
| "pb_init (PB_struct ns ds ts) = PV_list ds"

section \<open>Writing\<close>

type_synonym pb_writer = "pbval \<Rightarrow> writes"

text \<open>The conversion of the arguments of \<^verbatim>\<open>varuint32_to_bin\<close> to 64 bits extends the sign.\<close>

definition write_size :: "nat \<Rightarrow> writes" where
  "write_size n = varuint32_to_bin (of_nat n)"

definition write_key :: "nat \<Rightarrow> nat \<Rightarrow> writes" where
  "write_key field wire = varuint32_to_bin (ucast (push_bit 3 (of_nat field) OR of_nat wire :: u32))"

definition is_empty_vector :: "pbty \<Rightarrow> pbval \<Rightarrow> bool" where
  "is_empty_vector t v \<longleftrightarrow> (case t of PB_vector _ \<Rightarrow> v = PV_list [] | _ \<Rightarrow> False)"

definition write_protobuf_field :: "nat \<Rightarrow> pbty \<times> pb_writer \<Rightarrow> pb_writer" where
  "write_protobuf_field field = (\<lambda>(t, wr) v.
     if is_empty_vector t v then [] else write_key field (wire_type t) @ wr v)"

fun write_fields :: "(nat \<times> pbty \<times> pb_writer) list \<Rightarrow> pbval list \<Rightarrow> writes" where
  "write_fields ((n, m) # ms) (v # vs) = write_protobuf_field n m v @ write_fields ms vs"
| "write_fields _ _ = []"

text \<open>The loop over the elements of a vector that are fields of their own.\<close>

fun write_items :: "pb_writer \<Rightarrow> pbval list \<Rightarrow> writes" where
  "write_items wr [] = []"
| "write_items wr (v # vs) = write_key 1 2 @ wr v @ write_items wr vs"

definition packed_image :: "pbty \<Rightarrow> pbval list \<Rightarrow> byte list" where
  "packed_image t vs = concat (map (\<lambda>v. case (t, v) of (PB_num k, PV_num x) \<Rightarrow> num_image k x | _ \<Rightarrow> []) vs)"

lemma pb_size_in_list: "t \<in> set ts \<Longrightarrow> size (t :: pbty) \<le> size_list size ts"
  by (induction ts) auto

text \<open>The size of a nested object is found by writing it to a \<^verbatim>\<open>size_stream\<close>. Numbers, strings
  and bytes are not objects.\<close>

function to_protobuf_object :: "pbty \<Rightarrow> pb_writer" and to_protobuf_member :: "pbty \<Rightarrow> pb_writer" where
  "to_protobuf_object (PB_variant ts) v =
     (case v of
        PV_variant i x \<Rightarrow>
          if i < length ts then write_protobuf_field (i + 1) (map (\<lambda>t. (t, to_protobuf_member t)) ts ! i) x
          else []
      | _ \<Rightarrow> [])"
| "to_protobuf_object (PB_vector t) v =
     (case v of
        PV_list vs \<Rightarrow>
          if is_arithmetic t then
            write_key 1 2 @ varuint32_to_bin (ucast (of_nat (length (packed_image t vs)) :: u32)) @ [packed_image t vs]
          else write_items (to_protobuf_member t) vs
      | _ \<Rightarrow> [])"
| "to_protobuf_object (PB_struct ns ds ts) v =
     (case v of PV_list vs \<Rightarrow> write_fields (zip ns (map (\<lambda>t. (t, to_protobuf_member t)) ts)) vs | _ \<Rightarrow> [])"
| "to_protobuf_object (PB_tuple ts) v =
     (case v of PV_list vs \<Rightarrow> write_fields (enumerate 1 (map (\<lambda>t. (t, to_protobuf_member t)) ts)) vs | _ \<Rightarrow> [])"
| "to_protobuf_object PB_varuint32 v =
     (case v of PV_num x \<Rightarrow> write_key 1 5 @ [num_image PN_uint32 x] | _ \<Rightarrow> [])"
| "to_protobuf_object (PB_num k) v = []"
| "to_protobuf_object PB_string v = []"
| "to_protobuf_object PB_bytes v = []"
| "to_protobuf_member t v =
     (case (t, v) of
        (PB_string, PV_string bs) \<Rightarrow> write_size (length bs) @ [bs]
      | (PB_bytes, PV_string bs) \<Rightarrow> write_size (length bs) @ [bs]
      | (PB_num k, PV_num x) \<Rightarrow>
          if num_wire_type k = 5 \<or> num_wire_type k = 1 then [num_image k x]
          else varuint32_to_bin (word_of_int x)
      | (PB_varuint32, PV_num x) \<Rightarrow> varuint32_to_bin (word_of_int x)
      | _ \<Rightarrow> write_size (length (concat (to_protobuf_object t v))) @ to_protobuf_object t v)"
  by pat_completeness auto

termination
  by (relation "measure (\<lambda>x. case x of Inl (t, v) \<Rightarrow> 2 * size t | Inr (t, v) \<Rightarrow> 2 * size t + 1)")
    (auto dest!: pb_size_in_list)

declare to_protobuf_object.simps [simp del] to_protobuf_member.simps [simp del]

text \<open>\<^verbatim>\<open>std::vector<char> to_protobuf(const T&)\<close>, with the \<^verbatim>\<open>underrun\<close> check at its end.\<close>

definition to_protobuf :: "pbty \<Rightarrow> pbval \<Rightarrow> byte list result" where
  "to_protobuf t v = two_pass True (to_protobuf_object t v) []"

section \<open>Reading\<close>

type_synonym 'a pb = "(fault + 'a) option"
type_synonym 'a pb_reader = "'a \<Rightarrow> input_stream \<Rightarrow> ('a \<times> input_stream) pb"

text \<open>\<^verbatim>\<open>while( stream.remaining() ) { ... }\<close> with the body \<^verbatim>\<open>step\<close>.\<close>

partial_function (option) while_remaining :: "'a pb_reader \<Rightarrow> 'a pb_reader" where
  "while_remaining step v s =
     (if is_remaining s = 0 then Some (Inr (v, s))
      else Option.bind (step v s) (\<lambda>r.
        case r of Inl e \<Rightarrow> Some (Inl e) | Inr (v, s) \<Rightarrow> while_remaining step v s))"

declare while_remaining.simps [code]

definition pb_varuint32 :: "input_stream \<Rightarrow> (u32 \<times> input_stream) pb" where
  "pb_varuint32 s = Some (may_throw (varuint32_from_bin is_read s))"

definition pb_skip :: "nat \<Rightarrow> input_stream \<Rightarrow> input_stream pb" where
  "pb_skip n s = Some (may_throw (is_skip n s))"

definition pb_read :: "nat \<Rightarrow> input_stream \<Rightarrow> (byte list \<times> input_stream) pb" where
  "pb_read n s = Some (may_throw (is_read n s))"

text \<open>The key of a field: its wire type and its number.\<close>

definition read_key :: "input_stream \<Rightarrow> ((nat \<times> u32) \<times> input_stream) pb" where
  "read_key s =
     fbind (pb_varuint32 s) (\<lambda>(key, s).
     Some (Inr ((unat ((ucast key :: byte) AND 0x07), drop_bit 3 key), s)))"

definition skip_member :: "nat \<Rightarrow> input_stream \<Rightarrow> input_stream pb" where
  "skip_member wire s =
     (if wire = 0 then fbind (pb_varuint32 s) (\<lambda>(temp, s). Some (Inr s))
      else if wire = 1 then pb_skip 8 s
      else if wire = 2 then fbind (pb_varuint32 s) (\<lambda>(temp, s). pb_skip (unat temp) s)
      else if wire = 5 then pb_skip 4 s
      else Some (Inr s))"

text \<open>
  One round of the loop over the fields of a tuple or a struct: \<^verbatim>\<open>index\<close> finds the member with
  the number, \<^verbatim>\<open>unknown\<close> is done with the field if there is none.
\<close>

definition read_field ::
  "(u32 \<Rightarrow> nat option) \<Rightarrow> (nat \<Rightarrow> input_stream \<Rightarrow> input_stream pb) \<Rightarrow> pbval pb_reader list \<Rightarrow> pbval list pb_reader"
where
  "read_field index unknown rds vs s =
     fbind (read_key s) (\<lambda>((wire, number), s).
     case index number of
       Some i \<Rightarrow> fbind ((rds ! i) (vs ! i) s) (\<lambda>(x, s). Some (Inr (vs[i := x], s)))
     | None \<Rightarrow> fbind (unknown wire s) (\<lambda>s. Some (Inr (vs, s))))"

text \<open>The cases of \<^verbatim>\<open>reflect<T>::get\<close>; a member function is skipped like an unknown number.\<close>

fun member_index :: "nat list \<Rightarrow> u32 \<Rightarrow> nat option" where
  "member_index [] number = None"
| "member_index (n # ns) number = (if unat number = n then Some 0 else map_option Suc (member_index ns number))"

text \<open>\<^verbatim>\<open>tuple_get\<close> compares the index with \<^verbatim>\<open>number-1\<close> and throws at the end, so a tuple with an
  unknown field is not read and the call of \<^verbatim>\<open>skip_member\<close> after it is never reached.\<close>

definition tuple_index :: "nat \<Rightarrow> u32 \<Rightarrow> nat option" where
  "tuple_index n number = (if unat (number - 1) < n then Some (unat (number - 1)) else None)"

definition tuple_unknown :: "nat \<Rightarrow> input_stream \<Rightarrow> input_stream pb" where
  "tuple_unknown wire s = Some (Inl (Throw Tuple_Error))"

text \<open>\<^verbatim>\<open>set_variant\<close>, the index of the alternative it makes.\<close>

definition set_variant :: "nat \<Rightarrow> u32 \<Rightarrow> nat option" where
  "set_variant n type = (if unat type < n then Some (unat type) else None)"

fun num_values :: "pb_num \<Rightarrow> nat \<Rightarrow> byte list \<Rightarrow> pbval list" where
  "num_values k 0 bs = []"
| "num_values k (Suc n) bs = PV_num (num_value k (take (num_size k) bs)) # num_values k n (drop (num_size k) bs)"

text \<open>
  A vector of arithmetic values has room for \<^verbatim>\<open>size / sizeof(T)\<close> of them and is then overwritten
  with \<^verbatim>\<open>size\<close> bytes. If the field has another number than 1 the vector stays empty.
\<close>

definition read_packed :: "pb_num \<Rightarrow> input_stream \<Rightarrow> (pbval \<times> input_stream) pb" where
  "read_packed k s =
     fbind (read_key s) (\<lambda>((wire, number), s).
     if number \<noteq> 1 then fbind (skip_member wire s) (\<lambda>s. Some (Inr (PV_list [], s)))
     else
       fbind (pb_varuint32 s) (\<lambda>(n, s).
       if unat n > is_remaining s then Some (Inl (Throw (Stream_Error overrun)))
       else
         fbind (pb_read (unat n) s) (\<lambda>(bs, s).
         if unat n div num_size k * num_size k < unat n then Some (Inl Memory_Fault)
         else Some (Inr (PV_list (num_values k (unat n div num_size k) bs), s)))))"

definition read_item :: "pbval pb_reader \<Rightarrow> pbval \<Rightarrow> pbval list pb_reader" where
  "read_item rd x vs s =
     fbind (read_key s) (\<lambda>((wire, number), s).
     if number = 1 then fbind (rd x s) (\<lambda>(x, s). Some (Inr (vs @ [x], s)))
     else fbind (skip_member wire s) (\<lambda>s. Some (Inr (vs, s))))"

definition read_number :: "pb_num \<Rightarrow> pbval pb_reader" where
  "read_number k v s =
     (if num_wire_type k = 5 \<or> num_wire_type k = 1
      then fbind (pb_read (num_size k) s) (\<lambda>(bs, s). Some (Inr (PV_num (num_value k bs), s)))
      else fbind (pb_varuint32 s) (\<lambda>(n, s). Some (Inr (PV_num (num_convert k (uint n)), s))))"

definition list_value :: "(pbval list \<times> input_stream) pb \<Rightarrow> (pbval \<times> input_stream) pb" where
  "list_value r = fbind r (\<lambda>(vs, s). Some (Inr (PV_list vs, s)))"

definition items :: "pbval \<Rightarrow> pbval list" where
  "items v = (case v of PV_list vs \<Rightarrow> vs | _ \<Rightarrow> [])"

text \<open>A nested object is read from a stream over its bytes.\<close>

definition object_stream :: "nat \<Rightarrow> input_stream \<Rightarrow> (input_stream \<times> input_stream) pb" where
  "object_stream n s =
     (if n > is_remaining s then Some (Inl (Throw (Stream_Error overrun)))
      else
        fbind (Some (may_throw (input_stream_of (is_mem s) (is_pos s) (is_pos s + n)))) (\<lambda>objstream.
        fbind (pb_skip n s) (\<lambda>s. Some (Inr (objstream, s)))))"

text \<open>
  The branches of \<^verbatim>\<open>from_protobuf_member\<close> are tried in another order than those of
  \<^verbatim>\<open>to_protobuf_member\<close>: a \<^verbatim>\<open>varuint32\<close> is a reflected struct with the member
  \<^verbatim>\<open>value\<close>, so it is read as a nested object although it is written as a number.
\<close>

function from_protobuf_object :: "pbty \<Rightarrow> pbval pb_reader" and from_protobuf_member :: "pbty \<Rightarrow> pbval pb_reader" where
  "from_protobuf_object (PB_variant ts) v s =
     fbind (read_key s) (\<lambda>((wire, field), s).
     case set_variant (length ts) (field - 1) of
       Some i \<Rightarrow>
         fbind ((map from_protobuf_member ts ! i) (pb_init (ts ! i)) s) (\<lambda>(x, s). Some (Inr (PV_variant i x, s)))
     | None \<Rightarrow> fbind (skip_member wire s) (\<lambda>s. Some (Inr (pb_init (PB_variant ts), s))))"
| "from_protobuf_object (PB_tuple ts) v s =
     list_value (while_remaining
       (read_field (tuple_index (length ts)) tuple_unknown (map from_protobuf_member ts)) (items v) s)"
| "from_protobuf_object (PB_vector t) v s =
     (case t of
        PB_num k \<Rightarrow> read_packed k s
      | _ \<Rightarrow> list_value (while_remaining (read_item (from_protobuf_member t) (pb_init t)) [] s))"
| "from_protobuf_object (PB_struct ns ds ts) v s =
     list_value (while_remaining
       (read_field (member_index ns) skip_member (map from_protobuf_member ts)) (items v) s)"
| "from_protobuf_object PB_varuint32 v s =
     fbind (while_remaining (read_field (member_index [1]) skip_member [read_number PN_uint32]) [v] s) (\<lambda>(vs, s).
     Some (Inr (hd vs, s)))"
| "from_protobuf_object (PB_num k) v s = Some (Inr (v, s))"
| "from_protobuf_object PB_string v s = Some (Inr (v, s))"
| "from_protobuf_object PB_bytes v s = Some (Inr (v, s))"
| "from_protobuf_member t v s =
     (case t of
        PB_num k \<Rightarrow> read_number k v s
      | _ \<Rightarrow>
          fbind (pb_varuint32 s) (\<lambda>(n, s).
          if t = PB_string \<or> t = PB_bytes
          then fbind (pb_read (unat n) s) (\<lambda>(bs, s). Some (Inr (PV_string bs, s)))
          else
            fbind (object_stream (unat n) s) (\<lambda>(objstream, s).
            fbind (from_protobuf_object t v objstream) (\<lambda>(v, _). Some (Inr (v, s))))))"
  by pat_completeness auto

termination
  by (relation "measure (\<lambda>x. case x of Inl (t, v, s) \<Rightarrow> 2 * size t | Inr (t, v, s) \<Rightarrow> 2 * size t + 1)")
    (auto dest!: pb_size_in_list)

declare from_protobuf_object.simps [simp del] from_protobuf_member.simps [simp del]

text \<open>\<^verbatim>\<open>tmp\<close> is the default-initialized object the fields are read into.\<close>

definition from_protobuf :: "pbty \<Rightarrow> pbval \<Rightarrow> byte list \<Rightarrow> pbval pb" where
  "from_protobuf t tmp in_bytes =
     fbind (from_protobuf_object t tmp (input_stream_vec in_bytes)) (\<lambda>(v, s). Some (Inr v))"

section \<open>Messages without a type\<close>

text \<open>\<^verbatim>\<open>protobuf::any\<close>: the variant of an entry holds a \<^verbatim>\<open>varuint32\<close>, 8 bytes, a string of
  bytes or 4 bytes.\<close>

datatype any_value = Any_varint u32 | Any_fixed64 u64 | Any_buffer "byte list" | Any_fixed32 u32

type_synonym any_entry = "u32 \<times> any_value"

text \<open>The overloads of \<^verbatim>\<open>any::add\<close>; there is none for 32-bit unsigned numbers.\<close>

fun any_of_number :: "pb_num \<Rightarrow> int \<Rightarrow> any_value option" where
  "any_of_number PN_uint64 x = Some (Any_fixed64 (word_of_int x))"
| "any_of_number PN_int64 x = Some (Any_fixed64 (word_of_int x))"
| "any_of_number PN_double x = Some (Any_fixed64 (word_of_int x))"
| "any_of_number PN_int32 x = Some (Any_fixed32 (word_of_int x))"
| "any_of_number PN_float x = Some (Any_fixed32 (word_of_int x))"
| "any_of_number PN_uint32 x = None"
| "any_of_number k x = Some (Any_varint (word_of_int x))"

definition any_add :: "u32 \<Rightarrow> any_value \<Rightarrow> any_entry list \<Rightarrow> any_entry list" where
  "any_add field v members = members @ [(field, v)]"

fun any_index :: "any_value \<Rightarrow> nat" where
  "any_index (Any_varint x) = 0"
| "any_index (Any_fixed64 x) = 1"
| "any_index (Any_buffer x) = 2"
| "any_index (Any_fixed32 x) = 3"

fun any_value_to_bin :: "any_value \<Rightarrow> writes" where
  "any_value_to_bin (Any_varint x) = varuint32_to_bin (ucast x)"
| "any_value_to_bin (Any_fixed64 x) = [word_le 8 x]"
| "any_value_to_bin (Any_buffer x) = write_size (length x) @ [x]"
| "any_value_to_bin (Any_fixed32 x) = [word_le 4 x]"

definition any_entry_to_bin :: "any_entry \<Rightarrow> writes" where
  "any_entry_to_bin = (\<lambda>(number, v).
     varuint32_to_bin (ucast (push_bit 3 number OR (if any_index v = 3 then 5 else of_nat (any_index v)))) @
     any_value_to_bin v)"

definition any_to_bin :: "any_entry list \<Rightarrow> writes" where
  "any_to_bin members = concat (map any_entry_to_bin members)"

text \<open>A field with another wire type adds nothing, and its value is read as the next key.\<close>

definition any_step :: "any_entry list pb_reader" where
  "any_step members s =
     fbind (read_key s) (\<lambda>((type, number), s).
     if type = 0 then
       fbind (pb_varuint32 s) (\<lambda>(val, s). Some (Inr (members @ [(number, Any_varint val)], s)))
     else if type = 1 then
       fbind (pb_read 8 s) (\<lambda>(bs, s). Some (Inr (members @ [(number, Any_fixed64 (le_word bs))], s)))
     else if type = 2 then
       fbind (pb_varuint32 s) (\<lambda>(n, s).
       fbind (pb_read (unat n) s) (\<lambda>(bs, s). Some (Inr (members @ [(number, Any_buffer bs)], s))))
     else if type = 5 then
       fbind (pb_read 4 s) (\<lambda>(bs, s). Some (Inr (members @ [(number, Any_fixed32 (le_word bs))], s)))
     else Some (Inr (members, s)))"

definition any_from_bin :: "any_entry list pb_reader" where
  "any_from_bin = while_remaining any_step"

end
