(* ===== verification/Clio_Protobuf_Read.thy ===== *)
theory Clio_Protobuf_Read
  imports Clio_Protobuf
begin

text \<open>
  What the protobuf reader does: it reads back what the writer wrote, also with a type that has
  other members, skips what it does not know, and returns for all input.
\<close>

section \<open>Values of a type\<close>

fun pb_typed :: "pbty \<Rightarrow> pbval \<Rightarrow> bool" where
  "pb_typed (PB_num k) v \<longleftrightarrow> (case v of PV_num x \<Rightarrow> num_convert k x = x | _ \<Rightarrow> False)"
| "pb_typed PB_varuint32 v \<longleftrightarrow> (case v of PV_num x \<Rightarrow> num_convert PN_uint32 x = x | _ \<Rightarrow> False)"
| "pb_typed PB_string v \<longleftrightarrow> (case v of PV_string bs \<Rightarrow> True | _ \<Rightarrow> False)"
| "pb_typed PB_bytes v \<longleftrightarrow> (case v of PV_string bs \<Rightarrow> True | _ \<Rightarrow> False)"
| "pb_typed (PB_vector t) v \<longleftrightarrow> (case v of PV_list vs \<Rightarrow> \<forall>v \<in> set vs. pb_typed t v | _ \<Rightarrow> False)"
| "pb_typed (PB_tuple ts) v \<longleftrightarrow> (case v of PV_list vs \<Rightarrow> list_all2 (\<lambda>f v. f v) (map pb_typed ts) vs | _ \<Rightarrow> False)"
| "pb_typed (PB_variant ts) v \<longleftrightarrow>
     (case v of PV_variant i x \<Rightarrow> if i < length ts then (map pb_typed ts ! i) x else False | _ \<Rightarrow> False)"
| "pb_typed (PB_struct ns ds ts) v \<longleftrightarrow>
     (case v of PV_list vs \<Rightarrow> list_all2 (\<lambda>f v. f v) (map pb_typed ts) vs | _ \<Rightarrow> False)"

text \<open>The values whose encoding can be read: no negative number is written as a varint, and no
  alternative of a variant is an empty vector.\<close>

fun writable :: "pbty \<Rightarrow> pbval \<Rightarrow> bool" where
  "writable (PB_num k) v \<longleftrightarrow> (case v of PV_num x \<Rightarrow> num_wire_type k = 0 \<longrightarrow> 0 \<le> x | _ \<Rightarrow> False)"
| "writable PB_varuint32 v \<longleftrightarrow> False"
| "writable PB_string v \<longleftrightarrow> True"
| "writable PB_bytes v \<longleftrightarrow> True"
| "writable (PB_vector t) v \<longleftrightarrow> (case v of PV_list vs \<Rightarrow> \<forall>v \<in> set vs. writable t v | _ \<Rightarrow> False)"
| "writable (PB_tuple ts) v \<longleftrightarrow> (case v of PV_list vs \<Rightarrow> list_all2 (\<lambda>f v. f v) (map writable ts) vs | _ \<Rightarrow> False)"
| "writable (PB_variant ts) v \<longleftrightarrow>
     (case v of
        PV_variant i x \<Rightarrow>
          if i < length ts then (map writable ts ! i) x \<and> \<not> is_empty_vector (ts ! i) x else False
      | _ \<Rightarrow> False)"
| "writable (PB_struct ns ds ts) v \<longleftrightarrow>
     (case v of PV_list vs \<Rightarrow> list_all2 (\<lambda>f v. f v) (map writable ts) vs | _ \<Rightarrow> False)"

text \<open>An object to read into: its vectors are empty.\<close>

fun pb_fresh :: "pbty \<Rightarrow> pbval \<Rightarrow> bool" where
  "pb_fresh (PB_vector t) v \<longleftrightarrow> v = PV_list []"
| "pb_fresh (PB_tuple ts) v \<longleftrightarrow> (case v of PV_list vs \<Rightarrow> list_all2 (\<lambda>f v. f v) (map pb_fresh ts) vs | _ \<Rightarrow> False)"
| "pb_fresh (PB_struct ns ds ts) v \<longleftrightarrow>
     (case v of PV_list vs \<Rightarrow> list_all2 (\<lambda>f v. f v) (map pb_fresh ts) vs | _ \<Rightarrow> False)"
| "pb_fresh _ v \<longleftrightarrow> True"

fun pb_wf :: "pbty \<Rightarrow> bool" where
  "pb_wf (PB_vector t) \<longleftrightarrow> pb_wf t"
| "pb_wf (PB_tuple ts) \<longleftrightarrow> length ts < 2 ^ 29 \<and> (\<forall>t \<in> set ts. pb_wf t)"
| "pb_wf (PB_variant ts) \<longleftrightarrow> ts \<noteq> [] \<and> length ts < 2 ^ 29 \<and> (\<forall>t \<in> set ts. pb_wf t)"
| "pb_wf (PB_struct ns ds ts) \<longleftrightarrow>
     length ns = length ts \<and> distinct ns \<and> (\<forall>n \<in> set ns. n < 2 ^ 29) \<and>
     list_all2 pb_typed ts ds \<and> list_all2 pb_fresh ts ds \<and> (\<forall>t \<in> set ts. pb_wf t)"
| "pb_wf _ \<longleftrightarrow> True"

lemma list_all2_apply [simp]: "list_all2 (\<lambda>f v. f v) (map g ts) vs \<longleftrightarrow> list_all2 g ts vs"
  by (simp add: list_all2_map1)

lemma pb_typed_iff [simp]:
  "pb_typed (PB_num k) v \<longleftrightarrow> (\<exists>x. v = PV_num x \<and> num_convert k x = x)"
  "pb_typed PB_varuint32 v \<longleftrightarrow> (\<exists>x. v = PV_num x \<and> num_convert PN_uint32 x = x)"
  "pb_typed PB_string v \<longleftrightarrow> (\<exists>bs. v = PV_string bs)"
  "pb_typed PB_bytes v \<longleftrightarrow> (\<exists>bs. v = PV_string bs)"
  "pb_typed (PB_vector t) v \<longleftrightarrow> (\<exists>vs. v = PV_list vs \<and> (\<forall>v \<in> set vs. pb_typed t v))"
  "pb_typed (PB_tuple ts) v \<longleftrightarrow> (\<exists>vs. v = PV_list vs \<and> list_all2 pb_typed ts vs)"
  "pb_typed (PB_variant ts) v \<longleftrightarrow> (\<exists>i x. v = PV_variant i x \<and> i < length ts \<and> pb_typed (ts ! i) x)"
  "pb_typed (PB_struct ns ds ts) v \<longleftrightarrow> (\<exists>vs. v = PV_list vs \<and> list_all2 pb_typed ts vs)"
  by (auto split: pbval.splits)

declare pb_typed.simps [simp del]

lemma pb_init_ok: "pb_wf t \<Longrightarrow> pb_typed t (pb_init t) \<and> pb_fresh t (pb_init t)"
proof (induction t)
  case (PB_num k)
  then show ?case by (cases k) (simp_all add: num_convert_def num_signed_def num_size_def)
next
  case (PB_variant ts)
  then show ?case by (cases ts) auto
next
  case (PB_tuple ts)
  then show ?case by (auto simp: list_all2_conv_all_nth)
qed (auto simp: num_convert_def num_signed_def num_size_def)

section \<open>Reading from a stream\<close>

text \<open>The outcome of a read: a value and a stream over what is left.\<close>

definition reads_to :: "('a \<times> input_stream) pb \<Rightarrow> 'a \<Rightarrow> byte list \<Rightarrow> bool" where
  "reads_to r v rest \<longleftrightarrow> (\<exists>s. r = Some (Inr (v, s)) \<and> is_inv s \<and> is_view s = rest)"

definition skips_to :: "input_stream pb \<Rightarrow> byte list \<Rightarrow> bool" where
  "skips_to r rest \<longleftrightarrow> (\<exists>s. r = Some (Inr s) \<and> is_inv s \<and> is_view s = rest)"

lemma reads_to_return: "is_inv s \<Longrightarrow> is_view s = rest \<Longrightarrow> reads_to (Some (Inr (v, s))) v rest"
  by (simp add: reads_to_def)

lemma skips_to_return: "is_inv s \<Longrightarrow> is_view s = rest \<Longrightarrow> skips_to (Some (Inr s)) rest"
  by (simp add: skips_to_def)

lemma reads_to_bind:
  "reads_to r v rest \<Longrightarrow> (\<And>s. is_inv s \<Longrightarrow> is_view s = rest \<Longrightarrow> P (f (v, s))) \<Longrightarrow> P (fbind r f)"
  by (auto simp: reads_to_def)

lemma skips_to_bind:
  "skips_to r rest \<Longrightarrow> (\<And>s. is_inv s \<Longrightarrow> is_view s = rest \<Longrightarrow> P (f s)) \<Longrightarrow> P (fbind r f)"
  by (auto simp: skips_to_def)

lemma remaining_view: "is_inv s \<Longrightarrow> is_remaining s = length (is_view s)"
  by (simp add: is_remaining_inv length_is_view)

lemma pb_varuint32_reads:
  fixes v :: u32
  assumes "is_inv s" "is_view s = concat (varuint32_to_bin (ucast v)) @ rest"
  shows "reads_to (pb_varuint32 s) v rest"
  using ist.varuint32_from_bin_sim [OF assms(1)] varuint32_read_write [of v rest]
  by (auto simp: sim_res_def reads_to_def pb_varuint32_def may_throw_def assms(2) split: sum.splits)

lemma pb_read_reads:
  "is_inv s \<Longrightarrow> is_view s = bs @ rest \<Longrightarrow> reads_to (pb_read (length bs) s) bs rest"
  using is_read_sim [of s "length bs"]
  by (auto simp: sim_res_def reads_to_def pb_read_def may_throw_def split: sum.splits)

lemma is_skip_view:
  assumes "is_inv s" "n \<le> length (is_view s)"
  shows "is_skip n s = Inr (s\<lparr>is_pos := is_pos s + n\<rparr>)" "is_inv (s\<lparr>is_pos := is_pos s + n\<rparr>)"
    "is_view (s\<lparr>is_pos := is_pos s + n\<rparr>) = drop n (is_view s)"
  using assms by (auto simp: is_skip_def remaining_view length_is_view drop_is_view is_inv_def)
    (simp add: is_view_def)

lemma pb_skip_skips:
  "is_inv s \<Longrightarrow> is_view s = bs @ rest \<Longrightarrow> skips_to (pb_skip (length bs) s) rest"
  using is_skip_view [of s "length bs"] by (auto simp: skips_to_def pb_skip_def may_throw_def)

lemma size_written: "n < 2 ^ 32 \<Longrightarrow> write_size n = varuint32_to_bin (ucast (of_nat n :: u32))"
  using unat_of_nat_u32 [of n] of_nat_unat [of "of_nat n :: u32", where 'a = u64] by (simp add: write_size_def)

lemma write_key_word:
  assumes "n < 2 ^ 29" "w < 8"
  shows "write_key n w = varuint32_to_bin (ucast (of_nat (8 * n + w) :: u32))"
proof -
  have "(of_nat w :: u32) = take_bit 3 (of_nat w)"
    using assms(2) take_bit_of_nat [of 3 w, where 'a = u32] take_bit_nat_eq_self [of w 3] by simp
  then have "\<not> bit (of_nat w :: u32) i" if "3 \<le> i" for i
    using that by (metis bit_take_bit_iff not_less)
  then have "push_bit 3 (of_nat n) OR of_nat w = push_bit 3 (of_nat n) + (of_nat w :: u32)"
    by (intro disjunctive_add [symmetric]) (auto simp: bit_push_bit_iff)
  also have "\<dots> = of_nat (8 * n + w)" by (simp add: push_bit_eq_mult)
  finally show ?thesis by (simp add: write_key_def)
qed

lemma read_key_reads:
  assumes "is_inv s" "is_view s = concat (write_key n w) @ rest" "n < 2 ^ 29" "w < 8"
  shows "reads_to (read_key s) (w, of_nat n) rest"
proof -
  let ?k = "of_nat (8 * n + w) :: u32"
  have k: "unat ?k = 8 * n + w" using assms(3,4) by (intro unat_of_nat_u32) simp
  have "(ucast ?k :: byte) AND 0x07 = take_bit 3 (ucast ?k)" by (simp add: take_bit_eq_mask mask_eq_exp_minus_1)
  then have "unat ((ucast ?k :: byte) AND 0x07) = unat (ucast ?k :: byte) mod 2 ^ 3"
    by (simp only: unat_take_bit_mod)
  also have "unat (ucast ?k :: byte) = (8 * n + w) mod 256"
    using k by (simp add: unsigned_ucast_eq take_bit_eq_mod del: of_nat_add of_nat_mult)
  also have "(8 * n + w) mod 256 mod 2 ^ 3 = (8 * n + w) mod 256 mod 8" by simp
  also have "\<dots> = w" using assms(4) by (simp add: mod_mod_cancel)
  finally have wire: "unat ((ucast ?k :: byte) AND 0x07) = w" .
  have "unat (drop_bit 3 ?k) = n" using assms(4) by (simp add: unat_drop_bit_div k del: of_nat_add of_nat_mult)
  then have "drop_bit 3 ?k = of_nat n" by (metis of_nat_unat ucast_id)
  then show ?thesis
    unfolding read_key_def
    using pb_varuint32_reads [OF assms(1,2) [unfolded write_key_word [OF assms(3,4)]]] wire
    by (auto simp: reads_to_def)
qed

lemma object_stream_reads:
  assumes "is_inv s" "is_view s = bs @ rest"
  shows "\<exists>sub s'. object_stream (length bs) s = Some (Inr (sub, s')) \<and>
    is_inv sub \<and> is_view sub = bs \<and> is_inv s' \<and> is_view s' = rest"
proof -
  let ?sub = "\<lparr>is_mem = is_mem s, is_pos = is_pos s, is_end = is_pos s + length bs\<rparr>"
  have "is_inv ?sub" "is_view ?sub = bs"
    using assms length_is_view [OF assms(1)] take_is_view [of "length bs" s] by (auto simp: is_inv_def is_view_def)
  then show ?thesis
    using is_skip_view [OF assms(1), of "length bs"] assms
    by (auto simp: object_stream_def remaining_view input_stream_of_def may_throw_def pb_skip_def)
qed

section \<open>Numbers\<close>

lemma num_size_pos: "0 < num_size k"
  by (simp add: num_size_def)

lemma num_image_length [simp]: "length (num_image k x) = num_size k"
  by (simp add: num_image_def)

lemma num_convert_mod: "num_convert k (x mod 2 ^ (8 * num_size k)) = num_convert k x" if "k \<noteq> PN_bool"
  using that by (simp add: num_convert_def mod_add_left_eq)

lemma num_convert_idem [simp]: "num_convert k (num_convert k x) = num_convert k x"
  by (simp add: num_convert_def)

lemma num_value_image: "num_convert k x = x \<Longrightarrow> num_value k (num_image k x) = x"
proof -
  assume x: "num_convert k x = x"
  have "(256 :: nat) ^ num_size k = 2 ^ (8 * num_size k)" by (simp add: power_mult)
  moreover have "nat (x mod 2 ^ (8 * num_size k)) < 2 ^ (8 * num_size k)"
    by (simp add: nat_less_iff)
  ultimately have v: "num_value k (num_image k x) = num_convert k (x mod 2 ^ (8 * num_size k))"
    by (simp add: num_value_def num_image_def le_nat_nat_le)
  show ?thesis
  proof (cases "k = PN_bool")
    case True
    with x have "x = 0 \<or> x = 1" by (auto simp: num_convert_def of_bool_def split: if_splits)
    with v True x show ?thesis by (auto simp: num_size_def)
  qed (use v x num_convert_mod in simp)
qed

lemma varint_range: "num_wire_type k = 0 \<Longrightarrow> num_convert k x = x \<Longrightarrow> 0 \<le> x \<Longrightarrow> x < 2 ^ 32"
  by (cases k) (auto simp: num_convert_def num_size_def num_signed_def of_bool_def split: if_splits)

lemma varint_written:
  assumes "0 \<le> x" "x < 2 ^ 32"
  shows "varuint32_to_bin (word_of_int x) = varuint32_to_bin (ucast (word_of_int x :: u32))" "uint (word_of_int x :: u32) = x"
proof -
  show u: "uint (word_of_int x :: u32) = x"
    using assms by (simp add: uint_word_of_int)
  have "(ucast (word_of_int x :: u32) :: u64) = word_of_int (uint (word_of_int x :: u32))" by simp
  then show "varuint32_to_bin (word_of_int x) = varuint32_to_bin (ucast (word_of_int x :: u32))"
    by (simp only: u)
qed

section \<open>Fields that are skipped\<close>

lemma wire_type_less: "wire_type t < 8"
proof -
  have "num_wire_type k < 8" for k by (cases k) simp_all
  then show ?thesis by (simp add: wire_type_def split: pbty.split)
qed

definition is_object :: "pbty \<Rightarrow> bool" where
  "is_object t \<longleftrightarrow> (case t of PB_num _ \<Rightarrow> False | PB_varuint32 \<Rightarrow> False | PB_string \<Rightarrow> False | PB_bytes \<Rightarrow> False | _ \<Rightarrow> True)"

text \<open>The bytes of a member that has its size in front.\<close>

definition sized :: "byte list \<Rightarrow> byte list" where
  "sized bs = concat (write_size (length bs)) @ bs"

lemma member_bytes:
  "is_object t \<Longrightarrow> concat (to_protobuf_member t v) = sized (concat (to_protobuf_object t v))"
  "t = PB_string \<or> t = PB_bytes \<Longrightarrow> concat (to_protobuf_member t (PV_string bs)) = sized bs"
  "num_wire_type k = 0 \<Longrightarrow> concat (to_protobuf_member (PB_num k) (PV_num x)) = concat (varuint32_to_bin (word_of_int x))"
  "num_wire_type k \<noteq> 0 \<Longrightarrow> concat (to_protobuf_member (PB_num k) (PV_num x)) = num_image k x"
  "concat (to_protobuf_member PB_varuint32 (PV_num x)) = concat (varuint32_to_bin (word_of_int x))"
  by (auto simp: to_protobuf_member.simps sized_def is_object_def split: pbty.splits)
    (cases k; simp)+

lemma sized_le: "length bs \<le> length (sized bs)"
  by (simp add: sized_def)

lemma sized_reads:
  assumes "is_inv s" "is_view s = sized bs @ rest" "length bs < 2 ^ 32"
  shows "reads_to (pb_varuint32 s) (of_nat (length bs)) (bs @ rest)"
  using assms by (intro pb_varuint32_reads) (simp_all add: sized_def size_written)

text \<open>A field of any type is skipped, also one of the types that cannot be read.\<close>

definition small_number :: "pbty \<Rightarrow> pbval \<Rightarrow> bool" where
  "small_number t v \<longleftrightarrow> (case (t, v) of (PB_num k, PV_num x) \<Rightarrow> num_wire_type k = 0 \<longrightarrow> 0 \<le> x | _ \<Rightarrow> True)"

lemma member_wire:
  assumes "pb_typed t v" "small_number t v" "length (concat (to_protobuf_member t v)) < 2 ^ 32"
  obtains (varint) w :: u32 where "wire_type t = 0" "concat (to_protobuf_member t v) = concat (varuint32_to_bin (ucast w))"
    | (fixed64) "wire_type t = 1" "length (concat (to_protobuf_member t v)) = 8"
    | (buffer) bs where "wire_type t = 2" "concat (to_protobuf_member t v) = sized bs" "length bs < 2 ^ 32"
    | (fixed32) "wire_type t = 5" "length (concat (to_protobuf_member t v)) = 4"
proof -
  consider (num) k x where "t = PB_num k" "v = PV_num x" "num_convert k x = x"
    | (var) x where "t = PB_varuint32" "v = PV_num x" "num_convert PN_uint32 x = x"
    | (str) bs where "t = PB_string \<or> t = PB_bytes" "v = PV_string bs"
    | (object) "is_object t"
    using assms(1) by (cases t) (auto simp: is_object_def)
  then show thesis
  proof cases
    case num
    have w: "wire_type t = num_wire_type k" using num by (simp add: wire_type_def)
    show ?thesis
    proof (cases "num_wire_type k = 0")
      case True
      then have "0 \<le> x" using assms(2) num by (simp add: small_number_def)
      with True show ?thesis
        using varint_written(1) [of x] varint_range [OF True num(3)] member_bytes(3) [OF True] w num(1,2) varint [of "word_of_int x"]
        by simp
    next
      case False
      then have "concat (to_protobuf_member t v) = num_image k x" using member_bytes(4) num(1,2) by simp
      with False show ?thesis using w fixed64 fixed32 by (cases k) (simp_all add: num_size_def)
    qed
  next
    case var
    have "x mod 4294967296 = x" using var(3) by (simp add: num_convert_def num_signed_def num_size_def)
    then have "0 \<le> x" "x < 4294967296"
      using pos_mod_sign [of 4294967296 x] pos_mod_bound [of 4294967296 x] by linarith+
    then show ?thesis
      using varint_written(1) [of x] member_bytes(5) [of x] var(1,2) varint [of "word_of_int x"] by (simp add: wire_type_def)
  next
    case (str bs)
    then show ?thesis
      using buffer [of bs] assms(3) member_bytes(2) [of t bs] sized_le [of bs] by (auto simp: wire_type_def)
  next
    case object
    then have "wire_type t = 2" by (simp add: is_object_def wire_type_def split: pbty.splits)
    with object show ?thesis
      using buffer assms(3) member_bytes(1) [of t v] sized_le [of "concat (to_protobuf_object t v)"] by simp
  qed
qed

lemma skip_member_skips:
  assumes "pb_typed t v" "small_number t v" "length (concat (to_protobuf_member t v)) < 2 ^ 32"
    and s: "is_inv s" "is_view s = concat (to_protobuf_member t v) @ rest"
  shows "skips_to (skip_member (wire_type t) s) rest"
  using assms(1-3)
proof (cases rule: member_wire)
  case (varint w)
  then have "reads_to (pb_varuint32 s) w rest" using s by (intro pb_varuint32_reads) simp_all
  then show ?thesis by (auto simp: varint(1) skip_member_def reads_to_def skips_to_def)
next
  case fixed64
  then show ?thesis using pb_skip_skips [OF s] by (simp add: skip_member_def)
next
  case (buffer bs)
  then obtain s1 where "pb_varuint32 s = Some (Inr (of_nat (length bs), s1))" "is_inv s1" "is_view s1 = bs @ rest"
    using sized_reads [OF s(1), of bs rest] s(2) by (auto simp: reads_to_def)
  then show ?thesis
    using pb_skip_skips [of s1 bs rest] unat_of_nat_u32 [OF buffer(3)] by (simp add: buffer(1) skip_member_def)
next
  case fixed32
  then show ?thesis using pb_skip_skips [OF s] by (simp add: skip_member_def)
qed

section \<open>The loop over the fields\<close>

lemma while_end: "is_inv s \<Longrightarrow> is_view s = [] \<Longrightarrow> while_remaining step v s = Some (Inr (v, s))"
  by (subst while_remaining.simps) (simp add: remaining_view)

lemma while_step:
  assumes "is_inv s" "is_view s \<noteq> []" "reads_to (step v s) v' rest"
  obtains s' where "is_inv s'" "is_view s' = rest" "while_remaining step v s = while_remaining step v' s'"
  using assms by (subst (asm) while_remaining.simps [of step v s]) (auto simp: remaining_view reads_to_def)

lemma write_key_not_Nil: "n < 2 ^ 29 \<Longrightarrow> w < 8 \<Longrightarrow> concat (write_key n w) \<noteq> []"
  using length_varuint32_to_bin [of "of_nat (8 * n + w)"]
  by (auto simp: write_key_word simp del: concat_eq_Nil_conv of_nat_add of_nat_mult)

definition fields_bytes :: "(nat \<times> pbty) list \<Rightarrow> pbval list \<Rightarrow> byte list" where
  "fields_bytes ms vs = concat (write_fields (map (\<lambda>(n, t). (n, t, to_protobuf_member t)) ms) vs)"

lemma fields_bytes_simps [simp]:
  "fields_bytes [] vs = []"
  "fields_bytes ((n, t) # ms) (v # vs) =
     (if is_empty_vector t v then [] else concat (write_key n (wire_type t)) @ concat (to_protobuf_member t v)) @
     fields_bytes ms vs"
  by (simp_all add: fields_bytes_def write_protobuf_field_def)

lemma pb_struct_bytes:
  "concat (to_protobuf_object (PB_struct ns ds ts) (PV_list vs)) = fields_bytes (zip ns ts) vs"
  "concat (to_protobuf_object (PB_tuple ts) (PV_list vs)) = fields_bytes (enumerate 1 ts) vs"
  by (simp_all add: to_protobuf_object.simps fields_bytes_def enumerate_eq_zip zip_map2 split_def)

text \<open>What the loop makes of the members.\<close>

fun place_fields :: "(u32 \<Rightarrow> nat option) \<Rightarrow> (nat \<times> pbty) list \<Rightarrow> pbval list \<Rightarrow> pbval list \<Rightarrow> pbval list" where
  "place_fields index ((n, t) # ms) (v # vs) xs =
     place_fields index ms vs
       (if is_empty_vector t v then xs else case index (of_nat n) of Some i \<Rightarrow> xs[i := v] | None \<Rightarrow> xs)"
| "place_fields index _ _ xs = xs"

definition field_ok ::
  "(u32 \<Rightarrow> nat option) \<Rightarrow> (nat \<Rightarrow> input_stream \<Rightarrow> input_stream pb) \<Rightarrow> pbval pb_reader list \<Rightarrow> pbval list \<Rightarrow>
   nat \<times> pbty \<Rightarrow> pbval \<Rightarrow> bool" where
  "field_ok index unknown rds xs = (\<lambda>(n, t) v. n < 2 ^ 29 \<and> (\<not> is_empty_vector t v \<longrightarrow>
     (case index (of_nat n) of
        Some i \<Rightarrow> i < length xs \<and> (\<forall>s rest. is_inv s \<longrightarrow> is_view s = concat (to_protobuf_member t v) @ rest \<longrightarrow>
          reads_to ((rds ! i) (xs ! i) s) v rest)
      | None \<Rightarrow> (\<forall>s rest. is_inv s \<longrightarrow> is_view s = concat (to_protobuf_member t v) @ rest \<longrightarrow>
          skips_to (unknown (wire_type t) s) rest))))"

definition index_inj :: "(u32 \<Rightarrow> nat option) \<Rightarrow> bool" where
  "index_inj index \<longleftrightarrow> (\<forall>a b i. index a = Some i \<longrightarrow> index b = Some i \<longrightarrow> a = b)"

lemma u32_numbers:
  assumes "n < 2 ^ 29" "m < 2 ^ 29"
  shows "(of_nat n :: u32) = of_nat m \<longleftrightarrow> n = m"
proof -
  have "unat (of_nat n :: u32) = n" "unat (of_nat m :: u32) = m"
    using assms by (simp_all add: unat_of_nat_u32)
  then show ?thesis by metis
qed

lemma field_reads:
  assumes "field_ok index unknown rds xs (n, t) v" "\<not> is_empty_vector t v" "is_inv s"
    and "is_view s = concat (write_key n (wire_type t)) @ concat (to_protobuf_member t v) @ rest"
  shows "reads_to (read_field index unknown rds xs s) (case index (of_nat n) of Some i \<Rightarrow> xs[i := v] | None \<Rightarrow> xs) rest"
proof -
  have n: "n < 2 ^ 29" using assms(1) by (simp add: field_ok_def)
  from read_key_reads [OF assms(3,4) n wire_type_less] obtain s' where
    key: "read_key s = Some (Inr ((wire_type t, of_nat n), s'))" and
    s': "is_inv s'" "is_view s' = concat (to_protobuf_member t v) @ rest"
    by (auto simp: reads_to_def)
  show ?thesis
  proof (cases "index (of_nat n :: u32)")
    case None
    then have "skips_to (unknown (wire_type t) s') rest"
      using assms(1,2) s' by (simp add: field_ok_def)
    then show ?thesis using None by (auto simp: read_field_def key reads_to_def skips_to_def)
  next
    case (Some i)
    then have "reads_to ((rds ! i) (xs ! i) s') v rest"
      using assms(1,2) s' by (simp add: field_ok_def)
    then show ?thesis using Some by (auto simp: read_field_def key reads_to_def)
  qed
qed

lemma field_ok_update:
  assumes "field_ok index unknown rds xs (n', t') v'" "n' \<noteq> n" "n < 2 ^ 29" "index_inj index"
  shows "field_ok index unknown rds (case index (of_nat n) of Some i \<Rightarrow> xs[i := v] | None \<Rightarrow> xs) (n', t') v'"
proof -
  have "n' < 2 ^ 29" using assms(1) by (simp add: field_ok_def)
  then have "index (of_nat n') \<noteq> Some i" if "index (of_nat n) = Some i" for i
    using assms(2-4) u32_numbers [of n n'] that by (auto simp: index_inj_def)
  with assms(1) show ?thesis by (auto simp: field_ok_def split: option.splits)
qed

lemma fields_read:
  assumes "list_all2 (field_ok index unknown rds xs) ms vs" "distinct (map fst ms)" "index_inj index"
    and "is_inv s" "is_view s = fields_bytes ms vs"
  shows "reads_to (while_remaining (read_field index unknown rds) xs s) (place_fields index ms vs xs) []"
  using assms
proof (induction ms arbitrary: vs xs s)
  case Nil
  then show ?case by (simp add: while_end reads_to_return)
next
  case (Cons m ms)
  then obtain n t v vs' where m: "m = (n, t)" and vs: "vs = v # vs'" "field_ok index unknown rds xs (n, t) v"
    "list_all2 (field_ok index unknown rds xs) ms vs'"
    by (cases m) (auto simp: list_all2_Cons1)
  have n: "n < 2 ^ 29" using vs(2) by (simp add: field_ok_def)
  show ?case
  proof (cases "is_empty_vector t v")
    case True
    then show ?thesis using Cons m vs by simp
  next
    case False
    let ?xs = "case index (of_nat n) of Some i \<Rightarrow> xs[i := v] | None \<Rightarrow> xs"
    have fields: "list_all2 (field_ok index unknown rds ?xs) ms vs'"
      using vs(3)
    proof (rule list.rel_mono_strong)
      fix m' v' assume "m' \<in> set ms" "field_ok index unknown rds xs m' v'"
      then show "field_ok index unknown rds ?xs m' v'"
        using field_ok_update [OF _ _ n Cons.prems(3), of unknown rds xs "fst m'" "snd m'" v' v] Cons.prems(2) m
        by force
    qed
    have view: "is_view s = concat (write_key n (wire_type t)) @ concat (to_protobuf_member t v) @ fields_bytes ms vs'"
      using Cons.prems(5) False by (simp add: m vs)
    then have "is_view s \<noteq> []" using write_key_not_Nil [OF n wire_type_less] by simp
    from while_step [where step = "read_field index unknown rds" and v = xs, OF Cons.prems(4) this field_reads [OF vs(2) False Cons.prems(4) view]]
    obtain s' where "is_inv s'" "is_view s' = fields_bytes ms vs'"
      "while_remaining (read_field index unknown rds) xs s = while_remaining (read_field index unknown rds) ?xs s'" .
    then show ?thesis
      using Cons.IH [OF fields] Cons.prems(2,3) False by (simp add: m vs)
  qed
qed


lemma place_fields_length [simp]: "length (place_fields index ms vs xs) = length xs"
  by (induction index ms vs xs rule: place_fields.induct) (auto split: option.split)

lemma place_fields_other:
  "\<forall>m \<in> set ms. index (of_nat (fst m)) \<noteq> Some j \<Longrightarrow> place_fields index ms vs xs ! j = xs ! j"
  by (induction index ms vs xs rule: place_fields.induct) (auto split: option.split)

text \<open>A member that was written is in its place, or it is an empty vector and was not touched.\<close>

lemma place_fields_nth:
  assumes "k < length ms" "length vs = length ms" "ms ! k = (n, t)" "index (of_nat n) = Some j" "j < length xs"
    and "distinct (map fst ms)" "\<forall>m \<in> set ms. fst m < 2 ^ 29" "index_inj index"
    and "is_empty_vector t (vs ! k) \<Longrightarrow> xs ! j = vs ! k"
  shows "place_fields index ms vs xs ! j = vs ! k"
  using assms
proof (induction ms arbitrary: k vs xs)
  case (Cons m ms)
  obtain n' t' where m: "m = (n', t')" by (cases m)
  obtain v vs' where vs: "vs = v # vs'" "length vs' = length ms" using Cons.prems(2) by (cases vs) auto
  let ?xs = "if is_empty_vector t' v then xs else case index (of_nat n') of Some i \<Rightarrow> xs[i := v] | None \<Rightarrow> xs"
  show ?case
  proof (cases k)
    case 0
    have "\<forall>m \<in> set ms. index (of_nat (fst m)) \<noteq> Some j"
    proof (intro ballI notI)
      fix m' assume m': "m' \<in> set ms" "index (of_nat (fst m')) = Some j"
      then have "fst m' = n" using Cons.prems(3,4,7,8) u32_numbers [of "fst m'" n] 0 m
        by (auto simp: index_inj_def)
      then show False using m'(1) Cons.prems(3,6) 0 m by force
    qed
    then have "place_fields index ms vs' ?xs ! j = ?xs ! j" by (rule place_fields_other)
    then show ?thesis using 0 Cons.prems(3-5,9) by (auto simp: m vs)
  next
    case (Suc l)
    have "(n, t) \<in> set ms" using Cons.prems(1,3) Suc nth_mem by fastforce
    then have "n' \<noteq> n" using Cons.prems(6) m by force
    then have "index (of_nat n') \<noteq> Some j"
      using Cons.prems(4,7,8) u32_numbers [of n' n] \<open>(n, t) \<in> set ms\<close> m by (auto simp: index_inj_def)
    then have j: "?xs ! j = xs ! j" "length ?xs = length xs" by (auto split: option.split)
    then show ?thesis
      using Cons.IH [of l vs' ?xs] Cons.prems Suc by (simp add: m vs)
  qed
qed simp

section \<open>Reading what was written\<close>

definition reads_back :: "pbty \<Rightarrow> bool" where
  "reads_back t \<longleftrightarrow> (\<forall>v x s rest. pb_typed t v \<longrightarrow> writable t v \<longrightarrow> pb_typed t x \<longrightarrow> pb_fresh t x \<longrightarrow>
     length (concat (to_protobuf_member t v)) < 2 ^ 32 \<longrightarrow> is_inv s \<longrightarrow>
     is_view s = concat (to_protobuf_member t v) @ rest \<longrightarrow> reads_to (from_protobuf_member t x s) v rest)"

definition object_back :: "pbty \<Rightarrow> bool" where
  "object_back t \<longleftrightarrow> (\<forall>v x s. pb_typed t v \<longrightarrow> writable t v \<longrightarrow> pb_typed t x \<longrightarrow> pb_fresh t x \<longrightarrow>
     length (concat (to_protobuf_object t v)) < 2 ^ 32 \<longrightarrow> is_inv s \<longrightarrow>
     is_view s = concat (to_protobuf_object t v) \<longrightarrow> (\<exists>s'. from_protobuf_object t x s = Some (Inr (v, s'))))"

lemma reads_back_object:
  assumes "is_object t" "object_back t"
  shows "reads_back t"
  unfolding reads_back_def
proof (intro allI impI)
  fix v x rest and s :: input_stream
  let ?b = "concat (to_protobuf_object t v)"
  assume v: "pb_typed t v" "writable t v" and x: "pb_typed t x" "pb_fresh t x"
    and len: "length (concat (to_protobuf_member t v)) < 2 ^ 32" and s: "is_inv s"
    and view: "is_view s = concat (to_protobuf_member t v) @ rest"
  have b: "length ?b < 2 ^ 32" using len sized_le [of ?b] member_bytes(1) [OF assms(1)] by simp
  obtain s1 where s1: "pb_varuint32 s = Some (Inr (of_nat (length ?b), s1))" "is_inv s1" "is_view s1 = ?b @ rest"
    using sized_reads [OF s _ b] view member_bytes(1) [OF assms(1)] by (auto simp: reads_to_def)
  obtain sub s2 where s2: "object_stream (length ?b) s1 = Some (Inr (sub, s2))" "is_inv sub" "is_view sub = ?b"
    "is_inv s2" "is_view s2 = rest"
    using object_stream_reads [OF s1(2,3)] by blast
  obtain s3 where "from_protobuf_object t x sub = Some (Inr (v, s3))"
    using assms(2) v x b s2(2,3) unfolding object_back_def by blast
  moreover have "t \<noteq> PB_string" "t \<noteq> PB_bytes" "t \<noteq> PB_num k" for k
    using assms(1) by (auto simp: is_object_def)
  ultimately show "reads_to (from_protobuf_member t x s) v rest"
    using s1 s2 unat_of_nat_u32 [OF b]
    by (cases t) (auto simp: from_protobuf_member.simps reads_to_def)
qed

lemma reads_back_text: "t = PB_string \<or> t = PB_bytes \<Longrightarrow> reads_back t"
  unfolding reads_back_def
proof (intro allI impI)
  fix v x rest and s :: input_stream
  assume t: "t = PB_string \<or> t = PB_bytes" and v: "pb_typed t v"
    and len: "length (concat (to_protobuf_member t v)) < 2 ^ 32" and s: "is_inv s"
    and view: "is_view s = concat (to_protobuf_member t v) @ rest"
  then obtain bs where bs: "v = PV_string bs" by auto
  have b: "length bs < 2 ^ 32" using len sized_le [of bs] member_bytes(2) [OF t] by (simp add: bs)
  obtain s1 where s1: "pb_varuint32 s = Some (Inr (of_nat (length bs), s1))" "is_inv s1" "is_view s1 = bs @ rest"
    using sized_reads [OF s _ b] view member_bytes(2) [OF t] by (auto simp: reads_to_def bs)
  show "reads_to (from_protobuf_member t x s) v rest"
    using t s1 unat_of_nat_u32 [OF b] pb_read_reads [OF s1(2,3)]
    by (auto simp: from_protobuf_member.simps reads_to_def bs)
qed

lemma read_number_reads:
  assumes "num_convert k x = x" "num_wire_type k = 0 \<longrightarrow> 0 \<le> x" "is_inv s"
    and "is_view s = concat (to_protobuf_member (PB_num k) (PV_num x)) @ rest"
  shows "reads_to (read_number k y s) (PV_num x) rest"
proof (cases "num_wire_type k = 0")
  case True
  then have x: "0 \<le> x" "x < 2 ^ 32" using assms(1,2) varint_range by auto
  have "reads_to (pb_varuint32 s) (word_of_int x) rest"
    using assms(3,4) member_bytes(3) [OF True] varint_written [OF x] by (intro pb_varuint32_reads) simp_all
  then show ?thesis using True assms(1) varint_written(2) [OF x] by (auto simp: read_number_def reads_to_def)
next
  case False
  then have w: "num_wire_type k = 5 \<or> num_wire_type k = 1" by (cases k) simp_all
  have "reads_to (pb_read (num_size k) s) (num_image k x) rest"
    using pb_read_reads [OF assms(3), of "num_image k x"] assms(4) member_bytes(4) [OF False] by simp
  then show ?thesis using w num_value_image [OF assms(1)] by (auto simp: read_number_def reads_to_def)
qed

lemma reads_back_num: "reads_back (PB_num k)"
  using read_number_reads by (auto simp: reads_back_def from_protobuf_member.simps)


lemma member_index_Some: "member_index ns a = Some i \<Longrightarrow> i < length ns \<and> ns ! i = unat a"
  by (induction ns a arbitrary: i rule: member_index.induct) (auto split: if_splits)

lemma member_index_nth:
  "distinct ns \<Longrightarrow> i < length ns \<Longrightarrow> ns ! i < 2 ^ 29 \<Longrightarrow> member_index ns (of_nat (ns ! i)) = Some i"
proof (induction ns arbitrary: i)
  case (Cons n ns)
  then show ?case
  proof (cases i)
    case (Suc j)
    then have "unat (of_nat (ns ! j) :: u32) = ns ! j" using Cons.prems(3) by (intro unat_of_nat_u32) simp
    then show ?thesis using Cons Suc nth_mem by fastforce
  qed (simp add: unat_of_nat_u32)
qed simp

lemma index_injs: "index_inj (member_index ns)" "index_inj (tuple_index n)"
proof -
  show "index_inj (member_index ns)"
    by (auto simp: index_inj_def word_eq_iff_unsigned [where 'a = nat] dest!: member_index_Some)
  show "index_inj (tuple_index n)"
    by (auto simp: index_inj_def tuple_index_def word_eq_iff_unsigned [where 'a = nat, symmetric] split: if_splits)
qed

lemma tuple_index_nth: "i < n \<Longrightarrow> n < 2 ^ 29 \<Longrightarrow> tuple_index n (1 + of_nat i) = Some i"
  using unat_of_nat_u32 [of i] by (simp add: tuple_index_def)

lemma field_written:
  assumes "list_all2 P ms vs" "k < length ms" "ms ! k = (n, t)" "\<not> is_empty_vector t (vs ! k)"
  shows "length (concat (to_protobuf_member t (vs ! k))) \<le> length (fields_bytes ms vs)"
  using assms
proof (induction arbitrary: k rule: list_all2_induct)
  case (Cons m ms v vs)
  show ?case
  proof (cases k)
    case 0
    with Cons show ?thesis by (cases m) simp
  next
    case (Suc l)
    then have "length (concat (to_protobuf_member t (vs ! l))) \<le> length (fields_bytes ms vs)"
      using Cons.prems by (intro Cons.IH) auto
    then show ?thesis using Suc by (cases m) simp
  qed
qed simp

lemma small_number_writable: "writable t v \<Longrightarrow> small_number t v"
  by (cases t) (auto simp: small_number_def split: pbval.splits)

text \<open>
  Fields of one type read with another: the members both have, under the same number and with the
  same type, are read, the others are skipped if \<^verbatim>\<open>unknown\<close> is \<^verbatim>\<open>skip_member\<close>.
\<close>

lemma fields_ok:
  assumes vs: "list_all2 (\<lambda>m v. pb_typed (snd m) v \<and> writable (snd m) v) ms vs"
    and ms: "\<forall>m \<in> set ms. fst m < 2 ^ 29"
    and xs: "list_all2 pb_typed ts xs" "list_all2 pb_fresh ts xs"
    and len: "length (fields_bytes ms vs) < 2 ^ 32"
    and same: "\<And>n t i. (n, t) \<in> set ms \<Longrightarrow> index (of_nat n) = Some i \<Longrightarrow> i < length ts \<and> ts ! i = t \<and> reads_back t"
    and unknown: "\<And>n t. (n, t) \<in> set ms \<Longrightarrow> index (of_nat n) = None \<Longrightarrow> unknown = skip_member"
  shows "list_all2 (field_ok index unknown (map from_protobuf_member ts) xs) ms vs"
proof (rule list_all2_all_nthI)
  show "length ms = length vs" using vs by (rule list_all2_lengthD)
  fix k assume k: "k < length ms"
  obtain n t where m: "ms ! k = (n, t)" by (cases "ms ! k")
  then have mem: "(n, t) \<in> set ms" using k nth_mem by metis
  have v: "pb_typed t (vs ! k)" "writable t (vs ! k)" using list_all2_nthD [OF vs k] m by simp_all
  have small: "length (concat (to_protobuf_member t (vs ! k))) < 2 ^ 32" if "\<not> is_empty_vector t (vs ! k)"
    using field_written [OF vs k m that] len by simp
  have l: "length xs = length ts" using xs(1) by (simp add: list_all2_lengthD)
  have known: "reads_to (from_protobuf_member (ts ! i) (xs ! i) s) (vs ! k) rest"
    if "index (of_nat n) = Some i" "\<not> is_empty_vector t (vs ! k)" "is_inv s"
      "is_view s = concat (to_protobuf_member t (vs ! k)) @ rest" for i s rest
    using same [OF mem that(1)] list_all2_nthD [OF xs(1), of i] list_all2_nthD [OF xs(2), of i] v small that(2-)
    unfolding reads_back_def by blast
  show "field_ok index unknown (map from_protobuf_member ts) xs (ms ! k) (vs ! k)"
    unfolding m field_ok_def using same [OF mem] unknown [OF mem] ms mem l known small
      skip_member_skips [OF v(1) small_number_writable [OF v(2)]]
    by (auto split: option.split)
qed

lemma list_all2_snd_zip:
  assumes "length ns = length ts" "list_all2 P ts vs"
  shows "list_all2 (\<lambda>m v. P (snd m) v) (zip ns ts) vs"
  using assms(2,1) by (auto simp: list_all2_conv_all_nth)

lemma place_fields_all:
  assumes "length ns = length ts" "length vs = length ts" "length xs = length ts" "distinct ns"
    and "\<forall>n \<in> set ns. n < 2 ^ 29" "index_inj index"
    and "\<And>k. k < length ns \<Longrightarrow> index (of_nat (ns ! k)) = Some k" "list_all2 pb_fresh ts xs"
  shows "place_fields index (zip ns ts) vs xs = vs"
proof (rule nth_equalityI)
  fix k assume "k < length (place_fields index (zip ns ts) vs xs)"
  then have k: "k < length ts" using assms(3) by simp
  have "xs ! k = vs ! k" if "is_empty_vector (ts ! k) (vs ! k)"
    using that list_all2_nthD [OF assms(8) k] by (auto simp: is_empty_vector_def split: pbty.splits)
  then show "place_fields index (zip ns ts) vs xs ! k = vs ! k"
    using assms k by (intro place_fields_nth [of k _ vs "ns ! k" "ts ! k"]) (auto dest: set_zip_leftD)
qed (simp add: assms)

lemma object_back_fields:
  assumes bytes: "\<And>vs. concat (to_protobuf_object t (PV_list vs)) = fields_bytes (zip ns ts) vs"
    and reader: "\<And>xs s. from_protobuf_object t (PV_list xs) s =
      list_value (while_remaining (read_field index unknown (map from_protobuf_member ts)) xs s)"
    and shape: "\<And>v. pb_typed t v \<longleftrightarrow> (\<exists>vs. v = PV_list vs \<and> list_all2 pb_typed ts vs)"
      "\<And>vs. writable t (PV_list vs) \<longleftrightarrow> list_all2 writable ts vs"
      "\<And>vs. pb_fresh t (PV_list vs) \<longleftrightarrow> list_all2 pb_fresh ts vs"
    and ns: "length ns = length ts" "distinct ns" "\<forall>n \<in> set ns. n < 2 ^ 29" "index_inj index"
      "\<And>k. k < length ns \<Longrightarrow> index (of_nat (ns ! k)) = Some k"
    and members: "\<forall>t \<in> set ts. reads_back t"
  shows "object_back t"
  unfolding object_back_def
proof (intro allI impI)
  fix v x and s :: input_stream
  assume v: "pb_typed t v" "writable t v" and x: "pb_typed t x" "pb_fresh t x"
    and len: "length (concat (to_protobuf_object t v)) < 2 ^ 32" and s: "is_inv s"
    and view: "is_view s = concat (to_protobuf_object t v)"
  from v obtain vs where vs: "v = PV_list vs" "list_all2 pb_typed ts vs" "list_all2 writable ts vs"
    by (auto simp: shape)
  from x obtain xs where xs: "x = PV_list xs" "list_all2 pb_typed ts xs" "list_all2 pb_fresh ts xs"
    by (auto simp: shape)
  have l: "length vs = length ts" "length xs = length ts"
    using vs(2) xs(2) list_all2_lengthD by force+
  have in_ns: "\<exists>k < length ts. n = ns ! k \<and> t = ts ! k" if "(n, t) \<in> set (zip ns ts)" for n t
    using that ns(1) by (auto simp: in_set_zip)
  have "list_all2 (field_ok index unknown (map from_protobuf_member ts) xs) (zip ns ts) vs"
  proof (rule fields_ok [OF _ _ xs(2,3)])
    show "list_all2 (\<lambda>m v. pb_typed (snd m) v \<and> writable (snd m) v) (zip ns ts) vs"
      using vs(2,3) ns(1) by (auto simp: list_all2_conv_all_nth)
    show "i < length ts \<and> ts ! i = t \<and> reads_back t" if "(n, t) \<in> set (zip ns ts)" "index (of_nat n) = Some i" for n t i
      using in_ns [OF that(1)] ns(1,5) that(2) members by auto
    show "unknown = skip_member" if "(n, t) \<in> set (zip ns ts)" "index (of_nat n) = None" for n t
      using in_ns [OF that(1)] ns(1,5) that(2) by auto
  qed (use ns(3) len bytes vs(1) in \<open>auto dest: set_zip_leftD\<close>)
  from fields_read [OF this _ ns(4) s]
  have "reads_to (while_remaining (read_field index unknown (map from_protobuf_member ts)) xs s)
      (place_fields index (zip ns ts) vs xs) []"
    using view ns(1,2) bytes vs(1) by simp
  moreover have "place_fields index (zip ns ts) vs xs = vs"
    using ns l xs(3) by (intro place_fields_all) auto
  ultimately show "\<exists>s'. from_protobuf_object t x s = Some (Inr (v, s'))"
    by (auto simp: reader list_value_def reads_to_def vs(1) xs(1))
qed

lemma object_back_struct:
  assumes "pb_wf (PB_struct ns ds ts)" "\<forall>t \<in> set ts. reads_back t"
  shows "object_back (PB_struct ns ds ts)"
  using assms
  by (intro object_back_fields [of _ ns ts "member_index ns" skip_member])
    (auto simp: pb_struct_bytes from_protobuf_object.simps items_def index_injs member_index_nth)

lemma object_back_tuple:
  assumes "pb_wf (PB_tuple ts)" "\<forall>t \<in> set ts. reads_back t"
  shows "object_back (PB_tuple ts)"
  using assms
  by (intro object_back_fields [of _ "[1..<Suc (length ts)]" ts "tuple_index (length ts)" tuple_unknown])
    (auto simp: pb_struct_bytes from_protobuf_object.simps items_def index_injs tuple_index_nth enumerate_eq_zip simp del: upt_Suc)


lemma object_back_variant:
  assumes "pb_wf (PB_variant ts)" "\<forall>t \<in> set ts. reads_back t"
  shows "object_back (PB_variant ts)"
  unfolding object_back_def
proof (intro allI impI)
  fix v x and s :: input_stream
  assume v: "pb_typed (PB_variant ts) v" "writable (PB_variant ts) v"
    and len: "length (concat (to_protobuf_object (PB_variant ts) v)) < 2 ^ 32" and s: "is_inv s"
    and view: "is_view s = concat (to_protobuf_object (PB_variant ts) v)"
  then obtain i y where y: "v = PV_variant i y" "i < length ts" "pb_typed (ts ! i) y" "writable (ts ! i) y"
    "\<not> is_empty_vector (ts ! i) y"
    by auto
  let ?m = "concat (to_protobuf_member (ts ! i) y)"
  have b: "concat (to_protobuf_object (PB_variant ts) v) = concat (write_key (i + 1) (wire_type (ts ! i))) @ ?m"
    using y(2,5) by (simp add: y(1) to_protobuf_object.simps write_protobuf_field_def)
  have i: "i + 1 < 2 ^ 29 \<or> i + 1 = 2 ^ 29" "i < 2 ^ 29" using y(2) assms(1) by auto
  have n: "i + 1 < 2 ^ 29" using y(2) assms(1) by simp
  obtain s1 where s1: "read_key s = Some (Inr ((wire_type (ts ! i), of_nat (i + 1)), s1))" "is_inv s1" "is_view s1 = ?m"
    using read_key_reads [OF s, of "i + 1" "wire_type (ts ! i)" ?m] view b n wire_type_less
    by (auto simp: reads_to_def)
  have "set_variant (length ts) (of_nat (i + 1) - 1) = Some i"
    using y(2) unat_of_nat_u32 [of i] n by (simp add: set_variant_def)
  moreover have "reads_to (from_protobuf_member (ts ! i) (pb_init (ts ! i)) s1) y []"
    using assms y(2-4) s1(2,3) len b pb_init_ok [of "ts ! i"] unfolding reads_back_def by auto
  ultimately show "\<exists>s'. from_protobuf_object (PB_variant ts) x s = Some (Inr (v, s'))"
    using y(1,2) s1(1) by (auto simp: from_protobuf_object.simps reads_to_def)
qed

lemma num_values_packed:
  "\<forall>v \<in> set vs. pb_typed (PB_num k) v \<Longrightarrow> num_values k (length vs) (packed_image (PB_num k) vs) = vs"
  by (induction vs) (auto simp: packed_image_def num_value_image)

lemma packed_length:
  "\<forall>v \<in> set vs. pb_typed (PB_num k) v \<Longrightarrow> length (packed_image (PB_num k) vs) = length vs * num_size k"
  by (induction vs) (auto simp: packed_image_def)

lemma object_back_packed: "object_back (PB_vector (PB_num k))"
  unfolding object_back_def
proof (intro allI impI)
  fix v x and s :: input_stream
  let ?T = "PB_vector (PB_num k)"
  assume v: "pb_typed ?T v" and len: "length (concat (to_protobuf_object ?T v)) < 2 ^ 32" and s: "is_inv s"
    and view: "is_view s = concat (to_protobuf_object ?T v)"
  then obtain vs where vs: "v = PV_list vs" "\<forall>v \<in> set vs. pb_typed (PB_num k) v" by auto
  let ?p = "packed_image (PB_num k) vs"
  have b: "concat (to_protobuf_object ?T v) =
      concat (write_key 1 2) @ concat (varuint32_to_bin (ucast (of_nat (length ?p) :: u32))) @ ?p"
    by (simp add: vs(1) to_protobuf_object.simps is_arithmetic_def)
  have n: "length ?p < 2 ^ 32" using len b by simp
  obtain s1 where s1: "read_key s = Some (Inr ((2, 1), s1))" "is_inv s1"
    "is_view s1 = concat (varuint32_to_bin (ucast (of_nat (length ?p) :: u32))) @ ?p"
    using read_key_reads [OF s, of 1 2] view b by (auto simp: reads_to_def)
  obtain s2 where s2: "pb_varuint32 s1 = Some (Inr (of_nat (length ?p), s2))" "is_inv s2" "is_view s2 = ?p"
    using pb_varuint32_reads [OF s1(2,3)] by (auto simp: reads_to_def)
  obtain s3 where s3: "pb_read (length ?p) s2 = Some (Inr (?p, s3))"
    using pb_read_reads [OF s2(2), of ?p "[]"] s2(3) by (auto simp: reads_to_def)
  have "length ?p div num_size k = length vs"
    using packed_length [OF vs(2)] num_size_pos [of k] by simp
  then have "read_packed k s = Some (Inr (PV_list vs, s3))"
    using s1(1) s2 s3 unat_of_nat_u32 [OF n] num_values_packed [OF vs(2)] packed_length [OF vs(2)]
    by (simp add: read_packed_def remaining_view)
  then show "\<exists>s'. from_protobuf_object ?T x s = Some (Inr (v, s'))"
    by (simp add: from_protobuf_object.simps is_arithmetic_def vs(1))
qed

lemma items_read:
  assumes "reads_back t" "pb_wf t" "\<forall>v \<in> set vs. pb_typed t v \<and> writable t v"
    and "length (concat (write_items (to_protobuf_member t) vs)) < 2 ^ 32"
    and "is_inv s" "is_view s = concat (write_items (to_protobuf_member t) vs)"
  shows "reads_to (while_remaining (read_item (from_protobuf_member t) (pb_init t)) us s) (us @ vs) []"
  using assms
proof (induction vs arbitrary: us s)
  case Nil
  then show ?case by (simp add: while_end reads_to_return)
next
  case (Cons v vs)
  let ?step = "read_item (from_protobuf_member t) (pb_init t)"
  let ?rest = "concat (write_items (to_protobuf_member t) vs)"
  have view: "is_view s = concat (write_key 1 2) @ concat (to_protobuf_member t v) @ ?rest"
    using Cons.prems(6) by simp
  obtain s1 where s1: "read_key s = Some (Inr ((2, 1), s1))" "is_inv s1"
    "is_view s1 = concat (to_protobuf_member t v) @ ?rest"
    using read_key_reads [OF Cons.prems(5) view] by (auto simp: reads_to_def)
  have "reads_to (from_protobuf_member t (pb_init t) s1) v ?rest"
    using Cons.prems(1-4) s1(2,3) pb_init_ok [of t] unfolding reads_back_def by auto
  then have "reads_to (?step us s) (us @ [v]) ?rest"
    using s1(1) by (auto simp: read_item_def reads_to_def)
  moreover have "is_view s \<noteq> []" using view write_key_not_Nil [of 1 2] by simp
  ultimately obtain s' where "is_inv s'" "is_view s' = ?rest" "while_remaining ?step us s = while_remaining ?step (us @ [v]) s'"
    using while_step [where step = ?step and v = us, OF Cons.prems(5)] by blast
  then show ?case using Cons.IH [of s' "us @ [v]"] Cons.prems(1-4) by simp
qed

lemma object_back_vector:
  assumes "pb_wf t" "reads_back t"
  shows "object_back (PB_vector t)"
proof (cases "is_arithmetic t")
  case True
  then show ?thesis using object_back_packed by (cases t) (simp_all add: is_arithmetic_def)
next
  case False
  then have reader: "from_protobuf_object (PB_vector t) x s =
      list_value (while_remaining (read_item (from_protobuf_member t) (pb_init t)) [] s)" for x s
    by (cases t) (simp_all add: is_arithmetic_def from_protobuf_object.simps)
  have "concat (to_protobuf_object (PB_vector t) (PV_list vs)) = concat (write_items (to_protobuf_member t) vs)" for vs
    using False by (simp add: to_protobuf_object.simps)
  then show ?thesis
    using items_read [OF assms(2,1), where us = "[]"]
    by (fastforce simp: object_back_def reader list_value_def reads_to_def)
qed

lemma not_writable_varuint32: "reads_back PB_varuint32"
  by (simp add: reads_back_def)

lemma all_back: "pb_wf t \<Longrightarrow> reads_back t \<and> (is_object t \<longrightarrow> object_back t)"
proof (induction t)
  case (PB_vector t)
  then have "object_back (PB_vector t)" by (intro object_back_vector) auto
  then show ?case using reads_back_object [of "PB_vector t"] by (simp add: is_object_def)
next
  case (PB_tuple ts)
  then have "object_back (PB_tuple ts)" by (intro object_back_tuple) auto
  then show ?case using reads_back_object [of "PB_tuple ts"] by (simp add: is_object_def)
next
  case (PB_variant ts)
  then have "object_back (PB_variant ts)" by (intro object_back_variant) auto
  then show ?case using reads_back_object [of "PB_variant ts"] by (simp add: is_object_def)
next
  case (PB_struct ns ds ts)
  then have "object_back (PB_struct ns ds ts)" by (intro object_back_struct) auto
  then show ?case using reads_back_object [of "PB_struct ns ds ts"] by (simp add: is_object_def)
qed (simp_all add: reads_back_num reads_back_text not_writable_varuint32 is_object_def)

end
