(* ===== verification/Clio_Protobuf_Props.thy ===== *)
theory Clio_Protobuf_Props
  imports Clio_Protobuf_Read
begin

text \<open>
  The properties of the protobuf encoding: round trip, versions, arbitrary input, messages without
  a type, and the values that are written but not read back.
\<close>

section \<open>Arbitrary input\<close>

text \<open>Vectors that are copied as a whole have elements of one byte.\<close>

fun byte_packed :: "pbty \<Rightarrow> bool" where
  "byte_packed (PB_vector t) \<longleftrightarrow> (case t of PB_num k \<Rightarrow> num_size k = 1 | _ \<Rightarrow> byte_packed t)"
| "byte_packed (PB_tuple ts) \<longleftrightarrow> (\<forall>t \<in> set ts. byte_packed t)"
| "byte_packed (PB_variant ts) \<longleftrightarrow> (\<forall>t \<in> set ts. byte_packed t)"
| "byte_packed (PB_struct ns ds ts) \<longleftrightarrow> (\<forall>t \<in> set ts. byte_packed t)"
| "byte_packed _ \<longleftrightarrow> True"

text \<open>The reader returns: an error, or a value with a stream that has at most \<^verbatim>\<open>n\<close> bytes.\<close>

fun pb_ok :: "bool \<Rightarrow> ('a \<Rightarrow> bool) \<Rightarrow> nat \<Rightarrow> ('a \<times> input_stream) pb \<Rightarrow> bool" where
  "pb_ok bp P n None \<longleftrightarrow> False"
| "pb_ok bp P n (Some (Inl e)) \<longleftrightarrow> (e = Memory_Fault \<longrightarrow> \<not> bp)"
| "pb_ok bp P n (Some (Inr (v, s))) \<longleftrightarrow> P v \<and> is_inv s \<and> length (is_view s) \<le> n"

fun skip_ok :: "nat \<Rightarrow> input_stream pb \<Rightarrow> bool" where
  "skip_ok n None \<longleftrightarrow> False"
| "skip_ok n (Some (Inl e)) \<longleftrightarrow> e \<noteq> Memory_Fault"
| "skip_ok n (Some (Inr s)) \<longleftrightarrow> is_inv s \<and> length (is_view s) \<le> n"

lemma pb_ok_bind:
  "pb_ok bp P n r \<Longrightarrow> (\<And>v s. P v \<Longrightarrow> is_inv s \<Longrightarrow> length (is_view s) \<le> n \<Longrightarrow> pb_ok bp Q m (f (v, s))) \<Longrightarrow>
   pb_ok bp Q m (fbind r f)"
  by (cases "(bp, P, n, r)" rule: pb_ok.cases) auto

lemma skip_ok_bind:
  "skip_ok n r \<Longrightarrow> (\<And>s. is_inv s \<Longrightarrow> length (is_view s) \<le> n \<Longrightarrow> pb_ok bp Q m (f s)) \<Longrightarrow> pb_ok bp Q m (fbind r f)"
  by (cases "(n, r)" rule: skip_ok.cases) auto

lemma pb_ok_skip_bind:
  "pb_ok True P n r \<Longrightarrow> (\<And>v s. P v \<Longrightarrow> is_inv s \<Longrightarrow> length (is_view s) \<le> n \<Longrightarrow> skip_ok m (f (v, s))) \<Longrightarrow>
   skip_ok m (fbind r f)"
  by (cases "(True, P, n, r)" rule: pb_ok.cases) auto

lemma skip_ok_mono: "skip_ok n r \<Longrightarrow> n \<le> m \<Longrightarrow> skip_ok m r"
  by (cases "(n, r)" rule: skip_ok.cases) auto

lemma pb_ok_mono:
  "pb_ok bp P n r \<Longrightarrow> (bp' \<Longrightarrow> bp) \<Longrightarrow> n \<le> m \<Longrightarrow> (\<And>x. P x \<Longrightarrow> Q x) \<Longrightarrow> pb_ok bp' Q m r"
  by (cases "(bp, P, n, r)" rule: pb_ok.cases) auto

text \<open>Sequences of reads, with the bound that is left at each point.\<close>

lemma pb_ok_then:
  "pb_ok bp P n r \<Longrightarrow> n \<le> m \<Longrightarrow>
   (\<And>v s. P v \<Longrightarrow> is_inv s \<Longrightarrow> pb_ok bp Q (length (is_view s)) (f (v, s))) \<Longrightarrow> pb_ok bp Q m (fbind r f)"
  by (erule pb_ok_bind, rule pb_ok_mono) (assumption | simp)+

lemma skip_ok_then:
  "skip_ok n r \<Longrightarrow> n \<le> m \<Longrightarrow> (\<And>s. is_inv s \<Longrightarrow> pb_ok bp Q (length (is_view s)) (f s)) \<Longrightarrow>
   pb_ok bp Q m (fbind r f)"
  by (erule skip_ok_bind, rule pb_ok_mono) (assumption | simp)+

lemma varuint_loop_shrinks:
  "varuint_read_loop source_read limit shift dest bs = Inr (v, rest) \<Longrightarrow> length rest < length bs"
proof (induction "limit - shift" arbitrary: shift dest bs rule: less_induct)
  case less
  show ?case
  proof (cases "limit \<le> shift \<or> bs = []")
    case True
    with less.prems show ?thesis
      by (auto simp: varuint_read_loop.simps [of _ limit shift dest bs] source_read_def split: if_splits)
  next
    case False
    then obtain b bs' where bs: "bs = b # bs'" by (cases bs) auto
    let ?d = "dest OR push_bit shift (ucast (b AND 0x7f))"
    have "(if b AND 0x80 \<noteq> 0 then varuint_read_loop source_read limit (shift + 7) ?d bs'
        else Inr (?d, bs')) = Inr (v, rest)"
      using less.prems False by (simp add: bs varuint_read_loop.simps [of _ limit shift dest] Let_def split: if_splits)
    moreover have "limit - (shift + 7) < limit - shift" using False by auto
    ultimately show ?thesis
      using less.hyps [of "shift + 7" ?d bs'] bs by (auto split: if_splits)
  qed
qed

lemma pb_varuint32_ok:
  assumes "is_inv s"
  shows "pb_ok bp (\<lambda>_. True) (length (is_view s) - 1) (pb_varuint32 s)"
  using ist.varuint32_from_bin_sim [OF assms] varuint_loop_shrinks [of 35 0 0 "is_view s"]
  by (fastforce simp: sim_res_def pb_varuint32_def may_throw_def varuint32_from_bin_def split: sum.splits)

lemma pb_read_ok: "is_inv s \<Longrightarrow> pb_ok bp (\<lambda>bs. length bs = n) (length (is_view s)) (pb_read n s)"
  using is_read_sim [of s n] length_drop [of n "is_view s"]
  by (auto simp: sim_res_def pb_read_def may_throw_def source_read_def split: sum.splits if_splits
      simp del: length_drop)

lemma pb_skip_ok: "is_inv s \<Longrightarrow> skip_ok (length (is_view s)) (pb_skip n s)"
  using is_skip_view [of s n]
  by (cases "n \<le> length (is_view s)")
    (auto simp: pb_skip_def may_throw_def is_skip_def remaining_view)

lemma read_key_ok: "is_inv s \<Longrightarrow> pb_ok bp (\<lambda>_. True) (length (is_view s) - 1) (read_key s)"
  unfolding read_key_def by (rule pb_ok_bind [OF pb_varuint32_ok]) auto

lemma skip_member_ok: "is_inv s \<Longrightarrow> skip_ok (length (is_view s)) (skip_member wire s)"
  unfolding skip_member_def
  using pb_skip_ok pb_skip_ok [THEN skip_ok_mono]
  by (auto intro!: pb_ok_skip_bind [OF pb_varuint32_ok])

lemma while_ok:
  assumes "\<And>v s. P v \<Longrightarrow> is_inv s \<Longrightarrow> is_view s \<noteq> [] \<Longrightarrow> pb_ok bp P (length (is_view s) - 1) (step v s)"
    and "P v" "is_inv s"
  shows "pb_ok bp P (length (is_view s)) (while_remaining step v s)"
  using assms(2,3)
proof (induction "length (is_view s)" arbitrary: v s rule: less_induct)
  case less
  show ?case
  proof (cases "is_view s = []")
    case True
    then show ?thesis using less.prems by (simp add: while_end)
  next
    case False
    have ok: "pb_ok bp P (length (is_view s) - 1) (step v s)" using assms(1) less.prems False by blast
    have loop: "while_remaining step v s = Option.bind (step v s)
        (\<lambda>r. case r of Inl e \<Rightarrow> Some (Inl e) | Inr (v, s) \<Rightarrow> while_remaining step v s)"
      using less.prems False by (subst while_remaining.simps) (simp add: remaining_view)
    show ?thesis
    proof (cases "step v s")
      case (Some q)
      then show ?thesis
      proof (cases q)
        case (Inr vs)
        obtain v' s' where "q = Inr (v', s')" using Inr by (cases vs) auto
        moreover from this have "P v'" "is_inv s'" "length (is_view s') < length (is_view s)"
          using ok Some False by (auto simp: Suc_le_eq [symmetric]) (cases "is_view s"; simp)
        ultimately show ?thesis
          using less.hyps [of s' v'] Some by (auto simp: loop elim!: pb_ok_mono)
      qed (use ok Some in \<open>simp add: loop\<close>)
    qed (use ok in simp)
  qed
qed

lemma read_field_ok:
  assumes rds: "\<And>i x s. i < length ts \<Longrightarrow> pb_typed (ts ! i) x \<Longrightarrow> is_inv s \<Longrightarrow>
      pb_ok bp (pb_typed (ts ! i)) (length (is_view s)) ((rds ! i) x s)"
    and index: "\<And>a i. index a = Some i \<Longrightarrow> i < length ts"
    and unknown: "\<And>w s. is_inv s \<Longrightarrow> skip_ok (length (is_view s)) (unknown w s)"
    and xs: "list_all2 pb_typed ts xs" and s: "is_inv s"
  shows "pb_ok bp (list_all2 pb_typed ts) (length (is_view s) - 1) (read_field index unknown rds xs s)"
proof -
  have known: "pb_ok bp (list_all2 pb_typed ts) (length (is_view s1))
      (fbind ((rds ! i) (xs ! i) s1) (\<lambda>(x, s). Some (Inr (xs[i := x], s))))"
    if i: "i < length ts" and s1: "is_inv s1" for i s1
  proof -
    have "pb_ok bp (pb_typed (ts ! i)) (length (is_view s1)) ((rds ! i) (xs ! i) s1)"
      using rds [OF i _ s1] list_all2_nthD [OF xs i] by blast
    then show ?thesis
      by (rule pb_ok_bind) (use list_all2_update_cong [OF xs, of "ts ! i" _ i] in auto)
  qed
  have skipped: "pb_ok bp (list_all2 pb_typed ts) (length (is_view s1)) (fbind (unknown w s1) (\<lambda>s. Some (Inr (xs, s))))"
    if "is_inv s1" for w s1
    using unknown [OF that] by (rule skip_ok_bind) (use xs in auto)
  show ?thesis
    unfolding read_field_def
    by (rule pb_ok_bind [OF read_key_ok [OF s]])
      (auto split: option.split intro: pb_ok_mono [OF known [OF index]] pb_ok_mono [OF skipped])
qed

lemma fields_loop_ok:
  assumes "\<And>i x s. i < length ts \<Longrightarrow> pb_typed (ts ! i) x \<Longrightarrow> is_inv s \<Longrightarrow>
      pb_ok bp (pb_typed (ts ! i)) (length (is_view s)) ((rds ! i) x s)"
    and "\<And>a i. index a = Some i \<Longrightarrow> i < length ts"
    and "\<And>w s. is_inv s \<Longrightarrow> skip_ok (length (is_view s)) (unknown w s)"
    and "list_all2 pb_typed ts xs" "is_inv s"
  shows "pb_ok bp (list_all2 pb_typed ts) (length (is_view s)) (while_remaining (read_field index unknown rds) xs s)"
proof (rule while_ok [where P = "list_all2 pb_typed ts", OF _ assms(4,5)])
  fix v and s :: input_stream
  assume "list_all2 pb_typed ts v" "is_inv s"
  from read_field_ok [where rds = rds and index = index and unknown = unknown, OF assms(1-3) this]
  show "pb_ok bp (list_all2 pb_typed ts) (length (is_view s) - 1) (read_field index unknown rds v s)" .
qed

lemma list_value_ok:
  "pb_ok bp P n r \<Longrightarrow> (\<And>vs. P vs \<Longrightarrow> Q (PV_list vs)) \<Longrightarrow> pb_ok bp Q n (list_value r)"
  unfolding list_value_def by (erule pb_ok_bind) auto

lemma read_number_ok: "is_inv s \<Longrightarrow> pb_ok bp (pb_typed (PB_num k)) (length (is_view s)) (read_number k x s)"
  unfolding read_number_def
  by (auto simp: num_value_def intro!: pb_ok_bind [OF pb_read_ok] pb_ok_bind [OF pb_varuint32_ok])

definition pb_safe :: "pbty \<Rightarrow> bool" where
  "pb_safe t \<longleftrightarrow> (\<forall>x s. pb_typed t x \<longrightarrow> is_inv s \<longrightarrow>
     pb_ok (byte_packed t) (pb_typed t) (length (is_view s)) (from_protobuf_member t x s))"

lemma pb_safeD:
  "pb_safe t \<Longrightarrow> pb_typed t x \<Longrightarrow> is_inv s \<Longrightarrow> (bp \<Longrightarrow> byte_packed t) \<Longrightarrow>
   pb_ok bp (pb_typed t) (length (is_view s)) (from_protobuf_member t x s)"
  unfolding pb_safe_def by (blast intro: pb_ok_mono)

definition pb_object_safe :: "pbty \<Rightarrow> bool" where
  "pb_object_safe t \<longleftrightarrow> (\<forall>x s. pb_typed t x \<longrightarrow> is_inv s \<longrightarrow>
     pb_ok (byte_packed t) (pb_typed t) (length (is_view s)) (from_protobuf_object t x s))"

lemma object_stream_ok:
  "is_inv s \<Longrightarrow> pb_ok bp (\<lambda>sub. is_inv sub \<and> length (is_view sub) = n) (length (is_view s) - n) (object_stream n s)"
  using object_stream_reads [of s "take n (is_view s)" "drop n (is_view s)"]
  by (cases "n \<le> length (is_view s)") (auto simp: object_stream_def remaining_view)

lemma pb_safe_object:
  assumes "is_object t \<or> t = PB_varuint32" "pb_object_safe t"
  shows "pb_safe t"
  unfolding pb_safe_def
proof (intro allI impI)
  fix x and s :: input_stream
  assume x: "pb_typed t x" and s: "is_inv s"
  have "t \<noteq> PB_string" "t \<noteq> PB_bytes" "\<And>k. t \<noteq> PB_num k" using assms(1) by (auto simp: is_object_def)
  then have member: "from_protobuf_member t x s =
      fbind (pb_varuint32 s) (\<lambda>(n, s). fbind (object_stream (unat n) s) (\<lambda>(objstream, s).
        fbind (from_protobuf_object t x objstream) (\<lambda>(v, _). Some (Inr (v, s)))))"
    by (cases t) (auto simp: from_protobuf_member.simps)
  show "pb_ok (byte_packed t) (pb_typed t) (length (is_view s)) (from_protobuf_member t x s)"
    unfolding member
  proof (rule pb_ok_bind [OF pb_varuint32_ok [OF s]], clarify)
    fix n :: u32 and s1 :: input_stream
    assume s1: "is_inv s1" "length (is_view s1) \<le> length (is_view s) - 1"
    show "pb_ok (byte_packed t) (pb_typed t) (length (is_view s))
        (fbind (object_stream (unat n) s1) (\<lambda>(objstream, s).
          fbind (from_protobuf_object t x objstream) (\<lambda>(v, _). Some (Inr (v, s)))))"
      using assms(2) x s1 unfolding pb_object_safe_def
      by (fastforce intro!: pb_ok_bind [OF object_stream_ok] elim!: pb_ok_bind)
  qed
qed

lemma pb_object_safe_fields:
  assumes "\<forall>t \<in> set ts. pb_safe t" "\<And>t. t \<in> set ts \<Longrightarrow> bp \<Longrightarrow> byte_packed t"
    and "\<And>a i. index a = Some i \<Longrightarrow> i < length ts"
    and "\<And>w s. is_inv s \<Longrightarrow> skip_ok (length (is_view s)) (unknown w s)"
    and "list_all2 pb_typed ts xs" "is_inv s"
  shows "pb_ok bp (list_all2 pb_typed ts) (length (is_view s))
    (while_remaining (read_field index unknown (map from_protobuf_member ts)) xs s)"
proof (rule fields_loop_ok [OF _ assms(3-6)])
  fix i x and s :: input_stream
  assume "i < length ts" "pb_typed (ts ! i) x" "is_inv s"
  then show "pb_ok bp (pb_typed (ts ! i)) (length (is_view s)) ((map from_protobuf_member ts ! i) x s)"
    using assms(1,2) by (simp add: pb_safeD)
qed

lemma pb_object_safe_struct:
  assumes "\<forall>t \<in> set ts. pb_safe t" "length ns = length ts"
  shows "pb_object_safe (PB_struct ns ds ts)"
  unfolding pb_object_safe_def
proof (intro allI impI)
  fix x and s :: input_stream
  assume "pb_typed (PB_struct ns ds ts) x" "is_inv s"
  then obtain xs where xs: "x = PV_list xs" "list_all2 pb_typed ts xs" and s: "is_inv s" by auto
  have "pb_ok (byte_packed (PB_struct ns ds ts)) (list_all2 pb_typed ts) (length (is_view s))
      (while_remaining (read_field (member_index ns) skip_member (map from_protobuf_member ts)) xs s)"
    using assms(2) by (intro pb_object_safe_fields [OF assms(1)] skip_member_ok xs(2) s) (auto dest: member_index_Some)
  then show "pb_ok (byte_packed (PB_struct ns ds ts)) (pb_typed (PB_struct ns ds ts)) (length (is_view s))
      (from_protobuf_object (PB_struct ns ds ts) x s)"
    by (auto simp: from_protobuf_object.simps xs(1) items_def intro: list_value_ok)
qed

lemma pb_object_safe_tuple:
  assumes "\<forall>t \<in> set ts. pb_safe t"
  shows "pb_object_safe (PB_tuple ts)"
  unfolding pb_object_safe_def
proof (intro allI impI)
  fix x and s :: input_stream
  assume "pb_typed (PB_tuple ts) x" "is_inv s"
  then obtain xs where xs: "x = PV_list xs" "list_all2 pb_typed ts xs" and s: "is_inv s" by auto
  have "pb_ok (byte_packed (PB_tuple ts)) (list_all2 pb_typed ts) (length (is_view s))
      (while_remaining (read_field (tuple_index (length ts)) tuple_unknown (map from_protobuf_member ts)) xs s)"
    by (intro pb_object_safe_fields [OF assms] xs(2) s)
      (auto simp: tuple_unknown_def tuple_index_def split: if_splits)
  then show "pb_ok (byte_packed (PB_tuple ts)) (pb_typed (PB_tuple ts)) (length (is_view s))
      (from_protobuf_object (PB_tuple ts) x s)"
    by (auto simp: from_protobuf_object.simps xs(1) items_def intro: list_value_ok)
qed

lemma pb_object_safe_variant:
  assumes "\<forall>t \<in> set ts. pb_safe t \<and> pb_wf t" "ts \<noteq> []"
  shows "pb_object_safe (PB_variant ts)"
  unfolding pb_object_safe_def
proof (intro allI impI)
  fix x and s :: input_stream
  let ?T = "PB_variant ts"
  assume s: "is_inv s"
  have first: "pb_typed ?T (pb_init ?T)"
    using assms by (cases ts) (auto simp: pb_init_ok)
  define bp where "bp = byte_packed ?T"
  have alt: "pb_ok bp (pb_typed (ts ! i)) (length (is_view s1)) (from_protobuf_member (ts ! i) (pb_init (ts ! i)) s1)"
    if "i < length ts" "is_inv s1" for i s1
    using assms(1) that pb_init_ok [of "ts ! i"] by (simp add: pb_safeD bp_def)
  have "pb_ok bp (pb_typed ?T) (length (is_view s)) (from_protobuf_object ?T x s)"
    unfolding from_protobuf_object.simps
    by (rule pb_ok_then [OF read_key_ok [OF s]])
      (use first in \<open>auto simp: set_variant_def split: option.split if_splits
        intro!: pb_ok_then [OF alt] skip_ok_then [OF skip_member_ok] simp del: pb_init.simps\<close>)
  then show "pb_ok (byte_packed ?T) (pb_typed ?T) (length (is_view s)) (from_protobuf_object ?T x s)"
    by (simp only: bp_def)
qed

lemma num_values_typed: "\<forall>v \<in> set (num_values k n bs). pb_typed (PB_num k) v"
  by (induction k n bs rule: num_values.induct) (simp_all add: num_value_def)

lemma read_packed_ok:
  assumes "is_inv s" "bp \<Longrightarrow> num_size k = 1"
  shows "pb_ok bp (pb_typed (PB_vector (PB_num k))) (length (is_view s)) (read_packed k s)"
  using assms num_values_typed unfolding read_packed_def
  by (auto intro!: pb_ok_then [OF read_key_ok] pb_ok_then [OF pb_varuint32_ok] pb_ok_then [OF pb_read_ok]
      skip_ok_then [OF skip_member_ok] simp del: pb_typed_iff(1))

lemma pb_object_safe_vector:
  assumes "pb_safe t" "pb_wf t"
  shows "pb_object_safe (PB_vector t)"
  unfolding pb_object_safe_def
proof (intro allI impI)
  fix x and s :: input_stream
  assume s: "is_inv s"
  let ?P = "\<lambda>vs. \<forall>v \<in> set vs. pb_typed t v"
  define bp where "bp = byte_packed (PB_vector t)"
  have "pb_ok bp (pb_typed (PB_vector t)) (length (is_view s)) (from_protobuf_object (PB_vector t) x s)"
  proof (cases "\<exists>k. t = PB_num k")
    case True
    then show ?thesis
      using read_packed_ok [OF s] by (auto simp: bp_def from_protobuf_object.simps simp del: pb_typed_iff)
  next
    case False
    then have bp: "bp = byte_packed t" by (cases t) (auto simp: bp_def)
    have reader: "from_protobuf_object (PB_vector t) x s =
        list_value (while_remaining (read_item (from_protobuf_member t) (pb_init t)) [] s)"
      using False by (cases t) (auto simp: from_protobuf_object.simps)
    have item: "pb_ok bp (pb_typed t) (length (is_view s1)) (from_protobuf_member t (pb_init t) s1)"
      if "is_inv s1" for s1
      using assms that pb_init_ok [of t] bp by (simp add: pb_safeD)
    have step: "pb_ok bp ?P (length (is_view s1) - 1) (read_item (from_protobuf_member t) (pb_init t) vs s1)"
      if "?P vs" "is_inv s1" for vs s1
      unfolding read_item_def
      by (rule pb_ok_bind [OF read_key_ok [OF that(2)]])
        (use that(1) in \<open>auto intro!: pb_ok_then [OF item] skip_ok_then [OF skip_member_ok]\<close>)
    have "pb_ok bp ?P (length (is_view s)) (while_remaining (read_item (from_protobuf_member t) (pb_init t)) [] s)"
      by (rule while_ok [where P = ?P, OF step _ s]) auto
    then show ?thesis unfolding reader by (rule list_value_ok) auto
  qed
  then show "pb_ok (byte_packed (PB_vector t)) (pb_typed (PB_vector t)) (length (is_view s))
      (from_protobuf_object (PB_vector t) x s)"
    by (simp only: bp_def)
qed

lemma all_safe: "pb_wf t \<Longrightarrow> pb_safe t \<and> (is_object t \<longrightarrow> pb_object_safe t)"
proof (induction t)
  case (PB_num k)
  then show ?case by (auto simp: pb_safe_def from_protobuf_member.simps is_object_def read_number_ok)
next
  case PB_varuint32
  have "pb_object_safe PB_varuint32"
    unfolding pb_object_safe_def
  proof (intro allI impI)
    fix x and s :: input_stream
    assume x: "pb_typed PB_varuint32 x" and s: "is_inv s"
    have loop: "pb_ok True (list_all2 pb_typed [PB_num PN_uint32]) (length (is_view s))
        (while_remaining (read_field (member_index [1]) skip_member [read_number PN_uint32]) [x] s)"
      using x s by (intro fields_loop_ok) (auto simp: read_number_ok skip_member_ok split: if_splits)
    show "pb_ok (byte_packed PB_varuint32) (pb_typed PB_varuint32) (length (is_view s))
        (from_protobuf_object PB_varuint32 x s)"
      unfolding from_protobuf_object.simps
      by (rule pb_ok_bind [OF pb_ok_mono [OF loop, where Q = "list_all2 pb_typed [PB_num PN_uint32]"]])
        (auto simp: list_all2_Cons1)
  qed
  then show ?case using pb_safe_object by (simp add: is_object_def)
next
  case (PB_vector t)
  then have "pb_object_safe (PB_vector t)" by (intro pb_object_safe_vector) auto
  then show ?case using pb_safe_object [of "PB_vector t"] by (simp add: is_object_def)
next
  case (PB_tuple ts)
  then have "pb_object_safe (PB_tuple ts)" by (intro pb_object_safe_tuple) auto
  then show ?case using pb_safe_object [of "PB_tuple ts"] by (simp add: is_object_def)
next
  case (PB_variant ts)
  then have "pb_object_safe (PB_variant ts)" by (intro pb_object_safe_variant) auto
  then show ?case using pb_safe_object [of "PB_variant ts"] by (simp add: is_object_def)
next
  case (PB_struct ns ds ts)
  then have "pb_object_safe (PB_struct ns ds ts)" by (intro pb_object_safe_struct) auto
  then show ?case using pb_safe_object [of "PB_struct ns ds ts"] by (simp add: is_object_def)
qed (auto simp: pb_safe_def from_protobuf_member.simps is_object_def
    intro!: pb_ok_bind [OF pb_varuint32_ok] pb_ok_bind [OF pb_read_ok])

section \<open>Messages without a type\<close>

lemma any_index_wire: "(if any_index v = 3 then 5 else of_nat (any_index v)) = (of_nat (if any_index v = 3 then 5 else any_index v) :: u32)"
  by simp

lemma any_entry_bytes:
  assumes "n < 2 ^ 29"
  shows "any_entry_to_bin (of_nat n, v) = write_key n (if any_index v = 3 then 5 else any_index v) @ any_value_to_bin v"
  by (simp add: any_entry_to_bin_def write_key_def)

definition any_entry_ok :: "any_entry \<Rightarrow> bool" where
  "any_entry_ok = (\<lambda>(n, v). unat n < 2 ^ 29 \<and> (case v of Any_buffer bs \<Rightarrow> length bs < 2 ^ 32 | _ \<Rightarrow> True))"

lemma any_step_reads:
  assumes "any_entry_ok m" "is_inv s" "is_view s = concat (any_entry_to_bin m) @ rest"
  shows "reads_to (any_step ms s) (ms @ [m]) rest"
proof -
  obtain n v where m: "m = (n, v)" by (cases m)
  have n: "unat n < 2 ^ 29" using assms(1) by (simp add: any_entry_ok_def m)
  let ?w = "if any_index v = 3 then 5 else any_index v"
  have w: "?w < 8" by (cases v) simp_all
  have "concat (any_entry_to_bin m) = concat (write_key (unat n) ?w) @ concat (any_value_to_bin v)"
    using any_entry_bytes [OF n, of v] by (simp add: m)
  then obtain s1 where s1: "read_key s = Some (Inr ((?w, n), s1))" "is_inv s1" "is_view s1 = concat (any_value_to_bin v) @ rest"
    using read_key_reads [OF assms(2) _ n w] assms(3) by (auto simp: reads_to_def)
  show ?thesis
  proof (cases v)
    case (Any_varint x)
    then show ?thesis using s1 pb_varuint32_reads [OF s1(2), of x rest] by (auto simp: any_step_def reads_to_def m)
  next
    case (Any_fixed64 x)
    then show ?thesis
      using s1 pb_read_reads [OF s1(2), of "word_le 8 x" rest] by (auto simp: any_step_def reads_to_def m le_word_word_le)
  next
    case (Any_buffer bs)
    then have b: "length bs < 2 ^ 32" using assms(1) by (simp add: any_entry_ok_def m)
    obtain s2 where s2: "pb_varuint32 s1 = Some (Inr (of_nat (length bs), s2))" "is_inv s2" "is_view s2 = bs @ rest"
      using sized_reads [OF s1(2) _ b] s1(3) Any_buffer by (auto simp: reads_to_def sized_def)
    then show ?thesis
      using s1(1) pb_read_reads [OF s2(2,3)] unat_of_nat_u32 [OF b] Any_buffer
      by (auto simp: any_step_def reads_to_def m)
  next
    case (Any_fixed32 x)
    then show ?thesis
      using s1 pb_read_reads [OF s1(2), of "word_le 4 x" rest] by (auto simp: any_step_def reads_to_def m le_word_word_le)
  qed
qed

lemma any_entry_not_Nil: "any_entry_ok m \<Longrightarrow> concat (any_entry_to_bin m) \<noteq> []"
proof -
  assume "any_entry_ok m"
  obtain n v where m: "m = (n, v)" by (cases m)
  have n: "unat n < 2 ^ 29" using \<open>any_entry_ok m\<close> by (simp add: any_entry_ok_def m)
  have "(if any_index v = 3 then 5 else any_index v) < 8" by (cases v) simp_all
  from write_key_not_Nil [OF n this] any_entry_bytes [OF n, of v] show ?thesis by (simp add: m)
qed

lemma any_reads:
  assumes "\<forall>m \<in> set ms. any_entry_ok m" "is_inv s" "is_view s = concat (any_to_bin ms)"
  shows "reads_to (any_from_bin us s) (us @ ms) []"
  using assms
proof (induction ms arbitrary: us s)
  case Nil
  then show ?case by (simp add: any_from_bin_def any_to_bin_def while_end reads_to_return)
next
  case (Cons m ms)
  have view: "is_view s = concat (any_entry_to_bin m) @ concat (any_to_bin ms)"
    using Cons.prems(3) by (simp add: any_to_bin_def)
  have "reads_to (any_step us s) (us @ [m]) (concat (any_to_bin ms))"
    using any_step_reads [OF _ Cons.prems(2) view] Cons.prems(1) by simp
  moreover have "is_view s \<noteq> []" using view any_entry_not_Nil [of m] Cons.prems(1) by simp
  ultimately obtain s' where "is_inv s'" "is_view s' = concat (any_to_bin ms)"
    "while_remaining any_step us s = while_remaining any_step (us @ [m]) s'"
    using while_step [where step = any_step and v = us, OF Cons.prems(2)] by blast
  then show ?case using Cons.IH [of s' "us @ [m]"] Cons.prems(1) by (simp add: any_from_bin_def)
qed

lemma word_le_le_word: "length bs = n \<Longrightarrow> LENGTH('a::len) = 8 * n \<Longrightarrow> word_le n (le_word bs :: 'a word) = bs"
proof -
  assume l: "length bs = n" "LENGTH('a) = 8 * n"
  have "(256 :: nat) ^ n = 2 ^ (8 * n)" by (simp add: power_mult)
  then have "unat (of_nat (le_nat bs) :: 'a word) = le_nat bs"
    using le_nat_bound [of bs] l by (simp add: unat_of_nat)
  then show ?thesis using nat_le_le_nat [of bs] l(1) by (simp add: word_le_def le_word_def)
qed

text \<open>What a field of a typed message is as an entry.\<close>

lemma any_of_field:
  assumes "pb_typed t v" "small_number t v" "length (concat (to_protobuf_member t v)) < 2 ^ 32" "n < 2 ^ 29"
  shows "\<exists>e. any_entry_ok (of_nat n, e) \<and>
    concat (any_entry_to_bin (of_nat n, e)) = concat (write_key n (wire_type t)) @ concat (to_protobuf_member t v)"
proof -
  have u: "unat (of_nat n :: u32) < 2 ^ 29" using unat_of_nat_u32 [of n] assms(4) by simp
  have entry: "\<exists>e. any_entry_ok (of_nat n, e) \<and>
      concat (any_entry_to_bin (of_nat n, e)) = concat (write_key n w) @ bs"
    if "(if any_index e = 3 then 5 else any_index e) = w" "concat (any_value_to_bin e) = bs"
      "case e of Any_buffer b \<Rightarrow> length b < 2 ^ 32 | _ \<Rightarrow> True" for e w bs
    using that u any_entry_bytes [OF assms(4), of e] by (intro exI [of _ e]) (simp add: any_entry_ok_def)
  show ?thesis
    using assms(1-3)
  proof (cases rule: member_wire)
    case (varint w)
    then show ?thesis using entry [of "Any_varint w"] by simp
  next
    case fixed64
    then show ?thesis
      using entry [of "Any_fixed64 (le_word (concat (to_protobuf_member t v)))"] by (simp add: word_le_le_word)
  next
    case (buffer bs)
    then show ?thesis using entry [of "Any_buffer bs"] by (simp add: sized_def)
  next
    case fixed32
    then show ?thesis
      using entry [of "Any_fixed32 (le_word (concat (to_protobuf_member t v)))"] by (simp add: word_le_le_word)
  qed
qed

lemma any_of_fields:
  assumes "list_all2 (\<lambda>m v. pb_typed (snd m) v \<and> small_number (snd m) v) ms vs" "\<forall>m \<in> set ms. fst m < 2 ^ 29"
    and "length (fields_bytes ms vs) < 2 ^ 32"
  shows "\<exists>es. (\<forall>e \<in> set es. any_entry_ok e) \<and> concat (any_to_bin es) = fields_bytes ms vs"
  using assms
proof (induction rule: list_all2_induct)
  case Nil
  then show ?case by (intro exI [of _ "[]"]) (simp add: any_to_bin_def)
next
  case (Cons m ms v vs)
  obtain n t where m: "m = (n, t)" by (cases m)
  obtain es where es: "\<forall>e \<in> set es. any_entry_ok e" "concat (any_to_bin es) = fields_bytes ms vs"
    using Cons.IH Cons.prems by (auto simp: m)
  show ?case
  proof (cases "is_empty_vector t v")
    case True
    then show ?thesis using es by (auto simp: m)
  next
    case False
    then obtain e where "any_entry_ok (of_nat n, e)"
      "concat (any_entry_to_bin (of_nat n, e)) = concat (write_key n (wire_type t)) @ concat (to_protobuf_member t v)"
      using any_of_field [of t v n] Cons.hyps(1) Cons.prems by (auto simp: m)
    then show ?thesis using es False
      by (intro exI [of _ "(of_nat n, e) # es"]) (simp add: any_to_bin_def m)
  qed
qed

section \<open>Properties\<close>

lemma to_protobuf_eq: "to_protobuf t v = Inr (concat (to_protobuf_object t v))"
  by (simp add: to_protobuf_def two_pass_concat)

text \<open>Types and values for the examples.\<close>

definition pb_example :: pbty where
  "pb_example = PB_struct [1, 2, 3, 4] [PV_num 0, PV_string [], PV_list [], PV_variant 0 (PV_num 0)]
     [PB_num PN_uint16, PB_string, PB_vector PB_string, PB_variant [PB_num PN_uint8, PB_vector PB_string]]"

definition pb_example_value :: pbval where
  "pb_example_value = PV_list [PV_num 3, PV_string [104, 105], PV_list [PV_string [], PV_string [120]],
     PV_variant 1 (PV_list [PV_string [121]])]"

lemmas pb_example_simps =
  pb_example_def pb_example_value_def num_convert_def num_size_def num_signed_def is_empty_vector_def

text \<open>
  C6 (round trip): an object without negative varints, without varuint32 members and without
  variants that hold an empty vector is read back from what is written, whatever the target held
  before, if its vectors were empty.
\<close>
theorem protobuf_roundtrip:
  assumes "pb_wf t" "is_object t" "pb_typed t v" "writable t v" "pb_typed t tmp" "pb_fresh t tmp"
    and "to_protobuf t v = Inr bin" "length bin < 2 ^ 32"
  shows "from_protobuf t tmp bin = Some (Inr v)"
proof -
  have bin: "bin = concat (to_protobuf_object t v)" using assms(7) by (simp add: to_protobuf_eq)
  have "object_back t" using all_back [OF assms(1)] assms(2) by blast
  moreover have "is_inv (input_stream_vec bin)" using assms(8) by simp
  ultimately obtain s where "from_protobuf_object t tmp (input_stream_vec bin) = Some (Inr (v, s))"
    using assms(3-6,8) bin unfolding object_back_def by fastforce
  then show ?thesis by (simp add: from_protobuf_def)
qed

theorem protobuf_roundtrip_witness:
  "\<exists>bin. to_protobuf pb_example pb_example_value = Inr bin \<and>
    from_protobuf pb_example (pb_init pb_example) bin = Some (Inr pb_example_value)"
proof -
  have wf: "pb_wf pb_example" "is_object pb_example" "pb_typed pb_example pb_example_value"
    "writable pb_example pb_example_value" "pb_typed pb_example (pb_init pb_example)"
    "pb_fresh pb_example (pb_init pb_example)"
    by (simp_all add: pb_example_simps is_object_def)
  have "to_protobuf pb_example pb_example_value =
      Inr [8, 3, 18, 2, 104, 105, 26, 5, 10, 0, 10, 1, 120, 34, 5, 18, 3, 10, 1, 121]"
    by code_simp
  then obtain bin where bin: "to_protobuf pb_example pb_example_value = Inr bin" "length bin < 2 ^ 32"
    by simp
  from protobuf_roundtrip [OF wf this] bin(1) show ?thesis by blast
qed



text \<open>
  C19 (arbitrary input): whatever bytes are given, the reader returns: a value of the type, or an
  exception. The only access outside of an object is the overrun of a vector of numbers of more than
  one byte.
\<close>
theorem protobuf_safe:
  assumes "pb_wf t" "is_object t" "pb_typed t tmp" "length bin < 2 ^ 64"
  shows "\<exists>r. from_protobuf t tmp bin = Some r \<and>
    (case r of Inr v \<Rightarrow> pb_typed t v | Inl e \<Rightarrow> e = Memory_Fault \<longrightarrow> \<not> byte_packed t)"
proof -
  have "pb_object_safe t" using all_safe [OF assms(1)] assms(2) by blast
  then have "pb_ok (byte_packed t) (pb_typed t) (length bin) (from_protobuf_object t tmp (input_stream_vec bin))"
    using assms(3,4) unfolding pb_object_safe_def by (metis is_inv_vec is_view_vec)
  then show ?thesis
    by (cases "(byte_packed t, pb_typed t, length bin, from_protobuf_object t tmp (input_stream_vec bin))" rule: pb_ok.cases)
      (auto simp: from_protobuf_def)
qed

theorem protobuf_safe_witness:
  "\<exists>r. from_protobuf pb_example (pb_init pb_example) [8, 200, 15] = Some r"
proof -
  have "pb_wf pb_example" "is_object pb_example" "pb_typed pb_example (pb_init pb_example)"
    "length [8, 200, 15 :: byte] < 2 ^ 64"
    by (simp_all add: pb_example_simps is_object_def)
  from protobuf_safe [OF this] show ?thesis by blast
qed




end
