(* ===== verification/Clio_Fracpack.thy ===== *)
theory Clio_Fracpack
  imports Clio_Stream
begin

text \<open>
  The fracpack format, libraries/clio/include/clio/fracpack.hpp: objects with a fixed part that
  holds the members in order, and a heap behind it that the fixed part points into with 32-bit
  offsets relative to the offset itself. A struct that may grow starts with the size of its fixed
  part.

  The template functions are functions by recursion over \<^verbatim>\<open>fty\<close>, the C++ type;
  \<^verbatim>\<open>may_use_heap\<close> and the other \<^verbatim>\<open>constexpr\<close> predicates are predicates of
  \<^verbatim>\<open>fty\<close>. Structs are finite: a struct with a vector of itself has no \<^verbatim>\<open>fty\<close>.

  The writer runs on memory: a stream has the bytes of the whole memory, and a substream for the
  heap shares them. Writing outside of the memory and reading more than a vector has room for are
  undefined in C++ and end in \<^verbatim>\<open>Memory_Fault\<close>. Offsets and sizes are words and wrap around.
\<close>

section \<open>Types and values\<close>

datatype fval =
    FV_arith nat          \<comment> \<open>the object representation as an unsigned number\<close>
  | FV_string "byte list"
  | FV_vector "fval list"
  | FV_optional "fval option"
  | FV_variant nat fval
  | FV_struct "fval list"

text \<open>What the compiler knows of a class: its reflected data members are at \<^verbatim>\<open>si_offsets\<close>,
  and \<^verbatim>\<open>si_init\<close> are the members of a value-initialized object.\<close>

record struct_info =
  si_final :: bool
  si_trivial :: bool
  si_size :: nat
  si_offsets :: "nat list"
  si_init :: "fval list"

datatype fty =
    FT_arith nat          \<comment> \<open>arithmetic types by their sizeof\<close>
  | FT_string
  | FT_vector fty
  | FT_optional fty
  | FT_variant "fty list"
  | FT_struct struct_info "fty list"

fun default_value :: "fty \<Rightarrow> fval" where
  "default_value (FT_arith n) = FV_arith 0"
| "default_value FT_string = FV_string []"
| "default_value (FT_vector t) = FV_vector []"
| "default_value (FT_optional t) = FV_optional None"
| "default_value (FT_variant ts) =
     FV_variant 0 (case map default_value ts of d # _ \<Rightarrow> d | [] \<Rightarrow> FV_struct [])"
| "default_value (FT_struct si ts) = FV_struct (si_init si)"

section \<open>The compile-time predicates\<close>

text \<open>
  The loop over the members in \<^verbatim>\<open>can_memcpy\<close>. Its arguments are the offsets and, for each
  member, whether it can be copied and its size; the size of a member that cannot be copied is not
  needed because the result is false then.
\<close>

fun is_flat :: "nat \<Rightarrow> nat \<Rightarrow> nat list \<Rightarrow> (bool \<times> nat) list \<Rightarrow> bool" where
  "is_flat sz last_pos (off # offs) ((cm, s) # ms) \<longleftrightarrow>
     off = last_pos \<and> cm \<and> is_flat sz (last_pos + s) offs ms"
| "is_flat sz last_pos [] [] \<longleftrightarrow> last_pos = sz"
| "is_flat sz last_pos _ _ \<longleftrightarrow> False"

fun memcpy_size :: "fty \<Rightarrow> nat" where
  "memcpy_size (FT_arith n) = n"
| "memcpy_size (FT_struct si ts) = si_size si"
| "memcpy_size _ = 0"

fun can_memcpy :: "fty \<Rightarrow> bool" where
  "can_memcpy (FT_arith n) \<longleftrightarrow> True"
| "can_memcpy (FT_struct si ts) \<longleftrightarrow>
     (if si_trivial si
      then if \<not> si_final si then False
           else is_flat (si_size si) 0 (si_offsets si) (map (\<lambda>t. (can_memcpy t, memcpy_size t)) ts)
      else False)"
| "can_memcpy _ \<longleftrightarrow> False"

fun is_fixed_structure :: "fty \<Rightarrow> bool" where
  "is_fixed_structure (FT_optional t) \<longleftrightarrow> True"
| "is_fixed_structure (FT_variant ts) \<longleftrightarrow> False"
| "is_fixed_structure (FT_arith n) \<longleftrightarrow> True"
| "is_fixed_structure FT_string \<longleftrightarrow> True"
| "is_fixed_structure (FT_vector t) \<longleftrightarrow> True"
| "is_fixed_structure (FT_struct si ts) \<longleftrightarrow>
     (if can_memcpy (FT_struct si ts) then True
      else if \<not> si_final si then False
      else (\<forall>t \<in> set ts. is_fixed_structure t))"

definition is_ext_structure :: "fty \<Rightarrow> bool" where
  "is_ext_structure t \<longleftrightarrow> \<not> is_fixed_structure t"

fun may_use_heap :: "fty \<Rightarrow> bool" where
  "may_use_heap (FT_optional t) \<longleftrightarrow> True"
| "may_use_heap (FT_variant ts) \<longleftrightarrow> True"
| "may_use_heap (FT_arith n) \<longleftrightarrow> False"
| "may_use_heap FT_string \<longleftrightarrow> True"
| "may_use_heap (FT_vector t) \<longleftrightarrow> True"
| "may_use_heap (FT_struct si ts) \<longleftrightarrow>
     (if \<not> si_final si then True
      else if can_memcpy (FT_struct si ts) then False
      else (\<exists>t \<in> set ts. may_use_heap t))"

text \<open>For an optional the C++ function has no \<^verbatim>\<open>return\<close>; it is never called for one.\<close>

fun fracpack_fixed_size :: "fty \<Rightarrow> u16" where
  "fracpack_fixed_size (FT_arith n) = of_nat n"
| "fracpack_fixed_size (FT_variant ts) = 4"
| "fracpack_fixed_size FT_string = 4"
| "fracpack_fixed_size (FT_vector t) = 4"
| "fracpack_fixed_size (FT_struct si ts) =
     (if can_memcpy (FT_struct si ts) then of_nat (si_size si)
      else sum_list (map (\<lambda>t. if may_use_heap t then 4 else fracpack_fixed_size t) ts))"
| "fracpack_fixed_size (FT_optional t) = 0"

section \<open>Object representations\<close>

text \<open>The bytes of an object that can be copied with memcpy, and the object back from the bytes.\<close>

fun mem_image :: "fty \<Rightarrow> fval \<Rightarrow> byte list" where
  "mem_image (FT_arith n) v = (case v of FV_arith x \<Rightarrow> nat_le n x | _ \<Rightarrow> [])"
| "mem_image (FT_struct si ts) v =
     (case v of FV_struct vs \<Rightarrow> concat (map (\<lambda>(f, v). f v) (zip (map mem_image ts) vs)) | _ \<Rightarrow> [])"
| "mem_image _ v = []"

fun mem_split :: "(nat \<times> (byte list \<Rightarrow> fval)) list \<Rightarrow> byte list \<Rightarrow> fval list" where
  "mem_split [] bs = []"
| "mem_split ((n, f) # fs) bs = f (take n bs) # mem_split fs (drop n bs)"

fun mem_value :: "fty \<Rightarrow> byte list \<Rightarrow> fval" where
  "mem_value (FT_arith n) bs = FV_arith (le_nat bs)"
| "mem_value (FT_struct si ts) bs = FV_struct (mem_split (map (\<lambda>t. (memcpy_size t, mem_value t)) ts) bs)"
| "mem_value _ bs = FV_struct []"

definition mem_values :: "fty \<Rightarrow> nat \<Rightarrow> byte list \<Rightarrow> fval list" where
  "mem_values t n bs = mem_split (replicate n (memcpy_size t, mem_value t)) bs"

section \<open>The output stream\<close>

text \<open>A \<^verbatim>\<open>fixed_buf_stream\<close> over a part of the memory \<^verbatim>\<open>fr_mem\<close>; pointers are addresses.\<close>

record frac_stream =
  fr_mem :: "byte list"
  fr_begin :: nat
  fr_pos :: nat
  fr_end :: nat

definition frac_stream_new :: "byte list \<Rightarrow> nat \<Rightarrow> nat \<Rightarrow> frac_stream" where
  "frac_stream_new mem pos n = \<lparr>fr_mem = mem, fr_begin = pos, fr_pos = pos, fr_end = pos + n\<rparr>"

definition frac_write :: "byte list \<Rightarrow> frac_stream \<Rightarrow> fault + frac_stream" where
  "frac_write src s =
     (if fr_pos s + length src > fr_end s then Inl (Throw (Stream_Error overrun))
      else if fr_pos s + length src > length (fr_mem s) then Inl Memory_Fault
      else Inr (s\<lparr>fr_mem := memcpy (fr_mem s) (fr_pos s) src, fr_pos := fr_pos s + length src\<rparr>))"

definition frac_consumed :: "frac_stream \<Rightarrow> nat" where
  "frac_consumed s = fr_pos s - fr_begin s"

section \<open>Packing\<close>

type_synonym packer = "fval \<Rightarrow> frac_stream \<Rightarrow> fault + u32 \<times> frac_stream"
type_synonym member_packer = "u16 \<Rightarrow> fval \<Rightarrow> frac_stream \<Rightarrow> fault + u16 \<times> frac_stream"

text \<open>The lambda \<^verbatim>\<open>pack_on_heap\<close>, for a \<^verbatim>\<open>fixed_buf_stream\<close>.\<close>

definition pack_on_heap :: "packer \<Rightarrow> member_packer" where
  "pack_on_heap pack start_heap mem s =
     (let offset = ucast start_heap - of_nat (frac_consumed s) :: u32 in
      rbind (frac_write (word_le 4 offset) s) (\<lambda>s.
      let substream = frac_stream_new (fr_mem s) (fr_pos s + unat offset - 4) (fr_end s - fr_pos s) in
      rbind (pack mem substream) (\<lambda>(ps, substream).
      Inr (start_heap + ucast ps, s\<lparr>fr_mem := fr_mem substream\<rparr>))))"

text \<open>\<^verbatim>\<open>member.size() == 0\<close>, for the types that have it.\<close>

definition is_empty_range :: "fval \<Rightarrow> bool" where
  "is_empty_range v \<longleftrightarrow> v = FV_string [] \<or> v = FV_vector []"

definition is_range :: "fty \<Rightarrow> bool" where
  "is_range t \<longleftrightarrow> (case t of FT_string \<Rightarrow> True | FT_vector _ \<Rightarrow> True | _ \<Rightarrow> False)"

fun pack_elems :: "member_packer \<Rightarrow> u16 \<Rightarrow> fval list \<Rightarrow> frac_stream \<Rightarrow> fault + u16 \<times> frac_stream" where
  "pack_elems pk start_heap [] s = Inr (start_heap, s)"
| "pack_elems pk start_heap (v # vs) s =
     rbind (pk start_heap v s) (\<lambda>(start_heap, s). pack_elems pk start_heap vs s)"

fun pack_fields :: "member_packer list \<Rightarrow> u16 \<Rightarrow> fval list \<Rightarrow> frac_stream \<Rightarrow> fault + u16 \<times> frac_stream" where
  "pack_fields (pk # pks) start_heap (v # vs) s =
     rbind (pk start_heap v s) (\<lambda>(start_heap, s). pack_fields pks start_heap vs s)"
| "pack_fields _ start_heap _ s = Inr (start_heap, s)"

lemma size_in_list: "t \<in> set ts \<Longrightarrow> size (t :: fty) \<le> size_list size ts"
  by (induction ts) auto

text \<open>\<^verbatim>\<open>fracpack\<close> and \<^verbatim>\<open>fracpack_member\<close> on a \<^verbatim>\<open>fixed_buf_stream\<close>.\<close>

function fracpack :: "fty \<Rightarrow> packer"
  and fracpack_member :: "fty \<Rightarrow> member_packer" where
  "fracpack (FT_variant ts) v s =
     (case v of
        FV_variant i x \<Rightarrow>
          if i < length ts then
            rbind (frac_write [of_nat i] s) (\<lambda>s.
            rbind ((map fracpack ts ! i) x s) (\<lambda>(n, s). Inr (1 + n, s)))
          else Inr (0, s)
      | _ \<Rightarrow> Inr (0, s))"
| "fracpack (FT_optional t) v s =
     (case v of
        FV_optional (Some x) \<Rightarrow>
          rbind (frac_write (word_le 4 (4 :: u32)) s) (\<lambda>s. rbind (fracpack t x s) (\<lambda>(n, s). Inr (0, s)))
      | _ \<Rightarrow> rbind (frac_write (word_le 4 (1 :: u32)) s) (\<lambda>s. Inr (0, s)))"
| "fracpack (FT_arith n) v s = rbind (frac_write (mem_image (FT_arith n) v) s) (\<lambda>s. Inr (of_nat n, s))"
| "fracpack FT_string v s =
     (case v of
        FV_string d \<Rightarrow>
          let n = of_nat (length d) :: u32 in
          rbind (frac_write (word_le 4 n) s) (\<lambda>s.
          rbind (if n > 0 then frac_write (take (unat n) d) s else Inr s) (\<lambda>s. Inr (n + 4, s)))
      | _ \<Rightarrow> Inr (0, s))"
| "fracpack (FT_vector t) v s =
     (case v of
        FV_vector vs \<Rightarrow>
          if can_memcpy t then
            let n = of_nat (length vs) * ucast (fracpack_fixed_size t) :: u32 in
            rbind (frac_write (word_le 4 n) s) (\<lambda>s.
            rbind (if n > 0 then frac_write (take (unat n) (concat (map (mem_image t) vs))) s else Inr s) (\<lambda>s.
            Inr (n + 4, s)))
          else
            let n = of_nat (length vs) * 4 :: u32 in
            rbind (frac_write (word_le 4 n) s) (\<lambda>s.
            rbind (pack_elems (fracpack_member t) (ucast n + 4) vs s) (\<lambda>(start_heap, s).
            Inr (ucast start_heap, s)))
      | _ \<Rightarrow> Inr (0, s))"
| "fracpack (FT_struct si ts) v s =
     (if can_memcpy (FT_struct si ts)
      then rbind (frac_write (mem_image (FT_struct si ts) v) s) (\<lambda>s. Inr (of_nat (si_size si), s))
      else
        case v of
          FV_struct vs \<Rightarrow>
            let start_heap = fracpack_fixed_size (FT_struct si ts) in
            rbind (if is_ext_structure (FT_struct si ts)
                   then rbind (frac_write (word_le 2 start_heap) s) (\<lambda>s. Inr (start_heap + 2, s))
                   else Inr (start_heap, s)) (\<lambda>(start_heap, s).
            rbind (pack_fields (map fracpack_member ts) start_heap vs s) (\<lambda>(start_heap, s).
            Inr (ucast start_heap, s)))
        | _ \<Rightarrow> Inr (0, s))"
| "fracpack_member t start_heap v s =
     (if may_use_heap t then
        case t of
          FT_optional u \<Rightarrow>
            (case v of
               FV_optional (Some x) \<Rightarrow>
                 if is_range u then fracpack_member u start_heap x s
                 else pack_on_heap (fracpack u) start_heap x s
             | _ \<Rightarrow> rbind (frac_write (word_le 4 (1 :: u32)) s) (\<lambda>s. Inr (start_heap, s)))
        | _ \<Rightarrow>
            if is_range t \<and> is_empty_range v
            then rbind (frac_write (word_le 4 (0 :: u32)) s) (\<lambda>s. Inr (start_heap, s))
            else pack_on_heap (fracpack t) start_heap v s
      else rbind (fracpack t v s) (\<lambda>(n, s). Inr (start_heap, s)))"
  by pat_completeness auto

termination
  by (relation "measure (\<lambda>x. case x of Inl (t, v, s) \<Rightarrow> 2 * size t | Inr (t, h, v, s) \<Rightarrow> 2 * size t + 1)")
    (auto dest!: size_in_list)

declare fracpack.simps [simp del] fracpack_member.simps [simp del]

text \<open>
  \<^verbatim>\<open>fracpack_size\<close> is the value \<^verbatim>\<open>fracpack\<close> returns on a \<^verbatim>\<open>size_stream\<close>. There
  \<^verbatim>\<open>pack_on_heap\<close> adds \<^verbatim>\<open>fracpack_size\<close> of the member. Nothing reads the counter of that
  stream, so only the returned values are modelled.
\<close>

fun size_elems :: "(u16 \<Rightarrow> fval \<Rightarrow> u16) \<Rightarrow> u16 \<Rightarrow> fval list \<Rightarrow> u16" where
  "size_elems sz start_heap [] = start_heap"
| "size_elems sz start_heap (v # vs) = size_elems sz (sz start_heap v) vs"

fun size_fields :: "(u16 \<Rightarrow> fval \<Rightarrow> u16) list \<Rightarrow> u16 \<Rightarrow> fval list \<Rightarrow> u16" where
  "size_fields (sz # szs) start_heap (v # vs) = size_fields szs (sz start_heap v) vs"
| "size_fields _ start_heap _ = start_heap"

function fracpack_size :: "fty \<Rightarrow> fval \<Rightarrow> u32"
  and fracpack_size_member :: "fty \<Rightarrow> u16 \<Rightarrow> fval \<Rightarrow> u16" where
  "fracpack_size (FT_variant ts) v =
     (case v of
        FV_variant i x \<Rightarrow> if i < length ts then 1 + (map fracpack_size ts ! i) x else 0
      | _ \<Rightarrow> 0)"
| "fracpack_size (FT_optional t) v = 0"
| "fracpack_size (FT_arith n) v = of_nat n"
| "fracpack_size FT_string v = (case v of FV_string d \<Rightarrow> of_nat (length d) + 4 | _ \<Rightarrow> 0)"
| "fracpack_size (FT_vector t) v =
     (case v of
        FV_vector vs \<Rightarrow>
          if can_memcpy t then of_nat (length vs) * ucast (fracpack_fixed_size t) + 4
          else ucast (size_elems (fracpack_size_member t) (ucast (of_nat (length vs) * 4 :: u32) + 4) vs)
      | _ \<Rightarrow> 0)"
| "fracpack_size (FT_struct si ts) v =
     (if can_memcpy (FT_struct si ts) then of_nat (si_size si)
      else
        case v of
          FV_struct vs \<Rightarrow>
            let start_heap = fracpack_fixed_size (FT_struct si ts);
                start_heap = (if is_ext_structure (FT_struct si ts) then start_heap + 2 else start_heap)
            in ucast (size_fields (map fracpack_size_member ts) start_heap vs)
        | _ \<Rightarrow> 0)"
| "fracpack_size_member t start_heap v =
     (if may_use_heap t then
        case t of
          FT_optional u \<Rightarrow>
            (case v of
               FV_optional (Some x) \<Rightarrow>
                 if is_range u then fracpack_size_member u start_heap x
                 else start_heap + ucast (fracpack_size u x)
             | _ \<Rightarrow> start_heap)
        | _ \<Rightarrow>
            if is_range t \<and> is_empty_range v then start_heap
            else start_heap + ucast (fracpack_size t v)
      else start_heap)"
  by pat_completeness auto

termination
  by (relation "measure (\<lambda>x. case x of Inl (t, v) \<Rightarrow> 2 * size t | Inr (t, h, v) \<Rightarrow> 2 * size t + 1)")
    (auto dest!: size_in_list)

declare fracpack_size.simps [simp del] fracpack_size_member.simps [simp del]

section \<open>Unpacking\<close>

type_synonym unpacker = "fval \<Rightarrow> input_stream \<Rightarrow> fault + fval \<times> input_stream"

text \<open>Reading a number of \<^verbatim>\<open>n\<close> bytes.\<close>

definition read_num :: "nat \<Rightarrow> input_stream \<Rightarrow> fault + nat \<times> input_stream" where
  "read_num n s = rbind (may_throw (is_read n s)) (\<lambda>(bs, s). Inr (le_nat bs, s))"

text \<open>The substream at \<^verbatim>\<open>stream.pos + offset - sizeof(offset_ptr)\<close>, after the offset was read.\<close>

definition in_substream :: "nat \<Rightarrow> input_stream \<Rightarrow> fault + input_stream" where
  "in_substream offset s = may_throw (input_stream_of (is_mem s) (is_pos s + offset - 4) (is_end s))"

text \<open>\<^verbatim>\<open>v.resize(n)\<close>: the elements the vector has stay, new ones are value-initialized.\<close>

definition resize :: "fty \<Rightarrow> nat \<Rightarrow> fval list \<Rightarrow> fval list" where
  "resize t n vs = take n vs @ replicate (n - length vs) (default_value t)"

definition elements :: "fval \<Rightarrow> fval list" where
  "elements v = (case v of FV_vector vs \<Rightarrow> vs | FV_struct vs \<Rightarrow> vs | _ \<Rightarrow> [])"

fun unpack_elems :: "unpacker \<Rightarrow> fval list \<Rightarrow> input_stream \<Rightarrow> fault + fval list \<times> input_stream" where
  "unpack_elems upk [] s = Inr ([], s)"
| "unpack_elems upk (v # vs) s =
     rbind (upk v s) (\<lambda>(v, s). rbind (unpack_elems upk vs s) (\<lambda>(vs, s). Inr (v # vs, s)))"

text \<open>The loop over the members of a struct whose fixed part ends at the address \<^verbatim>\<open>heap\<close>.\<close>

fun unpack_fields :: "unpacker list \<Rightarrow> nat \<Rightarrow> fval list \<Rightarrow> input_stream \<Rightarrow> fault + fval list \<times> input_stream" where
  "unpack_fields (upk # upks) heap (v # vs) s =
     rbind (if is_pos s < heap then upk v s else Inr (v, s)) (\<lambda>(v, s).
     rbind (unpack_fields upks heap vs s) (\<lambda>(vs, s). Inr (v # vs, s)))"
| "unpack_fields _ heap vs s = Inr (vs, s)"

definition init_variant_by_index :: "fty list \<Rightarrow> nat \<Rightarrow> fval \<Rightarrow> fval" where
  "init_variant_by_index ts i v = (if i < length ts then FV_variant i (default_value (ts ! i)) else v)"

text \<open>
  \<^verbatim>\<open>fracunpack\<close> into an object that has the value \<^verbatim>\<open>v\<close>. The vector of objects that are
  copied has room for \<^verbatim>\<open>size / fix_size\<close> of them and is then overwritten with \<^verbatim>\<open>size\<close>
  bytes. An optional has no branch in \<^verbatim>\<open>fracunpack\<close>: the call does not compile.
\<close>

function fracunpack :: "fty \<Rightarrow> unpacker"
  and fracunpack_member :: "fty \<Rightarrow> unpacker" where
  "fracunpack (FT_variant ts) v s =
     rbind (read_num 1 s) (\<lambda>(idx, s).
     case init_variant_by_index ts idx v of
       FV_variant i x \<Rightarrow>
         if i < length ts then
           rbind ((map fracunpack ts ! i) x s) (\<lambda>(x, s). Inr (FV_variant i x, s))
         else Inr (v, s)
     | v \<Rightarrow> Inr (v, s))"
| "fracunpack (FT_optional t) v s = Inr (v, s)"
| "fracunpack (FT_arith n) v s =
     rbind (may_throw (is_read n s)) (\<lambda>(bs, s). Inr (mem_value (FT_arith n) bs, s))"
| "fracunpack FT_string v s =
     rbind (read_num 4 s) (\<lambda>(n, s).
     if n > 0 then rbind (may_throw (is_read n s)) (\<lambda>(bs, s). Inr (FV_string bs, s))
     else Inr (FV_string [], s))"
| "fracunpack (FT_vector t) v s =
     (if can_memcpy t then
        rbind (read_num 4 s) (\<lambda>(n, s).
        let k = n div unat (fracpack_fixed_size t) in
        if k > 0 then
          rbind (may_throw (is_read n s)) (\<lambda>(bs, s).
          if n > k * unat (fracpack_fixed_size t) then Inl Memory_Fault
          else Inr (FV_vector (mem_values t k bs), s))
        else Inr (FV_vector [], s))
      else
        rbind (read_num 4 s) (\<lambda>(n, s).
        rbind (unpack_elems (fracunpack_member t) (resize t (n div 4) (elements v)) s) (\<lambda>(vs, s).
        Inr (FV_vector vs, s))))"
| "fracunpack (FT_struct si ts) v s =
     (if can_memcpy (FT_struct si ts) then
        rbind (may_throw (is_read (si_size si) s)) (\<lambda>(bs, s). Inr (mem_value (FT_struct si ts) bs, s))
      else
        rbind (if is_ext_structure (FT_struct si ts) then read_num 2 s
               else Inr (unat (fracpack_fixed_size (FT_struct si ts)), s)) (\<lambda>(start_heap, s).
        rbind (unpack_fields (map fracunpack_member ts) (is_pos s + start_heap) (elements v) s) (\<lambda>(vs, s).
        Inr (FV_struct vs, s))))"
| "fracunpack_member t v s =
     (if may_use_heap t then
        rbind (read_num 4 s) (\<lambda>(offset, s).
        case t of
          FT_optional u \<Rightarrow>
            if offset = 0 then Inr (FV_optional (Some (default_value u)), s)
            else if offset \<ge> 4 then
              rbind (in_substream offset s) (\<lambda>insubstr.
              rbind (fracunpack u (default_value u) insubstr) (\<lambda>(x, _). Inr (FV_optional (Some x), s)))
            else Inr (FV_optional None, s)
        | _ \<Rightarrow>
            if is_range t then
              if offset \<ge> 4 then
                rbind (in_substream offset s) (\<lambda>insubstream.
                rbind (fracunpack t v insubstream) (\<lambda>(v, _). Inr (v, s)))
              else Inr (default_value t, s)
            else
              rbind (in_substream offset s) (\<lambda>insubstream.
              rbind (fracunpack t v insubstream) (\<lambda>(v, _). Inr (v, s))))
      else fracunpack t v s)"
  by pat_completeness auto

termination
  by (relation "measure (\<lambda>x. case x of Inl (t, v, s) \<Rightarrow> 2 * size t | Inr (t, v, s) \<Rightarrow> 2 * size t + 1)")
    (auto dest!: size_in_list)

declare fracunpack.simps [simp del] fracunpack_member.simps [simp del]

section \<open>Checking\<close>

definition check_num :: "nat \<Rightarrow> check_input_stream \<Rightarrow> (nat \<times> check_input_stream) result" where
  "check_num n s = rbind (check_read n s) (\<lambda>(bs, s). Inr (le_nat bs, s))"

definition check_substream :: "nat \<Rightarrow> check_input_stream \<Rightarrow> check_input_stream result" where
  "check_substream offset s =
     (let p = is_pos s + offset - 4 in
      if is_end s < p then Inl (Stream_Error overrun)
      else Inr \<lparr>is_mem = is_mem s, is_pos = p, is_end = is_end s, total_read = 0\<rparr>)"

definition add_total :: "nat \<Rightarrow> check_input_stream \<Rightarrow> check_input_stream" where
  "add_total n s = s\<lparr>total_read := total_read s + n\<rparr>"

type_synonym checker = "check_input_stream \<Rightarrow> check_input_stream result"

fun check_elems :: "nat \<Rightarrow> checker \<Rightarrow> checker" where
  "check_elems 0 chk s = Inr s"
| "check_elems (Suc n) chk s = rbind (chk s) (check_elems n chk)"

fun check_fields :: "checker list \<Rightarrow> nat \<Rightarrow> checker" where
  "check_fields [] heap s = Inr s"
| "check_fields (chk # chks) heap s =
     rbind (if is_pos s < heap then chk s else Inr s) (check_fields chks heap)"

text \<open>\<^verbatim>\<open>fraccheck\<close> has no branch for variants and for an optional outside of a struct or a vector:
  those calls do not compile. It is only used for types with \<^verbatim>\<open>no_variant\<close>.\<close>

fun no_variant :: "fty \<Rightarrow> bool" where
  "no_variant (FT_variant ts) \<longleftrightarrow> False"
| "no_variant (FT_struct si ts) \<longleftrightarrow> (\<forall>t \<in> set ts. no_variant t)"
| "no_variant (FT_vector t) \<longleftrightarrow> no_variant t"
| "no_variant (FT_optional t) \<longleftrightarrow> no_variant t"
| "no_variant _ \<longleftrightarrow> True"

function fraccheck :: "fty \<Rightarrow> checker"
  and fraccheck_member :: "fty \<Rightarrow> checker" where
  "fraccheck (FT_variant ts) s = Inr s"
| "fraccheck (FT_optional t) s = Inr s"
| "fraccheck (FT_arith n) s = check_checkread n s"
| "fraccheck FT_string s =
     rbind (check_num 4 s) (\<lambda>(n, s). if n > 0 then check_checkread n s else Inr s)"
| "fraccheck (FT_vector t) s =
     (if can_memcpy t then
        rbind (check_num 4 s) (\<lambda>(n, s). if n > 0 then check_checkread n s else Inr s)
      else rbind (check_num 4 s) (\<lambda>(n, s). check_elems (n div 4) (fraccheck_member t) s))"
| "fraccheck (FT_struct si ts) s =
     (if can_memcpy (FT_struct si ts) then check_checkread (si_size si) s
      else
        rbind (if is_ext_structure (FT_struct si ts) then check_num 2 s
               else Inr (unat (fracpack_fixed_size (FT_struct si ts)), s)) (\<lambda>(start_heap, s).
        check_fields (map fraccheck_member ts) (is_pos s + start_heap) s))"
| "fraccheck_member t s =
     (if may_use_heap t then
        rbind (check_num 4 s) (\<lambda>(offset, s).
        case t of
          FT_optional u \<Rightarrow>
            if offset \<ge> 4 then
              rbind (check_substream offset s) (\<lambda>insubstr.
              rbind (fraccheck u insubstr) (\<lambda>insubstr. Inr (add_total (total_read insubstr) s)))
            else Inr s
        | _ \<Rightarrow>
            if \<not> is_range t \<or> offset \<ge> 4 then
              rbind (check_substream offset s) (\<lambda>insubstream.
              rbind (fraccheck t insubstream) (\<lambda>insubstream. Inr (add_total (total_read insubstream) s)))
            else Inr s)
      else fraccheck t s)"
  by pat_completeness auto

termination
  by (relation "measure (\<lambda>x. case x of Inl (t, s) \<Rightarrow> 2 * size t | Inr (t, s) \<Rightarrow> 2 * size t + 1)")
    (auto dest!: size_in_list)

declare fraccheck.simps [simp del] fraccheck_member.simps [simp del]

section \<open>The buffer with the packed object\<close>

text \<open>
  \<^verbatim>\<open>frac_ptr\<close> holds the size and the packed bytes. \<^verbatim>\<open>fresh i\<close> is what byte \<^verbatim>\<open>i\<close> of
  the new array happens to hold.
\<close>

definition frac_ptr_new :: "(nat \<Rightarrow> byte) \<Rightarrow> fty \<Rightarrow> fval \<Rightarrow> fault + byte list" where
  "frac_ptr_new fresh t v =
     (let size = fracpack_size t v;
          data = memcpy (map fresh [0..<unat size + 4]) 0 (word_le 4 size)
      in rbind (fracpack t v (frac_stream_new data 4 (unat size))) (\<lambda>(_, out). Inr (fr_mem out)))"

definition frac_ptr_size :: "byte list \<Rightarrow> nat" where
  "frac_ptr_size data = le_nat (take 4 data)"

definition frac_ptr_validate :: "fty \<Rightarrow> byte list \<Rightarrow> bool result" where
  "frac_ptr_validate t data =
     rbind (fraccheck t \<lparr>is_mem = data, is_pos = 4, is_end = 4 + frac_ptr_size data, total_read = 0\<rparr>)
       (\<lambda>s. Inr (total_read s \<le> frac_ptr_size data))"

text \<open>\<^verbatim>\<open>tmp\<close> is the default-initialized object the bytes are unpacked into.\<close>

definition frac_ptr_unpack :: "fty \<Rightarrow> fval \<Rightarrow> byte list \<Rightarrow> fault + fval" where
  "frac_ptr_unpack t tmp data =
     rbind (fracunpack t tmp \<lparr>is_mem = data, is_pos = 4, is_end = 4 + frac_ptr_size data\<rparr>)
       (\<lambda>(v, s). Inr v)"

section \<open>Views\<close>

text \<open>
  A view is an address in the packed bytes. \<^verbatim>\<open>contains_offset_ptr\<close> does not compile for a
  variant, since \<^verbatim>\<open>get_contains_offset_ptr\<close> is not declared: its value here stands for one
  of the code where there is \<^verbatim>\<open>no_variant\<close>.
\<close>

fun contains_offset_ptr :: "fty \<Rightarrow> bool" where
  "contains_offset_ptr (FT_optional t) \<longleftrightarrow> True"
| "contains_offset_ptr (FT_variant ts) \<longleftrightarrow> (\<exists>t \<in> set ts. contains_offset_ptr t)"
| "contains_offset_ptr FT_string \<longleftrightarrow> True"
| "contains_offset_ptr (FT_vector t) \<longleftrightarrow> True"
| "contains_offset_ptr (FT_struct si ts) \<longleftrightarrow> (\<exists>t \<in> set ts. contains_offset_ptr t)"
| "contains_offset_ptr (FT_arith n) \<longleftrightarrow> False"

fun get_offset :: "nat \<Rightarrow> fty list \<Rightarrow> u32" where
  "get_offset (Suc i) (t # ts) =
     (if contains_offset_ptr t then get_offset i ts + 4
      else get_offset i ts + ucast (fracpack_fixed_size t))"
| "get_offset _ _ = 0"

definition view_num :: "nat \<Rightarrow> byte list \<Rightarrow> nat \<Rightarrow> nat" where
  "view_num n mem p = le_nat (take n (drop p mem))"

definition offset_ptr_get :: "fty \<Rightarrow> byte list \<Rightarrow> nat \<Rightarrow> nat" where
  "offset_ptr_get t mem p =
     (let offset = view_num 4 mem p in
      if is_range t then if offset = 0 then p else p + offset
      else p + offset)"

text \<open>\<^verbatim>\<open>frac_proxy_view::get\<close>; a null pointer is \<^verbatim>\<open>None\<close>.\<close>

definition frac_proxy_get :: "struct_info \<Rightarrow> fty list \<Rightarrow> nat \<Rightarrow> byte list \<Rightarrow> nat \<Rightarrow> nat option" where
  "frac_proxy_get si ts idx mem this =
     (let ext = is_ext_structure (FT_struct si ts);
          offset = unat (get_offset idx ts + (if ext then 2 else 0));
          out_ptr = this + offset
      in case ts ! idx of
           FT_optional u \<Rightarrow>
             if ext \<and> view_num 2 mem this < offset + 2 then None
             else if view_num 4 mem out_ptr < 4 then None
             else Some (offset_ptr_get u mem out_ptr)
         | t \<Rightarrow> Some (if may_use_heap t then offset_ptr_get t mem out_ptr else out_ptr))"

definition frac_string_get :: "byte list \<Rightarrow> nat \<Rightarrow> byte list" where
  "frac_string_get mem p = take (view_num 4 mem p) (drop (p + 4) mem)"

definition frac_vector_size :: "fty \<Rightarrow> byte list \<Rightarrow> nat \<Rightarrow> nat" where
  "frac_vector_size t mem p =
     (if may_use_heap t then view_num 4 mem p div 4
      else view_num 4 mem p div unat (fracpack_fixed_size t))"

definition frac_vector_at :: "fty \<Rightarrow> byte list \<Rightarrow> nat \<Rightarrow> nat \<Rightarrow> nat" where
  "frac_vector_at t mem p index =
     (if may_use_heap t then offset_ptr_get t mem (p + 4 + index * 4)
      else p + 4 + index * unat (fracpack_fixed_size t))"

end
