(* ===== verification/Clio_Fracpack_Pack.thy ===== *)
theory Clio_Fracpack_Pack
  imports Clio_Fracpack
begin

text \<open>
  What packing writes. \<^verbatim>\<open>frac_bytes\<close> is a reference layout without streams, substreams and
  machine integers: a header, the cells of the members in order, and the heap. The packer of
  Clio\_Fracpack writes exactly these bytes and returns their number as long as they are fewer than
  \<^verbatim>\<open>2 ^ 16\<close>, the range of \<^verbatim>\<open>start_heap\<close>.
\<close>

section \<open>Well-formed types and typed values\<close>

fun fhas_type :: "fty \<Rightarrow> fval \<Rightarrow> bool" where
  "fhas_type (FT_arith n) v \<longleftrightarrow> (case v of FV_arith x \<Rightarrow> x < 256 ^ n | _ \<Rightarrow> False)"
| "fhas_type FT_string v \<longleftrightarrow> (case v of FV_string s \<Rightarrow> True | _ \<Rightarrow> False)"
| "fhas_type (FT_vector t) v \<longleftrightarrow> (case v of FV_vector vs \<Rightarrow> \<forall>v \<in> set vs. fhas_type t v | _ \<Rightarrow> False)"
| "fhas_type (FT_optional t) v \<longleftrightarrow>
     (case v of FV_optional None \<Rightarrow> True | FV_optional (Some x) \<Rightarrow> fhas_type t x | _ \<Rightarrow> False)"
| "fhas_type (FT_variant ts) v \<longleftrightarrow>
     (case v of FV_variant i x \<Rightarrow> if i < length ts then (map fhas_type ts ! i) x else False | _ \<Rightarrow> False)"
| "fhas_type (FT_struct si ts) v \<longleftrightarrow>
     (case v of FV_struct vs \<Rightarrow> list_all2 (\<lambda>f v. f v) (map fhas_type ts) vs | _ \<Rightarrow> False)"

definition is_optional :: "fty \<Rightarrow> bool" where
  "is_optional t \<longleftrightarrow> (case t of FT_optional _ \<Rightarrow> True | _ \<Rightarrow> False)"

text \<open>Packing an object of the type writes no offset.\<close>

fun offset_free :: "fty \<Rightarrow> bool" where
  "offset_free (FT_arith n) \<longleftrightarrow> True"
| "offset_free FT_string \<longleftrightarrow> True"
| "offset_free (FT_vector t) \<longleftrightarrow> can_memcpy t"
| "offset_free (FT_optional t) \<longleftrightarrow> False"
| "offset_free (FT_variant ts) \<longleftrightarrow> (\<forall>t \<in> set ts. offset_free t)"
| "offset_free (FT_struct si ts) \<longleftrightarrow> (\<forall>t \<in> set ts. \<not> may_use_heap t)"

text \<open>
  The types the format works for. The code compiles for more: an optional inside an optional, a
  variant with an alternative that needs offsets, a vector of objects that are neither copied nor
  on the heap.
\<close>

fun frac_wf :: "fty \<Rightarrow> bool" where
  "frac_wf (FT_arith n) \<longleftrightarrow> 0 < n"
| "frac_wf FT_string \<longleftrightarrow> True"
| "frac_wf (FT_vector t) \<longleftrightarrow> frac_wf t \<and> (if can_memcpy t then memcpy_size t < 2 ^ 16 else may_use_heap t)"
| "frac_wf (FT_optional t) \<longleftrightarrow> frac_wf t \<and> \<not> is_optional t"
| "frac_wf (FT_variant ts) \<longleftrightarrow>
     ts \<noteq> [] \<and> length ts \<le> 256 \<and> (\<forall>t \<in> set ts. frac_wf t \<and> \<not> is_optional t \<and> offset_free t)"
| "frac_wf (FT_struct si ts) \<longleftrightarrow>
     ts \<noteq> [] \<and> list_all2 fhas_type ts (si_init si) \<and> (\<forall>t \<in> set ts. frac_wf t)"

lemma list_all2_map_fun [simp]: "list_all2 (\<lambda>f v. f v) (map g ts) vs \<longleftrightarrow> list_all2 g ts vs"
  by (simp add: list_all2_map1)

lemma fhas_type_iff [simp]:
  "fhas_type (FT_arith n) v \<longleftrightarrow> (\<exists>x. v = FV_arith x \<and> x < 256 ^ n)"
  "fhas_type FT_string v \<longleftrightarrow> (\<exists>s. v = FV_string s)"
  "fhas_type (FT_vector t) v \<longleftrightarrow> (\<exists>vs. v = FV_vector vs \<and> (\<forall>v \<in> set vs. fhas_type t v))"
  "fhas_type (FT_optional t) v \<longleftrightarrow> v = FV_optional None \<or> (\<exists>x. v = FV_optional (Some x) \<and> fhas_type t x)"
  "fhas_type (FT_variant ts) v \<longleftrightarrow> (\<exists>i x. v = FV_variant i x \<and> i < length ts \<and> fhas_type (ts ! i) x)"
  "fhas_type (FT_struct si ts) v \<longleftrightarrow> (\<exists>vs. v = FV_struct vs \<and> list_all2 fhas_type ts vs)"
  by (auto split: fval.splits option.splits)

declare fhas_type.simps [simp del] can_memcpy.simps(2) [simp del]

lemma not_final_memcpy [simp]: "\<not> si_final si \<Longrightarrow> \<not> can_memcpy (FT_struct si ts)"
  by (simp add: can_memcpy.simps)

lemma default_value_typed: "frac_wf t \<Longrightarrow> fhas_type t (default_value t)"
proof (induction t)
  case (FT_variant ts)
  then show ?case by (cases ts) auto
qed auto

section \<open>The layout\<close>

text \<open>A member in the fixed part: in place, a number, or an offset to bytes on the heap.\<close>

datatype cell = Inline "byte list" | Mark nat | Pointer "byte list"

fun cell_size :: "cell \<Rightarrow> nat" where
  "cell_size (Inline bs) = length bs"
| "cell_size (Mark w) = 4"
| "cell_size (Pointer bs) = 4"

fun cell_heap :: "cell \<Rightarrow> byte list" where
  "cell_heap (Pointer bs) = bs"
| "cell_heap _ = []"

fun cell_fixed :: "nat \<Rightarrow> nat \<Rightarrow> cell \<Rightarrow> byte list" where
  "cell_fixed p h (Inline bs) = bs"
| "cell_fixed p h (Mark w) = nat_le 4 w"
| "cell_fixed p h (Pointer bs) = nat_le 4 (h - p)"

text \<open>The cells from position \<^verbatim>\<open>p\<close> on, with the next free place of the heap at \<^verbatim>\<open>h\<close>.\<close>

fun lay_fixed :: "nat \<Rightarrow> nat \<Rightarrow> cell list \<Rightarrow> byte list" where
  "lay_fixed p h [] = []"
| "lay_fixed p h (c # cs) = cell_fixed p h c @ lay_fixed (p + cell_size c) (h + length (cell_heap c)) cs"

definition lay_heap :: "cell list \<Rightarrow> byte list" where
  "lay_heap cs = concat (map cell_heap cs)"

definition cells_size :: "cell list \<Rightarrow> nat" where
  "cells_size cs = sum_list (map cell_size cs)"

definition frac_layout :: "byte list \<Rightarrow> cell list \<Rightarrow> byte list" where
  "frac_layout hdr cs = hdr @ lay_fixed (length hdr) (length hdr + cells_size cs) cs @ lay_heap cs"

text \<open>The size of the fixed part of a type.\<close>

fun fixed_nat :: "fty \<Rightarrow> nat" where
  "fixed_nat (FT_arith n) = n"
| "fixed_nat (FT_struct si ts) =
     (if can_memcpy (FT_struct si ts) then si_size si
      else sum_list (map (\<lambda>t. if may_use_heap t then 4 else fixed_nat t) ts))"
| "fixed_nat (FT_optional t) = 0"
| "fixed_nat _ = 4"

function frac_bytes :: "fty \<Rightarrow> fval \<Rightarrow> byte list" and frac_cell :: "fty \<Rightarrow> fval \<Rightarrow> cell" where
  "frac_bytes (FT_arith n) v = mem_image (FT_arith n) v"
| "frac_bytes FT_string v = (case v of FV_string s \<Rightarrow> nat_le 4 (length s) @ s | _ \<Rightarrow> [])"
| "frac_bytes (FT_vector t) v =
     (case v of
        FV_vector vs \<Rightarrow>
          if can_memcpy t
          then nat_le 4 (length vs * memcpy_size t) @ concat (map (mem_image t) vs)
          else frac_layout (nat_le 4 (length vs * 4)) (map (frac_cell t) vs)
      | _ \<Rightarrow> [])"
| "frac_bytes (FT_optional t) v = []"
| "frac_bytes (FT_variant ts) v =
     (case v of
        FV_variant i x \<Rightarrow> if i < length ts then of_nat i # (map frac_bytes ts ! i) x else []
      | _ \<Rightarrow> [])"
| "frac_bytes (FT_struct si ts) v =
     (if can_memcpy (FT_struct si ts) then mem_image (FT_struct si ts) v
      else
        case v of
          FV_struct vs \<Rightarrow>
            frac_layout (if is_ext_structure (FT_struct si ts) then nat_le 2 (fixed_nat (FT_struct si ts)) else [])
              (map (\<lambda>(f, v). f v) (zip (map frac_cell ts) vs))
        | _ \<Rightarrow> [])"
| "frac_cell t v =
     (if may_use_heap t then
        case t of
          FT_optional u \<Rightarrow>
            (case v of
               FV_optional (Some x) \<Rightarrow>
                 if is_range u then frac_cell u x else Pointer (frac_bytes u x)
             | _ \<Rightarrow> Mark 1)
        | _ \<Rightarrow> if is_range t \<and> is_empty_range v then Mark 0 else Pointer (frac_bytes t v)
      else Inline (frac_bytes t v))"
  by pat_completeness auto

termination
  by (relation "measure (\<lambda>x. case x of Inl (t, v) \<Rightarrow> 2 * size t | Inr (t, v) \<Rightarrow> 2 * size t + 1)")
    (auto dest!: size_in_list)

declare frac_bytes.simps [simp del] frac_cell.simps [simp del]

section \<open>Sizes\<close>

lemma lay_fixed_length [simp]: "length (lay_fixed p h cs) = cells_size cs"
proof (induction cs arbitrary: p h)
  case (Cons c cs)
  then show ?case by (cases c) (simp_all add: cells_size_def)
qed (simp add: cells_size_def)

lemma cells_size_simps [simp]:
  "cells_size [] = 0"
  "cells_size (c # cs) = cell_size c + cells_size cs"
  "cells_size (as @ bs) = cells_size as + cells_size bs"
  by (simp_all add: cells_size_def)

lemma lay_heap_simps [simp]:
  "lay_heap [] = []"
  "lay_heap (c # cs) = cell_heap c @ lay_heap cs"
  "lay_heap (as @ bs) = lay_heap as @ lay_heap bs"
  by (simp_all add: lay_heap_def)

lemma cell_fixed_length [simp]: "length (cell_fixed p h c) = cell_size c"
  by (cases c) simp_all

lemma lay_fixed_append:
  "lay_fixed p h (as @ bs) =
   lay_fixed p h as @ lay_fixed (p + cells_size as) (h + length (lay_heap as)) bs"
  by (induction as arbitrary: p h) (simp_all add: ac_simps)

lemma frac_layout_length [simp]:
  "length (frac_layout hdr cs) = length hdr + cells_size cs + length (lay_heap cs)"
  by (simp add: frac_layout_def)

lemma is_flat_sizes:
  "is_flat sz p offs ms \<Longrightarrow> sz = p + sum_list (map snd ms) \<and> list_all fst ms"
  by (induction sz p offs ms rule: is_flat.induct) auto

lemma can_memcpy_struct:
  assumes "can_memcpy (FT_struct si ts)"
  shows "si_size si = sum_list (map memcpy_size ts)" "\<forall>t \<in> set ts. can_memcpy t"
proof -
  have "is_flat (si_size si) 0 (si_offsets si) (map (\<lambda>t. (can_memcpy t, memcpy_size t)) ts)"
    using assms unfolding can_memcpy.simps by (simp split: if_splits)
  from is_flat_sizes [OF this]
  show "si_size si = sum_list (map memcpy_size ts)" "\<forall>t \<in> set ts. can_memcpy t"
    by (simp_all add: comp_def list_all_iff)
qed

lemma mem_image_length:
  "can_memcpy t \<Longrightarrow> fhas_type t v \<Longrightarrow> length (mem_image t v) = memcpy_size t"
proof (induction t arbitrary: v)
  case (FT_struct si ts)
  from FT_struct.prems(2) obtain vs where vs: "v = FV_struct vs" "list_all2 fhas_type ts vs"
    by auto
  note cm = can_memcpy_struct [OF FT_struct.prems(1)]
  have "length (concat (map (\<lambda>(f, v). f v) (zip (map mem_image ts) vs))) = sum_list (map memcpy_size ts)"
    using vs(2) FT_struct.IH cm(2)
    by (induction rule: list_all2_induct) auto
  with vs(1) cm(1) show ?case by simp
qed auto

lemma is_optional_heap: "is_optional t \<Longrightarrow> may_use_heap t"
  by (cases t) (simp_all add: is_optional_def)

lemma fixed_nat_memcpy: "can_memcpy t \<Longrightarrow> fixed_nat t = memcpy_size t"
  by (cases t) auto

lemma fracpack_fixed_size_nat:
  "\<not> is_optional t \<Longrightarrow> fracpack_fixed_size t = of_nat (fixed_nat t)"
proof (induction t)
  case (FT_struct si ts)
  have "sum_list (map (\<lambda>t. if may_use_heap t then 4 else fracpack_fixed_size t) ts) =
        of_nat (sum_list (map (\<lambda>t. if may_use_heap t then 4 else fixed_nat t) ts))"
    using FT_struct.IH
  proof (induction ts)
    case (Cons t ts)
    then have "\<not> may_use_heap t \<Longrightarrow> fracpack_fixed_size t = of_nat (fixed_nat t)"
      by (metis is_optional_heap list.set_intros(1))
    with Cons show ?case by simp
  qed simp
  then show ?case by simp
qed (simp_all add: is_optional_def)

lemma concat_map_length:
  "\<forall>v \<in> set vs. length (f v) = n \<Longrightarrow> length (concat (map f vs)) = length vs * n"
  by (induction vs) auto

text \<open>The cells of a vector and of a struct.\<close>

abbreviation frac_cells :: "fty list \<Rightarrow> fval list \<Rightarrow> cell list" where
  "frac_cells ts vs \<equiv> map2 frac_cell ts vs"

lemma zip_map_apply [simp]: "map (\<lambda>(f, v). f v) (zip (map g ts) vs) = map2 g ts vs"
  by (simp add: zip_map1 split_def)

lemma frac_cells_replicate: "map (frac_cell t) vs = frac_cells (replicate (length vs) t) vs"
  by (induction vs) simp_all

lemma fixed_struct_heap:
  assumes "\<not> may_use_heap (FT_struct si ts)" "\<not> can_memcpy (FT_struct si ts)"
  shows "si_final si" "\<forall>t \<in> set ts. \<not> may_use_heap t"
  using assms by (auto split: if_splits)

lemma no_heap_fixed: "\<not> may_use_heap t \<Longrightarrow> is_fixed_structure t"
proof (induction t)
  case (FT_struct si ts)
  show ?case
  proof (cases "can_memcpy (FT_struct si ts)")
    case False
    with fixed_struct_heap [OF FT_struct.prems False] FT_struct.IH show ?thesis by simp
  qed simp
qed simp_all

text \<open>An object that does not use the heap has the size of its type.\<close>

lemma no_heap_length:
  assumes "\<not> may_use_heap t" "fhas_type t v"
  shows "length (frac_bytes t v) = fixed_nat t"
  using assms
proof (induction t arbitrary: v)
  case (FT_arith n)
  then show ?case by (auto simp: frac_bytes.simps)
next
  case (FT_struct si ts)
  from FT_struct.prems(2) obtain vs where vs: "v = FV_struct vs" "list_all2 fhas_type ts vs"
    by auto
  show ?case
  proof (cases "can_memcpy (FT_struct si ts)")
    case True
    then show ?thesis using mem_image_length [OF True FT_struct.prems(2)]
      by (simp add: frac_bytes.simps)
  next
    case False
    note nh = fixed_struct_heap [OF FT_struct.prems(1) False]
    have "cells_size (frac_cells ts vs) = sum_list (map (\<lambda>t. if may_use_heap t then 4 else fixed_nat t) ts) \<and>
        lay_heap (frac_cells ts vs) = []"
      using vs(2) FT_struct.IH nh(2)
      by (induction rule: list_all2_induct) (auto simp: frac_cell.simps)
    with False vs(1) nh(1) no_heap_fixed [OF FT_struct.prems(1)] show ?thesis
      by (simp add: frac_bytes.simps is_ext_structure_def)
  qed
qed simp_all

lemma frac_cell_size: "fhas_type t v \<Longrightarrow> cell_size (frac_cell t v) = (if may_use_heap t then 4 else fixed_nat t)"
proof (induction t arbitrary: v)
  case (FT_optional t)
  then show ?case by (auto simp: frac_cell.simps [of "FT_optional t"] is_range_def split: fty.splits)
next
  case (FT_struct si ts)
  then show ?case using no_heap_length [OF _ FT_struct.prems] by (simp add: frac_cell.simps is_range_def)
qed (auto simp: frac_cell.simps no_heap_length)

lemma frac_cells_size:
  "list_all2 fhas_type ts vs \<Longrightarrow>
   cells_size (frac_cells ts vs) = sum_list (map (\<lambda>t. if may_use_heap t then 4 else fixed_nat t) ts)"
  by (induction rule: list_all2_induct) (auto simp: frac_cell_size)

section \<open>Packing writes the layout\<close>

lemma unat_add_u16: "unat h + n < 2 ^ 16 \<Longrightarrow> unat (h + of_nat n :: u16) = unat h + n"
  using unat_of_nat_u16 [of "unat h + n"] by simp

lemma ucast_u16_u32: "ucast (h :: u16) = (of_nat (unat h) :: u32)"
  by simp

lemma ucast_u32_u16: "n < 2 ^ 16 \<Longrightarrow> (ucast (of_nat n :: u32) :: u16) = of_nat n"
proof -
  assume "n < 2 ^ 16"
  then have "unat (of_nat n :: u32) = n" by (intro unat_of_nat_u32) simp
  then show ?thesis by (metis of_nat_unat)
qed

lemma word_le_of_nat: "n < 2 ^ 32 \<Longrightarrow> word_le k (of_nat n :: u32) = nat_le k n"
  by (simp add: word_le_def unat_of_nat_u32)

definition room :: "nat \<Rightarrow> frac_stream \<Rightarrow> bool" where
  "room n s \<longleftrightarrow> fr_begin s \<le> fr_pos s \<and> fr_pos s + n \<le> fr_end s \<and> fr_pos s + n \<le> length (fr_mem s)"

text \<open>The stream after \<^verbatim>\<open>bs\<close> was written at its position, which is now \<^verbatim>\<open>q\<close>.\<close>

definition written_at :: "byte list \<Rightarrow> nat \<Rightarrow> frac_stream \<Rightarrow> frac_stream" where
  "written_at bs q s = s\<lparr>fr_mem := memcpy (fr_mem s) (fr_pos s) bs, fr_pos := q\<rparr>"

lemma written_at_simps [simp]:
  "fr_begin (written_at bs q s) = fr_begin s" "fr_end (written_at bs q s) = fr_end s"
  "fr_pos (written_at bs q s) = q" "fr_mem (written_at bs q s) = memcpy (fr_mem s) (fr_pos s) bs"
  by (simp_all add: written_at_def)

lemma written_at_Nil [simp]: "written_at [] (fr_pos s) s = s"
  by (simp add: written_at_def)

lemma frac_write_room: "room (length bs) s \<Longrightarrow> frac_write bs s = Inr (written_at bs (fr_pos s + length bs) s)"
  by (simp add: room_def frac_write_def written_at_def)

lemma written_twice:
  assumes "room (length a + length b) s"
  shows "written_at b q (written_at a (fr_pos s + length a) s) = written_at (a @ b) q s"
  using assms by (simp add: written_at_def room_def memcpy_memcpy)

lemma room_written:
  "room (length a + n) s \<Longrightarrow> room n (written_at a (fr_pos s + length a) s)"
  by (auto simp: room_def length_memcpy)

lemma room_mono: "room m s \<Longrightarrow> n \<le> m \<Longrightarrow> room n s"
  by (auto simp: room_def)

definition packs :: "fty \<Rightarrow> bool" where
  "packs t \<longleftrightarrow> (\<forall>v s. fhas_type t v \<longrightarrow> length (frac_bytes t v) < 2 ^ 16 \<longrightarrow>
     fracpack_size t v = of_nat (length (frac_bytes t v)) \<and>
     (room (length (frac_bytes t v)) s \<longrightarrow> fr_pos s = fr_begin s \<or> offset_free t \<longrightarrow>
      (\<exists>q. fracpack t v s = Inr (of_nat (length (frac_bytes t v)), written_at (frac_bytes t v) q s) \<and>
         (\<not> may_use_heap t \<longrightarrow> q = fr_pos s + length (frac_bytes t v)))))"

text \<open>
  A member is packed at the position of the stream, with the heap of the object in use up to
  \<^verbatim>\<open>h\<close>; both are relative to the begin of the stream.
\<close>

definition member_room :: "u16 \<Rightarrow> nat \<Rightarrow> nat \<Rightarrow> frac_stream \<Rightarrow> bool" where
  "member_room sh n m s \<longleftrightarrow> fr_begin s \<le> fr_pos s \<and> fr_pos s + n \<le> fr_begin s + unat sh \<and>
     unat sh + m < 2 ^ 16 \<and> fr_begin s + unat sh + m \<le> fr_end s \<and>
     fr_begin s + unat sh + m \<le> length (fr_mem s)"

definition laid_out :: "u16 \<Rightarrow> cell list \<Rightarrow> frac_stream \<Rightarrow> frac_stream" where
  "laid_out sh cs s = s\<lparr>fr_mem :=
     memcpy (memcpy (fr_mem s) (fr_pos s) (lay_fixed (fr_pos s - fr_begin s) (unat sh) cs))
       (fr_begin s + unat sh) (lay_heap cs), fr_pos := fr_pos s + cells_size cs\<rparr>"

definition packs_member :: "fty \<Rightarrow> bool" where
  "packs_member t \<longleftrightarrow> (\<forall>v sh s. fhas_type t v \<longrightarrow>
     (let c = frac_cell t v in
      (unat sh + length (cell_heap c) < 2 ^ 16 \<longrightarrow>
         fracpack_size_member t sh v = sh + of_nat (length (cell_heap c))) \<and>
      (member_room sh (cell_size c) (length (cell_heap c)) s \<longrightarrow>
         fracpack_member t sh v s = Inr (sh + of_nat (length (cell_heap c)), laid_out sh [c] s))))"

lemma pack_on_heap_ok:
  assumes pk: "\<And>sub. room (length bs) sub \<Longrightarrow> fr_pos sub = fr_begin sub \<Longrightarrow>
      \<exists>q. pk v sub = Inr (of_nat (length bs), written_at bs q sub)"
    and room: "member_room sh 4 (length bs) s"
  shows "pack_on_heap pk sh v s = Inr (sh + of_nat (length bs), laid_out sh [Pointer bs] s)"
proof -
  let ?p = "fr_pos s - fr_begin s"
  let ?off = "ucast sh - of_nat ?p :: u32"
  have b: "fr_begin s \<le> fr_pos s" "?p + 4 \<le> unat sh" "unat sh + length bs < 2 ^ 16"
    using room by (auto simp: member_room_def)
  have d: "?off = of_nat (unat sh - ?p)"
    using b by (simp add: of_nat_diff)
  have less: "unat sh - ?p < 2 ^ 32"
    using b by simp
  have off: "unat ?off = unat sh - ?p" "word_le 4 ?off = nat_le 4 (unat sh - ?p)"
    unfolding d using less by (rule unat_of_nat_u32, rule word_le_of_nat)
  let ?s = "written_at (nat_le 4 (unat sh - ?p)) (fr_pos s + 4) s"
  have w: "frac_write (nat_le 4 (unat sh - ?p)) s = Inr ?s"
    using frac_write_room [of "nat_le 4 (unat sh - ?p)" s] room
    by (simp add: member_room_def room_def)
  have at: "fr_pos s + 4 + (unat sh - ?p) - 4 = fr_begin s + unat sh"
    using b by simp
  let ?sub = "frac_stream_new (fr_mem ?s) (fr_begin s + unat sh) (fr_end s - (fr_pos s + 4))"
  have "room (length bs) ?sub"
    using room by (auto simp: room_def frac_stream_new_def length_memcpy member_room_def)
  then obtain q where "pk v ?sub = Inr (of_nat (length bs), written_at bs q ?sub)"
    using pk [of ?sub] by (auto simp: frac_stream_new_def)
  then show ?thesis
    using b(3) by (simp add: pack_on_heap_def frac_consumed_def Let_def off w at ucast_u32_u16
        laid_out_def written_at_def frac_stream_new_def)
qed

lemma can_memcpy_no_heap: "can_memcpy t \<Longrightarrow> \<not> may_use_heap t"
  by (cases t) (simp_all, metis not_final_memcpy)

lemma no_heap_offset_free: "\<not> may_use_heap t \<Longrightarrow> offset_free t"
proof (cases t)
  case (FT_struct si ts)
  assume nh: "\<not> may_use_heap t"
  have "\<forall>u \<in> set ts. \<not> may_use_heap u"
  proof (cases "can_memcpy (FT_struct si ts)")
    case True
    then show ?thesis using can_memcpy_struct(2) can_memcpy_no_heap by blast
  next
    case False
    then show ?thesis using fixed_struct_heap(2) nh FT_struct by blast
  qed
  then show ?thesis using FT_struct by simp
qed simp_all

lemma packsD:
  assumes "packs t" "fhas_type t v" "length (frac_bytes t v) < 2 ^ 16"
  shows "fracpack_size t v = of_nat (length (frac_bytes t v))"
    and "room (length (frac_bytes t v)) s \<Longrightarrow> fr_pos s = fr_begin s \<or> offset_free t \<Longrightarrow>
      \<exists>q. fracpack t v s = Inr (of_nat (length (frac_bytes t v)), written_at (frac_bytes t v) q s) \<and>
        (\<not> may_use_heap t \<longrightarrow> q = fr_pos s + length (frac_bytes t v))"
  using assms unfolding packs_def by blast+

lemma packs_pointer:
  assumes "packs t" "fhas_type t v" "member_room sh 4 (length (frac_bytes t v)) s"
  shows "pack_on_heap (fracpack t) sh v s =
    Inr (sh + of_nat (length (frac_bytes t v)), laid_out sh [Pointer (frac_bytes t v)] s)"
proof (rule pack_on_heap_ok [OF _ assms(3)])
  have "length (frac_bytes t v) < 2 ^ 16" using assms(3) by (simp add: member_room_def)
  then show "\<exists>q. fracpack t v sub = Inr (of_nat (length (frac_bytes t v)), written_at (frac_bytes t v) q sub)"
    if "room (length (frac_bytes t v)) sub" "fr_pos sub = fr_begin sub" for sub
    using packsD(2) [OF assms(1,2), of sub] that by blast
qed

lemma packs_pointer_size:
  assumes "packs t" "fhas_type t v" "unat sh + length (frac_bytes t v) < 2 ^ 16"
  shows "(sh :: u16) + ucast (fracpack_size t v) = sh + of_nat (length (frac_bytes t v))"
proof -
  have "length (frac_bytes t v) < 2 ^ 16" using assms(3) by simp
  then show ?thesis using packsD(1) [OF assms(1,2)] by (simp only: ucast_u32_u16)
qed

lemma write_mark:
  assumes "member_room sh 4 0 s" "w < 2 ^ 32"
  shows "frac_write (word_le 4 (of_nat w :: u32)) s = Inr (laid_out sh [Mark w] s)"
  using assms frac_write_room [of "nat_le 4 w" s]
  by (simp add: word_le_of_nat room_def member_room_def laid_out_def written_at_def)

lemmas write_marks = write_mark [of _ _ 0, simplified] write_mark [of _ _ 1, simplified]

lemma packs_member_plain:
  assumes "packs t" "\<not> is_optional t"
  shows "packs_member t"
proof (cases "may_use_heap t")
  case True
  then have member: "fracpack_member t sh v s =
      (if is_range t \<and> is_empty_range v
       then rbind (frac_write (word_le 4 (0 :: u32)) s) (\<lambda>s. Inr (sh, s))
       else pack_on_heap (fracpack t) sh v s)"
    "fracpack_size_member t sh v =
      (if is_range t \<and> is_empty_range v then sh else sh + ucast (fracpack_size t v))"
    "frac_cell t v = (if is_range t \<and> is_empty_range v then Mark 0 else Pointer (frac_bytes t v))" for sh v s
    using assms(2)
    by (simp_all add: fracpack_member.simps fracpack_size_member.simps frac_cell.simps is_optional_def
        split: fty.splits)
  show ?thesis
    unfolding packs_member_def Let_def
  proof (intro allI impI conjI)
    fix v sh s
    assume v: "fhas_type t v"
    show "fracpack_size_member t sh v = sh + of_nat (length (cell_heap (frac_cell t v)))"
      if "unat sh + length (cell_heap (frac_cell t v)) < 2 ^ 16"
      using packs_pointer_size [OF assms(1) v, of sh] that by (auto simp: member split: if_splits)
    show "fracpack_member t sh v s =
        Inr (sh + of_nat (length (cell_heap (frac_cell t v))), laid_out sh [frac_cell t v] s)"
      if "member_room sh (cell_size (frac_cell t v)) (length (cell_heap (frac_cell t v))) s"
      using packs_pointer [OF assms(1) v, of sh s] that
      by (cases "is_range t \<and> is_empty_range v") (auto simp: member write_marks)
  qed
next
  case False
  have len: "length (frac_bytes t v) < 2 ^ 16"
    if "member_room sh (length (frac_bytes t v)) 0 s" for sh v s
    using that by (auto simp: member_room_def)
  have "fracpack_member t sh v s = Inr (sh, laid_out sh [Inline (frac_bytes t v)] s)"
    if "fhas_type t v" "member_room sh (length (frac_bytes t v)) 0 s" for sh v s
  proof -
    have "room (length (frac_bytes t v)) s" using that(2) by (auto simp: member_room_def room_def)
    then show ?thesis
      using packsD(2) [OF assms(1) that(1) len [OF that(2)], of s] False no_heap_offset_free [of t]
      by (auto simp: fracpack_member.simps laid_out_def written_at_def)
  qed
  with False show ?thesis
    by (simp add: packs_member_def frac_cell.simps fracpack_size_member.simps)
qed

lemma packs_member_optional:
  assumes "packs t" "packs_member t" "\<not> is_optional t"
  shows "packs_member (FT_optional t)"
  unfolding packs_member_def Let_def
proof (intro allI impI conjI)
  fix v sh s
  assume v: "fhas_type (FT_optional t) v"
  note simps = fracpack_member.simps [of "FT_optional t"] fracpack_size_member.simps [of "FT_optional t"]
    frac_cell.simps [of "FT_optional t"]
  show "fracpack_size_member (FT_optional t) sh v = sh + of_nat (length (cell_heap (frac_cell (FT_optional t) v)))"
    if "unat sh + length (cell_heap (frac_cell (FT_optional t) v)) < 2 ^ 16"
    using v assms(2) packs_pointer_size [OF assms(1)] that
    by (auto simp: simps packs_member_def Let_def split: if_splits)
  show "fracpack_member (FT_optional t) sh v s =
      Inr (sh + of_nat (length (cell_heap (frac_cell (FT_optional t) v))),
        laid_out sh [frac_cell (FT_optional t) v] s)"
    if "member_room sh (cell_size (frac_cell (FT_optional t) v))
       (length (cell_heap (frac_cell (FT_optional t) v))) s"
    using v assms(2) packs_pointer [OF assms(1)] that
    by (auto simp: simps packs_member_def Let_def write_marks split: if_splits)
qed

lemma laid_out_Cons:
  assumes "member_room sh (cells_size (c # cs)) (length (lay_heap (c # cs))) s"
  shows "laid_out (sh + of_nat (length (cell_heap c))) cs (laid_out sh [c] s) = laid_out sh (c # cs) s"
    "member_room (sh + of_nat (length (cell_heap c))) (cells_size cs) (length (lay_heap cs)) (laid_out sh [c] s)"
proof -
  let ?x = "cell_heap c" and ?p = "fr_pos s" and ?H = "fr_begin s + unat sh"
  let ?a = "cell_fixed (?p - fr_begin s) (unat sh) c"
  let ?b = "lay_fixed (?p - fr_begin s + cell_size c) (unat sh + length ?x) cs"
  have h: "unat (sh + of_nat (length ?x)) = unat sh + length ?x"
    using assms by (intro unat_add_u16) (simp add: member_room_def)
  have p: "?p + cell_size c - fr_begin s = ?p - fr_begin s + cell_size c"
    using assms by (simp add: member_room_def)
  have m: "memcpy (memcpy (memcpy (memcpy (fr_mem s) ?p ?a) ?H ?x) (?p + cell_size c) ?b)
        (?H + length ?x) (lay_heap cs) =
      memcpy (memcpy (fr_mem s) ?p (?a @ ?b)) ?H (?x @ lay_heap cs)"
    using memcpy_cells [of ?p ?a ?b ?H ?x "lay_heap cs" "fr_mem s"] assms
    by (simp add: member_room_def)
  have l: "laid_out sh [c] s = s\<lparr>fr_mem := memcpy (memcpy (fr_mem s) ?p ?a) ?H ?x, fr_pos := ?p + cell_size c\<rparr>"
    by (simp add: laid_out_def)
  show "laid_out (sh + of_nat (length (cell_heap c))) cs (laid_out sh [c] s) = laid_out sh (c # cs) s"
    unfolding l by (simp add: laid_out_def h p m [unfolded add.assoc] add.assoc)
  show "member_room (sh + of_nat (length (cell_heap c))) (cells_size cs) (length (lay_heap cs)) (laid_out sh [c] s)"
    using assms by (simp add: member_room_def laid_out_def h length_memcpy)
qed

lemma pack_fields_ok:
  assumes "list_all2 fhas_type ts vs" "\<forall>t \<in> set ts. packs_member t"
    and "member_room sh (cells_size (frac_cells ts vs)) (length (lay_heap (frac_cells ts vs))) s"
  shows "pack_fields (map fracpack_member ts) sh vs s =
    Inr (sh + of_nat (length (lay_heap (frac_cells ts vs))), laid_out sh (frac_cells ts vs) s)"
  using assms
proof (induction arbitrary: sh s rule: list_all2_induct)
  case Nil
  then show ?case by (simp add: laid_out_def)
next
  case (Cons t ts v vs)
  let ?c = "frac_cell t v"
  have "member_room sh (cell_size ?c) (length (cell_heap ?c)) s"
    using Cons.prems(2) by (auto simp: member_room_def)
  then have "fracpack_member t sh v s = Inr (sh + of_nat (length (cell_heap ?c)), laid_out sh [?c] s)"
    using Cons.prems(1) Cons.hyps(1) by (simp add: packs_member_def Let_def)
  with Cons.IH [of "sh + of_nat (length (cell_heap ?c))" "laid_out sh [?c] s"] Cons.prems
    laid_out_Cons [of sh ?c "frac_cells ts vs" s]
  show ?case by (simp add: add.assoc)
qed

lemma size_fields_ok:
  assumes "list_all2 fhas_type ts vs" "\<forall>t \<in> set ts. packs_member t"
    and "unat sh + length (lay_heap (frac_cells ts vs)) < 2 ^ 16"
  shows "size_fields (map fracpack_size_member ts) sh vs = sh + of_nat (length (lay_heap (frac_cells ts vs)))"
  using assms
proof (induction arbitrary: sh rule: list_all2_induct)
  case (Cons t ts v vs)
  let ?n = "length (cell_heap (frac_cell t v))"
  have "unat sh + ?n < 2 ^ 16" using Cons.prems(2) by simp
  then have "unat (sh + of_nat ?n) = unat sh + ?n" "fracpack_size_member t sh v = sh + of_nat ?n"
    using Cons.prems(1) Cons.hyps(1) unat_add_u16 by (auto simp: packs_member_def Let_def)
  with Cons.IH [of "sh + of_nat ?n"] Cons.prems show ?case by (simp add: add.assoc)
qed simp

lemma pack_elems_fields: "pack_elems pk sh vs s = pack_fields (replicate (length vs) pk) sh vs s"
  by (induction vs arbitrary: sh s) (auto intro!: rbind_cong)

lemma size_elems_fields: "size_elems sz sh vs = size_fields (replicate (length vs) sz) sh vs"
  by (induction vs arbitrary: sh) auto

text \<open>A header and the laid out members behind it are the object.\<close>

lemma layout_written:
  assumes "room (length (frac_layout hdr cs)) s" "fr_pos s = fr_begin s"
    and "unat sh = length hdr + cells_size cs" "length (frac_layout hdr cs) < 2 ^ 16"
  shows "laid_out sh cs (written_at hdr (fr_pos s + length hdr) s) =
      written_at (frac_layout hdr cs) (fr_pos s + length hdr + cells_size cs) s"
    "member_room sh (cells_size cs) (length (lay_heap cs)) (written_at hdr (fr_pos s + length hdr) s)"
proof -
  show "member_room sh (cells_size cs) (length (lay_heap cs)) (written_at hdr (fr_pos s + length hdr) s)"
    using assms by (auto simp: member_room_def room_def length_memcpy)
  let ?b = "lay_fixed (length hdr) (length hdr + cells_size cs) cs"
  have "memcpy (memcpy (memcpy (fr_mem s) (fr_pos s) hdr) (fr_pos s + length hdr) ?b)
      (fr_pos s + length hdr + cells_size cs) (lay_heap cs) = memcpy (fr_mem s) (fr_pos s) (frac_layout hdr cs)"
    using assms(1) memcpy_memcpy [of "fr_pos s" "hdr @ ?b" "lay_heap cs" "fr_mem s"]
    by (simp add: memcpy_memcpy frac_layout_def room_def add.assoc)
  then show "laid_out sh cs (written_at hdr (fr_pos s + length hdr) s) =
      written_at (frac_layout hdr cs) (fr_pos s + length hdr + cells_size cs) s"
    using assms(2,3) by (simp add: laid_out_def written_at_def add.assoc)
qed

lemma layout_packed:
  fixes sh :: u16
  assumes l2: "list_all2 fhas_type ts vs" and members: "\<forall>t \<in> set ts. packs_member t"
    and sh: "unat sh = length hdr + cells_size (frac_cells ts vs)"
    and len: "length (frac_layout hdr (frac_cells ts vs)) < 2 ^ 16"
  shows "(ucast (size_fields (map fracpack_size_member ts) sh vs) :: u32) =
      of_nat (length (frac_layout hdr (frac_cells ts vs)))"
    and "room (length (frac_layout hdr (frac_cells ts vs))) s \<Longrightarrow> fr_pos s = fr_begin s \<Longrightarrow>
      \<exists>sh' q. pack_fields (map fracpack_member ts) sh vs (written_at hdr (fr_pos s + length hdr) s) =
          Inr (sh', written_at (frac_layout hdr (frac_cells ts vs)) q s) \<and>
        ucast sh' = (of_nat (length (frac_layout hdr (frac_cells ts vs))) :: u32) \<and>
        q = fr_pos s + length hdr + cells_size (frac_cells ts vs)"
proof -
  let ?cs = "frac_cells ts vs"
  have "sh = of_nat (length hdr + cells_size ?cs)" unfolding sh [symmetric] by simp
  then have "sh + of_nat (length (lay_heap ?cs)) = of_nat (length (frac_layout hdr ?cs))" by simp
  then have ret: "(ucast (sh + of_nat (length (lay_heap ?cs))) :: u32) = of_nat (length (frac_layout hdr ?cs))"
    using len by (simp only: ucast_u16_u32 unat_of_nat_u16)
  have "unat sh + length (lay_heap ?cs) < 2 ^ 16" using len sh by simp
  from size_fields_ok [OF l2 members this] ret
  show "(ucast (size_fields (map fracpack_size_member ts) sh vs) :: u32) = of_nat (length (frac_layout hdr ?cs))"
    by (simp only:)
  assume "room (length (frac_layout hdr ?cs)) s" "fr_pos s = fr_begin s"
  note w = layout_written [OF this sh len]
  from pack_fields_ok [OF l2 members w(2)] w(1) ret
  show "\<exists>sh' q. pack_fields (map fracpack_member ts) sh vs (written_at hdr (fr_pos s + length hdr) s) =
          Inr (sh', written_at (frac_layout hdr ?cs) q s) \<and>
        ucast sh' = (of_nat (length (frac_layout hdr ?cs)) :: u32) \<and>
        q = fr_pos s + length hdr + cells_size ?cs"
    by auto
qed

lemma packs_arith: "packs (FT_arith n)"
  using frac_write_room by (auto simp: packs_def fracpack.simps fracpack_size.simps frac_bytes.simps)

text \<open>Strings and vectors of copied objects: a size and so many bytes.\<close>

lemma write_sized:
  assumes room: "room (length (nat_le 4 (length d) @ d)) s" and len: "length d < 2 ^ 16"
  shows "rbind (frac_write (word_le 4 (of_nat (length d) :: u32)) s) (\<lambda>s.
      rbind (if (of_nat (length d) :: u32) > 0 then frac_write (take (unat (of_nat (length d) :: u32)) d) s
             else Inr s) f) =
    f (written_at (nat_le 4 (length d) @ d) (fr_pos s + 4 + length d) s)"
proof -
  have n: "length d < 2 ^ 32" using len by simp
  let ?s = "written_at (nat_le 4 (length d)) (fr_pos s + 4) s"
  have zero: "word_le 4 (0 :: u32) = nat_le 4 0" by (simp add: word_le_def)
  have r: "room (length (nat_le 4 (length d)) + length d) s" using room by simp
  have w: "frac_write (nat_le 4 (length d)) s = Inr ?s"
    using frac_write_room [OF room_mono [OF r], of "nat_le 4 (length d)"] by simp
  have "frac_write d ?s = Inr (written_at (nat_le 4 (length d) @ d) (fr_pos s + 4 + length d) s)"
    using frac_write_room [OF room_written [OF r]] written_twice [OF r] by simp
  moreover have "(of_nat (length d) :: u32) = 0 \<Longrightarrow> d = []"
    using unat_of_nat_u32 [OF n] by auto
  ultimately show ?thesis
    using w by (cases "d = []") (auto simp: zero word_le_of_nat [OF n] unat_of_nat_u32 [OF n] w word_gt_0_iff)
qed

lemma packs_string: "packs FT_string"
  unfolding packs_def
proof (intro allI impI conjI)
  fix v s
  assume "fhas_type FT_string v" and len: "length (frac_bytes FT_string v) < 2 ^ 16"
  then obtain d where v: "v = FV_string d" and n: "length d < 2 ^ 16"
    by (auto simp: frac_bytes.simps)
  show "fracpack_size FT_string v = of_nat (length (frac_bytes FT_string v))"
    by (simp add: v fracpack_size.simps frac_bytes.simps)
  assume "room (length (frac_bytes FT_string v)) s"
  with n show "\<exists>q. fracpack FT_string v s =
        Inr (of_nat (length (frac_bytes FT_string v)), written_at (frac_bytes FT_string v) q s) \<and>
      (\<not> may_use_heap FT_string \<longrightarrow> q = fr_pos s + length (frac_bytes FT_string v))"
    by (auto simp: v fracpack.simps frac_bytes.simps write_sized Let_def)
qed

lemma packs_vector:
  assumes "frac_wf (FT_vector t)" "packs_member t"
  shows "packs (FT_vector t)"
  unfolding packs_def
proof (intro allI impI)
  fix v s
  assume typed: "fhas_type (FT_vector t) v" and len: "length (frac_bytes (FT_vector t) v) < 2 ^ 16"
  then obtain vs where v: "v = FV_vector vs" and vs: "\<forall>v \<in> set vs. fhas_type t v"
    by auto
  show "fracpack_size (FT_vector t) v = of_nat (length (frac_bytes (FT_vector t) v)) \<and>
     (room (length (frac_bytes (FT_vector t) v)) s \<longrightarrow> fr_pos s = fr_begin s \<or> offset_free (FT_vector t) \<longrightarrow>
      (\<exists>q. fracpack (FT_vector t) v s = Inr (of_nat (length (frac_bytes (FT_vector t) v)),
           written_at (frac_bytes (FT_vector t) v) q s) \<and>
         (\<not> may_use_heap (FT_vector t) \<longrightarrow> q = fr_pos s + length (frac_bytes (FT_vector t) v))))"
  proof (cases "can_memcpy t")
    case True
    let ?d = "concat (map (mem_image t) vs)"
    have fs: "fracpack_fixed_size t = of_nat (memcpy_size t)" "memcpy_size t < 2 ^ 16"
      using True assms(1) fracpack_fixed_size_nat [of t] can_memcpy_no_heap [of t] is_optional_heap [of t]
      by (auto simp: fixed_nat_memcpy)
    have d: "length ?d = length vs * memcpy_size t"
      using vs by (intro concat_map_length) (simp add: mem_image_length True)
    have bytes: "frac_bytes (FT_vector t) (FV_vector vs) = nat_le 4 (length ?d) @ ?d"
      using True by (simp add: frac_bytes.simps d)
    have n: "of_nat (length vs) * ucast (fracpack_fixed_size t) = (of_nat (length ?d) :: u32)"
      using fs by (simp add: d unat_of_nat_u16 ucast_u16_u32)
    show ?thesis
      using len True
      by (auto simp: v fracpack.simps fracpack_size.simps bytes n write_sized Let_def)
  next
    case False
    let ?cs = "frac_cells (replicate (length vs) t) vs"
    let ?n = "length vs * 4" let ?h = "ucast (of_nat ?n :: u32) + 4 :: u16"
    have heap: "may_use_heap t" using assms(1) False by simp
    have bytes: "frac_bytes (FT_vector t) (FV_vector vs) = frac_layout (nat_le 4 ?n) ?cs"
      using False by (simp add: frac_bytes.simps frac_cells_replicate)
    have l2: "list_all2 fhas_type (replicate (length vs) t) vs"
      using vs by (simp add: list_all2_conv_all_nth)
    have size: "cells_size ?cs = ?n"
      using frac_cells_size [OF l2] heap by (simp add: sum_list_replicate)
    have n: "?n + 4 < 2 ^ 16" "?n < 2 ^ 16" "?n < 2 ^ 32" using len by (simp_all add: v bytes size)
    have mul: "of_nat (length vs) * 4 = (of_nat ?n :: u32)" by simp
    have "?h = of_nat (?n + 4)" using n(2) by (simp add: ucast_u32_u16 del: of_nat_mult)
    then have h: "unat ?h = length (nat_le 4 ?n) + cells_size ?cs"
      using unat_of_nat_u16 [OF n(1)] by (simp only: size add.commute length_nat_le)
    have members: "\<forall>t \<in> set (replicate (length vs) t). packs_member t" using assms(2) by simp
    note layout = layout_packed [OF l2 members h len [unfolded v bytes]]
    show ?thesis
    proof (intro conjI impI)
      show "fracpack_size (FT_vector t) v = of_nat (length (frac_bytes (FT_vector t) v))"
        using layout(1) False
        by (simp add: v fracpack_size.simps mul bytes size_elems_fields del: of_nat_mult)
    next
      assume room: "room (length (frac_bytes (FT_vector t) v)) s" and "fr_pos s = fr_begin s \<or> offset_free (FT_vector t)"
      then have start: "fr_pos s = fr_begin s" using False by simp
      show "\<exists>q. fracpack (FT_vector t) v s = Inr (of_nat (length (frac_bytes (FT_vector t) v)),
           written_at (frac_bytes (FT_vector t) v) q s) \<and>
         (\<not> may_use_heap (FT_vector t) \<longrightarrow> q = fr_pos s + length (frac_bytes (FT_vector t) v))"
        using layout(2) [OF room [unfolded v bytes] start] False
          frac_write_room [OF room_mono [OF room], of "nat_le 4 ?n"]
        by (auto simp: v fracpack.simps mul bytes pack_elems_fields Let_def word_le_of_nat [OF n(3)] simp del: of_nat_mult)
    qed
  qed
qed

lemma packs_variant:
  assumes "frac_wf (FT_variant ts)" "\<forall>t \<in> set ts. packs t"
  shows "packs (FT_variant ts)"
  unfolding packs_def
proof (intro allI impI)
  fix v s
  assume typed: "fhas_type (FT_variant ts) v" and len: "length (frac_bytes (FT_variant ts) v) < 2 ^ 16"
  then obtain i x where v: "v = FV_variant i x" and i: "i < length ts" and x: "fhas_type (ts ! i) x"
    by auto
  let ?bs = "frac_bytes (ts ! i) x"
  have bytes: "frac_bytes (FT_variant ts) (FV_variant i x) = of_nat i # ?bs"
    using i by (simp add: frac_bytes.simps)
  have alt: "packs (ts ! i)" "offset_free (ts ! i)" "length ?bs < 2 ^ 16"
    using i assms len by (auto simp: v bytes)
  have w: "frac_write [of_nat i] s = Inr (written_at [of_nat i] (fr_pos s + 1) s)"
      "room (length ?bs) (written_at [of_nat i] (fr_pos s + 1) s)"
      "written_at ?bs q (written_at [of_nat i] (fr_pos s + 1) s) = written_at (of_nat i # ?bs) q s"
    if "room (length (of_nat i # ?bs)) s" for q
    using frac_write_room [OF room_mono [OF that], of "[of_nat i]"] room_written [of "[of_nat i]" "length ?bs" s]
      written_twice [of "[of_nat i]" ?bs s q] that by simp_all
  show "fracpack_size (FT_variant ts) v = of_nat (length (frac_bytes (FT_variant ts) v)) \<and>
     (room (length (frac_bytes (FT_variant ts) v)) s \<longrightarrow> fr_pos s = fr_begin s \<or> offset_free (FT_variant ts) \<longrightarrow>
      (\<exists>q. fracpack (FT_variant ts) v s = Inr (of_nat (length (frac_bytes (FT_variant ts) v)),
           written_at (frac_bytes (FT_variant ts) v) q s) \<and>
         (\<not> may_use_heap (FT_variant ts) \<longrightarrow> q = fr_pos s + length (frac_bytes (FT_variant ts) v))))"
  proof (intro conjI impI)
    show "fracpack_size (FT_variant ts) v = of_nat (length (frac_bytes (FT_variant ts) v))"
      using i packsD(1) [OF alt(1) x alt(3)] by (simp add: v bytes fracpack_size.simps)
    assume room: "room (length (frac_bytes (FT_variant ts) v)) s"
    note w = w [OF room [unfolded v bytes]]
    obtain q where "fracpack (ts ! i) x (written_at [of_nat i] (fr_pos s + 1) s) =
        Inr (of_nat (length ?bs), written_at (of_nat i # ?bs) q s)"
      using packsD(2) [OF alt(1) x alt(3) w(2)] alt(2) w(3) by auto
    with w(1) i have "fracpack (FT_variant ts) v s =
        Inr (of_nat (length (frac_bytes (FT_variant ts) v)), written_at (frac_bytes (FT_variant ts) v) q s)"
      by (simp add: v bytes fracpack.simps)
    then show "\<exists>q. fracpack (FT_variant ts) v s = Inr (of_nat (length (frac_bytes (FT_variant ts) v)),
           written_at (frac_bytes (FT_variant ts) v) q s) \<and>
         (\<not> may_use_heap (FT_variant ts) \<longrightarrow> q = fr_pos s + length (frac_bytes (FT_variant ts) v))"
      by auto
  qed
qed

text \<open>Members that do not use the heap can be packed anywhere.\<close>

lemma pack_fields_inline:
  assumes "list_all2 fhas_type ts vs" "\<forall>t \<in> set ts. packs t \<and> \<not> may_use_heap t"
    and "room (cells_size (frac_cells ts vs)) s" "cells_size (frac_cells ts vs) < 2 ^ 16"
  shows "pack_fields (map fracpack_member ts) sh vs s =
    Inr (sh, written_at (lay_fixed p h (frac_cells ts vs)) (fr_pos s + cells_size (frac_cells ts vs)) s)"
  using assms
proof (induction arbitrary: s p h rule: list_all2_induct)
  case Nil
  then show ?case by (simp add: written_at_def)
next
  case (Cons t ts v vs)
  let ?b = "frac_bytes t v"
  have c: "frac_cell t v = Inline ?b" using Cons.prems(1) by (simp add: frac_cell.simps)
  have t: "packs t" "\<not> may_use_heap t" "length ?b < 2 ^ 16" using Cons.prems by (auto simp: c)
  have room: "room (length ?b + cells_size (frac_cells ts vs)) s" using Cons.prems(2) by (simp add: c)
  let ?s = "written_at ?b (fr_pos s + length ?b) s"
  have "fracpack_member t sh v s = Inr (sh, ?s)"
    using packsD(2) [OF t(1) Cons.hyps(1) t(3) room_mono [OF room]] t(2) no_heap_offset_free [OF t(2)]
    by (auto simp: fracpack_member.simps)
  moreover have "written_at (lay_fixed (p + length ?b) h (frac_cells ts vs))
        (fr_pos s + length ?b + cells_size (frac_cells ts vs)) ?s =
      written_at (?b @ lay_fixed (p + length ?b) h (frac_cells ts vs))
        (fr_pos s + length ?b + cells_size (frac_cells ts vs)) s"
    using room by (intro written_twice) simp
  ultimately show ?case
    using Cons.IH [of ?s "p + length ?b" h] Cons.prems room_written [OF room] by (simp add: c add.assoc)
qed

lemma packs_struct:
  assumes "\<forall>t \<in> set ts. packs_member t" "\<forall>t \<in> set ts. \<not> is_optional t \<longrightarrow> packs t"
  shows "packs (FT_struct si ts)"
  unfolding packs_def
proof (intro allI impI)
  fix v s
  assume typed: "fhas_type (FT_struct si ts) v" and len: "length (frac_bytes (FT_struct si ts) v) < 2 ^ 16"
  then obtain vs where v: "v = FV_struct vs" and l2: "list_all2 fhas_type ts vs"
    by auto
  let ?T = "FT_struct si ts"
  show "fracpack_size ?T v = of_nat (length (frac_bytes ?T v)) \<and>
     (room (length (frac_bytes ?T v)) s \<longrightarrow> fr_pos s = fr_begin s \<or> offset_free ?T \<longrightarrow>
      (\<exists>q. fracpack ?T v s = Inr (of_nat (length (frac_bytes ?T v)), written_at (frac_bytes ?T v) q s) \<and>
         (\<not> may_use_heap ?T \<longrightarrow> q = fr_pos s + length (frac_bytes ?T v))))"
  proof (cases "can_memcpy ?T")
    case True
    then show ?thesis
      using mem_image_length [OF True typed] frac_write_room [of "mem_image ?T v" s]
      by (auto simp: fracpack.simps fracpack_size.simps frac_bytes.simps simp del: mem_image.simps)
  next
    case False
    let ?cs = "frac_cells ts vs"
    let ?hdr = "if is_ext_structure ?T then nat_le 2 (fixed_nat ?T) else []"
    let ?sh = "if is_ext_structure ?T then fracpack_fixed_size ?T + 2 else fracpack_fixed_size ?T"
    have bytes: "frac_bytes ?T (FV_struct vs) = frac_layout ?hdr ?cs"
      using False by (simp add: frac_bytes.simps)
    have size: "cells_size ?cs = fixed_nat ?T"
      using frac_cells_size [OF l2] False by simp
    have fs: "fracpack_fixed_size ?T = of_nat (fixed_nat ?T)"
      by (rule fracpack_fixed_size_nat) (simp add: is_optional_def)
    have n: "length ?hdr + fixed_nat ?T < 2 ^ 16" "fixed_nat ?T < 2 ^ 16"
      using len by (simp_all only: v bytes frac_layout_length size)
    have "?sh = of_nat (length ?hdr + fixed_nat ?T)" unfolding fs by (simp del: fixed_nat.simps)
    then have sh: "unat ?sh = length ?hdr + cells_size ?cs"
      using unat_of_nat_u16 [OF n(1)] by (simp only: size)
    have hdr: "word_le 2 (fracpack_fixed_size ?T) = nat_le 2 (fixed_nat ?T)"
      unfolding fs word_le_def using unat_of_nat_u16 [OF n(2)] by simp
    note layout = layout_packed [OF l2 assms(1) sh len [unfolded v bytes]]
    have free: "\<forall>t \<in> set ts. packs t \<and> \<not> may_use_heap t" if "offset_free ?T"
      using that assms(2) is_optional_heap by auto
    have fields: "\<exists>sh' q. pack_fields (map fracpack_member ts) ?sh vs (written_at ?hdr (fr_pos s + length ?hdr) s) =
        Inr (sh', written_at (frac_layout ?hdr ?cs) q s) \<and> ucast sh' = (of_nat (length (frac_layout ?hdr ?cs)) :: u32) \<and>
        q = fr_pos s + length ?hdr + cells_size ?cs"
      if room: "room (length (frac_layout ?hdr ?cs)) s" and start: "fr_pos s = fr_begin s \<or> offset_free ?T"
    proof (cases "offset_free ?T")
      case True
      have nil: "lay_heap ?cs = []"
        using l2 free [OF True] by (induction rule: list_all2_induct) (auto simp: frac_cell.simps)
      have r: "room (length ?hdr + cells_size ?cs) s" "cells_size ?cs < 2 ^ 16"
        using room n(2) by (simp_all only: frac_layout_length nil list.size add_0_right size)
      have "ucast ?sh = (of_nat (length (frac_layout ?hdr ?cs)) :: u32)"
        unfolding ucast_u16_u32 sh by (simp add: nil)
      moreover have "written_at (lay_fixed (length ?hdr) (length ?hdr + cells_size ?cs) ?cs) q
          (written_at ?hdr (fr_pos s + length ?hdr) s) = written_at (frac_layout ?hdr ?cs) q s" for q
        unfolding frac_layout_def nil using r(1) by (subst written_twice) simp_all
      ultimately show ?thesis
        using pack_fields_inline [OF l2 free [OF True] room_written [OF r(1)] r(2), of ?sh "length ?hdr"
            "length ?hdr + cells_size ?cs"] by simp
    next
      case False
      with start have "fr_pos s = fr_begin s" by blast
      from layout(2) [OF room this] show ?thesis .
    qed
    have pos: "length ?hdr + cells_size ?cs = length (frac_layout ?hdr ?cs)" if "\<not> may_use_heap ?T"
    proof -
      have "\<not> is_ext_structure ?T"
        using no_heap_fixed [OF that] by (simp only: is_ext_structure_def not_not)
      then show ?thesis
        using no_heap_length [OF that typed] by (simp add: v bytes size del: fixed_nat.simps frac_layout_length)
    qed
    show ?thesis
    proof (intro conjI impI)
      show "fracpack_size ?T v = of_nat (length (frac_bytes ?T v))"
        unfolding v bytes layout(1) [symmetric] using False by (simp add: fracpack_size.simps Let_def)
    next
      assume room: "room (length (frac_bytes ?T v)) s" and start: "fr_pos s = fr_begin s \<or> offset_free ?T"
      obtain sh' where f: "pack_fields (map fracpack_member ts) ?sh vs (written_at ?hdr (fr_pos s + length ?hdr) s) =
          Inr (sh', written_at (frac_layout ?hdr ?cs) (fr_pos s + length ?hdr + cells_size ?cs) s)"
          "ucast sh' = (of_nat (length (frac_layout ?hdr ?cs)) :: u32)"
        using fields [OF room [unfolded v bytes] start] by blast
      have w: "frac_write ?hdr s = Inr (written_at ?hdr (fr_pos s + length ?hdr) s)"
        by (rule frac_write_room, rule room_mono [OF room]) (simp add: v bytes)
      have "fracpack ?T (FV_struct vs) s = Inr (of_nat (length (frac_layout ?hdr ?cs)),
          written_at (frac_layout ?hdr ?cs) (fr_pos s + length ?hdr + cells_size ?cs) s)"
        using False f w hdr by (cases "is_ext_structure ?T") (simp_all add: fracpack.simps Let_def)
      then show "\<exists>q. fracpack ?T v s = Inr (of_nat (length (frac_bytes ?T v)), written_at (frac_bytes ?T v) q s) \<and>
         (\<not> may_use_heap ?T \<longrightarrow> q = fr_pos s + length (frac_bytes ?T v))"
        unfolding v bytes
        by (intro exI [of _ "fr_pos s + length ?hdr + cells_size ?cs"] conjI impI)
          (assumption, simp only: pos [symmetric] add.assoc not_False_eq_True)
    qed
  qed
qed

lemma frac_packs: "frac_wf t \<Longrightarrow> (\<not> is_optional t \<longrightarrow> packs t) \<and> packs_member t"
proof (induction t)
  case (FT_vector t)
  then show ?case using packs_vector packs_member_plain [of "FT_vector t"] by (auto simp: is_optional_def)
next
  case (FT_optional t)
  then show ?case using packs_member_optional by (auto simp: is_optional_def)
next
  case (FT_variant ts)
  then have "packs (FT_variant ts)" by (intro packs_variant) auto
  then show ?case using packs_member_plain by (auto simp: is_optional_def)
next
  case (FT_struct si ts)
  then have "packs (FT_struct si ts)" by (intro packs_struct) auto
  then show ?case using packs_member_plain by (auto simp: is_optional_def)
qed (use packs_arith packs_string packs_member_plain in \<open>auto simp: is_optional_def\<close>)

end
