(* ===== verification/Clio_Fracpack_Unpack.thy ===== *)
theory Clio_Fracpack_Unpack
  imports Clio_Fracpack_Pack
begin

text \<open>
  Reading packed bytes: what was packed is unpacked again, also by the type of an older or newer
  version of a struct, and passes the check; bytes that pass the check are unpacked without an
  exception.
\<close>

section \<open>Bytes in memory\<close>

definition holds_at :: "byte list \<Rightarrow> nat \<Rightarrow> byte list \<Rightarrow> bool" where
  "holds_at mem p bs \<longleftrightarrow> p + length bs \<le> length mem \<and> take (length bs) (drop p mem) = bs"

lemma holds_at_append:
  "holds_at mem p (a @ b) \<longleftrightarrow> holds_at mem p a \<and> holds_at mem (p + length a) b"
proof -
  have "take (length a + length b) (drop p mem) = take (length a) (drop p mem) @ take (length b) (drop (p + length a) mem)"
    by (simp add: take_add add.commute)
  then show ?thesis
    by (auto simp: holds_at_def)
qed

lemma holds_at_Nil [simp]: "holds_at mem p [] \<longleftrightarrow> p \<le> length mem"
  by (simp add: holds_at_def)

lemma is_read_at:
  assumes "is_inv s" "holds_at (is_mem s) (is_pos s) bs" "is_pos s + length bs \<le> is_end s"
  shows "may_throw (is_read (length bs) s) = Inr (bs, s\<lparr>is_pos := is_pos s + length bs\<rparr>)"
  using assms by (auto simp: may_throw_def is_read_def is_remaining_inv holds_at_def)

lemma read_num_at:
  assumes "is_inv s" "holds_at (is_mem s) (is_pos s) (nat_le n w)" "is_pos s + n \<le> is_end s" "w < 256 ^ n"
  shows "read_num n s = Inr (w, s\<lparr>is_pos := is_pos s + n\<rparr>)"
  using is_read_at [of s "nat_le n w"] assms by (simp add: read_num_def le_nat_nat_le)

lemma is_inv_pos: "is_inv s \<Longrightarrow> q \<le> is_end s \<Longrightarrow> is_inv (s\<lparr>is_pos := q\<rparr>)"
  by (simp add: is_inv_def)

section \<open>Copied objects\<close>

lemma mem_split_concat:
  assumes "list_all2 (\<lambda>(n, f) (b, v). length b = n \<and> f b = v) fs bvs"
  shows "mem_split fs (concat (map fst bvs)) = map snd bvs"
  using assms by (induction rule: list_all2_induct) auto

lemma mem_value_image:
  "can_memcpy t \<Longrightarrow> fhas_type t v \<Longrightarrow> mem_value t (mem_image t v) = v"
proof (induction t arbitrary: v)
  case (FT_struct si ts)
  from FT_struct.prems(2) obtain vs where v: "v = FV_struct vs" and l2: "list_all2 fhas_type ts vs"
    by auto
  have "mem_split (map (\<lambda>t. (memcpy_size t, mem_value t)) ts) (concat (map2 mem_image ts vs)) = vs"
    using l2 FT_struct.IH can_memcpy_struct(2) [OF FT_struct.prems(1)]
    by (induction rule: list_all2_induct) (auto simp: mem_image_length)
  with v show ?case by simp
qed (auto simp: le_nat_nat_le)

lemma mem_values_image:
  assumes "can_memcpy t" "\<forall>v \<in> set vs. fhas_type t v"
  shows "mem_values t (length vs) (concat (map (mem_image t) vs)) = vs"
  using assms(2)
proof (induction vs)
  case (Cons v vs)
  then show ?case using assms(1) by (simp add: mem_values_def mem_image_length mem_value_image)
qed (simp add: mem_values_def)

section \<open>Unpacking what was packed\<close>

definition unpacks :: "fty \<Rightarrow> bool" where
  "unpacks t \<longleftrightarrow> (\<forall>v x s. fhas_type t v \<longrightarrow> fhas_type t x \<longrightarrow> length (frac_bytes t v) < 2 ^ 16 \<longrightarrow>
     is_inv s \<longrightarrow> holds_at (is_mem s) (is_pos s) (frac_bytes t v) \<longrightarrow>
     is_pos s + length (frac_bytes t v) \<le> is_end s \<longrightarrow>
     (\<exists>q. fracunpack t x s = Inr (v, s\<lparr>is_pos := q\<rparr>) \<and>
        (\<not> may_use_heap t \<longrightarrow> q = is_pos s + length (frac_bytes t v))))"

text \<open>The cells from the position of the stream on, \<^verbatim>\<open>p\<close> bytes into an object at the address
  \<^verbatim>\<open>base\<close>, whose heap goes on at \<^verbatim>\<open>base + h\<close>.\<close>

definition cells_at :: "nat \<Rightarrow> nat \<Rightarrow> nat \<Rightarrow> cell list \<Rightarrow> 'a input_stream_scheme \<Rightarrow> bool" where
  "cells_at base p h cs s \<longleftrightarrow> is_inv s \<and> is_pos s = base + p \<and> p + cells_size cs \<le> h \<and>
     h + length (lay_heap cs) < 2 ^ 16 \<and> base + h + length (lay_heap cs) \<le> is_end s \<and>
     holds_at (is_mem s) (base + p) (lay_fixed p h cs) \<and> holds_at (is_mem s) (base + h) (lay_heap cs)"

definition unpacks_member :: "fty \<Rightarrow> bool" where
  "unpacks_member t \<longleftrightarrow> (\<forall>v x s base p h. fhas_type t v \<longrightarrow> fhas_type t x \<longrightarrow>
     cells_at base p h [frac_cell t v] s \<longrightarrow>
     fracunpack_member t x s = Inr (v, s\<lparr>is_pos := is_pos s + cell_size (frac_cell t v)\<rparr>))"

lemma unpacks_memberD:
  "unpacks_member t \<Longrightarrow> fhas_type t v \<Longrightarrow> fhas_type t x \<Longrightarrow> cells_at base p h [frac_cell t v] s \<Longrightarrow>
   fracunpack_member t x s = Inr (v, s\<lparr>is_pos := is_pos s + cell_size (frac_cell t v)\<rparr>)"
  unfolding unpacks_member_def by blast

lemma cells_at_offset:
  fixes s :: input_stream
  assumes "cells_at base p h [Pointer bs] s"
  shows "read_num 4 s = Inr (h - p, s\<lparr>is_pos := is_pos s + 4\<rparr>)"
    and "in_substream (h - p) (s\<lparr>is_pos := is_pos s + 4\<rparr>) = Inr (s\<lparr>is_pos := base + h\<rparr>)"
    and "4 \<le> h - p"
    and "holds_at (is_mem s) (base + h) bs" "base + h + length bs \<le> is_end s"
    and "is_inv (s\<lparr>is_pos := base + h\<rparr>)" "length bs < 2 ^ 16"
proof -
  show "read_num 4 s = Inr (h - p, s\<lparr>is_pos := is_pos s + 4\<rparr>)"
    using assms by (intro read_num_at) (auto simp: cells_at_def)
  have "base + p + 4 + (h - p) - 4 = base + h" using assms by (simp add: cells_at_def)
  then show "in_substream (h - p) (s\<lparr>is_pos := is_pos s + 4\<rparr>) = Inr (s\<lparr>is_pos := base + h\<rparr>)"
    using assms by (cases s) (auto simp: cells_at_def in_substream_def input_stream_of_def may_throw_def)
qed (use assms in \<open>auto simp: cells_at_def is_inv_def\<close>)

lemma cells_at_mark:
  fixes s :: input_stream
  assumes "cells_at base p h [Mark w] s" "w < 256 ^ 4"
  shows "read_num 4 s = Inr (w, s\<lparr>is_pos := is_pos s + 4\<rparr>)"
  using assms by (intro read_num_at) (auto simp: cells_at_def)

lemma unpacks_pointer:
  assumes "unpacks t" "fhas_type t v" "fhas_type t x" "cells_at base p h [Pointer (frac_bytes t v)] s"
  shows "\<exists>s'. fracunpack t x (s\<lparr>is_pos := base + h\<rparr>) = Inr (v, s')"
  using assms(1-3) cells_at_offset [OF assms(4)] by (fastforce simp: unpacks_def)

lemma empty_range_value: "is_empty_range v \<Longrightarrow> is_range t \<Longrightarrow> fhas_type t v \<Longrightarrow> v = default_value t"
  by (cases t) (auto simp: is_empty_range_def is_range_def)

lemma unpacks_member_plain:
  assumes "unpacks t" "\<not> is_optional t"
  shows "unpacks_member t"
proof (cases "may_use_heap t")
  case True
  then have member: "fracunpack_member t x s =
      rbind (read_num 4 s) (\<lambda>(offset, s).
        if is_range t \<and> offset < 4 then Inr (default_value t, s)
        else rbind (in_substream offset s) (\<lambda>insubstream.
          rbind (fracunpack t x insubstream) (\<lambda>(v, _). Inr (v, s))))"
    "frac_cell t v = (if is_range t \<and> is_empty_range v then Mark 0 else Pointer (frac_bytes t v))" for x s v
    using assms(2)
    by (auto simp: fracunpack_member.simps frac_cell.simps is_optional_def is_range_def
        intro!: rbind_cong split: fty.splits)
  show ?thesis
    unfolding unpacks_member_def
  proof (intro allI impI)
    fix v x base p h and s :: input_stream
    assume v: "fhas_type t v" and x: "fhas_type t x" and at: "cells_at base p h [frac_cell t v] s"
    show "fracunpack_member t x s = Inr (v, s\<lparr>is_pos := is_pos s + cell_size (frac_cell t v)\<rparr>)"
    proof (cases "is_range t \<and> is_empty_range v")
      case True
      then show ?thesis
        using at cells_at_mark [of base p h 0 s] empty_range_value [OF _ _ v] by (simp add: member)
    next
      case False
      with at have at: "cells_at base p h [Pointer (frac_bytes t v)] s" by (simp add: member)
      obtain s' where "fracunpack t x (s\<lparr>is_pos := base + h\<rparr>) = Inr (v, s')"
        using unpacks_pointer [OF assms(1) v x at] by blast
      with False show ?thesis using cells_at_offset(1-3) [OF at] by (auto simp: member)
    qed
  qed
next
  case False
  show ?thesis
    unfolding unpacks_member_def
  proof (intro allI impI)
    fix v x base p h and s :: input_stream
    assume v: "fhas_type t v" and x: "fhas_type t x" and at: "cells_at base p h [frac_cell t v] s"
    have c: "frac_cell t v = Inline (frac_bytes t v)" using False by (simp add: frac_cell.simps)
    have "\<exists>q. fracunpack t x s = Inr (v, s\<lparr>is_pos := q\<rparr>) \<and> q = is_pos s + length (frac_bytes t v)"
      using assms(1) v x at False by (auto simp: unpacks_def cells_at_def c)
    then show "fracunpack_member t x s = Inr (v, s\<lparr>is_pos := is_pos s + cell_size (frac_cell t v)\<rparr>)"
      using False by (simp add: fracunpack_member.simps c)
  qed
qed

lemma unpacks_member_optional:
  assumes "unpacks t" "frac_wf t" "\<not> is_optional t"
  shows "unpacks_member (FT_optional t)"
  unfolding unpacks_member_def
proof (intro allI impI)
  fix v x base p h and s :: input_stream
  assume v: "fhas_type (FT_optional t) v" and at: "cells_at base p h [frac_cell (FT_optional t) v] s"
  let ?goal = "fracunpack_member (FT_optional t) x s =
    Inr (v, s\<lparr>is_pos := is_pos s + cell_size (frac_cell (FT_optional t) v)\<rparr>)"
  note simps = fracunpack_member.simps [of "FT_optional t"] frac_cell.simps [of "FT_optional t"]
  from v show ?goal
  proof (simp, elim disjE exE conjE)
    assume "v = FV_optional None"
    then show ?goal using at cells_at_mark [of base p h 1 s] by (simp add: simps)
  next
    fix y assume y: "v = FV_optional (Some y)" "fhas_type t y"
    show ?goal
    proof (cases "is_range t \<and> is_empty_range y")
      case True
      then have "may_use_heap t" by (cases t) (auto simp: is_range_def)
      with True have "frac_cell t y = Mark 0"
        by (auto simp: frac_cell.simps is_range_def split: fty.splits)
      then show ?thesis
        using at cells_at_mark [of base p h 0 s] True empty_range_value [OF _ _ y(2)] by (simp add: simps y)
    next
      case False
      have "frac_cell (FT_optional t) v = Pointer (frac_bytes t y)"
        using False by (auto simp: simps y frac_cell.simps [of t] is_range_def split: fty.splits)
      with at have at: "cells_at base p h [Pointer (frac_bytes t y)] s" and c: "cell_size (frac_cell (FT_optional t) v) = 4"
        by simp_all
      obtain s' where "fracunpack t (default_value t) (s\<lparr>is_pos := base + h\<rparr>) = Inr (y, s')"
        using unpacks_pointer [OF assms(1) y(2) default_value_typed [OF assms(2)] at] by blast
      then show ?thesis using cells_at_offset(1-3) [OF at] by (auto simp: simps(1) y(1) c [unfolded y(1)])
    qed
  qed
qed

lemma sum_list_pos: "x \<in> set xs \<Longrightarrow> 0 < f x \<Longrightarrow> 0 < sum_list (map f xs)" for f :: "'a \<Rightarrow> nat"
  by (induction xs) auto

lemma fixed_nat_pos: "frac_wf t \<Longrightarrow> may_use_heap t \<or> 0 < fixed_nat t"
proof (induction t)
  case (FT_struct si ts)
  then obtain t where t: "t \<in> set ts" "may_use_heap t \<or> 0 < fixed_nat t" by (cases ts) auto
  show ?case
  proof (cases "can_memcpy (FT_struct si ts)")
    case True
    then have "can_memcpy t" using can_memcpy_struct(2) t(1) by blast
    with t have "0 < memcpy_size t"
      using can_memcpy_no_heap [of t] fixed_nat_memcpy [of t] by simp
    with True t(1) show ?thesis
      by (auto simp: can_memcpy_struct(1) intro: sum_list_pos)
  next
    case False
    have "0 < sum_list (map (\<lambda>t. if may_use_heap t then 4 else fixed_nat t) ts)"
      using t(2) by (intro sum_list_pos [OF t(1)]) auto
    with False show ?thesis by simp
  qed
qed simp_all

lemma frac_cell_pos: "frac_wf t \<Longrightarrow> fhas_type t v \<Longrightarrow> 0 < cell_size (frac_cell t v)"
  using fixed_nat_pos [of t] by (auto simp: frac_cell_size)

lemma cells_at_Cons:
  assumes "cells_at base p h (c # cs) s"
  shows "cells_at base p h [c] s"
    and "cells_at base (p + cell_size c) (h + length (cell_heap c)) cs (s\<lparr>is_pos := is_pos s + cell_size c\<rparr>)"
  using assms by (auto simp: cells_at_def holds_at_append is_inv_def add.assoc)

lemma unpack_fields_ok:
  fixes s :: input_stream
  assumes "list_all2 fhas_type ts vs" "list_all2 fhas_type ts xs"
    and "\<forall>t \<in> set ts. unpacks_member t \<and> frac_wf t"
    and "cells_at base p h (frac_cells ts vs) s" "is_pos s + cells_size (frac_cells ts vs) \<le> heap"
  shows "unpack_fields (map fracunpack_member ts @ upks) heap (xs @ ys) s =
    rbind (unpack_fields upks heap ys (s\<lparr>is_pos := is_pos s + cells_size (frac_cells ts vs)\<rparr>))
      (\<lambda>(zs, s). Inr (vs @ zs, s))"
  using assms
proof (induction arbitrary: s p h xs rule: list_all2_induct)
  case Nil
  then show ?case by (auto simp: rbind_def split: sum.splits)
next
  case (Cons t ts v vs)
  then obtain x xs' where xs: "xs = x # xs'" "fhas_type t x" "list_all2 fhas_type ts xs'"
    by (auto simp: list_all2_Cons1)
  let ?c = "frac_cell t v"
  let ?s = "s\<lparr>is_pos := is_pos s + cell_size ?c\<rparr>"
  have at: "cells_at base p h [?c] s"
    "cells_at base (p + cell_size ?c) (h + length (cell_heap ?c)) (frac_cells ts vs) ?s"
    using cells_at_Cons Cons.prems(3) by auto
  have "fracunpack_member t x s = Inr (v, ?s)"
    using Cons.prems(2) Cons.hyps(1) xs(2) by (intro unpacks_memberD [OF _ _ _ at(1)]) auto
  moreover have "is_pos s < heap"
    using frac_cell_pos [of t v] Cons.prems(2,4) Cons.hyps(1) by simp
  ultimately show ?case
    using Cons.IH [OF xs(3) _ at(2)] Cons.prems(2,4)
    by (simp add: xs(1) rbind_assoc add.assoc split_def)
qed

text \<open>Behind the fixed part nothing is read: the members a newer version has added stay as they are.\<close>

lemma unpack_fields_skip: "heap \<le> is_pos s \<Longrightarrow> unpack_fields upks heap xs s = Inr (xs, s)"
proof (induction upks arbitrary: xs)
  case (Cons u upks)
  then show ?case by (cases xs) auto
qed simp

lemma unpack_elems_ok:
  fixes s :: input_stream
  assumes "\<forall>v \<in> set vs. fhas_type t v" "\<forall>x \<in> set xs. fhas_type t x" "length xs = length vs"
    and "unpacks_member t" "cells_at base p h (map (frac_cell t) vs) s"
  shows "unpack_elems (fracunpack_member t) xs s =
    Inr (vs, s\<lparr>is_pos := is_pos s + cells_size (map (frac_cell t) vs)\<rparr>)"
  using assms
proof (induction vs arbitrary: s p h xs)
  case (Cons v vs)
  then obtain x xs' where xs: "xs = x # xs'" by (cases xs) auto
  let ?c = "frac_cell t v"
  let ?s = "s\<lparr>is_pos := is_pos s + cell_size ?c\<rparr>"
  have at: "cells_at base p h [?c] s"
    "cells_at base (p + cell_size ?c) (h + length (cell_heap ?c)) (map (frac_cell t) vs) ?s"
    using cells_at_Cons Cons.prems(5) by auto
  have "fracunpack_member t x s = Inr (v, ?s)"
    using Cons.prems by (intro unpacks_memberD [OF _ _ _ at(1)]) (auto simp: xs)
  then show ?case
    using Cons.IH [OF _ _ _ Cons.prems(4) at(2), of xs'] Cons.prems by (simp add: xs add.assoc)
qed simp

lemma layout_at:
  fixes s :: "'a input_stream_scheme"
  assumes "is_inv s" "holds_at (is_mem s) (is_pos s) (frac_layout hdr cs)"
    and "is_pos s + length (frac_layout hdr cs) \<le> is_end s" "length (frac_layout hdr cs) < 2 ^ 16"
  shows "cells_at (is_pos s) (length hdr) (length hdr + cells_size cs) cs (s\<lparr>is_pos := is_pos s + length hdr\<rparr>)"
    and "holds_at (is_mem s) (is_pos s) hdr"
  using assms by (auto simp: cells_at_def frac_layout_def holds_at_append is_inv_def add.assoc)

lemma resize_typed:
  assumes "frac_wf t" "\<forall>x \<in> set xs. fhas_type t x"
  shows "\<forall>x \<in> set (resize t n xs). fhas_type t x" "length (resize t n xs) = n"
  using assms default_value_typed by (auto simp: resize_def dest: in_set_takeD)

lemma unpacks_string: "unpacks FT_string"
  unfolding unpacks_def
proof (intro allI impI)
  fix v x and s :: input_stream
  assume "fhas_type FT_string v" and len: "length (frac_bytes FT_string v) < 2 ^ 16" and inv: "is_inv s"
    and at: "holds_at (is_mem s) (is_pos s) (frac_bytes FT_string v)"
    and bound: "is_pos s + length (frac_bytes FT_string v) \<le> is_end s"
  then obtain d where v: "v = FV_string d" by auto
  have b: "frac_bytes FT_string v = nat_le 4 (length d) @ d" by (simp add: v frac_bytes.simps)
  note at = at [unfolded b holds_at_append]
  have "read_num 4 s = Inr (length d, s\<lparr>is_pos := is_pos s + 4\<rparr>)"
    using inv at bound len by (intro read_num_at) (auto simp: b)
  then show "\<exists>q. fracunpack FT_string x s = Inr (v, s\<lparr>is_pos := q\<rparr>) \<and>
      (\<not> may_use_heap FT_string \<longrightarrow> q = is_pos s + length (frac_bytes FT_string v))"
    using is_read_at [of "s\<lparr>is_pos := is_pos s + 4\<rparr>" d] inv at bound
    by (auto simp: v fracunpack.simps b [unfolded v] is_inv_pos)
qed

lemma memcpy_fixed_size:
  assumes "can_memcpy t" "memcpy_size t < 2 ^ 16"
  shows "unat (fracpack_fixed_size t) = memcpy_size t"
proof -
  have "fracpack_fixed_size t = of_nat (memcpy_size t)"
    using assms(1) fracpack_fixed_size_nat [of t] can_memcpy_no_heap [of t] is_optional_heap [of t]
    by (auto simp: fixed_nat_memcpy)
  then show ?thesis using unat_of_nat_u16 [OF assms(2)] by simp
qed

lemma unpacks_vector:
  assumes "frac_wf (FT_vector t)" "unpacks_member t"
  shows "unpacks (FT_vector t)"
  unfolding unpacks_def
proof (intro allI impI)
  fix v x and s :: input_stream
  let ?T = "FT_vector t"
  assume typed: "fhas_type ?T v" "fhas_type ?T x" and len: "length (frac_bytes ?T v) < 2 ^ 16" and inv: "is_inv s"
    and at: "holds_at (is_mem s) (is_pos s) (frac_bytes ?T v)"
    and bound: "is_pos s + length (frac_bytes ?T v) \<le> is_end s"
  from typed obtain vs xs where v: "v = FV_vector vs" "\<forall>v \<in> set vs. fhas_type t v"
    and x: "x = FV_vector xs" "\<forall>x \<in> set xs. fhas_type t x" by auto
  have "\<exists>q. fracunpack ?T x s = Inr (v, s\<lparr>is_pos := q\<rparr>)"
  proof (cases "can_memcpy t")
    case True
    let ?d = "concat (map (mem_image t) vs)"
    have m: "0 < memcpy_size t" "unat (fracpack_fixed_size t) = memcpy_size t"
      using memcpy_fixed_size [OF True] True assms(1) can_memcpy_no_heap [of t] fixed_nat_pos [of t]
      by (auto simp: fixed_nat_memcpy)
    have d: "length ?d = length vs * memcpy_size t"
      using v(2) by (intro concat_map_length) (simp add: mem_image_length True)
    have b: "frac_bytes ?T v = nat_le 4 (length ?d) @ ?d"
      using True by (simp add: v frac_bytes.simps d)
    note at = at [unfolded b holds_at_append]
    have n: "read_num 4 s = Inr (length ?d, s\<lparr>is_pos := is_pos s + 4\<rparr>)"
      using inv at bound len by (intro read_num_at) (auto simp: b)
    have k: "length ?d div memcpy_size t = length vs" using m(1) by (simp add: d)
    show ?thesis
      using is_read_at [of "s\<lparr>is_pos := is_pos s + 4\<rparr>" ?d] inv at bound n True m
        mem_values_image [OF True v(2)]
      by (cases "vs = []") (auto simp: fracunpack.simps v(1) k Let_def is_inv_pos b [unfolded v(1)] simp flip: d)
  next
    case False
    have b: "frac_bytes ?T v = frac_layout (nat_le 4 (length vs * 4)) (map (frac_cell t) vs)"
      using False by (simp add: v frac_bytes.simps)
    note la = layout_at [OF inv at [unfolded b] bound [unfolded b] len [unfolded b]]
    have n: "read_num 4 s = Inr (length vs * 4, s\<lparr>is_pos := is_pos s + 4\<rparr>)"
      using inv la(2) bound len frac_cells_size [of "replicate (length vs) t" vs] v(2) assms(1) False
      by (intro read_num_at) (auto simp: b frac_cells_replicate sum_list_replicate list_all2_conv_all_nth)
    show ?thesis
      using unpack_elems_ok [OF v(2) resize_typed [of t xs "length vs"] assms(2) la(1)] n False assms(1) x(2)
      by (auto simp: fracunpack.simps x(1) v(1) elements_def)
  qed
  then show "\<exists>q. fracunpack ?T x s = Inr (v, s\<lparr>is_pos := q\<rparr>) \<and>
      (\<not> may_use_heap ?T \<longrightarrow> q = is_pos s + length (frac_bytes ?T v))"
    by simp
qed

lemma unpacks_variant:
  assumes "frac_wf (FT_variant ts)" "\<forall>t \<in> set ts. unpacks t"
  shows "unpacks (FT_variant ts)"
  unfolding unpacks_def
proof (intro allI impI)
  fix v x and s :: input_stream
  let ?T = "FT_variant ts"
  assume typed: "fhas_type ?T v" "fhas_type ?T x" and len: "length (frac_bytes ?T v) < 2 ^ 16" and inv: "is_inv s"
    and at: "holds_at (is_mem s) (is_pos s) (frac_bytes ?T v)"
    and bound: "is_pos s + length (frac_bytes ?T v) \<le> is_end s"
  from typed obtain i y where v: "v = FV_variant i y" "i < length ts" "fhas_type (ts ! i) y" by auto
  have b: "frac_bytes ?T v = nat_le 1 i @ frac_bytes (ts ! i) y"
    using v(2) by (simp add: v(1) frac_bytes.simps)
  have alt: "unpacks (ts ! i)" "fhas_type (ts ! i) (default_value (ts ! i))"
    using assms v(2) by (auto intro: default_value_typed)
  note at = at [unfolded b holds_at_append]
  have "i < 256" using v(2) assms(1) by simp
  then have n: "read_num 1 s = Inr (i, s\<lparr>is_pos := is_pos s + 1\<rparr>)"
    using inv at bound by (intro read_num_at) (auto simp: b)
  have "\<exists>q. fracunpack (ts ! i) (default_value (ts ! i)) (s\<lparr>is_pos := is_pos s + 1\<rparr>) =
      Inr (y, s\<lparr>is_pos := q\<rparr>)"
    using alt v(3) at bound len is_inv_pos [OF inv, of "is_pos s + 1"] unfolding unpacks_def
    by (fastforce simp: b)
  then show "\<exists>q. fracunpack ?T x s = Inr (v, s\<lparr>is_pos := q\<rparr>) \<and>
      (\<not> may_use_heap ?T \<longrightarrow> q = is_pos s + length (frac_bytes ?T v))"
    using n v(1,2) by (auto simp: fracunpack.simps init_variant_by_index_def)
qed

lemma struct_bytes:
  "\<not> can_memcpy (FT_struct si ts) \<Longrightarrow>
   frac_bytes (FT_struct si ts) (FV_struct vs) =
   frac_layout (if is_ext_structure (FT_struct si ts) then nat_le 2 (fixed_nat (FT_struct si ts)) else [])
     (frac_cells ts vs)"
  by (simp add: frac_bytes.simps)

lemma cells_at_prefix: "cells_at base p h (as @ bs) s \<Longrightarrow> cells_at base p h as s"
  by (auto simp: cells_at_def lay_fixed_append holds_at_append is_inv_def)

text \<open>
  Reading a struct with another version of its type: the members both have are read, the others of
  the reader keep their values. Versions of a struct that cannot be extended are equal.
\<close>

lemma unpack_version:
  fixes s :: input_stream
  assumes wf: "\<forall>t \<in> set (cs @ ra). frac_wf t" "\<forall>t \<in> set cs. unpacks_member t"
    and plain: "\<not> can_memcpy (FT_struct si (cs @ ra))" "\<not> can_memcpy (FT_struct si' (cs @ rb))"
    and ext: "is_ext_structure (FT_struct si' (cs @ rb)) = is_ext_structure (FT_struct si (cs @ ra))"
      "\<not> is_ext_structure (FT_struct si (cs @ ra)) \<Longrightarrow> ra = [] \<and> rb = []"
    and new: "ra = [] \<or> rb = []"
    and typed: "list_all2 fhas_type (cs @ ra) vs" "list_all2 fhas_type (cs @ rb) xs"
    and len: "length (frac_bytes (FT_struct si (cs @ ra)) (FV_struct vs)) < 2 ^ 16"
    and at: "is_inv s" "holds_at (is_mem s) (is_pos s) (frac_bytes (FT_struct si (cs @ ra)) (FV_struct vs))"
      "is_pos s + length (frac_bytes (FT_struct si (cs @ ra)) (FV_struct vs)) \<le> is_end s"
  shows "\<exists>q. fracunpack (FT_struct si' (cs @ rb)) (FV_struct xs) s =
      Inr (FV_struct (take (length cs) vs @ drop (length cs) xs), s\<lparr>is_pos := q\<rparr>) \<and>
      (rb = [] \<longrightarrow> ra = [] \<longrightarrow> \<not> is_ext_structure (FT_struct si (cs @ ra)) \<longrightarrow>
       q = is_pos s + fixed_nat (FT_struct si (cs @ ra)))"
proof -
  let ?T = "FT_struct si (cs @ ra)" and ?U = "FT_struct si' (cs @ rb)"
  obtain va vb where vs: "vs = va @ vb" "list_all2 fhas_type cs va" "list_all2 fhas_type ra vb"
    using typed(1) by (auto simp: list_all2_append1)
  obtain xa xb where xs: "xs = xa @ xb" "list_all2 fhas_type cs xa" "list_all2 fhas_type rb xb"
    using typed(2) by (auto simp: list_all2_append1)
  have l: "length va = length cs" "length xa = length cs" using vs(2) xs(2) by (auto dest: list_all2_lengthD)
  let ?hdr = "if is_ext_structure ?T then nat_le 2 (fixed_nat ?T) else []"
  let ?cs = "frac_cells cs va"
  have cells: "frac_cells (cs @ ra) vs = ?cs @ frac_cells ra vb" by (simp add: vs(1) l)
  have b: "frac_bytes ?T (FV_struct vs) = frac_layout ?hdr (?cs @ frac_cells ra vb)"
    unfolding struct_bytes [OF plain(1)] cells ..
  have size: "cells_size (frac_cells (cs @ ra) vs) = fixed_nat ?T"
    using frac_cells_size [OF typed(1)] plain(1) by simp
  have split: "fixed_nat ?T = cells_size ?cs + cells_size (frac_cells ra vb)"
    using size by (simp only: cells cells_size_simps)
  note la = layout_at [OF at(1) at(2) [unfolded b] at(3) [unfolded b] len [unfolded b]]
  let ?s = "s\<lparr>is_pos := is_pos s + length ?hdr\<rparr>"
  have small: "fixed_nat ?T < 256 ^ 2"
    using len size by (simp add: b cells del: fixed_nat.simps)
  have hdr: "(if is_ext_structure ?U then read_num 2 s else Inr (unat (fracpack_fixed_size ?U), s)) =
      Inr (fixed_nat ?T, ?s)"
  proof (cases "is_ext_structure ?T")
    case True
    then have "read_num 2 s = Inr (fixed_nat ?T, s\<lparr>is_pos := is_pos s + 2\<rparr>)"
      using at la(2) small by (intro read_num_at) (auto simp: b simp del: fixed_nat.simps)
    with True ext(1) show ?thesis by simp
  next
    case False
    then have "fixed_nat ?U = fixed_nat ?T" using ext(2) plain by simp
    moreover have "fracpack_fixed_size ?U = of_nat (fixed_nat ?U)"
      by (rule fracpack_fixed_size_nat) (simp add: is_optional_def)
    ultimately show ?thesis
      using False ext(1) unat_of_nat_u16 [of "fixed_nat ?T"] small by (simp del: fixed_nat.simps)
  qed
  have fields: "unpack_fields (map fracunpack_member (cs @ rb)) (is_pos ?s + fixed_nat ?T) xs ?s =
      rbind (unpack_fields (map fracunpack_member rb) (is_pos ?s + fixed_nat ?T) xb
        (?s\<lparr>is_pos := is_pos ?s + cells_size ?cs\<rparr>)) (\<lambda>(zs, s). Inr (va @ zs, s))"
    using unpack_fields_ok [OF vs(2) xs(2) _ cells_at_prefix [OF la(1)], where ?upks = "map fracunpack_member rb"
        and ?ys = xb and ?heap = "is_pos ?s + fixed_nat ?T"] wf size
    by (simp add: xs(1) cells del: fixed_nat.simps)
  have tail: "unpack_fields (map fracunpack_member rb) (is_pos ?s + fixed_nat ?T) xb
        (?s\<lparr>is_pos := is_pos ?s + cells_size ?cs\<rparr>) = Inr (xb, ?s\<lparr>is_pos := is_pos ?s + cells_size ?cs\<rparr>)"
    using new
  proof
    assume "ra = []"
    then have "fixed_nat ?T = cells_size ?cs" using split by (simp del: fixed_nat.simps)
    then show ?thesis by (intro unpack_fields_skip) simp
  next
    assume "rb = []"
    then show ?thesis using xs(3) by simp
  qed
  have "fracunpack ?U (FV_struct xs) s = Inr (FV_struct (va @ xb), ?s\<lparr>is_pos := is_pos ?s + cells_size ?cs\<rparr>)"
    using plain(2) unfolding fracunpack.simps hdr by (simp add: elements_def fields [simplified] tail [simplified])
  moreover have "cells_size ?cs = fixed_nat ?T" if "ra = []"
    using that split by (simp del: fixed_nat.simps)
  ultimately show ?thesis
    using l vs(1) xs(1) by (auto simp del: fixed_nat.simps)
qed

lemma unpacks_copied:
  fixes s :: input_stream
  assumes "can_memcpy t" "fhas_type t v" "is_inv s" "holds_at (is_mem s) (is_pos s) (mem_image t v)"
    and "is_pos s + length (mem_image t v) \<le> is_end s"
  shows "rbind (may_throw (is_read (memcpy_size t) s)) (\<lambda>(bs, s). Inr (mem_value t bs, s)) =
    Inr (v, s\<lparr>is_pos := is_pos s + length (mem_image t v)\<rparr>)"
  using is_read_at [OF assms(3-5)] mem_image_length [OF assms(1,2)] mem_value_image [OF assms(1,2)] by simp

lemma unpacks_struct:
  assumes "frac_wf (FT_struct si ts)" "\<forall>t \<in> set ts. unpacks_member t"
  shows "unpacks (FT_struct si ts)"
  unfolding unpacks_def
proof (intro allI impI)
  fix v x and s :: input_stream
  let ?T = "FT_struct si ts"
  assume typed: "fhas_type ?T v" "fhas_type ?T x" and len: "length (frac_bytes ?T v) < 2 ^ 16" and inv: "is_inv s"
    and at: "holds_at (is_mem s) (is_pos s) (frac_bytes ?T v)"
    and bound: "is_pos s + length (frac_bytes ?T v) \<le> is_end s"
  from typed obtain vs xs where v: "v = FV_struct vs" "list_all2 fhas_type ts vs"
    and x: "x = FV_struct xs" "list_all2 fhas_type ts xs" by auto
  show "\<exists>q. fracunpack ?T x s = Inr (v, s\<lparr>is_pos := q\<rparr>) \<and>
      (\<not> may_use_heap ?T \<longrightarrow> q = is_pos s + length (frac_bytes ?T v))"
  proof (cases "can_memcpy ?T")
    case True
    then have b: "frac_bytes ?T v = mem_image ?T v" by (simp add: frac_bytes.simps)
    show ?thesis
      using unpacks_copied [OF True typed(1) inv at [unfolded b] bound [unfolded b]] True
      by (intro exI [of _ "is_pos s + length (frac_bytes ?T v)"])
        (simp add: fracunpack.simps b del: mem_image.simps mem_value.simps)
  next
    case False
    have "length vs = length ts" "length xs = length ts"
      using v(2) x(2) list_all2_lengthD by force+
    moreover have "length (frac_bytes ?T v) = fixed_nat ?T" "\<not> is_ext_structure ?T" if "\<not> may_use_heap ?T"
      using no_heap_length [OF that typed(1)] no_heap_fixed [OF that]
      by (simp_all only: is_ext_structure_def not_not)
    ultimately show ?thesis
      using unpack_version [of ts "[]" si si "[]" vs xs s] assms False v x len inv at bound by force
  qed
qed

lemma frac_unpacks: "frac_wf t \<Longrightarrow> (\<not> is_optional t \<longrightarrow> unpacks t) \<and> unpacks_member t"
proof (induction t)
  case (FT_arith n)
  have "unpacks (FT_arith n)"
    using unpacks_copied [of "FT_arith n"]
    by (auto simp: unpacks_def fracunpack.simps frac_bytes.simps)
  then show ?case using unpacks_member_plain by (auto simp: is_optional_def)
next
  case FT_string
  then show ?case using unpacks_string unpacks_member_plain by (auto simp: is_optional_def)
next
  case (FT_vector t)
  then show ?case using unpacks_vector unpacks_member_plain [of "FT_vector t"] by (auto simp: is_optional_def)
next
  case (FT_optional t)
  then show ?case using unpacks_member_optional by (auto simp: is_optional_def)
next
  case (FT_variant ts)
  then have "unpacks (FT_variant ts)" by (intro unpacks_variant) auto
  then show ?case using unpacks_member_plain by (auto simp: is_optional_def)
next
  case (FT_struct si ts)
  then have "unpacks (FT_struct si ts)" by (intro unpacks_struct) auto
  then show ?case using unpacks_member_plain by (auto simp: is_optional_def)
qed

section \<open>The packed buffer\<close>

definition frac_input :: "byte list \<Rightarrow> input_stream" where
  "frac_input data = \<lparr>is_mem = data, is_pos = 4, is_end = 4 + frac_ptr_size data\<rparr>"

lemma frac_ptr_new_eq:
  assumes "frac_wf t" "\<not> is_optional t" "fhas_type t v" "length (frac_bytes t v) < 2 ^ 16"
  shows "frac_ptr_new fresh t v = Inr (nat_le 4 (length (frac_bytes t v)) @ frac_bytes t v)"
proof -
  let ?b = "frac_bytes t v"
  have p: "packs t" using frac_packs assms(1,2) by blast
  have size: "fracpack_size t v = of_nat (length ?b)" by (rule packsD(1) [OF p assms(3,4)])
  have n: "length ?b < 2 ^ 32" using assms(4) by simp
  let ?m = "memcpy (map fresh [0..<length ?b + 4]) 0 (nat_le 4 (length ?b))"
  have m: "length ?m = length ?b + 4" by (simp add: length_memcpy)
  have r: "room (length ?b) (frac_stream_new ?m 4 (length ?b))"
    using m by (simp add: room_def frac_stream_new_def)
  obtain q where pk: "fracpack t v (frac_stream_new ?m 4 (length ?b)) =
      Inr (of_nat (length ?b), written_at ?b q (frac_stream_new ?m 4 (length ?b)))"
    using packsD(2) [OF p assms(3,4) r] by (auto simp: frac_stream_new_def)
  have "memcpy ?m 4 ?b = nat_le 4 (length ?b) @ ?b"
    using memcpy_memcpy [of 0 "nat_le 4 (length ?b)" ?b "map fresh [0..<length ?b + 4]"]
    by (simp add: memcpy_def)
  then show ?thesis
    using pk by (simp add: frac_ptr_new_def size Let_def unat_of_nat_u32 [OF n] word_le_of_nat [OF n]
        frac_stream_new_def written_at_def)
qed

lemma frac_input_packed:
  assumes "data = nat_le 4 (length b) @ b" "length b < 2 ^ 16"
  shows "frac_ptr_size data = length b" "is_inv (frac_input data)"
    "holds_at (is_mem (frac_input data)) (is_pos (frac_input data)) b"
    "is_pos (frac_input data) + length b \<le> is_end (frac_input data)"
proof -
  show "frac_ptr_size data = length b" using assms by (simp add: frac_ptr_size_def le_nat_nat_le)
  then show "is_inv (frac_input data)" "holds_at (is_mem (frac_input data)) (is_pos (frac_input data)) b"
    "is_pos (frac_input data) + length b \<le> is_end (frac_input data)"
    using assms by (simp_all add: frac_input_def is_inv_def holds_at_def)
qed

lemma frac_unpack_packed:
  assumes "frac_wf t" "\<not> is_optional t" "fhas_type t v" "fhas_type t x"
    and "data = nat_le 4 (length (frac_bytes t v)) @ frac_bytes t v" "length (frac_bytes t v) < 2 ^ 16"
  shows "frac_ptr_unpack t x data = Inr v"
proof -
  have "unpacks t" using frac_unpacks assms(1,2) by blast
  then obtain s where "fracunpack t x (frac_input data) = Inr (v, s)"
    using assms(3,4) frac_input_packed [OF assms(5,6)] assms(6) unfolding unpacks_def by blast
  then show ?thesis by (simp add: frac_ptr_unpack_def frac_input_def)
qed

section \<open>Packed bytes pass the check\<close>

definition checks :: "fty \<Rightarrow> bool" where
  "checks t \<longleftrightarrow> (\<forall>v s. fhas_type t v \<longrightarrow> length (frac_bytes t v) < 2 ^ 16 \<longrightarrow>
     is_inv s \<longrightarrow> holds_at (is_mem s) (is_pos s) (frac_bytes t v) \<longrightarrow>
     is_pos s + length (frac_bytes t v) \<le> is_end s \<longrightarrow>
     (\<exists>q. fraccheck t s = Inr (s\<lparr>is_pos := q, total_read := total_read s + length (frac_bytes t v)\<rparr>) \<and>
        (\<not> may_use_heap t \<longrightarrow> q = is_pos s + length (frac_bytes t v))))"

definition checks_member :: "fty \<Rightarrow> bool" where
  "checks_member t \<longleftrightarrow> (\<forall>v s base p h. fhas_type t v \<longrightarrow> cells_at base p h [frac_cell t v] s \<longrightarrow>
     fraccheck_member t s = Inr (s\<lparr>is_pos := is_pos s + cell_size (frac_cell t v),
       total_read := total_read s + cell_size (frac_cell t v) + length (cell_heap (frac_cell t v))\<rparr>))"

lemma checks_memberD:
  "checks_member t \<Longrightarrow> fhas_type t v \<Longrightarrow> cells_at base p h [frac_cell t v] s \<Longrightarrow>
   fraccheck_member t s = Inr (s\<lparr>is_pos := is_pos s + cell_size (frac_cell t v),
     total_read := total_read s + cell_size (frac_cell t v) + length (cell_heap (frac_cell t v))\<rparr>)"
  unfolding checks_member_def by blast

lemma checksD:
  "checks t \<Longrightarrow> fhas_type t v \<Longrightarrow> length (frac_bytes t v) < 2 ^ 16 \<Longrightarrow> is_inv s \<Longrightarrow>
   holds_at (is_mem s) (is_pos s) (frac_bytes t v) \<Longrightarrow> is_pos s + length (frac_bytes t v) \<le> is_end s \<Longrightarrow>
   \<exists>q. fraccheck t s = Inr (s\<lparr>is_pos := q, total_read := total_read s + length (frac_bytes t v)\<rparr>) \<and>
     (\<not> may_use_heap t \<longrightarrow> q = is_pos s + length (frac_bytes t v))"
  unfolding checks_def by blast

lemma check_num_at:
  assumes "is_inv s" "holds_at (is_mem s) (is_pos s) (nat_le n w)" "is_pos s + n \<le> is_end s" "w < 256 ^ n"
  shows "check_num n s = Inr (w, s\<lparr>is_pos := is_pos s + n, total_read := total_read s + n\<rparr>)"
  using assms by (auto simp: check_num_def check_read_def is_remaining_inv holds_at_def le_nat_nat_le)

lemma check_checkread_at:
  "is_inv s \<Longrightarrow> is_pos s + n \<le> is_end s \<Longrightarrow>
   check_checkread n s = Inr (s\<lparr>is_pos := is_pos s + n, total_read := total_read s + n\<rparr>)"
  by (auto simp: check_checkread_def is_remaining_inv)

lemma is_inv_check: "is_inv s \<Longrightarrow> q \<le> is_end s \<Longrightarrow> is_inv (s\<lparr>is_pos := q, total_read := m\<rparr>)"
  by (simp add: is_inv_def)

lemma check_pointer:
  assumes "checks t" "fhas_type t v" "cells_at base p h [Pointer (frac_bytes t v)] s"
  shows "\<exists>sub. check_num 4 s = Inr (h - p, s\<lparr>is_pos := is_pos s + 4, total_read := total_read s + 4\<rparr>) \<and>
      4 \<le> h - p \<and>
      check_substream (h - p) (s\<lparr>is_pos := is_pos s + 4, total_read := total_read s + 4\<rparr>) = Inr sub \<and>
      (\<exists>sub'. fraccheck t sub = Inr sub' \<and> total_read sub' = length (frac_bytes t v))"
proof -
  let ?sub = "s\<lparr>is_pos := base + h, total_read := 0\<rparr>"
  have n: "check_num 4 s = Inr (h - p, s\<lparr>is_pos := is_pos s + 4, total_read := total_read s + 4\<rparr>)"
    using assms(3) by (intro check_num_at) (auto simp: cells_at_def)
  have "base + p + 4 + (h - p) - 4 = base + h" "4 \<le> h - p" using assms(3) by (auto simp: cells_at_def)
  moreover from this have "check_substream (h - p) (s\<lparr>is_pos := is_pos s + 4, total_read := total_read s + 4\<rparr>) = Inr ?sub"
    using assms(3) by (cases s) (auto simp: cells_at_def check_substream_def)
  moreover have "\<exists>q. fraccheck t ?sub = Inr (?sub\<lparr>is_pos := q, total_read := total_read ?sub + length (frac_bytes t v)\<rparr>)"
    using checksD [OF assms(1,2), of ?sub] is_inv_check [of s "base + h" 0] assms(3)
    by (auto simp: cells_at_def)
  ultimately show ?thesis using n by auto
qed

lemma check_mark:
  assumes "cells_at base p h [Mark w] s" "w < 256 ^ 4"
  shows "check_num 4 s = Inr (w, s\<lparr>is_pos := is_pos s + 4, total_read := total_read s + 4\<rparr>)"
  using assms by (intro check_num_at) (auto simp: cells_at_def)

lemma checks_member_plain:
  assumes "checks t" "\<not> is_optional t"
  shows "checks_member t"
proof (cases "may_use_heap t")
  case True
  then have member: "fraccheck_member t s =
      rbind (check_num 4 s) (\<lambda>(offset, s).
        if is_range t \<and> offset < 4 then Inr s
        else rbind (check_substream offset s) (\<lambda>insubstream.
          rbind (fraccheck t insubstream) (\<lambda>insubstream. Inr (add_total (total_read insubstream) s))))"
    "frac_cell t v = (if is_range t \<and> is_empty_range v then Mark 0 else Pointer (frac_bytes t v))" for s v
    using assms(2)
    by (auto simp: fraccheck_member.simps frac_cell.simps is_optional_def is_range_def
        intro!: rbind_cong split: fty.splits)
  show ?thesis
    unfolding checks_member_def
  proof (intro allI impI)
    fix v base p h and s :: check_input_stream
    assume v: "fhas_type t v" and at: "cells_at base p h [frac_cell t v] s"
    show "fraccheck_member t s = Inr (s\<lparr>is_pos := is_pos s + cell_size (frac_cell t v),
       total_read := total_read s + cell_size (frac_cell t v) + length (cell_heap (frac_cell t v))\<rparr>)"
    proof (cases "is_range t \<and> is_empty_range v")
      case True
      then show ?thesis using at check_mark [of base p h 0 s] by (simp add: member)
    next
      case False
      with at have at: "cells_at base p h [Pointer (frac_bytes t v)] s" by (simp add: member)
      with False show ?thesis using check_pointer [OF assms(1) v at] by (auto simp: member add_total_def)
    qed
  qed
next
  case False
  show ?thesis
    unfolding checks_member_def
  proof (intro allI impI)
    fix v base p h and s :: check_input_stream
    assume v: "fhas_type t v" and at: "cells_at base p h [frac_cell t v] s"
    have c: "frac_cell t v = Inline (frac_bytes t v)" using False by (simp add: frac_cell.simps)
    have "\<exists>q. fraccheck t s = Inr (s\<lparr>is_pos := q, total_read := total_read s + length (frac_bytes t v)\<rparr>) \<and>
        q = is_pos s + length (frac_bytes t v)"
      using checksD [OF assms(1) v, of s] at False by (auto simp: cells_at_def c)
    then show "fraccheck_member t s = Inr (s\<lparr>is_pos := is_pos s + cell_size (frac_cell t v),
       total_read := total_read s + cell_size (frac_cell t v) + length (cell_heap (frac_cell t v))\<rparr>)"
      using False by (simp add: fraccheck_member.simps c)
  qed
qed

lemma frac_cell_optional:
  "frac_cell (FT_optional t) v = (case v of
     FV_optional (Some x) \<Rightarrow> if is_range t \<and> is_empty_range x then Mark 0 else Pointer (frac_bytes t x)
   | _ \<Rightarrow> Mark 1)"
  by (auto simp: frac_cell.simps [of "FT_optional t"] frac_cell.simps [of t] is_range_def
      split: fval.splits option.splits fty.splits)

lemma checks_member_optional:
  assumes "checks t"
  shows "checks_member (FT_optional t)"
  unfolding checks_member_def
proof (intro allI impI)
  fix v base p h and s :: check_input_stream
  let ?c = "frac_cell (FT_optional t) v"
  assume v: "fhas_type (FT_optional t) v" and at: "cells_at base p h [?c] s"
  consider (mark) w where "?c = Mark w" "w < 4"
    | (some) x where "v = FV_optional (Some x)" "fhas_type t x" "?c = Pointer (frac_bytes t x)"
  proof -
    from v consider "v = FV_optional None" | x where "v = FV_optional (Some x)" "fhas_type t x" by auto
    then show thesis
    proof cases
      case 1
      then show thesis using that(1) [of 1] by (simp add: frac_cell_optional)
    next
      case (2 x)
      then show thesis
        using that(1) [of 0] that(2) [of x]
        by (cases "is_range t \<and> is_empty_range x") (auto simp: frac_cell_optional)
    qed
  qed
  then show "fraccheck_member (FT_optional t) s = Inr (s\<lparr>is_pos := is_pos s + cell_size ?c,
       total_read := total_read s + cell_size ?c + length (cell_heap ?c)\<rparr>)"
  proof cases
    case mark
    then show ?thesis using at check_mark [of base p h w s]
      by (simp add: fraccheck_member.simps [of "FT_optional t"])
  next
    case some
    then show ?thesis using check_pointer [OF assms some(2), of base p h s] at
      by (auto simp: fraccheck_member.simps [of "FT_optional t"] add_total_def)
  qed
qed

lemma check_fields_ok:
  assumes "list_all2 fhas_type ts vs" "\<forall>t \<in> set ts. checks_member t \<and> frac_wf t"
    and "cells_at base p h (frac_cells ts vs) s" "is_pos s + cells_size (frac_cells ts vs) \<le> heap"
  shows "check_fields (map fraccheck_member ts) heap s =
    Inr (s\<lparr>is_pos := is_pos s + cells_size (frac_cells ts vs),
      total_read := total_read s + cells_size (frac_cells ts vs) + length (lay_heap (frac_cells ts vs))\<rparr>)"
  using assms
proof (induction arbitrary: s p h rule: list_all2_induct)
  case (Cons t ts v vs)
  let ?c = "frac_cell t v"
  have at: "cells_at base p h [?c] s"
    "cells_at base (p + cell_size ?c) (h + length (cell_heap ?c)) (frac_cells ts vs)
       (s\<lparr>is_pos := is_pos s + cell_size ?c\<rparr>)"
    using cells_at_Cons Cons.prems(2) by auto
  let ?s = "s\<lparr>is_pos := is_pos s + cell_size ?c, total_read := total_read s + cell_size ?c + length (cell_heap ?c)\<rparr>"
  have at': "cells_at base (p + cell_size ?c) (h + length (cell_heap ?c)) (frac_cells ts vs) ?s"
    using at(2) by (simp add: cells_at_def is_inv_def)
  have "fraccheck_member t s = Inr ?s"
    using Cons.prems(1) Cons.hyps(1) by (intro checks_memberD [OF _ _ at(1)]) auto
  moreover have "is_pos s < heap"
    using frac_cell_pos [of t v] Cons.prems(1,3) Cons.hyps(1) by simp
  ultimately show ?case
    using Cons.IH [OF _ at'] Cons.prems(1,3) by (simp add: ac_simps)
qed simp

lemma check_elems_ok:
  assumes "\<forall>v \<in> set vs. fhas_type t v" "checks_member t" "cells_at base p h (map (frac_cell t) vs) s"
  shows "check_elems (length vs) (fraccheck_member t) s =
    Inr (s\<lparr>is_pos := is_pos s + cells_size (map (frac_cell t) vs),
      total_read := total_read s + cells_size (map (frac_cell t) vs) + length (lay_heap (map (frac_cell t) vs))\<rparr>)"
  using assms
proof (induction vs arbitrary: s p h)
  case (Cons v vs)
  let ?c = "frac_cell t v"
  have at: "cells_at base p h [?c] s"
    "cells_at base (p + cell_size ?c) (h + length (cell_heap ?c)) (map (frac_cell t) vs)
       (s\<lparr>is_pos := is_pos s + cell_size ?c\<rparr>)"
    using cells_at_Cons Cons.prems(3) by auto
  let ?s = "s\<lparr>is_pos := is_pos s + cell_size ?c, total_read := total_read s + cell_size ?c + length (cell_heap ?c)\<rparr>"
  have at': "cells_at base (p + cell_size ?c) (h + length (cell_heap ?c)) (map (frac_cell t) vs) ?s"
    using at(2) by (simp add: cells_at_def is_inv_def)
  have "fraccheck_member t s = Inr ?s"
    using Cons.prems by (intro checks_memberD [OF _ _ at(1)]) auto
  then show ?case
    using Cons.IH [OF _ _ at'] Cons.prems by (simp add: ac_simps)
qed simp

lemma check_sized:
  assumes "is_inv s" "holds_at (is_mem s) (is_pos s) (nat_le 4 (length d) @ d)"
    and "is_pos s + length (nat_le 4 (length d) @ d) \<le> is_end s" "length d < 256 ^ 4"
  shows "rbind (check_num 4 s) (\<lambda>(n, s). if n > 0 then check_checkread n s else Inr s) =
    Inr (s\<lparr>is_pos := is_pos s + (4 + length d), total_read := total_read s + (4 + length d)\<rparr>)"
proof -
  have "check_num 4 s = Inr (length d, s\<lparr>is_pos := is_pos s + 4, total_read := total_read s + 4\<rparr>)"
    using assms by (intro check_num_at) (auto simp: holds_at_append)
  then show ?thesis
    using assms by (cases "d = []") (simp_all add: check_checkread_at is_inv_check ac_simps)
qed

lemma checks_string: "checks FT_string"
  unfolding checks_def
proof (intro allI impI)
  fix v and s :: check_input_stream
  assume "fhas_type FT_string v" and len: "length (frac_bytes FT_string v) < 2 ^ 16" and inv: "is_inv s"
    and at: "holds_at (is_mem s) (is_pos s) (frac_bytes FT_string v)"
    and bound: "is_pos s + length (frac_bytes FT_string v) \<le> is_end s"
  then obtain d where v: "v = FV_string d" by auto
  have b: "frac_bytes FT_string v = nat_le 4 (length d) @ d" by (simp add: v frac_bytes.simps)
  show "\<exists>q. fraccheck FT_string s =
        Inr (s\<lparr>is_pos := q, total_read := total_read s + length (frac_bytes FT_string v)\<rparr>) \<and>
      (\<not> may_use_heap FT_string \<longrightarrow> q = is_pos s + length (frac_bytes FT_string v))"
    using check_sized [OF inv at [unfolded b] bound [unfolded b]] len
    by (intro exI [of _ "is_pos s + (4 + length d)"]) (simp add: fraccheck.simps b)
qed

lemma checks_vector:
  assumes "frac_wf (FT_vector t)" "checks_member t"
  shows "checks (FT_vector t)"
  unfolding checks_def
proof (intro allI impI)
  fix v and s :: check_input_stream
  let ?T = "FT_vector t"
  assume typed: "fhas_type ?T v" and len: "length (frac_bytes ?T v) < 2 ^ 16" and inv: "is_inv s"
    and at: "holds_at (is_mem s) (is_pos s) (frac_bytes ?T v)"
    and bound: "is_pos s + length (frac_bytes ?T v) \<le> is_end s"
  from typed obtain vs where v: "v = FV_vector vs" "\<forall>v \<in> set vs. fhas_type t v" by auto
  have "\<exists>q. fraccheck ?T s = Inr (s\<lparr>is_pos := q, total_read := total_read s + length (frac_bytes ?T v)\<rparr>)"
  proof (cases "can_memcpy t")
    case True
    let ?d = "concat (map (mem_image t) vs)"
    have "length ?d = length vs * memcpy_size t"
      using v(2) by (intro concat_map_length) (simp add: mem_image_length True)
    then have b: "frac_bytes ?T v = nat_le 4 (length ?d) @ ?d"
      using True by (simp add: v frac_bytes.simps)
    then show ?thesis
      using check_sized [OF inv at [unfolded b] bound [unfolded b]] len True
      by (intro exI [of _ "is_pos s + (4 + length ?d)"]) (simp add: fraccheck.simps b)
  next
    case False
    have b: "frac_bytes ?T v = frac_layout (nat_le 4 (length vs * 4)) (map (frac_cell t) vs)"
      using False by (simp add: v frac_bytes.simps)
    note la = layout_at [OF inv at [unfolded b] bound [unfolded b] len [unfolded b]]
    have n: "check_num 4 s = Inr (length vs * 4, s\<lparr>is_pos := is_pos s + 4, total_read := total_read s + 4\<rparr>)"
      using inv la(2) bound len frac_cells_size [of "replicate (length vs) t" vs] v(2) assms(1) False
      by (intro check_num_at) (auto simp: b frac_cells_replicate sum_list_replicate list_all2_conv_all_nth)
    have "cells_at (is_pos s) 4 (4 + cells_size (map (frac_cell t) vs)) (map (frac_cell t) vs)
        (s\<lparr>is_pos := is_pos s + 4, total_read := total_read s + 4\<rparr>)"
      using la(1) by (simp add: cells_at_def is_inv_def)
    from check_elems_ok [OF v(2) assms(2) this] show ?thesis
      using n False by (auto simp: fraccheck.simps b ac_simps)
  qed
  then show "\<exists>q. fraccheck ?T s = Inr (s\<lparr>is_pos := q, total_read := total_read s + length (frac_bytes ?T v)\<rparr>) \<and>
      (\<not> may_use_heap ?T \<longrightarrow> q = is_pos s + length (frac_bytes ?T v))"
    by simp
qed

lemma checks_struct:
  assumes "frac_wf (FT_struct si ts)" "\<forall>t \<in> set ts. checks_member t"
  shows "checks (FT_struct si ts)"
  unfolding checks_def
proof (intro allI impI)
  fix v and s :: check_input_stream
  let ?T = "FT_struct si ts"
  assume typed: "fhas_type ?T v" and len: "length (frac_bytes ?T v) < 2 ^ 16" and inv: "is_inv s"
    and at: "holds_at (is_mem s) (is_pos s) (frac_bytes ?T v)"
    and bound: "is_pos s + length (frac_bytes ?T v) \<le> is_end s"
  from typed obtain vs where v: "v = FV_struct vs" and l2: "list_all2 fhas_type ts vs" by auto
  show "\<exists>q. fraccheck ?T s = Inr (s\<lparr>is_pos := q, total_read := total_read s + length (frac_bytes ?T v)\<rparr>) \<and>
      (\<not> may_use_heap ?T \<longrightarrow> q = is_pos s + length (frac_bytes ?T v))"
  proof (cases "can_memcpy ?T")
    case True
    then have "length (frac_bytes ?T v) = si_size si"
      using mem_image_length [OF True typed] by (simp add: frac_bytes.simps)
    then show ?thesis using True check_checkread_at [OF inv] bound
      by (intro exI [of _ "is_pos s + si_size si"]) (simp add: fraccheck.simps)
  next
    case False
    let ?cs = "frac_cells ts vs" and ?ext = "is_ext_structure ?T"
    let ?hdr = "if ?ext then nat_le 2 (fixed_nat ?T) else []"
    have b: "frac_bytes ?T v = frac_layout ?hdr ?cs"
      using struct_bytes [OF False] v by simp
    have size: "cells_size ?cs = fixed_nat ?T"
      using frac_cells_size [OF l2] False by simp
    note la = layout_at [OF inv at [unfolded b] bound [unfolded b] len [unfolded b]]
    let ?s = "s\<lparr>is_pos := is_pos s + length ?hdr, total_read := total_read s + length ?hdr\<rparr>"
    have small: "fixed_nat ?T < 256 ^ 2" using len size by (simp add: b del: fixed_nat.simps)
    have hdr: "(if ?ext then check_num 2 s else Inr (unat (fracpack_fixed_size ?T), s)) = Inr (fixed_nat ?T, ?s)"
    proof (cases ?ext)
      case True
      then show ?thesis
        using check_num_at [of s 2 "fixed_nat ?T"] inv la(2) bound small by (simp add: b del: fixed_nat.simps)
    next
      case False
      moreover have "fracpack_fixed_size ?T = of_nat (fixed_nat ?T)"
        by (rule fracpack_fixed_size_nat) (simp add: is_optional_def)
      ultimately show ?thesis using unat_of_nat_u16 [of "fixed_nat ?T"] small by (simp del: fixed_nat.simps)
    qed
    have "cells_at (is_pos s) (length ?hdr) (length ?hdr + cells_size ?cs) ?cs ?s"
      using la(1) by (simp add: cells_at_def is_inv_def del: fixed_nat.simps)
    from check_fields_ok [OF l2 _ this, of "is_pos ?s + fixed_nat ?T"] assms
    have "fraccheck ?T s = Inr (?s\<lparr>is_pos := is_pos ?s + cells_size ?cs,
        total_read := total_read ?s + cells_size ?cs + length (lay_heap ?cs)\<rparr>)"
      unfolding fraccheck.simps hdr using False size by (simp del: fixed_nat.simps)
    moreover have "length (frac_bytes ?T v) = fixed_nat ?T" "\<not> ?ext" if "\<not> may_use_heap ?T"
      using no_heap_length [OF that typed] no_heap_fixed [OF that]
      by (simp_all only: is_ext_structure_def not_not)
    ultimately show ?thesis
      using size by (intro exI [of _ "is_pos s + length ?hdr + cells_size ?cs"])
        (auto simp: b simp del: fixed_nat.simps)
  qed
qed

lemma frac_checks:
  "frac_wf t \<Longrightarrow> no_variant t \<Longrightarrow> (\<not> is_optional t \<longrightarrow> checks t) \<and> checks_member t"
proof (induction t)
  case (FT_arith n)
  have "checks (FT_arith n)"
    using check_checkread_at by (auto simp: checks_def fraccheck.simps frac_bytes.simps)
  then show ?case using checks_member_plain by (auto simp: is_optional_def)
next
  case FT_string
  then show ?case using checks_string checks_member_plain by (auto simp: is_optional_def)
next
  case (FT_vector t)
  then show ?case using checks_vector checks_member_plain [of "FT_vector t"] by (auto simp: is_optional_def)
next
  case (FT_optional t)
  then show ?case using checks_member_optional by (auto simp: is_optional_def)
next
  case (FT_struct si ts)
  then have "checks (FT_struct si ts)" by (intro checks_struct) auto
  then show ?case using checks_member_plain by (auto simp: is_optional_def)
qed simp

end
