(* ===== verification/Clio_Fracpack_Safe.thy ===== *)
theory Clio_Fracpack_Safe
  imports Clio_Fracpack_Unpack
begin

text \<open>
  Bytes from an untrusted source: what passes \<^verbatim>\<open>validate\<close> is unpacked without an exception and
  to a value of the type, except that a vector of objects of more than one byte may be overrun.
\<close>

section \<open>Unpacking follows the check\<close>

definition plain :: "check_input_stream \<Rightarrow> input_stream" where
  "plain c = \<lparr>is_mem = is_mem c, is_pos = is_pos c, is_end = is_end c\<rparr>"

text \<open>Vectors that are copied as a whole have elements of one byte.\<close>

fun byte_vectors :: "fty \<Rightarrow> bool" where
  "byte_vectors (FT_vector t) \<longleftrightarrow> (if can_memcpy t then memcpy_size t = 1 else byte_vectors t)"
| "byte_vectors (FT_optional t) \<longleftrightarrow> byte_vectors t"
| "byte_vectors (FT_variant ts) \<longleftrightarrow> (\<forall>t \<in> set ts. byte_vectors t)"
| "byte_vectors (FT_struct si ts) \<longleftrightarrow> (\<forall>t \<in> set ts. byte_vectors t)"
| "byte_vectors _ \<longleftrightarrow> True"

definition same_buffer :: "check_input_stream \<Rightarrow> check_input_stream \<Rightarrow> bool" where
  "same_buffer c c' \<longleftrightarrow> is_inv c' \<and> is_mem c' = is_mem c \<and> is_end c' = is_end c"

definition ok_or_fault :: "bool \<Rightarrow> ('a \<Rightarrow> bool) \<Rightarrow> fault + 'a \<Rightarrow> bool" where
  "ok_or_fault bv P r \<longleftrightarrow> (case r of Inl e \<Rightarrow> e = Memory_Fault \<and> \<not> bv | Inr x \<Rightarrow> P x)"

lemma ok_or_fault_simps [simp]:
  "ok_or_fault bv P (Inr x) \<longleftrightarrow> P x"
  "ok_or_fault bv P (Inl e) \<longleftrightarrow> e = Memory_Fault \<and> \<not> bv"
  by (simp_all add: ok_or_fault_def)

lemma ok_or_fault_bind:
  assumes "ok_or_fault bv P r" "\<And>x. P x \<Longrightarrow> ok_or_fault bv Q (f x)"
  shows "ok_or_fault bv Q (rbind r f)"
  using assms by (cases r) auto

lemma ok_or_fault_mono:
  "ok_or_fault bv P r \<Longrightarrow> (bv' \<Longrightarrow> bv) \<Longrightarrow> (\<And>x. P x \<Longrightarrow> Q x) \<Longrightarrow> ok_or_fault bv' Q r"
  by (auto simp: ok_or_fault_def split: sum.splits)

lemma same_buffer_trans: "same_buffer a b \<Longrightarrow> same_buffer b c \<Longrightarrow> same_buffer a c"
  by (simp add: same_buffer_def)

lemma check_read_plain:
  assumes "check_read n c = Inr (bs, c')" "is_inv c"
  shows "may_throw (is_read n (plain c)) = Inr (bs, plain c')" "same_buffer c c'" "length bs = n"
proof -
  have n: "is_pos c + n \<le> is_end c" using assms by (auto simp: check_read_def is_remaining_inv is_inv_def split: if_splits)
  have "is_remaining (plain c) = is_remaining c" by (simp add: is_remaining_def plain_def)
  then show "may_throw (is_read n (plain c)) = Inr (bs, plain c')" "same_buffer c c'" "length bs = n"
    using assms n by (auto simp: check_read_def is_read_def may_throw_def plain_def same_buffer_def is_inv_def
        split: if_splits)
qed

lemma check_num_plain:
  assumes "check_num n c = Inr (w, c')" "is_inv c"
  shows "read_num n (plain c) = Inr (w, plain c')" "same_buffer c c'" "w < 256 ^ n"
proof -
  obtain bs where bs: "check_read n c = Inr (bs, c')" "w = le_nat bs"
    using assms(1) by (auto simp: check_num_def rbind_eq_Inr)
  note r = check_read_plain [OF bs(1) assms(2)]
  show "read_num n (plain c) = Inr (w, plain c')" "same_buffer c c'" "w < 256 ^ n"
    using r le_nat_bound [of bs] by (simp_all add: read_num_def bs(2))
qed

lemma check_checkread_plain:
  assumes "check_checkread n c = Inr c'" "is_inv c"
  shows "\<exists>bs. may_throw (is_read n (plain c)) = Inr (bs, plain c') \<and> length bs = n" "same_buffer c c'"
proof -
  have "check_read n c = Inr (take n (drop (is_pos c) (is_mem c)), c')"
    using assms(1) by (auto simp: check_read_def check_checkread_def split: if_splits)
  from check_read_plain [OF this assms(2)]
  show "\<exists>bs. may_throw (is_read n (plain c)) = Inr (bs, plain c') \<and> length bs = n" "same_buffer c c'"
    by blast+
qed

lemma check_substream_plain:
  assumes "check_substream n c = Inr sub" "is_inv c"
  shows "in_substream n (plain c) = Inr (plain sub)" "is_inv sub"
  using assms
  by (auto simp: check_substream_def in_substream_def input_stream_of_def may_throw_def plain_def is_inv_def
      Let_def split: if_splits)

lemma mem_split_typed:
  assumes "\<And>t bs. t \<in> set ts \<Longrightarrow> length bs = memcpy_size t \<Longrightarrow> fhas_type t (mem_value t bs)"
    and "length bs = sum_list (map memcpy_size ts)"
  shows "list_all2 fhas_type ts (mem_split (map (\<lambda>t. (memcpy_size t, mem_value t)) ts) bs)"
  using assms
proof (induction ts arbitrary: bs)
  case (Cons t ts)
  have "fhas_type t (mem_value t (take (memcpy_size t) bs))"
    using Cons.prems by (intro Cons.prems(1)) auto
  moreover have "list_all2 fhas_type ts (mem_split (map (\<lambda>t. (memcpy_size t, mem_value t)) ts) (drop (memcpy_size t) bs))"
    using Cons.prems by (intro Cons.IH) auto
  ultimately show ?case by simp
qed simp

lemma mem_value_typed: "can_memcpy t \<Longrightarrow> length bs = memcpy_size t \<Longrightarrow> fhas_type t (mem_value t bs)"
proof (induction t arbitrary: bs)
  case (FT_arith n)
  then show ?case using le_nat_bound [of bs] by simp
next
  case (FT_struct si ts)
  note cm = can_memcpy_struct [OF FT_struct.prems(1)]
  have "list_all2 fhas_type ts (mem_split (map (\<lambda>t. (memcpy_size t, mem_value t)) ts) bs)"
    using FT_struct cm by (intro mem_split_typed) auto
  then show ?case by simp
qed simp_all

lemma mem_values_typed:
  assumes "can_memcpy t" "length bs = k * memcpy_size t"
  shows "\<forall>v \<in> set (mem_values t k bs). fhas_type t v"
  using assms(2)
proof (induction k arbitrary: bs)
  case (Suc k)
  then show ?case
    using mem_value_typed [OF assms(1), of "take (memcpy_size t) bs"] Suc.IH [of "drop (memcpy_size t) bs"]
    by (auto simp: mem_values_def)
qed (simp add: mem_values_def)

definition follows :: "fty \<Rightarrow> bool" where
  "follows t \<longleftrightarrow> (\<forall>x c c'. fhas_type t x \<longrightarrow> is_inv c \<longrightarrow> fraccheck t c = Inr c' \<longrightarrow>
     same_buffer c c' \<and>
     ok_or_fault (byte_vectors t) (\<lambda>(v, s). fhas_type t v \<and> (\<not> may_use_heap t \<longrightarrow> s = plain c'))
       (fracunpack t x (plain c)))"

definition follows_member :: "fty \<Rightarrow> bool" where
  "follows_member t \<longleftrightarrow> (\<forall>x c c'. fhas_type t x \<longrightarrow> is_inv c \<longrightarrow> fraccheck_member t c = Inr c' \<longrightarrow>
     same_buffer c c' \<and>
     ok_or_fault (byte_vectors t) (\<lambda>(v, s). fhas_type t v \<and> s = plain c') (fracunpack_member t x (plain c)))"

lemma add_total_plain [simp]: "plain (add_total n c) = plain c" "same_buffer a (add_total n c) = same_buffer a c"
  by (simp_all add: add_total_def plain_def same_buffer_def is_inv_def)

lemma followsD:
  assumes "follows t" "fhas_type t x" "is_inv c" "fraccheck t c = Inr c'"
  shows "same_buffer c c'"
    "ok_or_fault (byte_vectors t) (\<lambda>(v, s). fhas_type t v \<and> (\<not> may_use_heap t \<longrightarrow> s = plain c'))
       (fracunpack t x (plain c))"
  using assms unfolding follows_def by blast+

text \<open>A member on the heap, through its offset.\<close>

lemma follows_pointer:
  assumes f: "follows t" and x: "fhas_type t x" and inv: "is_inv c"
    and chk: "rbind (check_substream n c) (\<lambda>sub. rbind (fraccheck t sub) (\<lambda>sub. Inr (add_total (total_read sub) c))) = Inr c'"
    and res: "\<And>v. fhas_type t v \<Longrightarrow> P (g v)"
  shows "plain c' = plain c \<and> same_buffer c c' \<and>
    ok_or_fault (byte_vectors t) (\<lambda>(v, s). P v \<and> s = plain c)
       (rbind (in_substream n (plain c)) (\<lambda>sub. rbind (fracunpack t x sub) (\<lambda>(v, _). Inr (g v, plain c))))"
proof -
  obtain sub sub' where sub: "check_substream n c = Inr sub" "fraccheck t sub = Inr sub'"
    and c': "c' = add_total (total_read sub') c"
    using chk by (auto simp: rbind_eq_Inr)
  have buf: "plain c' = plain c" "same_buffer c c'" using inv by (simp_all add: c' same_buffer_def add_total_def is_inv_def plain_def)
  note s = check_substream_plain [OF sub(1) inv]
  have "ok_or_fault (byte_vectors t) (\<lambda>(v, s). P v \<and> s = plain c)
      (rbind (fracunpack t x (plain sub)) (\<lambda>(v, _). Inr (g v, plain c)))"
    by (rule ok_or_fault_bind [OF followsD(2) [OF f x s(2) sub(2)]]) (auto intro: res)
  with buf show "plain c' = plain c \<and> same_buffer c c' \<and>
    ok_or_fault (byte_vectors t) (\<lambda>(v, s). P v \<and> s = plain c)
       (rbind (in_substream n (plain c)) (\<lambda>sub. rbind (fracunpack t x sub) (\<lambda>(v, _). Inr (g v, plain c))))"
    by (simp add: s(1))
qed

lemma follows_member_plain:
  assumes "follows t" "\<not> is_optional t" "frac_wf t"
  shows "follows_member t"
  unfolding follows_member_def
proof (intro allI impI)
  fix x c c'
  assume x: "fhas_type t x" and inv: "is_inv c" and chk: "fraccheck_member t c = Inr c'"
  show "same_buffer c c' \<and>
      ok_or_fault (byte_vectors t) (\<lambda>(v, s). fhas_type t v \<and> s = plain c') (fracunpack_member t x (plain c))"
  proof (cases "may_use_heap t")
    case True
    have member: "fraccheck_member t s =
        rbind (check_num 4 s) (\<lambda>(offset, s).
          if is_range t \<and> offset < 4 then Inr s
          else rbind (check_substream offset s) (\<lambda>insubstream.
            rbind (fraccheck t insubstream) (\<lambda>insubstream. Inr (add_total (total_read insubstream) s))))"
      "fracunpack_member t x u =
        rbind (read_num 4 u) (\<lambda>(offset, s).
          if is_range t \<and> offset < 4 then Inr (default_value t, s)
          else rbind (in_substream offset s) (\<lambda>insubstream.
            rbind (fracunpack t x insubstream) (\<lambda>(v, _). Inr (v, s))))" for s u
      using True assms(2)
      by (auto simp: fraccheck_member.simps fracunpack_member.simps is_optional_def is_range_def
          intro!: rbind_cong split: fty.splits)
    obtain n d where n: "check_num 4 c = Inr (n, d)"
        "(if is_range t \<and> n < 4 then Inr d
          else rbind (check_substream n d) (\<lambda>sub. rbind (fraccheck t sub) (\<lambda>sub. Inr (add_total (total_read sub) d)))) = Inr c'"
      using chk by (auto simp: member(1) rbind_eq_Inr)
    note r = check_num_plain [OF n(1) inv]
    have d: "is_inv d" using r(2) by (simp add: same_buffer_def)
    show ?thesis
    proof (cases "is_range t \<and> n < 4")
      case True
      then show ?thesis using n(2) r default_value_typed [OF assms(3)] by (simp add: member(2))
    next
      case False
      note p = follows_pointer [where P = "fhas_type t" and g = "\<lambda>v. v",
          OF assms(1) x d n(2) [unfolded if_not_P [OF False]]]
      show ?thesis
        unfolding member(2) using r p by (auto simp: if_not_P [OF False] intro: same_buffer_trans)
    qed
  next
    case False
    with chk have "fraccheck t c = Inr c'" by (simp add: fraccheck_member.simps)
    from followsD [OF assms(1) x inv this] False show ?thesis
      by (simp add: fracunpack_member.simps)
  qed
qed

lemma follows_member_optional:
  assumes "follows t" "frac_wf t"
  shows "follows_member (FT_optional t)"
  unfolding follows_member_def
proof (intro allI impI)
  fix x c c'
  let ?T = "FT_optional t"
  assume inv: "is_inv c" and chk: "fraccheck_member ?T c = Inr c'"
  obtain n d where n: "check_num 4 c = Inr (n, d)"
      "(if n \<ge> 4 then rbind (check_substream n d) (\<lambda>sub. rbind (fraccheck t sub) (\<lambda>sub. Inr (add_total (total_read sub) d)))
        else Inr d) = Inr c'"
    using chk by (auto simp: fraccheck_member.simps [of ?T] rbind_eq_Inr)
  note r = check_num_plain [OF n(1) inv]
  have d: "is_inv d" using r(2) by (simp add: same_buffer_def)
  show "same_buffer c c' \<and>
      ok_or_fault (byte_vectors ?T) (\<lambda>(v, s). fhas_type ?T v \<and> s = plain c') (fracunpack_member ?T x (plain c))"
  proof (cases "n \<ge> 4")
    case True
    then have "rbind (check_substream n d) (\<lambda>sub. rbind (fraccheck t sub) (\<lambda>sub. Inr (add_total (total_read sub) d))) = Inr c'"
      using n(2) by simp
    from follows_pointer [where P = "fhas_type ?T" and g = "\<lambda>v. FV_optional (Some v)",
        OF assms(1) default_value_typed [OF assms(2)] d this] r True
    show ?thesis by (auto simp: fracunpack_member.simps [of ?T] intro: same_buffer_trans)
  next
    case False
    then show ?thesis using n(2) r default_value_typed [OF assms(2)]
      by (auto simp: fracunpack_member.simps [of ?T])
  qed
qed

lemma follows_memberD:
  assumes "follows_member t" "fhas_type t x" "is_inv c" "fraccheck_member t c = Inr c'"
  shows "same_buffer c c'"
    "ok_or_fault (byte_vectors t) (\<lambda>(v, s). fhas_type t v \<and> s = plain c') (fracunpack_member t x (plain c))"
  using assms unfolding follows_member_def by blast+

lemma follows_fields:
  assumes "list_all2 fhas_type ts xs" "\<forall>t \<in> set ts. follows_member t" "is_inv c"
    and "check_fields (map fraccheck_member ts) heap c = Inr c'"
  shows "same_buffer c c' \<and>
    ok_or_fault (\<forall>t \<in> set ts. byte_vectors t) (\<lambda>(vs, s). list_all2 fhas_type ts vs \<and> s = plain c')
      (unpack_fields (map fracunpack_member ts) heap xs (plain c))"
  using assms
proof (induction arbitrary: c rule: list_all2_induct)
  case Nil
  then show ?case by (auto simp: same_buffer_def)
next
  case (Cons t ts x xs)
  obtain d where d: "(if is_pos c < heap then fraccheck_member t c else Inr c) = Inr d"
      "check_fields (map fraccheck_member ts) heap d = Inr c'"
    using Cons.prems(3) by (auto simp: rbind_eq_Inr)
  have m: "same_buffer c d \<and> ok_or_fault (byte_vectors t) (\<lambda>(v, s). fhas_type t v \<and> s = plain d)
      (if is_pos (plain c) < heap then fracunpack_member t x (plain c) else Inr (x, plain c))"
  proof (cases "is_pos c < heap")
    case True
    then show ?thesis
      using follows_memberD [of t x c d] Cons.prems(1,2) Cons.hyps(1) d(1) by (simp add: plain_def)
  next
    case False
    then show ?thesis using d(1) Cons.prems(2) Cons.hyps(1) by (simp add: same_buffer_def plain_def)
  qed
  then have "is_inv d" by (simp add: same_buffer_def)
  note IH = Cons.IH [OF _ this d(2)]
  let ?bv = "\<forall>t \<in> set (t # ts). byte_vectors t"
  have "ok_or_fault ?bv (\<lambda>(vs, s). list_all2 fhas_type (t # ts) vs \<and> s = plain c')
      (unpack_fields (map fracunpack_member (t # ts)) heap (x # xs) (plain c))"
    unfolding list.map unpack_fields.simps
  proof (rule ok_or_fault_bind)
    show "ok_or_fault ?bv (\<lambda>(v, s). fhas_type t v \<and> s = plain d)
        (if is_pos (plain c) < heap then fracunpack_member t x (plain c) else Inr (x, plain c))"
      by (rule ok_or_fault_mono [OF conjunct2 [OF m]]) auto
  next
    fix p assume "case p of (v, s) \<Rightarrow> fhas_type t v \<and> s = plain d"
    then obtain v where p: "p = (v, plain d)" "fhas_type t v" by auto
    have "ok_or_fault ?bv (\<lambda>(vs, s). list_all2 fhas_type ts vs \<and> s = plain c')
        (unpack_fields (map fracunpack_member ts) heap xs (plain d))"
      by (rule ok_or_fault_mono [OF conjunct2 [OF IH]]) (use Cons.prems(1) in auto)
    then show "ok_or_fault ?bv (\<lambda>(vs, s). list_all2 fhas_type (t # ts) vs \<and> s = plain c')
        (case p of (v, s) \<Rightarrow> rbind (unpack_fields (map fracunpack_member ts) heap xs s) (\<lambda>(vs, s). Inr (v # vs, s)))"
      using p by (auto intro: ok_or_fault_bind)
  qed
  with m IH Cons.prems(1) show ?case by (auto intro: same_buffer_trans)
qed

lemma follows_elems:
  assumes "\<forall>x \<in> set xs. fhas_type t x" "follows_member t" "is_inv c"
    and "check_elems (length xs) (fraccheck_member t) c = Inr c'"
  shows "same_buffer c c' \<and>
    ok_or_fault (byte_vectors t) (\<lambda>(vs, s). \<forall>v \<in> set vs. fhas_type t v)
      (unpack_elems (fracunpack_member t) xs (plain c))"
  using assms
proof (induction xs arbitrary: c)
  case Nil
  then show ?case by (auto simp: same_buffer_def)
next
  case (Cons x xs)
  obtain d where d: "fraccheck_member t c = Inr d" "check_elems (length xs) (fraccheck_member t) d = Inr c'"
    using Cons.prems(4) by (auto simp: rbind_eq_Inr)
  have m: "same_buffer c d"
    "ok_or_fault (byte_vectors t) (\<lambda>(v, s). fhas_type t v \<and> s = plain d) (fracunpack_member t x (plain c))"
    using follows_memberD [OF Cons.prems(2) _ Cons.prems(3) d(1)] Cons.prems(1) by auto
  then have "is_inv d" by (simp add: same_buffer_def)
  then have IH: "same_buffer d c'" "ok_or_fault (byte_vectors t) (\<lambda>(vs, s). \<forall>v \<in> set vs. fhas_type t v)
      (unpack_elems (fracunpack_member t) xs (plain d))"
    using Cons.IH [OF _ Cons.prems(2) _ d(2)] Cons.prems(1) by auto
  have "ok_or_fault (byte_vectors t) (\<lambda>(vs, s). \<forall>v \<in> set vs. fhas_type t v)
      (unpack_elems (fracunpack_member t) (x # xs) (plain c))"
    unfolding unpack_elems.simps
    by (rule ok_or_fault_bind [OF m(2)]) (auto intro: ok_or_fault_bind [OF IH(2)])
  then show ?case using m(1) IH(1) by (auto intro: same_buffer_trans)
qed

text \<open>Strings and vectors that are copied: the size, and behind it so many bytes.\<close>

lemma sized_plain:
  assumes "rbind (check_num 4 c) (\<lambda>(n, s). if n > 0 then check_checkread n s else Inr s) = Inr c'" "is_inv c"
  shows "same_buffer c c' \<and> (\<exists>n d. read_num 4 (plain c) = Inr (n, d) \<and>
    (n = 0 \<or> (\<exists>bs. may_throw (is_read n d) = Inr (bs, plain c') \<and> length bs = n)))"
proof -
  obtain n d where n: "check_num 4 c = Inr (n, d)" "(if n > 0 then check_checkread n d else Inr d) = Inr c'"
    using assms(1) by (auto simp: rbind_eq_Inr)
  note r = check_num_plain [OF n(1) assms(2)]
  show ?thesis
  proof (cases "n = 0")
    case True
    then show ?thesis using n(2) r by simp
  next
    case False
    then have "check_checkread n d = Inr c'" "is_inv d" using n(2) r(2) by (simp_all add: same_buffer_def)
    from check_checkread_plain [OF this] r show ?thesis by (auto intro: same_buffer_trans)
  qed
qed

lemma follows_string: "follows FT_string"
  unfolding follows_def
proof (intro allI impI)
  fix x c c'
  assume "is_inv c" "fraccheck FT_string c = Inr c'"
  from sized_plain [OF this(2) [unfolded fraccheck.simps] this(1)]
  show "same_buffer c c' \<and> ok_or_fault (byte_vectors FT_string)
      (\<lambda>(v, s). fhas_type FT_string v \<and> (\<not> may_use_heap FT_string \<longrightarrow> s = plain c')) (fracunpack FT_string x (plain c))"
    by (auto simp: fracunpack.simps)
qed

lemma follows_vector:
  assumes "frac_wf (FT_vector t)" "follows_member t"
  shows "follows (FT_vector t)"
  unfolding follows_def
proof (intro allI impI)
  fix x c c'
  let ?T = "FT_vector t"
  assume x: "fhas_type ?T x" and inv: "is_inv c" and chk: "fraccheck ?T c = Inr c'"
  show "same_buffer c c' \<and> ok_or_fault (byte_vectors ?T)
      (\<lambda>(v, s). fhas_type ?T v \<and> (\<not> may_use_heap ?T \<longrightarrow> s = plain c')) (fracunpack ?T x (plain c))"
  proof (cases "can_memcpy t")
    case True
    have fs: "unat (fracpack_fixed_size t) = memcpy_size t"
      using True assms(1) memcpy_fixed_size by simp
    from sized_plain [OF chk [unfolded fraccheck.simps if_P [OF True]] inv] obtain n d where
      buf: "same_buffer c c'" and n: "read_num 4 (plain c) = Inr (n, d)"
        "n = 0 \<or> (\<exists>bs. may_throw (is_read n d) = Inr (bs, plain c') \<and> length bs = n)"
      by blast
    let ?k = "n div memcpy_size t"
    have full: "?k * memcpy_size t = n" if "n \<le> ?k * memcpy_size t"
      using that by (simp add: le_antisym)
    have "n \<le> ?k * memcpy_size t" if "memcpy_size t = 1" using that by simp
    then show ?thesis
      using buf n True mem_values_typed [OF True, of _ ?k] full
      by (auto simp: fracunpack.simps fs Let_def)
  next
    case False
    obtain n d where n: "check_num 4 c = Inr (n, d)" "check_elems (n div 4) (fraccheck_member t) d = Inr c'"
      using chk False by (auto simp: fraccheck.simps rbind_eq_Inr)
    note r = check_num_plain [OF n(1) inv]
    have "\<forall>y \<in> set (resize t (n div 4) (elements x)). fhas_type t y" "length (resize t (n div 4) (elements x)) = n div 4"
      using x assms(1) resize_typed [of t "elements x"] by (auto simp: elements_def)
    moreover from this n(2) have chk': "check_elems (length (resize t (n div 4) (elements x))) (fraccheck_member t) d = Inr c'"
      by simp
    moreover have "is_inv d" using r(2) by (simp add: same_buffer_def)
    ultimately have f: "same_buffer d c'" "ok_or_fault (byte_vectors t) (\<lambda>(vs, s). \<forall>v \<in> set vs. fhas_type t v)
        (unpack_elems (fracunpack_member t) (resize t (n div 4) (elements x)) (plain d))"
      using follows_elems [OF _ assms(2) _ chk'] by auto
    have "ok_or_fault (byte_vectors t) (\<lambda>(v, s). fhas_type ?T v)
        (rbind (unpack_elems (fracunpack_member t) (resize t (n div 4) (elements x)) (plain d)) (\<lambda>(vs, s).
         Inr (FV_vector vs, s)))"
      by (rule ok_or_fault_bind [OF f(2)]) auto
    then show ?thesis using r f(1) False by (auto simp: fracunpack.simps intro: same_buffer_trans)
  qed
qed

lemma follows_copied:
  assumes "can_memcpy t" "is_inv c" "check_checkread (memcpy_size t) c = Inr c'"
  shows "same_buffer c c' \<and> ok_or_fault bv (\<lambda>(v, s). fhas_type t v \<and> s = plain c')
    (rbind (may_throw (is_read (memcpy_size t) (plain c))) (\<lambda>(bs, s). Inr (mem_value t bs, s)))"
  using check_checkread_plain [OF assms(3,2)] mem_value_typed [OF assms(1)] by (auto simp del: mem_value.simps)

lemma follows_struct:
  assumes "\<forall>t \<in> set ts. follows_member t"
  shows "follows (FT_struct si ts)"
  unfolding follows_def
proof (intro allI impI)
  fix x c c'
  let ?T = "FT_struct si ts"
  assume typed: "fhas_type ?T x" and inv: "is_inv c" and chk: "fraccheck ?T c = Inr c'"
  then obtain xs where x: "x = FV_struct xs" "list_all2 fhas_type ts xs" by auto
  show "same_buffer c c' \<and> ok_or_fault (byte_vectors ?T)
      (\<lambda>(v, s). fhas_type ?T v \<and> (\<not> may_use_heap ?T \<longrightarrow> s = plain c')) (fracunpack ?T x (plain c))"
  proof (cases "can_memcpy ?T")
    case True
    have "same_buffer c c' \<and> ok_or_fault (byte_vectors ?T) (\<lambda>(v, s). fhas_type ?T v \<and> s = plain c')
        (rbind (may_throw (is_read (memcpy_size ?T) (plain c))) (\<lambda>(bs, s). Inr (mem_value ?T bs, s)))"
      using chk True by (intro follows_copied [OF True inv]) (simp add: fraccheck.simps)
    then show ?thesis
      using True by (auto simp: fracunpack.simps simp del: mem_value.simps elim!: ok_or_fault_mono)
  next
    case False
    let ?n = "unat (fracpack_fixed_size ?T)"
    obtain h d where h: "(if is_ext_structure ?T then check_num 2 c else Inr (?n, c)) = Inr (h, d)"
        "check_fields (map fraccheck_member ts) (is_pos d + h) d = Inr c'"
      using chk False unfolding fraccheck.simps rbind_eq_Inr if_not_P [OF False] by auto
    have hdr: "same_buffer c d" "(if is_ext_structure ?T then read_num 2 (plain c) else Inr (?n, plain c)) = Inr (h, plain d)"
      using h(1) check_num_plain [OF _ inv] inv by (auto simp: same_buffer_def split: if_splits)
    have d: "is_inv d" "is_pos (plain d) = is_pos d" using hdr(1) by (simp_all add: same_buffer_def plain_def)
    have f: "same_buffer d c' \<and> ok_or_fault (byte_vectors ?T) (\<lambda>(vs, s). list_all2 fhas_type ts vs \<and> s = plain c')
        (unpack_fields (map fracunpack_member ts) (is_pos d + h) xs (plain d))"
      using follows_fields [OF x(2) assms d(1) h(2)] by simp
    have "ok_or_fault (byte_vectors ?T) (\<lambda>(v, s). fhas_type ?T v \<and> s = plain c')
        (rbind (unpack_fields (map fracunpack_member ts) (is_pos d + h) xs (plain d)) (\<lambda>(vs, s). Inr (FV_struct vs, s)))"
      by (rule ok_or_fault_bind [OF conjunct2 [OF f]]) auto
    then have "ok_or_fault (byte_vectors ?T) (\<lambda>(v, s). fhas_type ?T v \<and> s = plain c') (fracunpack ?T x (plain c))"
      unfolding fracunpack.simps if_not_P [OF False] hdr(2) by (simp add: x(1) elements_def d(2))
    then show ?thesis
      using hdr(1) f by (auto intro: same_buffer_trans elim!: ok_or_fault_mono)
  qed
qed

lemma frac_follows:
  "frac_wf t \<Longrightarrow> no_variant t \<Longrightarrow> (\<not> is_optional t \<longrightarrow> follows t) \<and> follows_member t"
proof (induction t)
  case (FT_arith n)
  have "follows (FT_arith n)"
    unfolding follows_def
  proof (intro allI impI)
    fix x c c' assume "is_inv c" "fraccheck (FT_arith n) c = Inr c'"
    then show "same_buffer c c' \<and> ok_or_fault (byte_vectors (FT_arith n))
        (\<lambda>(v, s). fhas_type (FT_arith n) v \<and> (\<not> may_use_heap (FT_arith n) \<longrightarrow> s = plain c'))
        (fracunpack (FT_arith n) x (plain c))"
      using follows_copied [of "FT_arith n" c c'] by (simp add: fraccheck.simps fracunpack.simps)
  qed
  then show ?case using follows_member_plain FT_arith by (auto simp: is_optional_def)
next
  case FT_string
  then show ?case using follows_string follows_member_plain by (auto simp: is_optional_def)
next
  case (FT_vector t)
  then show ?case using follows_vector follows_member_plain [of "FT_vector t"] by (auto simp: is_optional_def)
next
  case (FT_optional t)
  then show ?case using follows_member_optional by (auto simp: is_optional_def)
next
  case (FT_struct si ts)
  then have "follows (FT_struct si ts)" by (intro follows_struct) auto
  then show ?case using follows_member_plain [OF _ _ FT_struct.prems(1)] by (auto simp: is_optional_def)
qed simp

end
