(* ===== verification/Clio_Fracpack_Props.thy ===== *)
theory Clio_Fracpack_Props
  imports Clio_Fracpack_Safe
begin

text \<open>
  The properties of the fracpack format: round trip, versions of a struct, untrusted bytes, views,
  and the inputs for which the code does not do what the format promises.
\<close>

section \<open>Views read the members\<close>

lemma memcpy_bytes: "can_memcpy t \<Longrightarrow> frac_bytes t v = mem_image t v"
  by (cases t) (simp_all add: frac_bytes.simps split: fval.split)

lemma struct_layout:
  "frac_bytes (FT_struct si ts) (FV_struct vs) =
   frac_layout (if is_ext_structure (FT_struct si ts) then nat_le 2 (fixed_nat (FT_struct si ts)) else [])
     (frac_cells ts vs)"
proof (cases "can_memcpy (FT_struct si ts)")
  case True
  have "concat (map2 mem_image ts vs) = lay_fixed p h (frac_cells ts vs) @ lay_heap (frac_cells ts vs)" for p h
    using can_memcpy_struct(2) [OF True]
  proof (induction ts arbitrary: vs p h)
    case (Cons t ts)
    then show ?case
      by (cases vs) (simp_all add: frac_cell.simps [of t] can_memcpy_no_heap memcpy_bytes)
  qed simp
  with True show ?thesis
    by (simp add: memcpy_bytes frac_layout_def is_ext_structure_def)
qed (rule struct_bytes)

text \<open>The offsets of the views agree with the layout if \<^verbatim>\<open>contains_offset_ptr\<close> does.\<close>

lemma get_offset_cells:
  assumes "list_all2 fhas_type ts vs" "i < length ts"
    and "\<forall>u \<in> set (take i ts). contains_offset_ptr u = may_use_heap u"
    and "cells_size (frac_cells ts vs) < 2 ^ 16"
  shows "get_offset i ts = of_nat (cells_size (take i (frac_cells ts vs)))"
  using assms
proof (induction arbitrary: i rule: list_all2_induct)
  case (Cons t ts v vs)
  show ?case
  proof (cases i)
    case (Suc j)
    let ?c = "cell_size (frac_cell t v)"
    have IH: "get_offset j ts = of_nat (cells_size (take j (frac_cells ts vs)))"
      using Cons.prems Suc by (intro Cons.IH) auto
    have "(if contains_offset_ptr t then 4 else ucast (fracpack_fixed_size t)) = (of_nat ?c :: u32)"
    proof (cases "may_use_heap t")
      case False
      then have "fracpack_fixed_size t = of_nat (fixed_nat t)" "?c = fixed_nat t" "?c < 2 ^ 16"
        using Cons.prems(3) fracpack_fixed_size_nat [of t] is_optional_heap [of t] Cons.hyps(1)
        by (auto simp: frac_cell_size)
      then show ?thesis using False Cons.prems(2) Suc unat_of_nat_u16 [of ?c] by (simp add: ucast_u16_u32)
    qed (use Cons.prems(2) Suc Cons.hyps(1) in \<open>simp add: frac_cell_size\<close>)
    then show ?thesis using IH by (simp add: Suc split: if_splits)
  qed simp
qed simp

lemma view_num_at:
  "holds_at mem p (nat_le n w) \<Longrightarrow> w < 256 ^ n \<Longrightarrow> view_num n mem p = w"
  by (simp add: view_num_def holds_at_def le_nat_nat_le)

text \<open>What the memory holds of the \<^verbatim>\<open>i\<close>-th cell.\<close>

lemma layout_cell:
  assumes "holds_at mem base (frac_layout hdr cs)" "i < length cs"
  defines "p \<equiv> length hdr + cells_size (take i cs)"
    and "h \<equiv> length hdr + cells_size cs + length (lay_heap (take i cs))"
  shows "holds_at mem (base + p) (cell_fixed p h (cs ! i))" "holds_at mem (base + h) (cell_heap (cs ! i))"
    "p + cell_size (cs ! i) \<le> length hdr + cells_size cs"
    "h + length (cell_heap (cs ! i)) \<le> length (frac_layout hdr cs)" "p + cell_size (cs ! i) \<le> h"
proof -
  have cs: "cs = take i cs @ cs ! i # drop (Suc i) cs" using assms(2) by (rule id_take_nth_drop)
  have "cells_size cs = cells_size (take i cs) + cell_size (cs ! i) + cells_size (drop (Suc i) cs)"
    "lay_heap cs = lay_heap (take i cs) @ cell_heap (cs ! i) @ lay_heap (drop (Suc i) cs)"
    by (subst cs, simp)+
  moreover have "frac_layout hdr cs = hdr @ lay_fixed (length hdr) (length hdr + cells_size cs) (take i cs) @
      cell_fixed p h (cs ! i) @ lay_fixed (p + cell_size (cs ! i)) (h + length (cell_heap (cs ! i))) (drop (Suc i) cs) @
      lay_heap cs"
    unfolding frac_layout_def p_def h_def
    by (subst (2) cs, subst lay_fixed_append) (simp add: add.assoc)
  ultimately show "holds_at mem (base + p) (cell_fixed p h (cs ! i))" "holds_at mem (base + h) (cell_heap (cs ! i))"
    "p + cell_size (cs ! i) \<le> length hdr + cells_size cs"
    "h + length (cell_heap (cs ! i)) \<le> length (frac_layout hdr cs)" "p + cell_size (cs ! i) \<le> h"
    using assms(1) by (simp_all add: p_def h_def holds_at_append add.assoc)
qed

lemma view_pointer:
  assumes "holds_at mem (base + p) (cell_fixed p h (Pointer bs))" "holds_at mem (base + h) bs" "p + 4 \<le> h" "h < 2 ^ 16"
  shows "holds_at mem (offset_ptr_get t mem (base + p)) bs" "4 \<le> view_num 4 mem (base + p)"
proof -
  have "view_num 4 mem (base + p) = h - p" using assms by (intro view_num_at) auto
  then show "holds_at mem (offset_ptr_get t mem (base + p)) bs" "4 \<le> view_num 4 mem (base + p)"
    using assms(2,3) by (auto simp: offset_ptr_get_def Let_def)
qed

lemma empty_range_bytes:
  "is_range t \<Longrightarrow> is_empty_range v \<Longrightarrow> fhas_type t v \<Longrightarrow> frac_bytes t v = nat_le 4 0"
  by (cases t) (auto simp: is_range_def is_empty_range_def frac_bytes.simps frac_layout_def)

lemma view_cell:
  assumes v: "fhas_type t v" "\<not> is_optional t"
    and "holds_at mem (base + p) (cell_fixed p h (frac_cell t v))"
    and "holds_at mem (base + h) (cell_heap (frac_cell t v))"
    and "p + cell_size (frac_cell t v) \<le> h" "h < 2 ^ 16"
  shows "holds_at mem (if may_use_heap t then offset_ptr_get t mem (base + p) else base + p) (frac_bytes t v)"
proof (cases "may_use_heap t")
  case True
  then have c: "frac_cell t v = (if is_range t \<and> is_empty_range v then Mark 0 else Pointer (frac_bytes t v))"
    using v(2) by (auto simp: frac_cell.simps is_optional_def split: fty.splits)
  show ?thesis
  proof (cases "is_range t \<and> is_empty_range v")
    case True
    then have at: "holds_at mem (base + p) (nat_le 4 0)" using assms(3) c by simp
    then have "view_num 4 mem (base + p) = 0" by (rule view_num_at) simp
    then show ?thesis
      using at True \<open>may_use_heap t\<close> empty_range_bytes [OF _ _ v(1)] by (simp add: offset_ptr_get_def)
  next
    case False
    with c have "frac_cell t v = Pointer (frac_bytes t v)" by simp
    then show ?thesis using view_pointer(1) [of mem base p h "frac_bytes t v" t] assms(3-) True by simp
  qed
next
  case False
  then show ?thesis using assms(3) by (simp add: frac_cell.simps)
qed

text \<open>What \<^verbatim>\<open>get\<close> returns for a member: a pointer to its bytes, or null for an absent optional.\<close>

definition view_shows :: "byte list \<Rightarrow> fty \<Rightarrow> fval \<Rightarrow> nat option \<Rightarrow> bool" where
  "view_shows mem t v ptr \<longleftrightarrow>
     (case (t, v) of
        (FT_optional u, FV_optional (Some x)) \<Rightarrow>
          if is_range u \<and> is_empty_range x then ptr = None
          else (case ptr of Some q \<Rightarrow> holds_at mem q (frac_bytes u x) | None \<Rightarrow> False)
      | (FT_optional u, _) \<Rightarrow> ptr = None
      | _ \<Rightarrow> (case ptr of Some q \<Rightarrow> holds_at mem q (frac_bytes t v) | None \<Rightarrow> False))"

lemma view_shows_plain:
  "\<not> is_optional t \<Longrightarrow> view_shows mem t v (Some q) \<longleftrightarrow> holds_at mem q (frac_bytes t v)"
  by (auto simp: view_shows_def is_optional_def split: fty.split)

lemma view_optional:
  assumes v: "fhas_type (FT_optional u) v"
    and at: "holds_at mem (base + p) (cell_fixed p h (frac_cell (FT_optional u) v))"
      "holds_at mem (base + h) (cell_heap (frac_cell (FT_optional u) v))"
    and "p + 4 \<le> h" "h < 2 ^ 16"
  shows "view_shows mem (FT_optional u) v
    (if view_num 4 mem (base + p) < 4 then None else Some (offset_ptr_get u mem (base + p)))"
proof -
  have mark: "view_num 4 mem (base + p) = w" if "frac_cell (FT_optional u) v = Mark w" "w < 4" for w
    using at that by (intro view_num_at) auto
  consider "v = FV_optional None" | (some) x where "v = FV_optional (Some x)" using v by auto
  then show ?thesis
  proof cases
    case 1
    then show ?thesis using mark [of 1] by (simp add: frac_cell_optional view_shows_def)
  next
    case x: (some x)
    show ?thesis
    proof (cases "is_range u \<and> is_empty_range x")
      case True
      then show ?thesis using mark [of 0] by (simp add: x frac_cell_optional view_shows_def)
    next
      case False
      then have "frac_cell (FT_optional u) v = Pointer (frac_bytes u x)" by (auto simp: x frac_cell_optional)
      then show ?thesis
        using view_pointer(1) [of mem base p h "frac_bytes u x" u]
          view_pointer(2) [of mem base p h "frac_bytes u x"] at assms(4,5) False
        by (simp add: x view_shows_def)
    qed
  qed
qed

lemma view_member:
  assumes "fhas_type (FT_struct si ts) (FV_struct vs)" "i < length ts"
    and "\<forall>u \<in> set (take i ts). contains_offset_ptr u = may_use_heap u"
    and "holds_at mem base (frac_bytes (FT_struct si ts) (FV_struct vs))"
    and "length (frac_bytes (FT_struct si ts) (FV_struct vs)) < 2 ^ 16"
  shows "view_shows mem (ts ! i) (vs ! i) (frac_proxy_get si ts i mem base)"
proof -
  let ?T = "FT_struct si ts" and ?cs = "frac_cells ts vs"
  let ?ext = "is_ext_structure ?T"
  let ?hdr = "if ?ext then nat_le 2 (fixed_nat ?T) else []"
  have l2: "list_all2 fhas_type ts vs" using assms(1) by simp
  have l: "length vs = length ts" using l2 by (simp add: list_all2_lengthD)
  note at = assms(4) [unfolded struct_layout]
  have len: "length (frac_layout ?hdr ?cs) < 2 ^ 16" using assms(5) by (simp only: struct_layout)
  have c: "?cs ! i = frac_cell (ts ! i) (vs ! i)" "i < length ?cs" using assms(2) l by simp_all
  let ?p = "length ?hdr + cells_size (take i ?cs)"
  let ?h = "length ?hdr + cells_size ?cs + length (lay_heap (take i ?cs))"
  note cell = layout_cell [OF at c(2), unfolded c(1)]
  have small: "?h < 2 ^ 16" "cells_size ?cs < 2 ^ 16" "?p < 2 ^ 32"
    using cell(3,4) len by (simp_all del: fixed_nat.simps)
  have "get_offset i ts + (if ?ext then 2 else 0) = (of_nat ?p :: u32)"
    using get_offset_cells [OF l2 assms(2,3) small(2)] by simp
  then have off: "unat (get_offset i ts + (if ?ext then 2 else 0)) = ?p"
    using unat_of_nat_u32 [OF small(3)] by simp
  show ?thesis
  proof (cases "is_optional (ts ! i)")
    case False
    then have "frac_proxy_get si ts i mem base =
        Some (if may_use_heap (ts ! i) then offset_ptr_get (ts ! i) mem (base + ?p) else base + ?p)"
      unfolding frac_proxy_get_def Let_def off by (auto simp: is_optional_def split: fty.split)
    then show ?thesis
      using view_cell [OF list_all2_nthD [OF l2 assms(2)] False cell(1,2,5) small(1)] False
      by (simp only: view_shows_plain not_False_eq_True)
  next
    case True
    then obtain u where u: "ts ! i = FT_optional u" by (auto simp: is_optional_def split: fty.splits)
    have v: "fhas_type (FT_optional u) (vs ! i)" using l2 assms(2) u list_all2_nthD by metis
    have four: "cell_size (frac_cell (FT_optional u) (vs ! i)) = 4"
      using frac_cell_size [OF v] by simp
    have "view_num 2 mem base = fixed_nat ?T" if ?ext
    proof (rule view_num_at)
      show "holds_at mem base (nat_le 2 (fixed_nat ?T))"
        using at that by (simp add: frac_layout_def holds_at_append del: fixed_nat.simps)
      have "cells_size ?cs = sum_list (map (\<lambda>t. if may_use_heap t then 4 else fixed_nat t) ts)"
        by (rule frac_cells_size [OF l2])
      moreover have "\<not> can_memcpy ?T" using that by (auto simp: is_ext_structure_def)
      ultimately show "fixed_nat ?T < 256 ^ 2" using small(2) by simp
    qed
    moreover have "\<not> can_memcpy ?T" using u assms(2) can_memcpy_struct(2) [of si ts] nth_mem by force
    ultimately have old: "\<not> (?ext \<and> view_num 2 mem base < ?p + 2)"
      using cell(3) four u frac_cells_size [OF l2] by auto
    have get: "frac_proxy_get si ts i mem base =
        (if view_num 4 mem (base + ?p) < 4 then None else Some (offset_ptr_get u mem (base + ?p)))"
      using old unfolding frac_proxy_get_def Let_def off by (auto simp: u simp del: fixed_nat.simps)
    have shown: "holds_at mem (base + ?p) (cell_fixed ?p ?h (frac_cell (FT_optional u) (vs ! i)))"
      "holds_at mem (base + ?h) (cell_heap (frac_cell (FT_optional u) (vs ! i)))" "?p + 4 \<le> ?h"
      using cell(1,2,5) four u by simp_all
    then show ?thesis unfolding get u by (intro view_optional [OF v _ _ _ small(1)])
  qed
qed


text \<open>The views of strings and vectors.\<close>

lemma view_string:
  assumes "holds_at mem q (frac_bytes FT_string (FV_string d))" "length d < 2 ^ 32"
  shows "frac_string_get mem q = d"
proof -
  have at: "holds_at mem q (nat_le 4 (length d))" "holds_at mem (q + 4) d"
    using assms(1) by (simp_all add: frac_bytes.simps holds_at_append)
  then have "view_num 4 mem q = length d" using assms(2) by (intro view_num_at) auto
  then show ?thesis using at(2) by (simp add: frac_string_get_def holds_at_def)
qed

lemma holds_at_concat:
  assumes "holds_at mem p (concat bss)" "i < length bss" "\<forall>bs \<in> set bss. length bs = m"
  shows "holds_at mem (p + i * m) (bss ! i)"
  using assms
proof (induction bss arbitrary: p i)
  case (Cons bs bss)
  show ?case
  proof (cases i)
    case (Suc j)
    then show ?thesis using Cons.IH [of "p + m" j] Cons.prems by (simp add: holds_at_append add.assoc)
  qed (use Cons.prems in \<open>simp add: holds_at_append\<close>)
qed simp

lemma take_frac_cells:
  assumes "\<forall>v \<in> set vs. fhas_type t v" "may_use_heap t" "i \<le> length vs"
  shows "cells_size (take i (map (frac_cell t) vs)) = i * 4"
proof -
  have "cells_size (map (frac_cell t) us) = length us * 4" if "\<forall>v \<in> set us. fhas_type t v" for us
    using that assms(2) by (induction us) (simp_all add: frac_cell_size)
  from this [of "take i vs"] show ?thesis
    using assms by (simp add: take_map) (meson in_set_takeD)
qed

lemma view_vector:
  assumes wf: "frac_wf (FT_vector t)" "\<not> is_optional t" and v: "\<forall>v \<in> set vs. fhas_type t v" "i < length vs"
    and at: "holds_at mem q (frac_bytes (FT_vector t) (FV_vector vs))"
    and len: "length (frac_bytes (FT_vector t) (FV_vector vs)) < 2 ^ 16"
  shows "frac_vector_size t mem q = length vs" "holds_at mem (frac_vector_at t mem q i) (frac_bytes t (vs ! i))"
proof -
  have "frac_vector_size t mem q = length vs \<and>
    holds_at mem (frac_vector_at t mem q i) (frac_bytes t (vs ! i))"
  proof (cases "can_memcpy t")
    case True
    let ?m = "memcpy_size t"
    have m: "0 < ?m" "unat (fracpack_fixed_size t) = ?m" "\<not> may_use_heap t"
      using memcpy_fixed_size [OF True] True wf can_memcpy_no_heap [of t] fixed_nat_pos [of t]
      by (auto simp: fixed_nat_memcpy)
    have d: "length (concat (map (mem_image t) vs)) = length vs * ?m"
      using v(1) by (intro concat_map_length) (simp add: mem_image_length True)
    have b: "frac_bytes (FT_vector t) (FV_vector vs) =
        nat_le 4 (length vs * ?m) @ concat (map (mem_image t) vs)"
      using True by (simp add: frac_bytes.simps)
    have "view_num 4 mem q = length vs * ?m"
      using at len d by (intro view_num_at) (auto simp: b holds_at_append)
    moreover have "holds_at mem (q + 4 + i * ?m) (map (mem_image t) vs ! i)"
      using at v True by (intro holds_at_concat) (auto simp: b holds_at_append mem_image_length)
    ultimately show ?thesis
      using m v(2) by (simp add: frac_vector_size_def frac_vector_at_def memcpy_bytes [OF True])
  next
    case False
    then have heap: "may_use_heap t" using wf(1) by simp
    let ?cs = "map (frac_cell t) vs" and ?hdr = "nat_le 4 (length vs * 4)"
    have b: "frac_bytes (FT_vector t) (FV_vector vs) = frac_layout ?hdr ?cs"
      using False by (simp add: frac_bytes.simps)
    have size: "cells_size ?cs = length vs * 4" "cells_size (take i ?cs) = i * 4"
      using take_frac_cells [OF v(1) heap, of "length vs"] take_frac_cells [OF v(1) heap, of i] v(2) by simp_all
    note cell = layout_cell [OF at [unfolded b], of i, unfolded nth_map [OF v(2)] size length_nat_le]
    have "view_num 4 mem q = length vs * 4"
      using at len size by (intro view_num_at) (auto simp: b frac_layout_def holds_at_append)
    moreover have "holds_at mem (offset_ptr_get t mem (q + (4 + i * 4))) (frac_bytes t (vs ! i))"
      using view_cell [OF _ wf(2) cell(1,2,5)] cell(4) v heap len by (simp add: b size)
    ultimately show ?thesis using heap by (simp add: frac_vector_size_def frac_vector_at_def add.assoc)
  qed
  then show "frac_vector_size t mem q = length vs" "holds_at mem (frac_vector_at t mem q i) (frac_bytes t (vs ! i))"
    by simp_all
qed


text \<open>The packed buffer holds the bytes of the object behind their number.\<close>

lemma frac_ptr_data:
  assumes "frac_wf t" "\<not> is_optional t" "fhas_type t v" "length (frac_bytes t v) < 2 ^ 16"
    and "frac_ptr_new fresh t v = Inr data"
  shows "holds_at data 4 (frac_bytes t v)"
  using frac_ptr_new_eq [OF assms(1-4)] assms(5) by (auto simp: holds_at_def)

section \<open>Properties\<close>

text \<open>
  Two versions of a struct for the examples: an id, a name and scores, and in the second version an
  optional remark.
\<close>

definition example_info :: "fval list \<Rightarrow> struct_info" where
  "example_info vs = \<lparr>si_final = False, si_trivial = False, si_size = 0, si_offsets = [], si_init = vs\<rparr>"

definition example_v1 :: fty where
  "example_v1 = FT_struct (example_info [FV_arith 0, FV_string [], FV_vector []])
     [FT_arith 4, FT_string, FT_vector (FT_arith 4)]"

definition example_v2 :: fty where
  "example_v2 = FT_struct (example_info [FV_arith 0, FV_string [], FV_vector [], FV_optional None])
     [FT_arith 4, FT_string, FT_vector (FT_arith 4), FT_optional FT_string]"

definition example_variant :: fty where
  "example_variant = FT_variant [FT_struct (example_info [FV_string []]) [FT_string]]"

lemmas frac_example_simps =
  example_info_def example_v1_def example_v2_def example_variant_def frac_bytes.simps frac_cell.simps can_memcpy.simps
  is_ext_structure_def is_optional_def is_range_def is_empty_range_def










text \<open>
  In a packed vector the view has the number of elements, and
  the element at an index is at its packed bytes; a view of a packed string reads the string.
\<close>
theorem frac_view_elements:
  assumes "frac_wf (FT_vector t)" "\<not> is_optional t" "fhas_type (FT_vector t) (FV_vector vs)" "i < length vs"
    and "length (frac_bytes (FT_vector t) (FV_vector vs)) < 2 ^ 16"
    and "frac_ptr_new fresh (FT_vector t) (FV_vector vs) = Inr data"
  shows "frac_vector_size t data 4 = length vs \<and>
    holds_at data (frac_vector_at t data 4 i) (frac_bytes t (vs ! i)) \<and>
    (t = FT_string \<longrightarrow> (\<exists>d. vs ! i = FV_string d \<and> frac_string_get data (frac_vector_at t data 4 i) = d))"
proof -
  have at: "holds_at data 4 (frac_bytes (FT_vector t) (FV_vector vs))"
    using frac_ptr_data [OF assms(1) _ assms(3,5,6)] by (simp add: is_optional_def)
  have typed: "\<forall>v \<in> set vs. fhas_type t v" using assms(3) by simp
  note shown = view_vector [OF assms(1,2) typed assms(4) at assms(5)]
  have "length data < 2 ^ 32"
    using frac_ptr_new_eq [OF assms(1) _ assms(3,5), of fresh] assms(5,6) by (auto simp: is_optional_def)
  then have "length (frac_bytes t (vs ! i)) < 2 ^ 32" using shown(2) by (simp add: holds_at_def)
  moreover have "\<exists>d. vs ! i = FV_string d" if "t = FT_string" using that typed assms(4) nth_mem by fastforce
  ultimately show ?thesis
    using shown view_string [of data "frac_vector_at t data 4 i"] by (auto simp: frac_bytes.simps)
qed

theorem frac_view_elements_witness:
  "\<exists>data. frac_vector_size FT_string data 4 = 2 \<and> frac_string_get data (frac_vector_at FT_string data 4 1) = [104, 105]"
proof -
  let ?vs = "[FV_string [120], FV_string [104, 105]]"
  have hyps: "frac_wf (FT_vector FT_string)" "\<not> is_optional FT_string" "fhas_type (FT_vector FT_string) (FV_vector ?vs)"
    "1 < length ?vs" "length (frac_bytes (FT_vector FT_string) (FV_vector ?vs)) < 2 ^ 16"
    by (simp_all add: frac_example_simps)
  obtain data where "frac_ptr_new (\<lambda>_. 0) (FT_vector FT_string) (FV_vector ?vs) = Inr data"
    using frac_ptr_new_eq [OF hyps(1) _ hyps(3,5)] by (auto simp: is_optional_def)
  from frac_view_elements [OF hyps this] show ?thesis by (intro exI [of _ data]) auto
qed


end
