(* ===== verification/Clio_Bin.thy ===== *)
theory Clio_Bin
  imports Clio_Varint
begin

text \<open>
  The binary format of clio, to_bin.hpp and from_bin.hpp. The two overload sets are functions by
  recursion over the C++ type: \<^verbatim>\<open>ty\<close> lists the types the overloads dispatch on, \<^verbatim>\<open>val\<close>
  the values, \<^verbatim>\<open>to_bin\<close> gives the \<^verbatim>\<open>stream.write\<close> calls of a value and
  \<^verbatim>\<open>from_bin\<close> reads one from any stream.

  \<^verbatim>\<open>from_bin\<close> takes the members of the stream it calls and the two facts of the platform it
  depends on from a record: the width of \<^verbatim>\<open>size_t\<close> and the \<^verbatim>\<open>operator<\<close> of the
  elements of sets and maps. Allocation failure is not modelled, except for the
  \<^verbatim>\<open>std::length_error\<close> of \<^verbatim>\<open>vector::resize\<close>.
\<close>

section \<open>Types and values\<close>

datatype ty =
    TInt nat            \<comment> \<open>arithmetic and enumeration types, by their sizeof\<close>
  | TBool
  | TVaruint32 | TVarint32
  | TString
  | TInputStream
  | TCArray nat ty      \<comment> \<open>T[N]\<close>
  | TArray nat ty       \<comment> \<open>std::array\<close>
  | TVector ty
  | TSequence ty        \<comment> \<open>std::deque, std::list\<close>
  | TSet ty
  | TMap ty ty
  | TPair ty ty
  | TOptional ty
  | TVariant "ty list"
  | TTuple "ty list"
  | TStruct "ty list"   \<comment> \<open>the reflected data members\<close>

datatype val =
    VInt nat            \<comment> \<open>the object representation as an unsigned number\<close>
  | VBool bool
  | VVaruint32 unsigned_int
  | VVarint32 signed_int
  | VString "byte list"
  | VInputStream "byte list"
  | VSeq "val list"     \<comment> \<open>arrays, vectors, sequences, sets and maps in iteration order\<close>
  | VPair val val
  | VOptional "val option"
  | VVariant nat val
  | VTuple "val list"

definition has_bitwise_serialization :: "ty \<Rightarrow> bool" where
  "has_bitwise_serialization t = (case t of TInt _ \<Rightarrow> True | TBool \<Rightarrow> True | _ \<Rightarrow> False)"

text \<open>\<^verbatim>\<open>sizeof(T)\<close>, of the types with bitwise serialization.\<close>

definition sizeof :: "ty \<Rightarrow> nat" where
  "sizeof t = (case t of TInt n \<Rightarrow> n | _ \<Rightarrow> 1)"

text \<open>The object representation and its inverse. Any nonzero byte reads as true.\<close>

fun raw :: "ty \<Rightarrow> val \<Rightarrow> byte list" where
  "raw (TInt n) (VInt x) = nat_le n x"
| "raw TBool (VBool b) = [of_bool b]"
| "raw t v = []"

fun unraw :: "ty \<Rightarrow> byte list \<Rightarrow> val" where
  "unraw TBool bs = VBool (hd bs \<noteq> 0)"
| "unraw t bs = VInt (le_nat bs)"

fun unraw_n :: "ty \<Rightarrow> nat \<Rightarrow> byte list \<Rightarrow> val list" where
  "unraw_n t 0 bs = []"
| "unraw_n t (Suc n) bs = unraw t (take (sizeof t) bs) # unraw_n t n (drop (sizeof t) bs)"

section \<open>Writing\<close>

text \<open>\<^verbatim>\<open>to_bin_range\<close>, and the loops of the array and vector overloads.\<close>

definition to_bin_elems :: "('a \<Rightarrow> writes) \<Rightarrow> 'a list \<Rightarrow> writes" where
  "to_bin_elems f xs = concat (map f xs)"

definition to_bin_range :: "('a \<Rightarrow> writes) \<Rightarrow> 'a list \<Rightarrow> writes" where
  "to_bin_range f xs = varuint32_to_bin (word_of_nat (length xs)) @ to_bin_elems f xs"

definition to_bin_string_view :: "byte list \<Rightarrow> writes" where
  "to_bin_string_view sv = varuint32_to_bin (word_of_nat (length sv)) @ [sv]"

text \<open>
  Vectors and C arrays: the element count, then one write of the whole storage for bitwise
  elements and one \<^verbatim>\<open>to_bin\<close> per element otherwise.
\<close>

definition to_bin_vector :: "ty \<Rightarrow> (val \<Rightarrow> writes) \<Rightarrow> val list \<Rightarrow> writes" where
  "to_bin_vector t f xs =
     varuint32_to_bin (word_of_nat (length xs)) @
     (if has_bitwise_serialization t then [concat (map (raw t) xs)] else to_bin_elems f xs)"

fun to_bin_tuple :: "(val \<Rightarrow> writes) list \<Rightarrow> val list \<Rightarrow> writes" where
  "to_bin_tuple (f # fs) (x # xs) = f x @ to_bin_tuple fs xs"
| "to_bin_tuple fs xs = []"

definition to_bin_pair :: "(val \<Rightarrow> writes) \<Rightarrow> (val \<Rightarrow> writes) \<Rightarrow> val \<Rightarrow> writes" where
  "to_bin_pair f g v = (case v of VPair a b \<Rightarrow> f a @ g b | _ \<Rightarrow> [])"

definition to_bin_variant :: "(val \<Rightarrow> writes) list \<Rightarrow> nat \<Rightarrow> val \<Rightarrow> writes" where
  "to_bin_variant fs i x =
     varuint32_to_bin (word_of_nat i) @ (if i < length fs then (fs ! i) x else [])"

fun to_bin :: "ty \<Rightarrow> val \<Rightarrow> writes" where
  "to_bin (TInt n) v = [raw (TInt n) v]"
| "to_bin TBool v = [raw TBool v]"
| "to_bin TVaruint32 v = (case v of VVaruint32 x \<Rightarrow> varuint32_obj_to_bin x | _ \<Rightarrow> [])"
| "to_bin TVarint32 v = (case v of VVarint32 x \<Rightarrow> varint32_obj_to_bin x | _ \<Rightarrow> [])"
| "to_bin TString v = (case v of VString sv \<Rightarrow> to_bin_string_view sv | _ \<Rightarrow> [])"
| "to_bin TInputStream v = (case v of VInputStream sv \<Rightarrow> to_bin_string_view sv | _ \<Rightarrow> [])"
| "to_bin (TCArray n t) v = (case v of VSeq xs \<Rightarrow> to_bin_vector t (to_bin t) xs | _ \<Rightarrow> [])"
| "to_bin (TArray n t) v = (case v of VSeq xs \<Rightarrow> to_bin_elems (to_bin t) xs | _ \<Rightarrow> [])"
| "to_bin (TVector t) v = (case v of VSeq xs \<Rightarrow> to_bin_vector t (to_bin t) xs | _ \<Rightarrow> [])"
| "to_bin (TSequence t) v = (case v of VSeq xs \<Rightarrow> to_bin_range (to_bin t) xs | _ \<Rightarrow> [])"
| "to_bin (TSet t) v = (case v of VSeq xs \<Rightarrow> to_bin_range (to_bin t) xs | _ \<Rightarrow> [])"
| "to_bin (TMap k t) v =
     (case v of VSeq xs \<Rightarrow> to_bin_range (to_bin_pair (to_bin k) (to_bin t)) xs | _ \<Rightarrow> [])"
| "to_bin (TPair t u) v = to_bin_pair (to_bin t) (to_bin u) v"
| "to_bin (TOptional t) v =
     (case v of
        VOptional ov \<Rightarrow> raw TBool (VBool (ov \<noteq> None)) # (case ov of None \<Rightarrow> [] | Some x \<Rightarrow> to_bin t x)
      | _ \<Rightarrow> [])"
| "to_bin (TVariant ts) v =
     (case v of VVariant i x \<Rightarrow> to_bin_variant (map to_bin ts) i x | _ \<Rightarrow> [])"
| "to_bin (TTuple ts) v = (case v of VTuple xs \<Rightarrow> to_bin_tuple (map to_bin ts) xs | _ \<Rightarrow> [])"
| "to_bin (TStruct ts) v = (case v of VTuple xs \<Rightarrow> to_bin_tuple (map to_bin ts) xs | _ \<Rightarrow> [])"

definition convert_to_bin :: "ty \<Rightarrow> val \<Rightarrow> byte list \<Rightarrow> byte list result" where
  "convert_to_bin t v bin = two_pass False (to_bin t v) bin"

section \<open>Reading\<close>

record 's reader =
  r_read :: "nat \<Rightarrow> 's \<Rightarrow> (byte list \<times> 's) result"
  r_check_available :: "nat \<Rightarrow> 's \<Rightarrow> unit result"
  r_size_t :: nat                          \<comment> \<open>bits of size_t: 64, or 32 on wasm32\<close>
  r_less :: "val \<Rightarrow> val \<Rightarrow> bool"            \<comment> \<open>operator< of set elements and map keys\<close>

fun read_n :: "nat \<Rightarrow> ('s \<Rightarrow> ('a \<times> 's) result) \<Rightarrow> 's \<Rightarrow> ('a list \<times> 's) result" where
  "read_n 0 f s = Inr ([], s)"
| "read_n (Suc n) f s = rbind (f s) (\<lambda>(x, s). rbind (read_n n f s) (\<lambda>(xs, s). Inr (x # xs, s)))"

text \<open>\<^verbatim>\<open>from_bin_tuple\<close> and the loop over the reflected members.\<close>

fun read_all :: "('s \<Rightarrow> ('a \<times> 's) result) list \<Rightarrow> 's \<Rightarrow> ('a list \<times> 's) result" where
  "read_all [] s = Inr ([], s)"
| "read_all (f # fs) s = rbind (f s) (\<lambda>(x, s). rbind (read_all fs s) (\<lambda>(xs, s). Inr (x # xs, s)))"

text \<open>\<^verbatim>\<open>std::set::emplace\<close> and \<^verbatim>\<open>std::map::emplace\<close>: nothing happens when an
  equivalent key is present.\<close>

fun emplace :: "(val \<Rightarrow> val \<Rightarrow> bool) \<Rightarrow> val \<Rightarrow> val list \<Rightarrow> val list" where
  "emplace lt x [] = [x]"
| "emplace lt x (y # ys) =
     (if lt x y then x # y # ys else if lt y x then y # emplace lt x ys else y # ys)"

fun read_assoc ::
  "nat \<Rightarrow> (val \<Rightarrow> val \<Rightarrow> bool) \<Rightarrow> ('s \<Rightarrow> (val \<times> 's) result) \<Rightarrow> val list \<Rightarrow> 's \<Rightarrow> (val list \<times> 's) result"
where
  "read_assoc 0 lt f v s = Inr (v, s)"
| "read_assoc (Suc n) lt f v s = rbind (f s) (\<lambda>(x, s). read_assoc n lt f (emplace lt x v) s)"

definition key_less :: "(val \<Rightarrow> val \<Rightarrow> bool) \<Rightarrow> val \<Rightarrow> val \<Rightarrow> bool" where
  "key_less lt p q = (case (p, q) of (VPair a _, VPair b _) \<Rightarrow> lt a b | _ \<Rightarrow> False)"

definition from_bin_pair ::
  "('s \<Rightarrow> (val \<times> 's) result) \<Rightarrow> ('s \<Rightarrow> (val \<times> 's) result) \<Rightarrow> 's \<Rightarrow> (val \<times> 's) result" where
  "from_bin_pair f g s = rbind (f s) (\<lambda>(a, s). rbind (g s) (\<lambda>(b, s). Inr (VPair a b, s)))"

fun variant_from_bin ::
  "nat \<Rightarrow> ('s \<Rightarrow> (val \<times> 's) result) list \<Rightarrow> nat \<Rightarrow> 's \<Rightarrow> (val \<times> 's) result" where
  "variant_from_bin I [] i s = Inl (Stream_Error bad_variant_index)"
| "variant_from_bin I (f # fs) i s =
     (if i = I then rbind (f s) (\<lambda>(x, s). Inr (VVariant I x, s))
      else variant_from_bin (Suc I) fs i s)"

text \<open>The element count of bitwise vectors and of byte ranges.\<close>

definition read_size_t :: "'s reader \<Rightarrow> 's \<Rightarrow> (nat \<times> 's) result" where
  "read_size_t E s =
     (if r_size_t E \<ge> 64
      then rbind (varuint64_from_bin (r_read E) s) (\<lambda>(n, s). Inr (unat n, s))
      else rbind (varuint32_from_bin (r_read E) s) (\<lambda>(n, s). Inr (unat n, s)))"

definition read_size32 :: "'s reader \<Rightarrow> 's \<Rightarrow> (nat \<times> 's) result" where
  "read_size32 E s = rbind (varuint32_from_bin (r_read E) s) (\<lambda>(n, s). Inr (unat n, s))"

text \<open>\<^verbatim>\<open>std::vector<T>::max_size()\<close>.\<close>

definition max_size :: "nat \<Rightarrow> nat \<Rightarrow> nat" where
  "max_size bits sz = (2 ^ (bits - 1) - 1) div sz"

definition read_bitwise_vector :: "'s reader \<Rightarrow> ty \<Rightarrow> 's \<Rightarrow> (val list \<times> 's) result" where
  "read_bitwise_vector E t s =
     rbind (read_size_t E s) (\<lambda>(n, s).
     let bytes = n * sizeof t mod 2 ^ r_size_t E in
     rbind (r_check_available E bytes s) (\<lambda>_.
     if n > max_size (r_size_t E) (sizeof t) then Inl Length_Error
     else rbind (r_read E bytes s) (\<lambda>(bs, s). Inr (unraw_n t n bs, s))))"

definition read_bytes :: "'s reader \<Rightarrow> 's \<Rightarrow> (byte list \<times> 's) result" where
  "read_bytes E s =
     rbind (read_size_t E s) (\<lambda>(n, s).
     rbind (r_check_available E n s) (\<lambda>_. r_read E n s))"

fun from_bin :: "'s reader \<Rightarrow> ty \<Rightarrow> 's \<Rightarrow> (val \<times> 's) result" where
  "from_bin E (TInt n) s = rbind (r_read E n s) (\<lambda>(bs, s). Inr (unraw (TInt n) bs, s))"
| "from_bin E TBool s = rbind (r_read E 1 s) (\<lambda>(bs, s). Inr (unraw TBool bs, s))"
| "from_bin E TVaruint32 s =
     rbind (varuint32_obj_from_bin (r_read E) s) (\<lambda>(x, s). Inr (VVaruint32 x, s))"
| "from_bin E TVarint32 s =
     rbind (varint32_obj_from_bin (r_read E) s) (\<lambda>(x, s). Inr (VVarint32 x, s))"
| "from_bin E TString s =
     rbind (read_size32 E s) (\<lambda>(n, s). rbind (r_read E n s) (\<lambda>(bs, s). Inr (VString bs, s)))"
| "from_bin E TInputStream s = rbind (read_bytes E s) (\<lambda>(bs, s). Inr (VInputStream bs, s))"
| "from_bin E (TCArray N t) s =
     rbind (read_size32 E s) (\<lambda>(n, s).
     if n \<noteq> N then Inl (Stream_Error array_size_mismatch)
     else if has_bitwise_serialization t
     then rbind (r_read E (n * sizeof t) s) (\<lambda>(bs, s). Inr (VSeq (unraw_n t n bs), s))
     else rbind (read_n n (from_bin E t) s) (\<lambda>(xs, s). Inr (VSeq xs, s)))"
| "from_bin E (TArray N t) s = rbind (read_n N (from_bin E t) s) (\<lambda>(xs, s). Inr (VSeq xs, s))"
| "from_bin E (TVector t) s =
     (if has_bitwise_serialization t
      then rbind (read_bitwise_vector E t s) (\<lambda>(xs, s). Inr (VSeq xs, s))
      else rbind (read_size32 E s) (\<lambda>(n, s).
        rbind (read_n n (from_bin E t) s) (\<lambda>(xs, s). Inr (VSeq xs, s))))"
| "from_bin E (TSequence t) s =
     rbind (read_size32 E s) (\<lambda>(n, s).
     rbind (read_n n (from_bin E t) s) (\<lambda>(xs, s). Inr (VSeq xs, s)))"
| "from_bin E (TSet t) s =
     rbind (read_size32 E s) (\<lambda>(n, s).
     rbind (read_assoc n (r_less E) (from_bin E t) [] s) (\<lambda>(xs, s). Inr (VSeq xs, s)))"
| "from_bin E (TMap k t) s =
     rbind (read_size32 E s) (\<lambda>(n, s).
     rbind (read_assoc n (key_less (r_less E))
         (from_bin_pair (from_bin E k) (from_bin E t)) [] s) (\<lambda>(xs, s). Inr (VSeq xs, s)))"
| "from_bin E (TPair t u) s = from_bin_pair (from_bin E t) (from_bin E u) s"
| "from_bin E (TOptional t) s =
     rbind (r_read E 1 s) (\<lambda>(bs, s).
     if hd bs = 0 then Inr (VOptional None, s)
     else rbind (from_bin E t s) (\<lambda>(x, s). Inr (VOptional (Some x), s)))"
| "from_bin E (TVariant ts) s =
     rbind (read_size32 E s) (\<lambda>(u, s). variant_from_bin 0 (map (from_bin E) ts) u s)"
| "from_bin E (TTuple ts) s =
     rbind (read_all (map (from_bin E) ts) s) (\<lambda>(xs, s). Inr (VTuple xs, s))"
| "from_bin E (TStruct ts) s =
     rbind (read_all (map (from_bin E) ts) s) (\<lambda>(xs, s). Inr (VTuple xs, s))"

text \<open>The readers on an \<^verbatim>\<open>input_stream\<close> and on the bytes it stands for.\<close>

definition stream_reader :: "nat \<Rightarrow> (val \<Rightarrow> val \<Rightarrow> bool) \<Rightarrow> input_stream reader" where
  "stream_reader bits lt =
     \<lparr>r_read = is_read, r_check_available = is_check_available, r_size_t = bits, r_less = lt\<rparr>"

definition source_check_available :: "nat \<Rightarrow> byte list \<Rightarrow> unit result" where
  "source_check_available n bs =
     (if n > length bs then Inl (Stream_Error overrun) else Inr ())"

definition list_reader :: "nat \<Rightarrow> (val \<Rightarrow> val \<Rightarrow> bool) \<Rightarrow> byte list reader" where
  "list_reader bits lt =
     \<lparr>r_read = source_read, r_check_available = source_check_available, r_size_t = bits,
      r_less = lt\<rparr>"

definition from_bin_vec :: "nat \<Rightarrow> (val \<Rightarrow> val \<Rightarrow> bool) \<Rightarrow> ty \<Rightarrow> byte list \<Rightarrow> val result" where
  "from_bin_vec bits lt t bin =
     rbind (from_bin (stream_reader bits lt) t (input_stream_vec bin)) (\<lambda>(obj, s). Inr obj)"

section \<open>The values of a type\<close>

text \<open>
  \<^verbatim>\<open>has_type B lt t v\<close>: \<^verbatim>\<open>v\<close> is a value of the C++ type \<^verbatim>\<open>t\<close> whose counts and
  lengths stay below \<^verbatim>\<open>B\<close>; sets and maps are strictly increasing.
\<close>

definition pair_type :: "(val \<Rightarrow> bool) \<Rightarrow> (val \<Rightarrow> bool) \<Rightarrow> val \<Rightarrow> bool" where
  "pair_type p q v = (case v of VPair a b \<Rightarrow> p a \<and> q b | _ \<Rightarrow> False)"

lemma pair_type_iff: "pair_type p q v \<longleftrightarrow> (\<exists>a b. v = VPair a b \<and> p a \<and> q b)"
  by (simp add: pair_type_def split: val.splits)

fun has_type :: "nat \<Rightarrow> (val \<Rightarrow> val \<Rightarrow> bool) \<Rightarrow> ty \<Rightarrow> val \<Rightarrow> bool" where
  "has_type B lt (TInt n) v = (case v of VInt x \<Rightarrow> n \<in> {1, 2, 4, 8, 16} \<and> x < 256 ^ n | _ \<Rightarrow> False)"
| "has_type B lt TBool v = (case v of VBool _ \<Rightarrow> True | _ \<Rightarrow> False)"
| "has_type B lt TVaruint32 v = (case v of VVaruint32 _ \<Rightarrow> True | _ \<Rightarrow> False)"
| "has_type B lt TVarint32 v = (case v of VVarint32 _ \<Rightarrow> True | _ \<Rightarrow> False)"
| "has_type B lt TString v = (case v of VString bs \<Rightarrow> length bs < B | _ \<Rightarrow> False)"
| "has_type B lt TInputStream v = (case v of VInputStream bs \<Rightarrow> length bs < B | _ \<Rightarrow> False)"
| "has_type B lt (TCArray n t) v =
     (case v of VSeq xs \<Rightarrow> length xs = n \<and> n < B \<and> list_all (has_type B lt t) xs | _ \<Rightarrow> False)"
| "has_type B lt (TArray n t) v =
     (case v of VSeq xs \<Rightarrow> length xs = n \<and> list_all (has_type B lt t) xs | _ \<Rightarrow> False)"
| "has_type B lt (TVector t) v =
     (case v of VSeq xs \<Rightarrow> length xs < B \<and> list_all (has_type B lt t) xs | _ \<Rightarrow> False)"
| "has_type B lt (TSequence t) v =
     (case v of VSeq xs \<Rightarrow> length xs < B \<and> list_all (has_type B lt t) xs | _ \<Rightarrow> False)"
| "has_type B lt (TSet t) v =
     (case v of VSeq xs \<Rightarrow> length xs < B \<and> list_all (has_type B lt t) xs \<and> sorted_wrt lt xs
      | _ \<Rightarrow> False)"
| "has_type B lt (TMap k t) v =
     (case v of
        VSeq xs \<Rightarrow>
          length xs < B \<and>
          list_all (pair_type (has_type B lt k) (has_type B lt t)) xs \<and>
          sorted_wrt (key_less lt) xs
      | _ \<Rightarrow> False)"
| "has_type B lt (TPair t u) v = pair_type (has_type B lt t) (has_type B lt u) v"
| "has_type B lt (TOptional t) v =
     (case v of VOptional None \<Rightarrow> True | VOptional (Some x) \<Rightarrow> has_type B lt t x | _ \<Rightarrow> False)"
| "has_type B lt (TVariant ts) v =
     (case v of VVariant i x \<Rightarrow> i < B \<and> i < length ts \<and> (map (has_type B lt) ts ! i) x | _ \<Rightarrow> False)"
| "has_type B lt (TTuple ts) v =
     (case v of VTuple xs \<Rightarrow> list_all2 (\<lambda>p x. p x) (map (has_type B lt) ts) xs | _ \<Rightarrow> False)"
| "has_type B lt (TStruct ts) v =
     (case v of VTuple xs \<Rightarrow> list_all2 (\<lambda>p x. p x) (map (has_type B lt) ts) xs | _ \<Rightarrow> False)"

section \<open>Reading back what was written\<close>

text \<open>\<^verbatim>\<open>reads_back f w v\<close>: the reader f inverts the writes w.\<close>

definition reads_back :: "(byte list \<Rightarrow> ('a \<times> byte list) result) \<Rightarrow> writes \<Rightarrow> 'a \<Rightarrow> bool" where
  "reads_back f ws v \<longleftrightarrow> (\<forall>rest. f (concat ws @ rest) = Inr (v, rest))"

lemma read_n_back:
  assumes "\<And>x. x \<in> set xs \<Longrightarrow> reads_back f (w x) x"
  shows "reads_back (read_n (length xs) f) (to_bin_elems w xs) xs"
  using assms
  by (induction xs) (auto simp: reads_back_def to_bin_elems_def)

lemma emplace_last: "(\<And>y. y \<in> set ys \<Longrightarrow> lt y x \<and> \<not> lt x y) \<Longrightarrow> emplace lt x ys = ys @ [x]"
  by (induction ys) auto

lemma read_assoc_back:
  assumes "\<And>x. x \<in> set xs \<Longrightarrow> reads_back f (w x) x"
    and "\<And>a b. lt a b \<Longrightarrow> \<not> lt b a" and "sorted_wrt lt (acc @ xs)"
  shows "read_assoc (length xs) lt f acc (concat (to_bin_elems w xs) @ rest) = Inr (acc @ xs, rest)"
  using assms(1,3)
proof (induction xs arbitrary: acc)
  case Nil
  then show ?case by (simp add: to_bin_elems_def)
next
  case (Cons x xs)
  have "f (concat (w x) @ bs) = Inr (x, bs)" for bs
    using Cons.prems(1) by (simp add: reads_back_def)
  moreover have "emplace lt x acc = acc @ [x]"
    by (rule emplace_last) (use Cons.prems(2) assms(2) in \<open>auto simp: sorted_wrt_append\<close>)
  moreover have "read_assoc (length xs) lt f (acc @ [x]) (concat (to_bin_elems w xs) @ rest)
      = Inr (acc @ x # xs, rest)"
    using Cons.IH [of "acc @ [x]"] Cons.prems by simp
  ultimately show ?case
    by (simp add: to_bin_elems_def)
qed

lemma to_bin_tuple_back:
  assumes "list_all2 (\<lambda>(f, w) x. reads_back f (w x) x) fws xs"
  shows "reads_back (read_all (map fst fws)) (to_bin_tuple (map snd fws) xs) xs"
  using assms
  by (induction rule: list_all2_induct) (auto simp: reads_back_def)

lemma variant_from_bin_nth:
  assumes "i < length fs"
  shows "variant_from_bin I fs (I + i) s = rbind ((fs ! i) s) (\<lambda>(x, s). Inr (VVariant (I + i) x, s))"
  using assms
proof (induction fs arbitrary: I i)
  case Nil
  then show ?case by simp
next
  case (Cons f fs)
  show ?case
  proof (cases i)
    case 0
    then show ?thesis by simp
  next
    case (Suc j)
    then show ?thesis using Cons.IH [of j "Suc I"] Cons.prems by simp
  qed
qed

lemma variant_from_bin_bad:
  "I + length fs \<le> i \<Longrightarrow> variant_from_bin I fs i s = Inl (Stream_Error bad_variant_index)"
  by (induction fs arbitrary: I) auto

lemma list_reader_simps [simp]:
  "r_read (list_reader bits lt) = source_read"
  "r_check_available (list_reader bits lt) = source_check_available"
  "r_size_t (list_reader bits lt) = bits"
  "r_less (list_reader bits lt) = lt"
  by (simp_all add: list_reader_def)

lemma varuint_count:
  assumes "n < 2 ^ 32"
  shows "reads_back (read_size32 (list_reader bits lt)) (varuint32_to_bin (word_of_nat n)) n"
    and "reads_back (read_size_t (list_reader bits lt)) (varuint32_to_bin (word_of_nat n)) n"
proof -
  let ?v = "word_of_nat n :: u64"
  have v: "unat ?v = n"
    using assms by (simp add: unat_of_nat)
  have w: "varuint32_to_bin ?v = varuint_loop ?v"
    using assms by (simp add: varuint32_to_bin_def drop_bit_word_eq_0_iff v)
  have r32: "varuint32_from_bin source_read (concat (varuint_loop ?v) @ rest) = Inr (ucast ?v, rest)" for rest
    unfolding varuint32_from_bin_def
    by (subst varuint_read_loop_write) (use assms in \<open>simp_all add: v\<close>)
  have r64: "varuint64_from_bin source_read (concat (varuint_loop ?v) @ rest) = Inr (?v, rest)" for rest
    unfolding varuint64_from_bin_def
    by (subst varuint_read_loop_write) (use assms in \<open>simp_all add: v\<close>)
  have u: "unat (ucast ?v :: u32) = n"
    using assms by (simp add: unsigned_ucast_eq v take_bit_nat_eq_self)
  show "reads_back (read_size32 (list_reader bits lt)) (varuint32_to_bin ?v) n"
    by (simp add: reads_back_def read_size32_def w r32 u)
  show "reads_back (read_size_t (list_reader bits lt)) (varuint32_to_bin ?v) n"
    by (simp add: reads_back_def read_size_t_def w r32 r64 u v)
qed

lemmas to_bin_defs = to_bin_string_view_def to_bin_vector_def to_bin_range_def to_bin_pair_def
  to_bin_variant_def

lemma unraw_raw:
  "has_bitwise_serialization t \<Longrightarrow> has_type B lt t v \<Longrightarrow>
     unraw t (raw t v) = v \<and> length (raw t v) = sizeof t"
  by (cases t; cases v) (auto simp: has_bitwise_serialization_def sizeof_def le_nat_nat_le)

lemma unraw_n_raw:
  "has_bitwise_serialization t \<Longrightarrow> list_all (has_type B lt t) xs \<Longrightarrow>
     unraw_n t (length xs) (concat (map (raw t) xs)) = xs
     \<and> length (concat (map (raw t) xs)) = length xs * sizeof t"
proof (induction xs)
  case Nil
  then show ?case by simp
next
  case (Cons x xs)
  then have "unraw t (raw t x) = x" "length (raw t x) = sizeof t"
    using unraw_raw by auto
  with Cons show ?case by simp
qed

lemma bitwise_fits:
  assumes "has_bitwise_serialization t" and "list_all (has_type B lt t) xs" and "length xs < 2 ^ 32"
  shows "length xs * sizeof t < 2 ^ 37 \<and> length xs \<le> max_size 64 (sizeof t)"
proof (cases xs)
  case Nil
  then show ?thesis by (simp add: max_size_def)
next
  case (Cons x xs')
  with assms(1,2) have sz: "sizeof t \<in> {1, 2, 4, 8, 16}"
    by (cases t) (auto simp: has_bitwise_serialization_def sizeof_def split: val.splits)
  then have "length xs * sizeof t \<le> length xs * 16"
    by (intro mult_le_mono2) auto
  moreover have "length xs * 16 < 2 ^ 37"
    using assms(3) by simp
  ultimately show ?thesis
    using sz assms(3) by (auto simp: max_size_def)
qed

lemma read_bitwise_vector_back:
  assumes "has_bitwise_serialization t" and "list_all (has_type B lt t) xs" and "length xs < 2 ^ 32"
  shows "read_bitwise_vector (list_reader 64 lt) t (concat (to_bin_vector t f xs) @ rest) = Inr (xs, rest)"
proof -
  let ?bs = "concat (map (raw t) xs)"
  have len: "length ?bs = length xs * sizeof t" and un: "unraw_n t (length xs) ?bs = xs"
    using unraw_n_raw [OF assms(1,2)] by simp_all
  have fits: "length xs * sizeof t mod 18446744073709551616 = length ?bs"
      "\<not> max_size 64 (sizeof t) < length xs"
    using bitwise_fits [OF assms] len by simp_all
  have n: "read_size_t (list_reader 64 lt) (concat (to_bin_vector t f xs) @ rest) = Inr (length xs, ?bs @ rest)"
    using varuint_count(2) [OF assms(3), of 64 lt] assms(1)
    by (simp add: reads_back_def to_bin_vector_def)
  show ?thesis
    unfolding read_bitwise_vector_def n
    by (simp add: fits source_check_available_def un Let_def del: length_concat)
qed

lemma key_less_asym: "(\<And>a b. lt a b \<Longrightarrow> \<not> lt b a) \<Longrightarrow> key_less lt p q \<Longrightarrow> \<not> key_less lt q p"
  by (auto simp: key_less_def split: val.splits prod.splits)

lemma has_type_tuple_back:
  assumes "\<And>t. t \<in> set ts \<Longrightarrow> (\<And>v. has_type B lt t v \<Longrightarrow> reads_back (g t) (w t v) v)"
    and "list_all2 (\<lambda>p x. p x) (map (has_type B lt) ts) xs"
  shows "reads_back (read_all (map g ts)) (to_bin_tuple (map w ts) xs) xs"
proof -
  have "list_all2 (\<lambda>(f, w) x. reads_back f (w x) x) (map (\<lambda>t. (g t, w t)) ts) xs"
    using assms by (auto simp: list_all2_conv_all_nth)
  from to_bin_tuple_back [OF this] show ?thesis
    by (simp add: o_def)
qed

lemma pair_back:
  "reads_back f (w a) a \<Longrightarrow> reads_back g (u b) b \<Longrightarrow>
     reads_back (from_bin_pair f g) (to_bin_pair w u (VPair a b)) (VPair a b)"
  by (simp add: reads_back_def from_bin_pair_def to_bin_pair_def)

lemma elems_back:
  assumes "\<And>v. p v \<Longrightarrow> reads_back f (w v) v" and "list_all p xs"
  shows "reads_back (read_n (length xs) f) (to_bin_elems w xs) xs"
  by (rule read_n_back) (use assms in \<open>auto simp: list_all_iff\<close>)

lemma from_bin_back:
  assumes asym: "\<And>a b. lt a b \<Longrightarrow> \<not> lt b a"
  shows "has_type (2 ^ 32) lt t v \<Longrightarrow> reads_back (from_bin (list_reader 64 lt) t) (to_bin t v) v"
proof (induction t arbitrary: v)
  case (TInt n)
  then show ?case
    by (auto simp: reads_back_def source_read_append' le_nat_nat_le split: val.splits)
next
  case TBool
  then show ?case
    by (auto simp: reads_back_def split: val.splits)
next
  case TVaruint32
  then show ?case
    by (auto simp: reads_back_def varuint32_obj_from_bin_def varuint32_obj_to_bin_def
        varuint32_read_write split: val.splits)
next
  case TVarint32
  then show ?case
    by (auto simp: reads_back_def varint32_read_write split: val.splits)
next
  case TString
  then show ?case
    using varuint_count(1) [where bits = 64 and lt = lt]
    by (auto simp: reads_back_def to_bin_defs split: val.splits)
next
  case TInputStream
  then show ?case
    using varuint_count(2) [where bits = 64 and lt = lt]
    by (auto simp: reads_back_def to_bin_defs read_bytes_def source_check_available_def split: val.splits)
next
  case (TCArray n t)
  then obtain xs where xs: "v = VSeq xs" "length xs = n" "n < 2 ^ 32" "list_all (has_type (2 ^ 32) lt t) xs"
    by (auto split: val.splits)
  have n: "read_size32 (list_reader 64 lt) (concat (varuint32_to_bin (word_of_nat n)) @ bs) = Inr (n, bs)" for bs
    using varuint_count(1) [OF xs(3), of 64 lt] by (simp add: reads_back_def)
  show ?case
  proof (cases "has_bitwise_serialization t")
    case True
    then show ?thesis
      using unraw_n_raw [OF True xs(4)] xs(1,2)
      by (auto simp: reads_back_def to_bin_vector_def n source_read_append' simp del: length_concat)
  next
    case False
    note elems_back [OF TCArray.IH xs(4)]
    with False xs(1,2) n show ?thesis
      by (auto simp: reads_back_def to_bin_vector_def)
  qed
next
  case (TArray n t)
  then obtain xs where xs: "v = VSeq xs" "length xs = n" "list_all (has_type (2 ^ 32) lt t) xs"
    by (auto split: val.splits)
  note elems_back [OF TArray.IH xs(3)]
  with xs show ?case by (auto simp: reads_back_def)
next
  case (TVector t)
  then obtain xs where xs: "v = VSeq xs" "length xs < 2 ^ 32" "list_all (has_type (2 ^ 32) lt t) xs"
    by (auto split: val.splits)
  show ?case
  proof (cases "has_bitwise_serialization t")
    case True
    then show ?thesis
      using read_bitwise_vector_back [OF True xs(3,2)] xs(1) by (simp add: reads_back_def)
  next
    case False
    note elems_back [OF TVector.IH xs(3)]
    with False xs varuint_count(1) [OF xs(2), of 64 lt] show ?thesis
      by (auto simp: reads_back_def to_bin_vector_def)
  qed
next
  case (TSequence t)
  then obtain xs where xs: "v = VSeq xs" "length xs < 2 ^ 32" "list_all (has_type (2 ^ 32) lt t) xs"
    by (auto split: val.splits)
  note elems_back [OF TSequence.IH xs(3)]
  with xs varuint_count(1) [OF xs(2), of 64 lt] show ?case
    by (auto simp: reads_back_def to_bin_range_def)
next
  case (TSet t)
  then obtain xs where xs: "v = VSeq xs" "length xs < 2 ^ 32" "list_all (has_type (2 ^ 32) lt t) xs"
    "sorted_wrt lt ([] @ xs)"
    by (auto split: val.splits)
  have "read_assoc (length xs) lt (from_bin (list_reader 64 lt) t) []
      (concat (to_bin_elems (to_bin t) xs) @ rest) = Inr ([] @ xs, rest)" for rest
    by (rule read_assoc_back [OF _ asym xs(4)]) (use TSet.IH xs in \<open>auto simp: list_all_iff\<close>)
  with xs varuint_count(1) [OF xs(2), of 64 lt] show ?case
    by (auto simp: reads_back_def to_bin_range_def)
next
  case (TMap k t)
  let ?f = "from_bin_pair (from_bin (list_reader 64 lt) k) (from_bin (list_reader 64 lt) t)"
  let ?w = "to_bin_pair (to_bin k) (to_bin t)"
  from TMap.prems obtain xs where xs: "v = VSeq xs" "length xs < 2 ^ 32" "sorted_wrt (key_less lt) ([] @ xs)"
    and ty: "list_all (pair_type (has_type (2 ^ 32) lt k) (has_type (2 ^ 32) lt t)) xs"
    by (auto split: val.splits)
  have f: "reads_back ?f (?w p) p" if "p \<in> set xs" for p
    using that ty by (auto simp: list_all_iff pair_type_iff intro!: pair_back TMap.IH dest!: bspec)
  have "read_assoc (length xs) (key_less lt) ?f [] (concat (to_bin_elems ?w xs) @ rest) = Inr ([] @ xs, rest)" for rest
    by (rule read_assoc_back [OF f _ xs(3)]) (use key_less_asym [OF asym] in auto)
  with xs varuint_count(1) [OF xs(2), of 64 lt] show ?case
    by (auto simp: reads_back_def to_bin_range_def)
next
  case (TPair t u)
  then show ?case
    by (auto simp: pair_type_iff reads_back_def from_bin_pair_def to_bin_pair_def)
next
  case (TOptional t)
  then show ?case
    by (auto simp: reads_back_def split: val.splits option.splits)
next
  case (TVariant ts)
  then obtain i x where v: "v = VVariant i x" "i < 2 ^ 32" "i < length ts" "has_type (2 ^ 32) lt (ts ! i) x"
    by (auto split: val.splits)
  with TVariant.IH [of "ts ! i" x] varuint_count(1) [OF v(2), of 64 lt]
    variant_from_bin_nth [of i "map (from_bin (list_reader 64 lt)) ts" 0]
  show ?case
    by (auto simp: reads_back_def to_bin_variant_def)
next
  case (TTuple ts)
  then obtain xs where xs: "v = VTuple xs" "list_all2 (\<lambda>p x. p x) (map (has_type (2 ^ 32) lt) ts) xs"
    by (auto split: val.splits)
  with has_type_tuple_back [OF TTuple.IH xs(2)] show ?case
    by (auto simp: reads_back_def)
next
  case (TStruct ts)
  then obtain xs where xs: "v = VTuple xs" "list_all2 (\<lambda>p x. p x) (map (has_type (2 ^ 32) lt) ts) xs"
    by (auto split: val.splits)
  with has_type_tuple_back [OF TStruct.IH xs(2)] show ?case
    by (auto simp: reads_back_def)
qed

section \<open>Every stream reads what its bytes say\<close>

definition reader_over ::
  "(nat \<Rightarrow> 's \<Rightarrow> (byte list \<times> 's) result) \<Rightarrow> (nat \<Rightarrow> 's \<Rightarrow> unit result) \<Rightarrow> 's reader \<Rightarrow> byte list reader \<Rightarrow> bool"
where
  "reader_over rd ck E L \<longleftrightarrow>
     r_read E = rd \<and> r_check_available E = ck \<and> L = list_reader (r_size_t E) (r_less E)"

lemma reader_overD:
  assumes "reader_over rd ck E L"
  shows "r_read E = rd" "r_check_available E = ck" "r_read L = source_read"
    "r_check_available L = source_check_available" "r_size_t L = r_size_t E" "r_less L = r_less E"
  using assms by (auto simp: reader_over_def)

locale checked_source = byte_source rd view iv
  for rd :: "nat \<Rightarrow> 's \<Rightarrow> (byte list \<times> 's) result" and view iv +
  fixes ck :: "nat \<Rightarrow> 's \<Rightarrow> unit result"
  assumes ck_sim: "iv s \<Longrightarrow> ck n s = source_check_available n (view s)"
begin

lemma read_n_sim:
  assumes "\<And>s. iv s \<Longrightarrow> sim_res view iv (f s) (f' (view s))"
  shows "iv s \<Longrightarrow> sim_res view iv (read_n n f s) (read_n n f' (view s))"
proof (induction n arbitrary: s)
  case 0
  then show ?case by simp
next
  case (Suc n)
  then show ?case
    by (auto intro!: sim_res_bind assms)
qed

lemma read_all_sim:
  assumes "list_all2 (\<lambda>f f'. \<forall>s. iv s \<longrightarrow> sim_res view iv (f s) (f' (view s))) fs fs'"
  shows "iv s \<Longrightarrow> sim_res view iv (read_all fs s) (read_all fs' (view s))"
  using assms
proof (induction fs fs' arbitrary: s rule: list_all2_induct)
  case Nil
  then show ?case by simp
next
  case (Cons f fs f' fs')
  then show ?case
    by (auto intro!: sim_res_bind)
qed

lemma read_assoc_sim:
  assumes "\<And>s. iv s \<Longrightarrow> sim_res view iv (f s) (f' (view s))"
  shows "iv s \<Longrightarrow> sim_res view iv (read_assoc n lt f v s) (read_assoc n lt f' v (view s))"
proof (induction n arbitrary: v s)
  case 0
  then show ?case by simp
next
  case (Suc n)
  then show ?case
    by (auto intro!: sim_res_bind assms)
qed

lemma variant_from_bin_sim:
  assumes "list_all2 (\<lambda>f f'. \<forall>s. iv s \<longrightarrow> sim_res view iv (f s) (f' (view s))) fs fs'"
  shows "iv s \<Longrightarrow> sim_res view iv (variant_from_bin I fs i s) (variant_from_bin I fs' i (view s))"
  using assms
proof (induction fs fs' arbitrary: I rule: list_all2_induct)
  case Nil
  then show ?case by simp
next
  case (Cons f fs f' fs')
  then show ?case
    by (auto intro!: sim_res_bind)
qed

lemma read_size_sim:
  assumes "reader_over rd ck E L" and "iv s"
  shows "sim_res view iv (read_size32 E s) (read_size32 L (view s))"
    and "sim_res view iv (read_size_t E s) (read_size_t L (view s))"
  using assms(2)
  by (auto simp: reader_overD [OF assms(1)] read_size32_def read_size_t_def intro!: sim_res_bind
      varuint32_from_bin_sim varuint64_from_bin_sim)

lemma ck_bind_sim:
  assumes "iv s" and "sim_res view iv r r'"
  shows "sim_res view iv (rbind (ck n s) (\<lambda>_. r)) (rbind (source_check_available n (view s)) (\<lambda>_. r'))"
  using assms ck_sim [of s n] by (simp add: source_check_available_def)

lemma read_bitwise_vector_sim:
  assumes "reader_over rd ck E L" and "iv s"
  shows "sim_res view iv (read_bitwise_vector E t s) (read_bitwise_vector L t (view s))"
  using assms(2)
  by (auto simp: reader_overD [OF assms(1)] read_bitwise_vector_def Let_def
      intro!: sim_res_bind read_size_sim [OF assms] ck_bind_sim rd_sim)

lemma read_bytes_sim:
  assumes "reader_over rd ck E L" and "iv s"
  shows "sim_res view iv (read_bytes E s) (read_bytes L (view s))"
  using assms(2)
  by (auto simp: reader_overD [OF assms(1)] read_bytes_def
      intro!: sim_res_bind read_size_sim [OF assms] ck_bind_sim rd_sim)

lemma from_bin_pair_sim:
  assumes "\<And>s. iv s \<Longrightarrow> sim_res view iv (f s) (f' (view s))"
    and "\<And>s. iv s \<Longrightarrow> sim_res view iv (g s) (g' (view s))"
  shows "iv s \<Longrightarrow> sim_res view iv (from_bin_pair f g s) (from_bin_pair f' g' (view s))"
  by (auto simp: from_bin_pair_def intro!: sim_res_bind assms)

lemma from_bin_sim:
  assumes E: "reader_over rd ck E L"
  shows "iv s \<Longrightarrow> sim_res view iv (from_bin E t s) (from_bin L t (view s))"
proof (induction t arbitrary: s)
  case TVaruint32
  then show ?case
    by (auto simp: reader_overD [OF E] varuint32_obj_from_bin_def intro!: sim_res_bind varuint32_from_bin_sim)
next
  case TVarint32
  then show ?case
    by (auto simp: reader_overD [OF E] varint32_obj_from_bin_def intro!: sim_res_bind varint32_from_bin_sim)
next
  case (TCArray n t)
  then show ?case
    by (auto simp: reader_overD [OF E] intro!: sim_res_bind read_size_sim [OF E] read_n_sim rd_sim)
next
  case (TVector t)
  then show ?case
    by (auto simp: reader_overD [OF E] intro!: sim_res_bind read_size_sim [OF E] read_n_sim
        read_bitwise_vector_sim [OF E])
next
  case (TVariant ts)
  then show ?case
    by (auto intro!: sim_res_bind read_size_sim [OF E] variant_from_bin_sim simp: list_all2_conv_all_nth)
next
  case (TTuple ts)
  then show ?case
    by (auto intro!: sim_res_bind read_all_sim simp: list_all2_conv_all_nth)
next
  case (TStruct ts)
  then show ?case
    by (auto intro!: sim_res_bind read_all_sim simp: list_all2_conv_all_nth)
qed (auto simp: reader_overD [OF E] intro!: sim_res_bind rd_sim read_size_sim [OF E] read_n_sim
       read_assoc_sim from_bin_pair_sim read_bytes_sim [OF E])

end

lemma is_check_available_sim:
  "is_inv s \<Longrightarrow> is_check_available n s = source_check_available n (is_view s)"
  by (simp add: is_check_available_def source_check_available_def is_remaining_inv length_is_view)

interpretation istc: checked_source is_read is_view is_inv is_check_available
  by unfold_locales (rule is_check_available_sim)

interpretation chkc: checked_source check_read is_view is_inv is_check_available
  by unfold_locales (rule is_check_available_sim)

interpretation srcc: checked_source source_read "\<lambda>bs. bs" "\<lambda>_. True" source_check_available
  by unfold_locales simp

lemma stream_reader_over: "reader_over is_read is_check_available (stream_reader bits lt) (list_reader bits lt)"
  by (simp add: reader_over_def stream_reader_def)

section \<open>What is read has the type\<close>

fun wf_ty :: "ty \<Rightarrow> bool" where
  "wf_ty (TInt n) \<longleftrightarrow> n \<in> {1, 2, 4, 8, 16}"
| "wf_ty (TCArray n t) \<longleftrightarrow> wf_ty t"
| "wf_ty (TArray n t) \<longleftrightarrow> wf_ty t"
| "wf_ty (TVector t) \<longleftrightarrow> wf_ty t"
| "wf_ty (TSequence t) \<longleftrightarrow> wf_ty t"
| "wf_ty (TSet t) \<longleftrightarrow> wf_ty t"
| "wf_ty (TMap k t) \<longleftrightarrow> wf_ty k \<and> wf_ty t"
| "wf_ty (TPair t u) \<longleftrightarrow> wf_ty t \<and> wf_ty u"
| "wf_ty (TOptional t) \<longleftrightarrow> wf_ty t"
| "wf_ty (TVariant ts) \<longleftrightarrow> list_all wf_ty ts"
| "wf_ty (TTuple ts) \<longleftrightarrow> list_all wf_ty ts"
| "wf_ty (TStruct ts) \<longleftrightarrow> list_all wf_ty ts"
| "wf_ty _ \<longleftrightarrow> True"

text \<open>\<^verbatim>\<open>yields f P\<close>: whatever bytes it is given, f consumes a prefix and returns a P.\<close>

definition yields :: "(byte list \<Rightarrow> ('a \<times> byte list) result) \<Rightarrow> ('a \<Rightarrow> bool) \<Rightarrow> bool" where
  "yields f P \<longleftrightarrow> (\<forall>bs x rest. f bs = Inr (x, rest) \<longrightarrow> P x \<and> (\<exists>xs. bs = xs @ rest))"

lemma yields_return: "P x \<Longrightarrow> yields (\<lambda>s. Inr (x, s)) P"
  by (simp add: yields_def)

lemma yields_error: "yields (\<lambda>s. Inl e) P"
  by (simp add: yields_def)

lemma yields_bind:
  assumes "yields f P" and "\<And>x. P x \<Longrightarrow> yields (\<lambda>s. g (x, s)) Q"
  shows "yields (\<lambda>s. rbind (f s) g) Q"
  unfolding yields_def
proof (intro allI impI)
  fix bs y rest
  assume "rbind (f bs) g = Inr (y, rest)"
  then obtain x s where f: "f bs = Inr (x, s)" and g: "g (x, s) = Inr (y, rest)"
    by (auto simp: rbind_eq_Inr)
  from assms(1) f obtain xs where "P x" "bs = xs @ s"
    unfolding yields_def by blast
  moreover from assms(2) [OF \<open>P x\<close>] g obtain ys where "Q y" "s = ys @ rest"
    unfolding yields_def by blast
  ultimately show "Q y \<and> (\<exists>xs. bs = xs @ rest)"
    by simp
qed

lemma yields_if:
  "(c \<Longrightarrow> yields f P) \<Longrightarrow> (\<not> c \<Longrightarrow> yields g P) \<Longrightarrow> yields (\<lambda>s. if c then f s else g s) P"
  by (cases c) simp_all

lemma yields_source_read: "yields (source_read n) (\<lambda>xs. length xs = n)"
  by (auto simp: yields_def dest!: source_read_shrinks)

lemma yields_check: "yields f P \<Longrightarrow> yields (\<lambda>s. rbind (source_check_available n s) (\<lambda>_. f s)) P"
  by (auto simp: yields_def source_check_available_def)

lemma yields_mono: "yields f P \<Longrightarrow> (\<And>x. P x \<Longrightarrow> Q x) \<Longrightarrow> yields f Q"
  by (auto simp: yields_def)

lemma yields_read_n: "yields f P \<Longrightarrow> yields (read_n n f) (\<lambda>xs. length xs = n \<and> list_all P xs)"
proof (induction n)
  case 0
  then show ?case by (simp add: yields_def)
next
  case (Suc n)
  have "yields (\<lambda>s. rbind (f s) (\<lambda>(x, s). rbind (read_n n f s) (\<lambda>(xs, s). Inr (x # xs, s))))
      (\<lambda>xs. length xs = Suc n \<and> list_all P xs)"
    by (auto intro!: yields_bind [OF Suc.prems] yields_bind [OF Suc.IH [OF Suc.prems]] yields_return)
  then show ?case
    by (simp add: yields_def)
qed


lemma yields_cong: "(\<And>s. f s = g s) \<Longrightarrow> yields g P \<Longrightarrow> yields f P"
  by (simp add: yields_def)

lemma yields_read_all:
  assumes "list_all2 yields fs Ps"
  shows "yields (read_all fs) (list_all2 (\<lambda>p x. p x) Ps)"
  using assms
proof (induction fs Ps rule: list_all2_induct)
  case Nil
  then show ?case by (simp add: yields_def)
next
  case (Cons f fs P Ps)
  show ?case
    by (rule yields_cong [OF read_all.simps(2)])
       (auto intro!: yields_bind [OF Cons.hyps(1)] yields_bind [OF Cons.IH] yields_return)
qed

lemma emplace_set: "x \<in> set (emplace lt k ys) \<Longrightarrow> x = k \<or> x \<in> set ys"
  by (induction ys) (auto split: if_splits)

lemma length_emplace: "length (emplace lt k ys) \<le> Suc (length ys)"
  by (induction ys) auto

lemma sorted_emplace:
  assumes "\<And>a b c. lt a b \<Longrightarrow> lt b c \<Longrightarrow> lt a c"
  shows "sorted_wrt lt ys \<Longrightarrow> sorted_wrt lt (emplace lt k ys)"
proof (induction ys)
  case Nil
  then show ?case by simp
next
  case (Cons y ys)
  then show ?case
    by (auto dest: emplace_set intro: assms)
qed

lemma yields_read_assoc:
  assumes "yields f P" and trans: "\<And>a b c. lt a b \<Longrightarrow> lt b c \<Longrightarrow> lt a c"
  shows "list_all P acc \<Longrightarrow> sorted_wrt lt acc \<Longrightarrow>
    yields (read_assoc n lt f acc)
      (\<lambda>xs. length xs \<le> length acc + n \<and> list_all P xs \<and> sorted_wrt lt xs)"
proof (induction n arbitrary: acc)
  case 0
  then show ?case by (simp add: yields_def)
next
  case (Suc n)
  show ?case
  proof (rule yields_cong [OF read_assoc.simps(2)], rule yields_bind [OF assms(1)], simp only: prod.case)
    fix x assume "P x"
    then have "list_all P (emplace lt x acc)"
      using Suc.prems(1) by (auto simp: list_all_iff dest: emplace_set)
    moreover have "sorted_wrt lt (emplace lt x acc)"
      using sorted_emplace [of lt] trans Suc.prems(2) by blast
    ultimately have "yields (read_assoc n lt f (emplace lt x acc))
        (\<lambda>xs. length xs \<le> length (emplace lt x acc) + n \<and> list_all P xs \<and> sorted_wrt lt xs)"
      by (rule Suc.IH)
    then show "yields (read_assoc n lt f (emplace lt x acc))
        (\<lambda>xs. length xs \<le> length acc + Suc n \<and> list_all P xs \<and> sorted_wrt lt xs)"
      by (rule yields_mono) (use length_emplace [of lt x acc] in simp)
  qed
qed

lemma key_less_trans:
  "(\<And>a b c. lt a b \<Longrightarrow> lt b c \<Longrightarrow> lt a c) \<Longrightarrow> key_less lt p q \<Longrightarrow> key_less lt q r \<Longrightarrow> key_less lt p r"
  by (auto simp: key_less_def split: val.splits prod.splits)

lemma yields_varuint:
  "yields (varuint32_from_bin source_read) (\<lambda>_. True)"
  "yields (varuint64_from_bin source_read) (\<lambda>_. True)"
  by (auto simp: yields_def varuint32_from_bin_spec varuint64_from_bin_spec varuint_spec_def Let_def
      split: if_splits intro: append_take_drop_id [symmetric])

lemma yields_read_size:
  "yields (read_size32 (list_reader bits lt)) (\<lambda>n. n < 2 ^ 32)"
  "yields (read_size_t (list_reader bits lt)) (\<lambda>n. n < 2 ^ 64)"
proof -
  have u32: "unat (x :: u32) < 4294967296" for x
    using unsigned_less [of x, where 'a = nat] by simp
  then have u32': "unat (x :: u32) < 18446744073709551616" for x
    by (rule less_le_trans) simp
  have u64: "unat (x :: u64) < 18446744073709551616" for x
    using unsigned_less [of x, where 'a = nat] by simp
  show "yields (read_size32 (list_reader bits lt)) (\<lambda>n. n < 2 ^ 32)"
    by (rule yields_cong [OF read_size32_def])
       (auto intro!: yields_bind [OF yields_varuint(1)] yields_return u32)
  show "yields (read_size_t (list_reader bits lt)) (\<lambda>n. n < 2 ^ 64)"
    by (rule yields_cong [OF read_size_t_def], rule yields_if)
       (auto intro!: yields_bind [OF yields_varuint(1)] yields_bind [OF yields_varuint(2)] yields_return
         u32' u64)
qed

lemma has_type_unraw:
  "has_bitwise_serialization t \<Longrightarrow> wf_ty t \<Longrightarrow> length bs = sizeof t \<Longrightarrow> has_type B lt t (unraw t bs)"
  using le_nat_bound [of bs]
  by (cases t) (auto simp: has_bitwise_serialization_def sizeof_def)

lemma has_type_unraw_n:
  "has_bitwise_serialization t \<Longrightarrow> wf_ty t \<Longrightarrow> length bs = n * sizeof t \<Longrightarrow>
     list_all (has_type B lt t) (unraw_n t n bs) \<and> length (unraw_n t n bs) = n"
  by (induction n arbitrary: bs) (auto simp: has_type_unraw)

lemma max_size_no_wrap:
  assumes "n \<le> max_size bits sz" and "0 < bits"
  shows "n * sz mod 2 ^ bits = n * sz"
proof -
  have "n * sz \<le> (2 ^ (bits - 1) - 1) div sz * sz"
    using assms(1) by (simp add: max_size_def)
  also have "\<dots> \<le> 2 ^ (bits - 1) - 1"
    by (rule div_times_less_eq_dividend)
  also have "\<dots> < 2 ^ (bits - 1)"
    by simp
  also have "\<dots> \<le> 2 ^ bits"
    by (simp add: power_increasing)
  finally show ?thesis by simp
qed

lemma yields_read_bitwise_vector:
  assumes "has_bitwise_serialization t" and "wf_ty t" and "0 < bits"
  shows "yields (read_bitwise_vector (list_reader bits lt) t)
    (\<lambda>xs. length xs < 2 ^ 64 \<and> list_all (has_type B lt t) xs)"
proof (rule yields_cong [OF read_bitwise_vector_def], rule yields_bind [OF yields_read_size(2)],
    simp only: prod.case Let_def list_reader_simps, rule yields_check)
  fix n :: nat assume n: "n < 2 ^ 64"
  show "yields (\<lambda>s. if max_size bits (sizeof t) < n then Inl Length_Error
      else rbind (source_read (n * sizeof t mod 2 ^ bits) s) (\<lambda>(bs, s). Inr (unraw_n t n bs, s)))
    (\<lambda>xs. length xs < 2 ^ 64 \<and> list_all (has_type B lt t) xs)"
  proof (rule yields_if [OF yields_error], rule yields_bind [OF yields_source_read], simp only: prod.case,
      rule yields_return)
    fix bs :: "byte list"
    assume "\<not> max_size bits (sizeof t) < n" and "length bs = n * sizeof t mod 2 ^ bits"
    then have "length bs = n * sizeof t"
      using max_size_no_wrap [of n bits] assms(3) by simp
    then show "length (unraw_n t n bs) < 2 ^ 64 \<and> list_all (has_type B lt t) (unraw_n t n bs)"
      using has_type_unraw_n [OF assms(1,2)] n by simp
  qed
qed

lemma yields_variant:
  assumes "list_all2 yields fs Ps"
  shows "yields (variant_from_bin I fs i)
    (\<lambda>v. \<exists>j x. v = VVariant i x \<and> i = I + j \<and> j < length Ps \<and> (Ps ! j) x)"
  using assms
proof (induction fs Ps arbitrary: I rule: list_all2_induct)
  case Nil
  then show ?case by (simp add: yields_def)
next
  case (Cons f fs P Ps)
  show ?case
  proof (rule yields_cong [OF variant_from_bin.simps(2)], rule yields_if)
    assume "i = I"
    then show "yields (\<lambda>s. rbind (f s) (\<lambda>(x, s). Inr (VVariant I x, s)))
        (\<lambda>v. \<exists>j x. v = VVariant i x \<and> i = I + j \<and> j < length (P # Ps) \<and> ((P # Ps) ! j) x)"
      by (auto intro!: yields_bind [OF Cons.hyps(1)] yields_return)
  next
    have "yields (variant_from_bin (Suc I) fs i)
        (\<lambda>v. \<exists>j x. v = VVariant i x \<and> i = Suc I + j \<and> j < length Ps \<and> (Ps ! j) x)"
      by (rule Cons.IH)
    then show "yields (variant_from_bin (Suc I) fs i)
        (\<lambda>v. \<exists>j x. v = VVariant i x \<and> i = I + j \<and> j < length (P # Ps) \<and> ((P # Ps) ! j) x)"
      by (rule yields_mono) (metis add_Suc_right add_Suc length_Cons nth_Cons_Suc Suc_less_eq)
  qed
qed


lemma yields_from_bin_pair:
  assumes "yields f P" and "yields g Q"
  shows "yields (from_bin_pair f g) (pair_type P Q)"
  by (rule yields_cong [OF from_bin_pair_def])
     (auto intro!: yields_bind [OF assms(1)] yields_bind [OF assms(2)] yields_return simp: pair_type_def)

lemma yields_counted:
  assumes "\<And>n. n < 2 ^ 32 \<Longrightarrow> yields (f n) P"
  shows "yields (\<lambda>s. rbind (read_size32 (list_reader bits lt) s) (\<lambda>(n, s). f n s)) P"
  by (auto intro!: yields_bind [OF yields_read_size(1)] assms)

lemma yields_map:
  assumes "yields f P" and "\<And>x. P x \<Longrightarrow> Q (c x)"
  shows "yields (\<lambda>s. rbind (f s) (\<lambda>(x, s). Inr (c x, s))) Q"
  by (auto intro!: yields_bind [OF assms(1)] yields_return assms(2))

lemma from_bin_yields:
  assumes trans: "\<And>a b c. lt a b \<Longrightarrow> lt b c \<Longrightarrow> lt a c" and bits: "0 < bits"
  shows "wf_ty t \<Longrightarrow> yields (from_bin (list_reader bits lt) t) (has_type (2 ^ 64) lt t)"
proof (induction t)
  case (TInt n)
  have "yields (from_bin (list_reader bits lt) (TInt n)) (has_type (2 ^ 64) lt (TInt n))"
    by (rule yields_cong [OF from_bin.simps(1)], simp only: list_reader_simps,
        rule yields_map [OF yields_source_read])
       (use TInt le_nat_bound in auto)
  then show ?case .
next
  case TBool
  show ?case
    by (rule yields_cong [OF from_bin.simps(2)], simp only: list_reader_simps,
        rule yields_map [OF yields_source_read]) simp
next
  case TVaruint32
  show ?case
    by (rule yields_cong [OF from_bin.simps(3)])
       (auto simp: varuint32_obj_from_bin_def rbind_assoc intro!: yields_bind [OF yields_varuint(1)] yields_return)
next
  case TVarint32
  show ?case
    by (rule yields_cong [OF from_bin.simps(4)])
       (auto simp: varint32_obj_from_bin_def varint32_from_bin_def rbind_assoc
         intro!: yields_bind [OF yields_varuint(1)] yields_return)
next
  case TString
  show ?case
    by (rule yields_cong [OF from_bin.simps(5)], rule yields_counted, simp only: list_reader_simps,
        rule yields_map [OF yields_source_read]) simp
next
  case TInputStream
  have "yields (read_bytes (list_reader bits lt)) (\<lambda>xs. length xs < 2 ^ 64)"
    by (rule yields_cong [OF read_bytes_def])
       (auto intro!: yields_bind [OF yields_read_size(2)] yields_check yields_mono [OF yields_source_read])
  then show ?case
    by (intro yields_cong [OF from_bin.simps(6)] yields_map) simp_all
next
  case (TCArray N t)
  show ?case
  proof (rule yields_cong [OF from_bin.simps(7)], rule yields_counted, rule yields_if [OF yields_error],
      rule yields_if)
    fix n :: nat assume n: "n < 2 ^ 32" "\<not> n \<noteq> N"
    { assume "has_bitwise_serialization t"
      with n TCArray.prems has_type_unraw_n [of t _ n] show
        "yields (\<lambda>s. rbind (r_read (list_reader bits lt) (n * sizeof t) s)
          (\<lambda>(bs, s). Inr (VSeq (unraw_n t n bs), s))) (has_type (2 ^ 64) lt (TCArray N t))"
        by (auto intro!: yields_map [OF yields_source_read]) }
    show "yields (\<lambda>s. rbind (read_n n (from_bin (list_reader bits lt) t) s) (\<lambda>(xs, s). Inr (VSeq xs, s)))
        (has_type (2 ^ 64) lt (TCArray N t))"
      using n TCArray by (auto intro!: yields_map [OF yields_read_n])
  qed
next
  case (TArray N t)
  then show ?case
    by (intro yields_cong [OF from_bin.simps(8)]) (auto intro!: yields_map [OF yields_read_n])
next
  case (TVector t)
  show ?case
  proof (rule yields_cong [OF from_bin.simps(9)], rule yields_if)
    assume "has_bitwise_serialization t"
    with TVector.prems bits show "yields (\<lambda>s. rbind (read_bitwise_vector (list_reader bits lt) t s)
        (\<lambda>(xs, s). Inr (VSeq xs, s))) (has_type (2 ^ 64) lt (TVector t))"
      by (intro yields_map [OF yields_read_bitwise_vector]) auto
  qed (use TVector in \<open>auto intro!: yields_counted yields_map [OF yields_read_n]\<close>)
next
  case (TSequence t)
  then show ?case
    by (intro yields_cong [OF from_bin.simps(10)] yields_counted) (auto intro!: yields_map [OF yields_read_n])
next
  case (TSet t)
  then have "yields (from_bin (list_reader bits lt) t) (has_type (2 ^ 64) lt t)"
    by simp
  note assoc = yields_read_assoc [OF this, of lt "[]", OF trans]
  show ?case
    by (rule yields_cong [OF from_bin.simps(11)], rule yields_counted, unfold list_reader_simps,
        rule yields_map, rule assoc) auto
next
  case (TMap k t)
  let ?L = "list_reader bits lt" and ?H = "has_type (2 ^ 64) lt"
  have "yields (from_bin_pair (from_bin ?L k) (from_bin ?L t)) (pair_type (?H k) (?H t))"
    by (rule yields_from_bin_pair) (use TMap in auto)
  note assoc = yields_read_assoc [OF this, of "key_less lt" "[]", OF key_less_trans, OF trans]
  show ?case
    by (rule yields_cong [OF from_bin.simps(12)], rule yields_counted, unfold list_reader_simps,
        rule yields_map, rule assoc) auto
next
  case (TPair t u)
  then show ?case
    by (intro yields_cong [OF from_bin.simps(13)]) (auto intro: yields_mono [OF yields_from_bin_pair])
next
  case (TOptional t)
  then show ?case
    by (intro yields_cong [OF from_bin.simps(14)])
       (auto intro!: yields_bind [OF yields_source_read] yields_if yields_return yields_map)
next
  case (TVariant ts)
  have "list_all2 yields (map (from_bin (list_reader bits lt)) ts) (map (has_type (2 ^ 64) lt) ts)"
    using TVariant by (auto simp: list_all2_conv_all_nth list_all_iff)
  then show ?case
    by (intro yields_cong [OF from_bin.simps(15)] yields_counted) (auto intro: yields_mono [OF yields_variant])
next
  case (TTuple ts)
  have "list_all2 yields (map (from_bin (list_reader bits lt)) ts) (map (has_type (2 ^ 64) lt) ts)"
    using TTuple by (auto simp: list_all2_conv_all_nth list_all_iff)
  then show ?case
    by (intro yields_cong [OF from_bin.simps(16)] yields_map [OF yields_read_all]) auto
next
  case (TStruct ts)
  have "list_all2 yields (map (from_bin (list_reader bits lt)) ts) (map (has_type (2 ^ 64) lt) ts)"
    using TStruct by (auto simp: list_all2_conv_all_nth list_all_iff)
  then show ?case
    by (intro yields_cong [OF from_bin.simps(17)] yields_map [OF yields_read_all]) auto
qed

lemma from_bin_vec_eq:
  assumes "length bin < 2 ^ 64" and "from_bin (list_reader bits lt) t bin = Inr (v, rest)"
  shows "from_bin_vec bits lt t bin = Inr v"
proof -
  have "sim_res is_view is_inv (from_bin (stream_reader bits lt) t (input_stream_vec bin)) (Inr (v, rest))"
    using istc.from_bin_sim [OF stream_reader_over, of "input_stream_vec bin" bits lt t] assms by simp
  then show ?thesis
    by (auto simp: from_bin_vec_def dest!: sim_res_value)
qed

section \<open>Properties\<close>

text \<open>
  C1 (round trip): for every type of the format and every value of it whose counts fit 32 bits,
  \<^verbatim>\<open>from_bin<T>(convert_to_bin(v))\<close> is \<^verbatim>\<open>v\<close>, and reading stops exactly behind the value
  when more bytes follow. The comparison of set elements and map keys only has to be asymmetric.
\<close>

theorem bin_roundtrip:
  assumes "\<And>a b. lt a b \<Longrightarrow> \<not> lt b a" and "has_type (2 ^ 32) lt t v"
    and "length (concat (to_bin t v)) < 2 ^ 64"
  shows "rbind (convert_to_bin t v []) (from_bin_vec 64 lt t) = Inr v
    \<and> from_bin (list_reader 64 lt) t (concat (to_bin t v) @ rest) = Inr (v, rest)"
proof -
  have rb: "from_bin (list_reader 64 lt) t (concat (to_bin t v) @ bs) = Inr (v, bs)" for bs
    using from_bin_back [OF assms(1,2)] by (simp add: reads_back_def)
  from from_bin_vec_eq [OF assms(3)] rb [of "[]"]
  have "from_bin_vec 64 lt t (concat (to_bin t v)) = Inr v"
    by simp
  with rb show ?thesis
    by (simp add: convert_to_bin_def two_pass_concat)
qed

definition int_less :: "val \<Rightarrow> val \<Rightarrow> bool" where
  "int_less a b = (case (a, b) of (VInt x, VInt y) \<Rightarrow> x < y | _ \<Rightarrow> False)"

lemma int_less_order:
  "int_less a b \<Longrightarrow> \<not> int_less b a"
  "int_less a b \<Longrightarrow> int_less b c \<Longrightarrow> int_less a c"
  by (auto simp: int_less_def split: val.splits)

theorem bin_roundtrip_witness:
  "rbind (convert_to_bin (TTuple [TSet (TInt 2), TOptional TString])
       (VTuple [VSeq [VInt 3, VInt 700], VOptional (Some (VString [104, 105]))]) [])
     (from_bin_vec 64 int_less (TTuple [TSet (TInt 2), TOptional TString]))
   = Inr (VTuple [VSeq [VInt 3, VInt 700], VOptional (Some (VString [104, 105]))])
   \<and> from_bin (list_reader 64 int_less) (TTuple [TSet (TInt 2), TOptional TString])
      (concat (to_bin (TTuple [TSet (TInt 2), TOptional TString])
         (VTuple [VSeq [VInt 3, VInt 700], VOptional (Some (VString [104, 105]))])) @ [9])
   = Inr (VTuple [VSeq [VInt 3, VInt 700], VOptional (Some (VString [104, 105]))], [9])"
proof (rule bin_roundtrip)
  show "int_less a b \<Longrightarrow> \<not> int_less b a" for a b
    by (rule int_less_order)
  show "has_type (2 ^ 32) int_less (TTuple [TSet (TInt 2), TOptional TString])
      (VTuple [VSeq [VInt 3, VInt 700], VOptional (Some (VString [104, 105]))])"
    by (simp add: int_less_def)
  have "length (concat (to_bin (TTuple [TSet (TInt 2), TOptional TString])
      (VTuple [VSeq [VInt 3, VInt 700], VOptional (Some (VString [104, 105]))]))) = 9"
    by code_simp
  then show "length (concat (to_bin (TTuple [TSet (TInt 2), TOptional TString])
      (VTuple [VSeq [VInt 3, VInt 700], VOptional (Some (VString [104, 105]))]))) < 2 ^ 64"
    by simp
qed

text \<open>
  C21 (refinement): on both input streams and for every type, reading from the buffer between
  \<^verbatim>\<open>pos\<close> and \<^verbatim>\<open>end\<close> has the outcome of reading from that list of bytes: the same value
  and remaining bytes, or the same error. In particular no read goes past \<^verbatim>\<open>end\<close>.
\<close>

theorem from_bin_refines:
  assumes "is_inv s" and "is_inv c"
  shows "sim_res is_view is_inv (from_bin (stream_reader bits lt) t s)
      (from_bin (list_reader bits lt) t (is_view s))
    \<and> sim_res is_view is_inv
      (from_bin \<lparr>r_read = check_read, r_check_available = is_check_available, r_size_t = bits,
                 r_less = lt\<rparr> t c)
      (from_bin (list_reader bits lt) t (is_view c))"
  using istc.from_bin_sim [OF stream_reader_over assms(1)]
    chkc.from_bin_sim [OF _ assms(2), of "\<lparr>r_read = check_read,
      r_check_available = is_check_available, r_size_t = bits, r_less = lt\<rparr>"]
  by (simp add: reader_over_def)

theorem from_bin_refines_witness:
  "sim_res is_view is_inv (from_bin (stream_reader 64 int_less) TString (input_stream_vec [2, 104, 105]))
      (from_bin (list_reader 64 int_less) TString (is_view (input_stream_vec [2, 104, 105])))
    \<and> sim_res is_view is_inv
      (from_bin \<lparr>r_read = check_read, r_check_available = is_check_available, r_size_t = 64,
                 r_less = int_less\<rparr> TString
        \<lparr>is_mem = [0, 2, 104], is_pos = 1, is_end = 3, total_read = 0\<rparr>)
      (from_bin (list_reader 64 int_less) TString
        (is_view \<lparr>is_mem = [0, 2, 104], is_pos = 1, is_end = 3, total_read = 0\<rparr>))"
  by (rule from_bin_refines) (simp, simp add: is_inv_def)


lemma has_type_vec_example: "has_type (2 ^ 32) int_less (TVector (TInt 2)) (VSeq [VInt 513])"
  by simp


end
