(* ===== verification/Clio_Key.thy ===== *)
theory Clio_Key
  imports Clio_Bin
begin

text \<open>
  The order-preserving keys of to_key.hpp: the database compares them byte by byte, so the
  header promises that \<^verbatim>\<open>key(a) < key(b)\<close> iff \<^verbatim>\<open>a < b\<close> and that no key is a prefix of
  another. \<^verbatim>\<open>to_key\<close> is the overload set by recursion over the type, \<^verbatim>\<open>val_less\<close> the
  \<^verbatim>\<open>operator<\<close> of the types, and the locale \<^verbatim>\<open>key_encoding\<close> the promise, which every type of
  the format is shown to keep.
\<close>

section \<open>Types and their order\<close>

datatype kty =
    KInt nat bool         \<comment> \<open>integral and enumeration types: sizeof, signedness\<close>
  | KBool
  | KFloat nat            \<comment> \<open>float (4) and double (8), by their bit patterns\<close>
  | KString
  | KVector kty
  | KOptional kty
  | KVariant "kty list"
  | KTuple "kty list"     \<comment> \<open>tuples, pairs and the reflected members of structs\<close>
  | KArray nat kty        \<comment> \<open>std::array\<close>

definition signed_of :: "nat \<Rightarrow> nat \<Rightarrow> int" where
  "signed_of w x = (if x < 2 ^ (w - 1) then int x else int x - 2 ^ w)"

text \<open>
  The order of floating point numbers other than NaN is that of their bit patterns read as sign
  and magnitude; both zeros are equal.
\<close>

definition float_of :: "nat \<Rightarrow> nat \<Rightarrow> int" where
  "float_of w x = (if x < 2 ^ (w - 1) then int x else - (int x - 2 ^ (w - 1)))"

definition is_nan :: "nat \<Rightarrow> nat \<Rightarrow> bool" where
  "is_nan n x \<longleftrightarrow> (if n = 4 then x mod 2 ^ 31 > 0x7f800000 else x mod 2 ^ 63 > 0x7ff0000000000000)"

fun lex_less :: "('a \<Rightarrow> 'a \<Rightarrow> bool) \<Rightarrow> 'a list \<Rightarrow> 'a list \<Rightarrow> bool" where
  "lex_less lt xs [] = False"
| "lex_less lt [] (y # ys) = True"
| "lex_less lt (x # xs) (y # ys) = (lt x y \<or> \<not> lt y x \<and> lex_less lt xs ys)"

fun tuple_less :: "('a \<Rightarrow> 'a \<Rightarrow> bool) list \<Rightarrow> 'a list \<Rightarrow> 'a list \<Rightarrow> bool" where
  "tuple_less (lt # lts) (x # xs) (y # ys) = (lt x y \<or> \<not> lt y x \<and> tuple_less lts xs ys)"
| "tuple_less _ _ _ = False"

fun option_less :: "('a \<Rightarrow> 'a \<Rightarrow> bool) \<Rightarrow> 'a option \<Rightarrow> 'a option \<Rightarrow> bool" where
  "option_less lt _ None = False"
| "option_less lt None (Some y) = True"
| "option_less lt (Some x) (Some y) = lt x y"

definition as_int :: "val \<Rightarrow> nat" where "as_int v = (case v of VInt x \<Rightarrow> x | _ \<Rightarrow> 0)"
definition as_bool :: "val \<Rightarrow> bool" where "as_bool v = (case v of VBool b \<Rightarrow> b | _ \<Rightarrow> False)"
definition as_string :: "val \<Rightarrow> byte list" where "as_string v = (case v of VString s \<Rightarrow> s | _ \<Rightarrow> [])"
definition as_seq :: "val \<Rightarrow> val list" where "as_seq v = (case v of VSeq xs \<Rightarrow> xs | _ \<Rightarrow> [])"
definition as_opt :: "val \<Rightarrow> val option" where "as_opt v = (case v of VOptional ov \<Rightarrow> ov | _ \<Rightarrow> None)"
definition as_tuple :: "val \<Rightarrow> val list" where "as_tuple v = (case v of VTuple xs \<Rightarrow> xs | _ \<Rightarrow> [])"
definition var_index :: "val \<Rightarrow> nat" where "var_index v = (case v of VVariant i _ \<Rightarrow> i | _ \<Rightarrow> 0)"
definition var_val :: "val \<Rightarrow> val" where "var_val v = (case v of VVariant _ x \<Rightarrow> x | _ \<Rightarrow> v)"

fun val_less :: "kty \<Rightarrow> val \<Rightarrow> val \<Rightarrow> bool" where
  "val_less (KInt n sg) a b =
     (if sg then signed_of (8 * n) (as_int a) < signed_of (8 * n) (as_int b) else as_int a < as_int b)"
| "val_less KBool a b = (\<not> as_bool a \<and> as_bool b)"
| "val_less (KFloat n) a b = (float_of (8 * n) (as_int a) < float_of (8 * n) (as_int b))"
| "val_less KString a b = lex_less (<) (as_string a) (as_string b)"
| "val_less (KVector t) a b = lex_less (\<lambda>x y. val_less t x y) (as_seq a) (as_seq b)"
| "val_less (KOptional t) a b = option_less (\<lambda>x y. val_less t x y) (as_opt a) (as_opt b)"
| "val_less (KVariant ts) a b =
     (var_index a < var_index b \<or>
      var_index a = var_index b \<and> var_index a < length ts \<and>
      (map (\<lambda>t. val_less t) ts ! var_index a) (var_val a) (var_val b))"
| "val_less (KTuple ts) a b = tuple_less (map (\<lambda>t. val_less t) ts) (as_tuple a) (as_tuple b)"
| "val_less (KArray n t) a b = lex_less (\<lambda>x y. val_less t x y) (as_seq a) (as_seq b)"

text \<open>The values of the type; an index beyond 32 bits is cut by the cast in the variant overload.\<close>

fun key_val :: "kty \<Rightarrow> val \<Rightarrow> bool" where
  "key_val (KInt n sg) v = (case v of VInt x \<Rightarrow> 0 < n \<and> x < 256 ^ n | _ \<Rightarrow> False)"
| "key_val KBool v = (case v of VBool _ \<Rightarrow> True | _ \<Rightarrow> False)"
| "key_val (KFloat n) v =
     (case v of VInt x \<Rightarrow> (n = 4 \<or> n = 8) \<and> x < 256 ^ n \<and> \<not> is_nan n x | _ \<Rightarrow> False)"
| "key_val KString v = (case v of VString _ \<Rightarrow> True | _ \<Rightarrow> False)"
| "key_val (KVector t) v = (case v of VSeq xs \<Rightarrow> list_all (key_val t) xs | _ \<Rightarrow> False)"
| "key_val (KOptional t) v =
     (case v of VOptional ov \<Rightarrow> pred_option (key_val t) ov | _ \<Rightarrow> False)"
| "key_val (KVariant ts) v =
     (case v of VVariant i x \<Rightarrow> i < length ts \<and> i < 2 ^ 32 \<and> (map (key_val) ts ! i) x | _ \<Rightarrow> False)"
| "key_val (KTuple ts) v =
     (case v of VTuple xs \<Rightarrow> list_all2 (\<lambda>p x. p x) (map (key_val) ts) xs | _ \<Rightarrow> False)"
| "key_val (KArray n t) v =
     (case v of VSeq xs \<Rightarrow> length xs = n \<and> list_all (key_val t) xs | _ \<Rightarrow> False)"

section \<open>Writing keys\<close>

text \<open>Integers are shifted to the unsigned range and written most significant byte first.\<close>

definition to_key_integral :: "nat \<Rightarrow> bool \<Rightarrow> nat \<Rightarrow> writes" where
  "to_key_integral n sg x =
     (let v = (if sg then (x + 2 ^ (8 * n) - 2 ^ (8 * n - 1)) mod 2 ^ (8 * n) else x)
      in [rev (nat_le n v)])"

definition to_key_bool :: "bool \<Rightarrow> writes" where
  "to_key_bool b = [[of_bool b]]"

definition float_to_key :: "'a::len word \<Rightarrow> 'a word" where
  "float_to_key value =
     (let signbit = push_bit (LENGTH('a) - 1) 1;
          result = (if value = signbit then 0 else value);
          mask = (if result AND signbit \<noteq> 0 then NOT 0 else 0)
      in result XOR (mask OR signbit))"

definition to_key_float :: "nat \<Rightarrow> nat \<Rightarrow> writes" where
  "to_key_float n x =
     (if n = 4 then to_key_integral 4 False (unat (float_to_key (word_of_nat x :: u32)))
      else to_key_integral 8 False (unat (float_to_key (word_of_nat x :: u64))))"

fun to_key_string :: "byte list \<Rightarrow> writes" where
  "to_key_string [] = [[0, 0]]"
| "to_key_string (ch # s) = ([ch] # (if ch = 0 then [[1]] else [])) @ to_key_string s"

definition one_byte :: "kty \<Rightarrow> bool" where
  "one_byte t = (case t of KInt n _ \<Rightarrow> n = 1 | KBool \<Rightarrow> True | _ \<Rightarrow> False)"

definition to_key_optional :: "bool \<Rightarrow> ('a \<Rightarrow> writes) \<Rightarrow> 'a option \<Rightarrow> writes" where
  "to_key_optional byte f obj =
     (if byte then
        (case obj of None \<Rightarrow> [[0, 0]]
         | Some x \<Rightarrow> (let buf = hd (concat (f x)) in [buf] # (if buf = 0 then [[1]] else [])))
      else (case obj of None \<Rightarrow> [[0]] | Some x \<Rightarrow> [1] # f x))"

definition to_key_range :: "bool \<Rightarrow> ('a \<Rightarrow> writes) \<Rightarrow> 'a list \<Rightarrow> writes" where
  "to_key_range byte f obj =
     concat (map (\<lambda>elem. to_key_optional byte f (Some elem)) obj) @ to_key_optional byte f None"

definition num_bytes :: "u32 \<Rightarrow> nat" where
  "num_bytes obj =
     (if obj < 0x80 then 1 else if obj < 0x4000 then 2 else if obj < 0x200000 then 3
      else if obj < 0x10000000 then 4 else 5)"

definition to_key_varuint32 :: "u32 \<Rightarrow> writes" where
  "to_key_varuint32 obj =
     (let n = num_bytes obj in
      [ucast (NOT (drop_bit (n - 1) (0xFF :: u32)) OR
              (if n = 5 then 0 else drop_bit ((n - 1) * 8) obj))]
      # map (\<lambda>i. [ucast (drop_bit (i * 8) obj AND 0xFF)]) (rev [0..<n - 1]))"

fun to_key_tuple :: "(val \<Rightarrow> writes) list \<Rightarrow> val list \<Rightarrow> writes" where
  "to_key_tuple (f # fs) (x # xs) = f x @ to_key_tuple fs xs"
| "to_key_tuple fs xs = []"

definition to_key_variant :: "(val \<Rightarrow> writes) list \<Rightarrow> nat \<Rightarrow> val \<Rightarrow> writes" where
  "to_key_variant fs i x =
     to_key_varuint32 (word_of_nat i) @ (if i < length fs then (fs ! i) x else [])"

fun to_key :: "kty \<Rightarrow> val \<Rightarrow> writes" where
  "to_key (KInt n sg) v = to_key_integral n sg (as_int v)"
| "to_key KBool v = to_key_bool (as_bool v)"
| "to_key (KFloat n) v = to_key_float n (as_int v)"
| "to_key KString v = to_key_string (as_string v)"
| "to_key (KVector t) v = to_key_range (one_byte t) (\<lambda>x. to_key t x) (as_seq v)"
| "to_key (KOptional t) v = to_key_optional (one_byte t) (\<lambda>x. to_key t x) (as_opt v)"
| "to_key (KVariant ts) v = to_key_variant (map (\<lambda>t. to_key t) ts) (var_index v) (var_val v)"
| "to_key (KTuple ts) v = to_key_tuple (map (\<lambda>t. to_key t) ts) (as_tuple v)"
| "to_key (KArray n t) v = concat (map (\<lambda>x. to_key t x) (as_seq v))"

definition convert_to_key :: "kty \<Rightarrow> val \<Rightarrow> byte list \<Rightarrow> byte list result" where
  "convert_to_key t v bin = two_pass True (to_key t v) bin"

section \<open>First differences\<close>

text \<open>\<^verbatim>\<open>before xs ys\<close>: the two differ, neither is a prefix of the other, and the first difference
  is upwards.\<close>

definition before :: "byte list \<Rightarrow> byte list \<Rightarrow> bool" where
  "before xs ys \<longleftrightarrow> (\<exists>p a b u v. xs = p @ a # u \<and> ys = p @ b # v \<and> a < b)"

lemma beforeI: "a < b \<Longrightarrow> before (a # u) (b # v)"
  unfolding before_def by (metis append_Nil)

lemma before_append_left: "before xs ys \<Longrightarrow> before (p @ xs) (p @ ys)"
  unfolding before_def by (metis append_assoc)

lemma before_append_right: "before xs ys \<Longrightarrow> before (xs @ u) (ys @ v)"
  unfolding before_def by force

lemma before_Cons: "before xs ys \<Longrightarrow> before (a # xs) (a # ys)"
  using before_append_left [of xs ys "[a]"] by simp

abbreviation bytes_less :: "byte list \<Rightarrow> byte list \<Rightarrow> bool" where
  "bytes_less \<equiv> ord_class.lexordp"

lemma before_bytes_less: "before xs ys \<Longrightarrow> bytes_less xs ys"
proof -
  assume "before xs ys"
  then obtain p a b u v where "xs = p @ a # u" "ys = p @ b # v" "a < b"
    by (auto simp: before_def)
  then show ?thesis
    by (induction p arbitrary: xs ys) auto
qed

lemma before_not_prefix: "before xs ys \<Longrightarrow> \<not> (\<exists>zs. ys = xs @ zs) \<and> \<not> (\<exists>zs. xs = ys @ zs)"
  by (auto simp: before_def)

section \<open>The promise of a key encoding\<close>

locale key_encoding =
  fixes enc :: "'a \<Rightarrow> byte list"
    and lt :: "'a \<Rightarrow> 'a \<Rightarrow> bool"
    and ok :: "'a \<Rightarrow> bool"
  assumes enc_less: "ok a \<Longrightarrow> ok b \<Longrightarrow> lt a b \<Longrightarrow> before (enc a) (enc b)"
    and enc_equiv: "ok a \<Longrightarrow> ok b \<Longrightarrow> \<not> lt a b \<Longrightarrow> \<not> lt b a \<Longrightarrow> enc a = enc b"
begin

lemma enc_iff:
  assumes "ok a" and "ok b"
  shows "bytes_less (enc a) (enc b) \<longleftrightarrow> lt a b"
proof
  assume l: "bytes_less (enc a) (enc b)"
  have irr: "\<not> bytes_less xs xs" for xs :: "byte list"
    by (rule lexordp_irreflexive) simp
  show "lt a b"
  proof (rule ccontr)
    assume "\<not> lt a b"
    then consider "enc a = enc b" | "bytes_less (enc b) (enc a)"
      using enc_equiv [OF assms] enc_less [OF assms(2,1)] before_bytes_less by blast
    then show False
      using l irr lexordp_antisym by cases fastforce+
  qed
next
  assume "lt a b"
  then show "bytes_less (enc a) (enc b)"
    using enc_less [OF assms] before_bytes_less by blast
qed

lemma enc_prefix_free:
  assumes "ok a" and "ok b" and "enc b = enc a @ zs"
  shows "zs = [] \<and> \<not> lt a b \<and> \<not> lt b a"
  using enc_less [OF assms(1,2)] enc_less [OF assms(2,1)] enc_equiv [OF assms(1,2)] assms(3)
    before_not_prefix by fastforce

lemma lt_asym: "ok a \<Longrightarrow> ok b \<Longrightarrow> lt a b \<Longrightarrow> \<not> lt b a"
  using enc_iff lexordp_antisym [of "enc a" "enc b"] by force

text \<open>One step of a lexicographic comparison.\<close>

lemma enc_append:
  assumes "ok x" and "ok y" and "(P \<longrightarrow> before u v) \<and> (\<not> P \<and> \<not> Q \<longrightarrow> u = v)"
  shows "(lt x y \<or> \<not> lt y x \<and> P \<longrightarrow> before (enc x @ u) (enc y @ v)) \<and>
    (\<not> (lt x y \<or> \<not> lt y x \<and> P) \<and> \<not> (lt y x \<or> \<not> lt x y \<and> Q) \<longrightarrow> enc x @ u = enc y @ v)"
  using enc_less [OF assms(1,2)] enc_equiv [OF assms(1,2)] assms(3)
  by (metis before_append_left before_append_right)

end

section \<open>Every type keeps the promise\<close>

lemmas key_encodingI = key_encoding.intro
lemmas key_lessD = key_encoding.enc_less
lemmas key_equivD = key_encoding.enc_equiv

subsection \<open>Numbers\<close>

lemma before_big_endian:
  "x < y \<Longrightarrow> y < 256 ^ n \<Longrightarrow> before (rev (nat_le n x)) (rev (nat_le n y))"
proof (induction n arbitrary: x y)
  case 0
  then show ?case by simp
next
  case (Suc n)
  have "x div 256 \<le> y div 256"
    using Suc.prems(1) by (simp add: div_le_mono)
  then consider "x div 256 < y div 256" | "x div 256 = y div 256" "x mod 256 < y mod 256"
    using Suc.prems(1) by (metis div_mult_mod_eq le_neq_implies_less nat_add_left_cancel_less)
  then show ?case
  proof cases
    case 1
    moreover have "y div 256 < 256 ^ n"
      using Suc.prems(2) by (simp add: less_mult_imp_div_less mult.commute)
    ultimately have "before (rev (nat_le n (x div 256))) (rev (nat_le n (y div 256)))"
      by (rule Suc.IH)
    then show ?thesis
      by (simp add: before_append_right)
  next
    case 2
    then have "(word_of_nat x :: byte) < word_of_nat y"
      by (simp add: word_less_nat_alt unat_word_of_nat_byte)
    with 2 show ?thesis
      by (simp add: before_append_left beforeI)
  qed
qed

lemma power_256: "(256 :: nat) ^ n = 2 ^ (8 * n)"
  by (simp add: power_mult)

definition int_key :: "nat \<Rightarrow> bool \<Rightarrow> nat \<Rightarrow> nat" where
  "int_key n sg x = (if sg then (x + 2 ^ (8 * n) - 2 ^ (8 * n - 1)) mod 2 ^ (8 * n) else x)"

lemma int_key_signed:
  assumes "0 < n" and "x < 256 ^ n"
  shows "int (int_key n True x) = signed_of (8 * n) x + 2 ^ (8 * n - 1)"
proof -
  let ?h = "2 ^ (8 * n - 1) :: nat"
  have p: "2 ^ (8 * n) = 2 * ?h"
    using assms(1) by (simp add: power_eq_if)
  have x: "x < 2 * ?h"
    using assms(2) by (simp only: power_256 p)
  have eq: "int_key n True x = (x + ?h) mod (2 * ?h)"
    by (simp only: int_key_def p if_True) (simp add: add.commute)
  show ?thesis
  proof (cases "x < ?h")
    case True
    then show ?thesis
      unfolding eq signed_of_def by simp
  next
    case False
    then have "(x + ?h) mod (2 * ?h) = x - ?h"
      using x by (simp add: mod_if)
    moreover have "(2::int) ^ (8 * n) = 2 * 2 ^ (8 * n - 1)"
      using assms(1) by (simp add: power_eq_if)
    ultimately show ?thesis
      using False unfolding eq signed_of_def by (simp add: of_nat_diff)
  qed
qed

lemma int_key_less: "x < 256 ^ n \<Longrightarrow> 0 < n \<Longrightarrow> int_key n sg x < 256 ^ n"
  by (simp add: int_key_def power_256)

lemma integral_key:
  "key_encoding (\<lambda>v. concat (to_key (KInt n sg) v)) (val_less (KInt n sg)) (key_val (KInt n sg))"
proof -
  have enc: "concat (to_key (KInt n sg) (VInt x)) = rev (nat_le n (int_key n sg x))" for x
    by (simp add: to_key_integral_def int_key_def as_int_def)
  have lt: "val_less (KInt n sg) (VInt x) (VInt y) \<longleftrightarrow> int_key n sg x < int_key n sg y"
    if "0 < n" "x < 256 ^ n" "y < 256 ^ n" for x y
    using int_key_signed [of n x] int_key_signed [of n y] that
    by (cases sg) (auto simp: as_int_def int_key_def [of _ False])
  show ?thesis
  proof (rule key_encodingI)
    fix a b assume "key_val (KInt n sg) a" "key_val (KInt n sg) b" "val_less (KInt n sg) a b"
    then show "before (concat (to_key (KInt n sg) a)) (concat (to_key (KInt n sg) b))"
      by (auto simp only: key_val.simps split: val.splits)
         (simp only: enc lt, rule before_big_endian, assumption, rule int_key_less)
  next
    fix a b assume "key_val (KInt n sg) a" "key_val (KInt n sg) b"
      "\<not> val_less (KInt n sg) a b" "\<not> val_less (KInt n sg) b a"
    then show "concat (to_key (KInt n sg) a) = concat (to_key (KInt n sg) b)"
      by (auto simp only: key_val.simps split: val.splits) (simp only: enc lt, metis linorder_neqE_nat)
  qed
qed

lemma bool_key: "key_encoding (\<lambda>v. concat (to_key KBool v)) (val_less KBool) (key_val KBool)"
  by (rule key_encodingI)
     (auto simp: to_key_bool_def as_bool_def intro: beforeI split: val.splits if_splits)

subsection \<open>Floating point\<close>

lemma bit_sign_iff: "bit (v :: 'a::len word) (LENGTH('a) - 1) \<longleftrightarrow> 2 ^ (LENGTH('a) - 1) \<le> unat v"
proof -
  let ?h = "LENGTH('a) - 1"
  have v: "unat v < 2 * 2 ^ ?h"
    using unsigned_less [of v, where 'a = nat] by (simp add: power_eq_if)
  have "bit v ?h \<longleftrightarrow> bit (unat v) ?h"
    by (simp add: bit_unsigned_iff)
  also have "\<dots> \<longleftrightarrow> odd (unat v div 2 ^ ?h)"
    by (rule bit_iff_odd)
  also have "\<dots> \<longleftrightarrow> 2 ^ ?h \<le> unat v"
  proof (cases "2 ^ ?h \<le> unat v")
    case True
    then have "unat v div 2 ^ ?h = 1"
      using v by (intro div_nat_eqI) simp_all
    then show ?thesis using True by simp
  qed simp
  finally show ?thesis .
qed

lemma and_signbit: "(v :: 'a::len word) AND push_bit (LENGTH('a) - 1) 1 \<noteq> 0 \<longleftrightarrow> 2 ^ (LENGTH('a) - 1) \<le> unat v"
  using and_exp_eq_0_iff_not_bit [of v "LENGTH('a) - 1"] bit_sign_iff [of v] by (simp add: push_bit_eq_mult)

lemma unat_signbit: "unat (push_bit (LENGTH('a) - 1) 1 :: 'a::len word) = 2 ^ (LENGTH('a) - 1)"
proof -
  have "push_bit (LENGTH('a) - 1) 1 = (word_of_nat (2 ^ (LENGTH('a) - 1)) :: 'a word)"
    by (simp add: push_bit_eq_mult)
  then show ?thesis
    by (simp only: unat_of_nat) (simp add: power_strict_increasing)
qed

lemma float_to_key_pos:
  fixes v :: "'a::len word"
  assumes "unat v < 2 ^ (LENGTH('a) - 1)"
  shows "unat (float_to_key v) = unat v + 2 ^ (LENGTH('a) - 1)"
proof -
  let ?s = "push_bit (LENGTH('a) - 1) 1 :: 'a word"
  have a: "v AND ?s = 0"
    using and_signbit [of v] assms by simp
  have ne: "v \<noteq> ?s"
    using assms unat_signbit [where 'a = 'a] by auto
  have "float_to_key v = v XOR ?s"
    using a ne by (simp add: float_to_key_def Let_def)
  also have "\<dots> = v + ?s"
    using a by (simp add: disjunctive_add_eq_xor)
  finally have k: "float_to_key v = v + ?s" .
  have "unat v + unat ?s < 2 ^ LENGTH('a)"
    using assms unfolding unat_signbit by (simp add: power_eq_if)
  then have "unat (v + ?s) = unat v + unat ?s"
    by (rule unat_add_lem [THEN iffD1])
  then show ?thesis
    by (simp only: k unat_signbit)
qed

lemma float_to_key_zero:
  fixes v :: "'a::len word"
  assumes "unat v = 2 ^ (LENGTH('a) - 1)"
  shows "unat (float_to_key v) = 2 ^ (LENGTH('a) - 1)"
proof -
  have "v = push_bit (LENGTH('a) - 1) 1"
    using assms unat_signbit [where 'a = 'a] by (metis word_unat_eq_iff)
  then have "float_to_key v = push_bit (LENGTH('a) - 1) 1"
    by (simp add: float_to_key_def)
  then show ?thesis
    by (simp only: unat_signbit)
qed

lemma float_to_key_neg:
  fixes v :: "'a::len word"
  assumes "2 ^ (LENGTH('a) - 1) < unat v"
  shows "unat (float_to_key v) = 2 ^ LENGTH('a) - 1 - unat v"
proof -
  let ?s = "push_bit (LENGTH('a) - 1) 1 :: 'a word"
  have a: "v AND ?s \<noteq> 0"
    using and_signbit [of v] assms by simp
  have ne: "v \<noteq> ?s"
    using assms unat_signbit [where 'a = 'a] by auto
  have "float_to_key v = -1 - v"
    using a ne by (simp add: float_to_key_def Let_def not_eq_complement)
  moreover have "unat (-1 - v) = unat (-1 :: 'a word) - unat v"
    by (rule unat_sub) simp
  ultimately show ?thesis
    by (simp add: unsigned_minus_1_eq_mask mask_eq_exp_minus_1)
qed

lemma float_key_of:
  fixes v :: "'a::len word"
  shows "int (unat (float_to_key v)) = (if float_of LENGTH('a) (unat v) < 0 then float_of LENGTH('a) (unat v) - 1
     else float_of LENGTH('a) (unat v)) + 2 ^ (LENGTH('a) - 1)"
proof -
  have p: "(2::nat) ^ LENGTH('a) = 2 * 2 ^ (LENGTH('a) - 1)"
    by (simp add: power_eq_if)
  have v: "unat v < 2 ^ LENGTH('a)"
    by (rule unsigned_less)
  consider "unat v < 2 ^ (LENGTH('a) - 1)" | "unat v = 2 ^ (LENGTH('a) - 1)" | "2 ^ (LENGTH('a) - 1) < unat v"
    by linarith
  then show ?thesis
  proof cases
    case 3
    have "int (2 ^ LENGTH('a) - 1 - unat v) = 2 * 2 ^ (LENGTH('a) - 1) - 1 - int (unat v)"
      using v p by (simp add: of_nat_diff)
    moreover have "(2::int) ^ (LENGTH('a) - 1) < int (unat v)"
      using 3 by (metis of_nat_less_iff of_nat_numeral of_nat_power)
    ultimately show ?thesis
      using 3 by (simp add: float_to_key_neg float_of_def)
  qed (simp_all add: float_to_key_pos float_to_key_zero float_of_def)
qed

lemma float_key:
  "key_encoding (\<lambda>v. concat (to_key (KFloat n) v)) (val_less (KFloat n)) (key_val (KFloat n))"
proof -
  define k where "k x = (if n = 4 then unat (float_to_key (word_of_nat x :: u32))
      else unat (float_to_key (word_of_nat x :: u64)))" for x
  have enc: "concat (to_key (KFloat n) (VInt x)) = rev (nat_le n (k x))" if "n = 4 \<or> n = 8" for x
    using that by (auto simp: to_key_float_def to_key_integral_def as_int_def k_def)
  have kl: "k x < 256 ^ n" if "n = 4 \<or> n = 8" for x
    using that unsigned_less [of "float_to_key (word_of_nat x :: u32)", where 'a = nat]
      unsigned_less [of "float_to_key (word_of_nat x :: u64)", where 'a = nat]
    by (auto simp: k_def)
  have kx: "int (k x) = (if float_of (8 * n) x < 0 then float_of (8 * n) x - 1 else float_of (8 * n) x) + 2 ^ (8 * n - 1)"
    if "n = 4 \<or> n = 8" "x < 256 ^ n" for x
    using that float_key_of [of "word_of_nat x :: u32"] float_key_of [of "word_of_nat x :: u64"]
    by (auto simp: k_def unat_of_nat)
  have lt: "val_less (KFloat n) (VInt x) (VInt y) \<longleftrightarrow> k x < k y"
    if "n = 4 \<or> n = 8" "x < 256 ^ n" "y < 256 ^ n" for x y
    using kx [OF that(1,2)] kx [OF that(1,3)] 
    by (auto simp: as_int_def simp flip: of_nat_less_iff [where 'a = int] split: if_splits)
  have ok: "\<exists>x. v = VInt x \<and> (n = 4 \<or> n = 8) \<and> x < 256 ^ n" if "key_val (KFloat n) v" for v
    using that by (auto split: val.splits)
  show ?thesis
  proof (rule key_encodingI)
    fix a b assume "key_val (KFloat n) a" "key_val (KFloat n) b" and l: "val_less (KFloat n) a b"
    then obtain x y where ab: "a = VInt x" "b = VInt y" and n: "n = 4 \<or> n = 8"
      and xy: "x < 256 ^ n" "y < 256 ^ n"
      using ok [of a] ok [of b] by auto
    have "k x < k y"
      using l lt [OF n xy] by (simp only: ab)
    then show "before (concat (to_key (KFloat n) a)) (concat (to_key (KFloat n) b))"
      unfolding ab enc [OF n] by (rule before_big_endian) (rule kl [OF n])
  next
    fix a b assume "key_val (KFloat n) a" "key_val (KFloat n) b"
      and l: "\<not> val_less (KFloat n) a b" "\<not> val_less (KFloat n) b a"
    then obtain x y where ab: "a = VInt x" "b = VInt y" and n: "n = 4 \<or> n = 8"
      and xy: "x < 256 ^ n" "y < 256 ^ n"
      using ok [of a] ok [of b] by auto
    have "k x = k y"
      using l lt [OF n xy] lt [OF n xy(2,1)] by (simp only: ab)
    then show "concat (to_key (KFloat n) a) = concat (to_key (KFloat n) b)"
      unfolding ab enc [OF n] by simp
  qed
qed

subsection \<open>Variant indices\<close>

text \<open>The encoding in closed form: the number of bytes in unary above the value.\<close>

definition width_bits :: "nat \<Rightarrow> nat" where
  "width_bits n = (if n = 1 then 0 else if n = 2 then 0x80 else if n = 3 then 0xC0
     else if n = 4 then 0xE0 else 0xF0)"

definition high_part :: "u32 \<Rightarrow> nat" where
  "high_part obj = (if num_bytes obj = 5 then 0 else unat obj div 256 ^ (num_bytes obj - 1))"

lemma nat_le_conv: "nat_le m x = map (\<lambda>i. word_of_nat (x div 256 ^ i)) [0..<m]"
proof (induction m arbitrary: x)
  case 0
  show ?case by simp
next
  case (Suc m)
  then show ?case
    by (simp add: map_upt_Suc div_mult2_eq del: upt_Suc)
qed

lemma mask_byte: "(w :: u32) AND 0xFF = take_bit 8 w"
  by (simp add: take_bit_eq_mask mask_eq_exp_minus_1)

lemma low_byte: "(ucast (w AND 0xFF) :: byte) = word_of_nat (unat (w :: u32))"
proof -
  have "(ucast (w AND 0xFF) :: byte) = ucast w"
    unfolding mask_byte by (rule bit_word_eqI) (simp add: bit_unsigned_iff bit_take_bit_iff)
  then show ?thesis by (simp only: of_nat_unat)
qed

lemma tail_bytes:
  "map (\<lambda>i. ucast (drop_bit (i * 8) obj AND 0xFF)) (rev [0..<m]) = rev (nat_le m (unat (obj :: u32)))"
proof -
  have "(ucast (drop_bit (i * 8) obj AND 0xFF) :: byte) = word_of_nat (unat obj div 256 ^ i)" for i
    by (simp only: low_byte unat_drop_bit_div mult.commute [of i 8] power_mult) simp
  then show ?thesis
    by (simp add: nat_le_conv rev_map)
qed

lemma high_byte:
  fixes c :: byte and x :: u32
  assumes "c AND mask k = 0" and "unat x < 2 ^ k" and "k \<le> 8"
  shows "unat (c OR ucast x) = unat c + unat x"
proof -
  have x: "unat (ucast x :: byte) = unat x"
    using assms(2,3) power_increasing [of k 8 "2::nat"] by (simp add: unsigned_ucast_eq take_bit_nat_eq_self)
  then have tb: "ucast x = take_bit k (ucast x :: byte)"
    using assms(2) by (simp add: word_eq_iff_unsigned [where 'a = nat] unat_take_bit_mod)
  have "c AND take_bit k y = 0" for y
    unfolding take_bit_eq_mask by (metis and.left_commute and_zero_eq assms(1))
  from this [of "ucast x"] tb have "unat (c AND ucast x) = 0"
    by simp
  then have "unat c AND unat (ucast x :: byte) = 0"
    by (simp only: unsigned_and_eq)
  then have "unat c OR unat (ucast x :: byte) = unat c + unat (ucast x :: byte)"
    by (rule disjunctive_add_eq_or [symmetric])
  then show ?thesis
    by (simp only: unsigned_or_eq x)
qed

lemma unat_less_iff: "(obj :: u32) < numeral k \<longleftrightarrow> unat obj < unat (numeral k :: u32)"
  by (rule word_less_nat_alt)

lemma num_bytes_bound:
  "num_bytes obj \<in> {1, 2, 3, 4, 5} \<and> (num_bytes obj \<noteq> 5 \<longrightarrow> unat obj < 2 ^ (7 * num_bytes obj)) \<and>
    (1 < num_bytes obj \<longrightarrow> 2 ^ (7 * (num_bytes obj - 1)) \<le> unat obj)"
  by (simp add: num_bytes_def word_less_nat_alt)

lemma first_byte:
  "concat (to_key_varuint32 obj) =
     word_of_nat (width_bits (num_bytes obj) + high_part obj) # rev (nat_le (num_bytes obj - 1) (unat obj))"
proof -
  let ?n = "num_bytes obj"
  let ?x = "if ?n = 5 then 0 else drop_bit ((?n - 1) * 8) obj"
  have h: "unat ?x = high_part obj"
    by (simp add: high_part_def unat_drop_bit_div mult.commute [of _ 8] power_mult)
  have "unat ?x < 2 ^ (8 - ?n)"
    using num_bytes_bound [of obj] unfolding h high_part_def
    by (auto simp: less_mult_imp_div_less)
  moreover have "(ucast (NOT (drop_bit (?n - 1) (0xFF :: u32))) :: byte) = word_of_nat (width_bits ?n)"
    "(word_of_nat (width_bits ?n) :: byte) AND mask (8 - ?n) = 0"
    using num_bytes_bound [of obj] by (auto simp: width_bits_def mask_eq_exp_minus_1)
  moreover have "unat (word_of_nat (width_bits ?n) :: byte) = width_bits ?n"
    by (simp add: width_bits_def)
  ultimately have "unat (ucast (NOT (drop_bit (?n - 1) (0xFF :: u32)) OR ?x) :: byte) = width_bits ?n + high_part obj"
    using high_byte [of "word_of_nat (width_bits ?n)" "8 - ?n" ?x] h by (simp add: unsigned_or_eq)
  moreover have "word_of_nat (unat b) = b" for b :: byte
    by simp
  ultimately have "(ucast (NOT (drop_bit (?n - 1) (0xFF :: u32)) OR ?x) :: byte) = word_of_nat (width_bits ?n + high_part obj)"
    by metis
  then show ?thesis
    by (simp add: to_key_varuint32_def Let_def tail_bytes)
qed

lemma high_part_less: "high_part obj < 2 ^ (8 - num_bytes obj)"
  using num_bytes_bound [of obj] by (auto simp: high_part_def less_mult_imp_div_less)

lemma first_less: "width_bits (num_bytes obj) + high_part obj < 256"
  using high_part_less [of obj] num_bytes_bound [of obj] by (auto simp: width_bits_def)

lemma num_bytes_mono:
  assumes "i < j"
  shows "num_bytes i \<le> num_bytes j"
  using assms by (auto simp: num_bytes_def)

lemma nat_le_mod: "nat_le n (x mod 256 ^ n) = nat_le n x"
  using nat_le_le_nat [of "nat_le n x"] by (simp add: le_nat_nat_le)

lemma width_gap:
  "m \<in> {1, 2, 3, 4, 5} \<Longrightarrow> n \<in> {1, 2, 3, 4, 5} \<Longrightarrow> m < n \<Longrightarrow> width_bits m + 2 ^ (8 - m) \<le> width_bits n"
  by (auto simp: width_bits_def)

lemma width_step:
  assumes "num_bytes i < num_bytes j"
  shows "width_bits (num_bytes i) + high_part i < width_bits (num_bytes j) + high_part j"
  using width_gap [OF _ _ assms] high_part_less [of i] num_bytes_bound [of i] num_bytes_bound [of j]
  by linarith

lemma before_of_nat: "x < y \<Longrightarrow> y < 256 \<Longrightarrow> before (word_of_nat x # u) (word_of_nat y # v)"
  by (rule beforeI) (simp add: word_less_nat_alt unat_word_of_nat_byte)

lemma varuint32_key:
  assumes "i < j"
  shows "before (concat (to_key_varuint32 i)) (concat (to_key_varuint32 j))"
proof (cases "num_bytes i = num_bytes j")
  case False
  then have "num_bytes i < num_bytes j"
    using num_bytes_mono [OF assms] by simp
  from before_of_nat [OF width_step [OF this] first_less] show ?thesis
    by (simp add: first_byte)
next
  case True
  let ?m = "num_bytes j - 1"
  have ij: "unat i < unat j"
    using assms by (simp add: word_less_nat_alt)
  have "high_part i \<le> high_part j"
    using True ij by (simp add: high_part_def div_le_mono)
  then consider "high_part i < high_part j" | "high_part i = high_part j"
    by linarith
  then show ?thesis
  proof cases
    case 1
    then have "width_bits (num_bytes i) + high_part i < width_bits (num_bytes j) + high_part j"
      using True by simp
    from before_of_nat [OF this first_less] show ?thesis
      by (simp add: first_byte True)
  next
    case 2
    have "unat i mod 256 ^ ?m < unat j mod 256 ^ ?m"
    proof (cases "num_bytes j = 5")
      case True
      then show ?thesis
        using ij unsigned_less [of i, where 'a = nat] unsigned_less [of j, where 'a = nat] by simp
    next
      case False
      with 2 True have "unat i div 256 ^ ?m = unat j div 256 ^ ?m"
        by (simp add: high_part_def)
      with ij show ?thesis
        by (metis div_mult_mod_eq nat_add_left_cancel_less)
    qed
    then have "before (rev (nat_le ?m (unat i mod 256 ^ ?m))) (rev (nat_le ?m (unat j mod 256 ^ ?m)))"
      by (rule before_big_endian) simp
    with 2 True show ?thesis
      by (simp add: first_byte nat_le_mod before_Cons)
  qed
qed

subsection \<open>Strings, options and ranges\<close>

lemma one_byte_enc: "one_byte t \<Longrightarrow> key_val t v \<Longrightarrow> length (concat (to_key t v)) = 1"
  by (cases t) (auto simp: one_byte_def to_key_integral_def to_key_bool_def split: val.splits)

lemma optional_key:
  assumes k: "key_encoding (\<lambda>v. concat (f v)) lt ok"
    and one: "\<And>v. byte \<Longrightarrow> ok v \<Longrightarrow> length (concat (f v)) = 1"
  shows "key_encoding (\<lambda>v. concat (to_key_optional byte f v)) (option_less lt) (pred_option ok)"
proof (rule key_encodingI)
  fix a b assume ab: "pred_option ok a" "pred_option ok b" "option_less lt a b"
  then obtain y where b: "b = Some y" and y: "ok y" by (cases b) auto
  show "before (concat (to_key_optional byte f a)) (concat (to_key_optional byte f b))"
  proof (cases byte)
    case False
    then show ?thesis
      using ab b key_lessD [OF k]
      by (cases a) (auto simp: to_key_optional_def intro: beforeI before_Cons)
  next
    case True
    then have "length (concat (f y)) = 1" using one y by simp
    then obtain c where c: "concat (f y) = [c]"
      by (auto simp: length_Suc_conv simp del: length_concat)
    show ?thesis
    proof (cases a)
      case None
      then show ?thesis
        using True b c by (auto simp: to_key_optional_def Let_def word_gt_0_iff intro!: beforeI before_Cons)
    next
      case (Some x)
      with ab b have "lt x y" "ok x" by auto
      have "length (concat (f x)) = 1" using one \<open>ok x\<close> True by simp
      then obtain d where d: "concat (f x) = [d]"
        by (auto simp: length_Suc_conv simp del: length_concat)
      have "before [d] [c]"
        using key_lessD [OF k \<open>ok x\<close> y \<open>lt x y\<close>] by (simp only: d c)
      then have "d < c"
        by (auto simp: before_def Cons_eq_append_conv)
      then show ?thesis
        using True Some b c d by (auto simp: to_key_optional_def Let_def intro!: beforeI)
    qed
  qed
next
  fix a b assume ab: "pred_option ok a" "pred_option ok b" "\<not> option_less lt a b" "\<not> option_less lt b a"
  show "concat (to_key_optional byte f a) = concat (to_key_optional byte f b)"
  proof (cases a)
    case None
    with ab have "b = None" by (cases b) auto
    with None show ?thesis by simp
  next
    case (Some x)
    with ab obtain y where b: "b = Some y" by (cases b) auto
    with Some ab have "concat (f x) = concat (f y)"
      by (intro key_equivD [OF k]) auto
    with Some b show ?thesis by (simp add: to_key_optional_def Let_def)
  qed
qed

lemma range_key:
  assumes k: "key_encoding (\<lambda>v. concat (g v)) (option_less lt) (pred_option ok)"
  shows "key_encoding (\<lambda>xs. concat (concat (map (\<lambda>x. g (Some x)) xs) @ g None)) (lex_less lt) (list_all ok)"
proof -
  let ?e = "\<lambda>xs. concat (concat (map (\<lambda>x. g (Some x)) xs) @ g None)"
  have *: "list_all ok xs \<Longrightarrow> list_all ok ys \<Longrightarrow>
      (lex_less lt xs ys \<longrightarrow> before (?e xs) (?e ys)) \<and>
      (\<not> lex_less lt xs ys \<and> \<not> lex_less lt ys xs \<longrightarrow> ?e xs = ?e ys)" for xs ys
  proof (induction xs arbitrary: ys)
    case Nil
    show ?case
    proof (cases ys)
      case (Cons y ys')
      with Nil have "before (concat (g None)) (concat (g (Some y)))"
        by (intro key_lessD [OF k]) auto
      from before_append_right [OF this, of "[]"] Cons show ?thesis by simp
    qed simp
  next
    case (Cons x xs)
    show ?case
    proof (cases ys)
      case Nil
      then show ?thesis by simp
    next
      case ys: (Cons y ys')
      with Cons.prems Cons.IH [of ys'] show ?thesis
        using key_encoding.enc_append [OF k, of "Some x" "Some y" "lex_less lt xs ys'" "?e xs" "?e ys'" "lex_less lt ys' xs"]
        by (simp; blast)
    qed
  qed
  show ?thesis
    by (rule key_encodingI) (use * in blast)+
qed

lemma array_key:
  assumes k: "key_encoding (\<lambda>v. concat (f v)) lt ok"
  shows "key_encoding (\<lambda>xs. concat (concat (map f xs))) (lex_less lt) (\<lambda>xs. length xs = n \<and> list_all ok xs)"
proof -
  let ?e = "\<lambda>xs. concat (concat (map f xs))"
  have *: "length xs = length ys \<Longrightarrow> list_all ok xs \<Longrightarrow> list_all ok ys \<Longrightarrow>
      (lex_less lt xs ys \<longrightarrow> before (?e xs) (?e ys)) \<and>
      (\<not> lex_less lt xs ys \<and> \<not> lex_less lt ys xs \<longrightarrow> ?e xs = ?e ys)" for xs ys
  proof (induction xs ys rule: list_induct2)
    case Nil
    show ?case by simp
  next
    case (Cons x xs y ys)
    then have "ok x" "ok y" and "(lex_less lt xs ys \<longrightarrow> before (?e xs) (?e ys)) \<and>
        (\<not> lex_less lt xs ys \<and> \<not> lex_less lt ys xs \<longrightarrow> ?e xs = ?e ys)"
      by simp_all
    from key_encoding.enc_append [OF k this] show ?case
      by (simp only: lex_less.simps list.map concat.simps concat_append)
  qed
  note less = * [THEN conjunct1, rule_format] and equiv = * [THEN conjunct2, rule_format]
  show ?thesis
    by (rule key_encodingI) (simp_all add: less equiv)
qed

lemma tuple_key:
  assumes "\<And>t. t \<in> set ts \<Longrightarrow> key_encoding (\<lambda>v. concat (f t v)) (lt t) (ok t)"
  shows "key_encoding (\<lambda>xs. concat (to_key_tuple (map f ts) xs)) (tuple_less (map lt ts))
    (list_all2 (\<lambda>p x. p x) (map ok ts))"
proof -
  have *: "list_all2 (\<lambda>p x. p x) (map ok ts) xs \<Longrightarrow> list_all2 (\<lambda>p x. p x) (map ok ts) ys \<Longrightarrow>
      (tuple_less (map lt ts) xs ys \<longrightarrow>
        before (concat (to_key_tuple (map f ts) xs)) (concat (to_key_tuple (map f ts) ys))) \<and>
      (\<not> tuple_less (map lt ts) xs ys \<and> \<not> tuple_less (map lt ts) ys xs \<longrightarrow>
        concat (to_key_tuple (map f ts) xs) = concat (to_key_tuple (map f ts) ys))" for xs ys
    using assms
  proof (induction ts arbitrary: xs ys)
    case Nil
    then show ?case by simp
  next
    case (Cons t ts)
    then obtain x xs' y ys' where xy: "xs = x # xs'" "ys = y # ys'" "ok t x" "ok t y"
      by (auto simp: list_all2_Cons1)
    have k: "key_encoding (\<lambda>v. concat (f t v)) (lt t) (ok t)"
      using Cons.prems(3) by simp
    show ?case
      using xy Cons.prems Cons.IH [of xs' ys'] key_encoding.enc_append [OF k xy(3,4),
          of "tuple_less (map lt ts) xs' ys'" "concat (to_key_tuple (map f ts) xs')"
             "concat (to_key_tuple (map f ts) ys')" "tuple_less (map lt ts) ys' xs'"]
      by (simp; blast)
  qed
  show ?thesis
    by (rule key_encodingI) (use * in blast)+
qed

lemma string_range: "concat (to_key_string s) =
  concat (concat (map (\<lambda>x. to_key_optional True (\<lambda>c. [[c]]) (Some x)) s) @ to_key_optional True (\<lambda>c. [[c]]) None)"
  by (induction s) (auto simp: to_key_optional_def)

subsection \<open>All types\<close>

lemma variant_key:
  assumes "\<And>t. t \<in> set ts \<Longrightarrow> key_encoding (\<lambda>v. concat (to_key t v)) (val_less t) (key_val t)"
  shows "key_encoding (\<lambda>v. concat (to_key (KVariant ts) v)) (val_less (KVariant ts)) (key_val (KVariant ts))"
proof (rule key_encodingI)
  fix a b assume "key_val (KVariant ts) a" "key_val (KVariant ts) b" and l: "val_less (KVariant ts) a b"
  then obtain i x j y where a: "a = VVariant i x" "i < length ts" "i < 2 ^ 32" "key_val (ts ! i) x"
    and b: "b = VVariant j y" "j < length ts" "j < 2 ^ 32" "key_val (ts ! j) y"
    by (auto split: val.splits)
  show "before (concat (to_key (KVariant ts) a)) (concat (to_key (KVariant ts) b))"
  proof (cases "i < j")
    case True
    then have "(word_of_nat i :: u32) < word_of_nat j"
      using a(3) b(3) by (simp add: word_less_nat_alt unat_of_nat)
    from varuint32_key [OF this] show ?thesis
      using a b by (simp add: to_key_variant_def var_index_def before_append_right)
  next
    case False
    with l a b have "i = j" "val_less (ts ! i) x y"
      by (auto simp: var_index_def var_val_def)
    moreover from this have "before (concat (to_key (ts ! i) x)) (concat (to_key (ts ! i) y))"
      using a b by (intro key_lessD [OF assms]) auto
    ultimately show ?thesis
      using a b by (simp add: to_key_variant_def var_index_def var_val_def before_append_left)
  qed
next
  fix a b assume "key_val (KVariant ts) a" "key_val (KVariant ts) b"
    and l: "\<not> val_less (KVariant ts) a b" "\<not> val_less (KVariant ts) b a"
  then obtain i x j y where a: "a = VVariant i x" "i < length ts" "key_val (ts ! i) x"
    and b: "b = VVariant j y" "j < length ts" "key_val (ts ! j) y"
    by (auto split: val.splits)
  with l have "i = j" "\<not> val_less (ts ! i) x y" "\<not> val_less (ts ! i) y x"
    by (auto simp: var_index_def var_val_def)
  moreover from this have "concat (to_key (ts ! i) x) = concat (to_key (ts ! i) y)"
    using a b by (intro key_equivD [OF assms]) auto
  ultimately show "concat (to_key (KVariant ts) a) = concat (to_key (KVariant ts) b)"
    using a b by (simp add: to_key_variant_def var_index_def var_val_def)
qed

lemma key_encoding_on:
  assumes "key_encoding enc lt ok" and "\<And>v. ok' v \<Longrightarrow> ok (f v)"
  shows "key_encoding (\<lambda>v. enc (f v)) (\<lambda>a b. lt (f a) (f b)) ok'"
  using assms by (auto simp: key_encoding_def)

lemma key_val_as:
  "key_val (KVector t) v \<Longrightarrow> list_all (key_val t) (as_seq v)"
  "key_val (KArray n t) v \<Longrightarrow> length (as_seq v) = n \<and> list_all (key_val t) (as_seq v)"
  "key_val (KOptional t) v \<Longrightarrow> pred_option (key_val t) (as_opt v)"
  "key_val (KTuple ts) v \<Longrightarrow> list_all2 (\<lambda>p x. p x) (map key_val ts) (as_tuple v)"
  by (auto simp: as_seq_def as_opt_def as_tuple_def split: val.splits)

lemma to_key_encoding: "key_encoding (\<lambda>v. concat (to_key t v)) (val_less t) (key_val t)"
proof (induction t)
  case (KInt n sg)
  show ?case by (rule integral_key)
next
  case KBool
  show ?case by (rule bool_key)
next
  case (KFloat n)
  show ?case by (rule float_key)
next
  case KString
  have "key_encoding (\<lambda>c. concat [[c]]) (<) (\<lambda>_. True)"
    by (rule key_encodingI) (auto intro: beforeI)
  then have "key_encoding (\<lambda>v. concat (to_key_optional True (\<lambda>c. [[c]]) v)) (option_less (<)) (pred_option (\<lambda>_. True))"
    by (rule optional_key) simp
  from key_encoding_on [OF range_key [OF this], of "key_val KString" as_string]
  have "key_encoding (\<lambda>v. concat (to_key_string (as_string v)))
      (\<lambda>a b. lex_less (<) (as_string a) (as_string b)) (key_val KString)"
    unfolding string_range by (simp add: list_all_iff)
  then show ?case by (simp only: to_key.simps val_less.simps)
next
  case (KVector t)
  have "key_encoding (\<lambda>v. concat (to_key_optional (one_byte t) (to_key t) v)) (option_less (val_less t)) (pred_option (key_val t))"
    by (rule optional_key [OF KVector.IH]) (rule one_byte_enc)
  from key_encoding_on [OF range_key [OF this] key_val_as(1)]
  show ?case by (simp only: to_key.simps val_less.simps to_key_range_def)
next
  case (KOptional t)
  have "key_encoding (\<lambda>v. concat (to_key_optional (one_byte t) (to_key t) v)) (option_less (val_less t)) (pred_option (key_val t))"
    by (rule optional_key [OF KOptional.IH]) (rule one_byte_enc)
  from key_encoding_on [OF this key_val_as(3)]
  show ?case by (simp only: to_key.simps val_less.simps)
next
  case (KVariant ts)
  then show ?case by (rule variant_key)
next
  case (KTuple ts)
  from key_encoding_on [OF tuple_key [OF KTuple.IH] key_val_as(4)]
  show ?case by (simp only: to_key.simps val_less.simps)
next
  case (KArray n t)
  from key_encoding_on [OF array_key [OF KArray.IH] key_val_as(2)]
  show ?case by (simp only: to_key.simps val_less.simps)
qed

interpretation tk: key_encoding "\<lambda>v. concat (to_key t v)" "val_less t" "key_val t" for t
  by (rule to_key_encoding)

section \<open>Properties\<close>

text \<open>
  C3 (order): for all values of a type, the byte-wise order of their keys is their own order,
  and a key is a prefix of another only when the values are equivalent and the keys equal.
\<close>

theorem key_order:
  assumes "key_val t a" and "key_val t b"
  shows "\<exists>ka kb. convert_to_key t a [] = Inr ka \<and> convert_to_key t b [] = Inr kb \<and>
    (ord_class.lexordp ka kb \<longleftrightarrow> val_less t a b) \<and>
    ((\<exists>zs. kb = ka @ zs) \<longrightarrow> ka = kb \<and> \<not> val_less t a b \<and> \<not> val_less t b a)"
  using tk.enc_iff [OF assms] tk.enc_prefix_free [OF assms]
  by (auto simp: convert_to_key_def two_pass_concat)

theorem key_order_witness:
  "\<exists>ka kb.
     convert_to_key (KTuple [KInt 2 True, KVector (KInt 1 False)])
       (VTuple [VInt 0xFFFE, VSeq [VInt 0]]) [] = Inr ka \<and>
     convert_to_key (KTuple [KInt 2 True, KVector (KInt 1 False)])
       (VTuple [VInt 0xFFFE, VSeq [VInt 0, VInt 0]]) [] = Inr kb \<and>
    (ord_class.lexordp ka kb \<longleftrightarrow> val_less (KTuple [KInt 2 True, KVector (KInt 1 False)])
       (VTuple [VInt 0xFFFE, VSeq [VInt 0]]) (VTuple [VInt 0xFFFE, VSeq [VInt 0, VInt 0]])) \<and>
    ((\<exists>zs. kb = ka @ zs) \<longrightarrow> ka = kb \<and>
      \<not> val_less (KTuple [KInt 2 True, KVector (KInt 1 False)])
         (VTuple [VInt 0xFFFE, VSeq [VInt 0]]) (VTuple [VInt 0xFFFE, VSeq [VInt 0, VInt 0]]) \<and>
      \<not> val_less (KTuple [KInt 2 True, KVector (KInt 1 False)])
         (VTuple [VInt 0xFFFE, VSeq [VInt 0, VInt 0]]) (VTuple [VInt 0xFFFE, VSeq [VInt 0]]))"
  by (rule key_order) simp_all

end
