(* ===== verification/Clio_Name.thy ===== *)
theory Clio_Name
  imports Clio_Prelude
begin

text \<open>
  Names: the 64-bit numbers of name.hpp that hold up to twelve characters of five bits and a
  thirteenth of four, their strict parser in get_type_name.hpp, and the hash of murmur.hpp that
  \<^verbatim>\<open>hash_name\<close> falls back to when a string is not a name.

  The round trips between text and number are shown through the sequence of digits a name holds.
\<close>

section \<open>Names and text\<close>

definition dot :: byte where
  "dot = 46"

definition charmap :: "byte list" where
  "charmap = bytes_of ''.12345abcdefghijklmnopqrstuvwxyz''"

text \<open>
  The loop of \<^verbatim>\<open>name_to_string\<close>: the state is \<^verbatim>\<open>tmp\<close> and the string under construction.
\<close>

definition name_to_string_step :: "nat \<Rightarrow> u64 \<times> byte list \<Rightarrow> u64 \<times> byte list" where
  "name_to_string_step i st =
     (case st of (tmp, str) \<Rightarrow>
        let c = charmap ! unat (tmp AND (if i = 0 then 0x0f else 0x1f))
        in (drop_bit (if i = 0 then 4 else 5) tmp, str[12 - i := c]))"

definition rstrip :: "byte list \<Rightarrow> byte list" where
  "rstrip s = rev (dropWhile (\<lambda>c. c = dot) (rev s))"

definition name_to_string :: "u64 \<Rightarrow> byte list" where
  "name_to_string name =
     rstrip (snd (fold name_to_string_step [0..<13] (name, replicate 13 dot)))"

definition char_to_name_digit :: "byte \<Rightarrow> u64" where
  "char_to_name_digit c =
     (if c \<ge> 97 \<and> c \<le> 122 then ucast (c - 97) + 6
      else if c \<ge> 49 \<and> c \<le> 53 then ucast (c - 49) + 1
      else 0)"

fun string_to_name_loop :: "nat \<Rightarrow> u64 \<Rightarrow> byte list \<Rightarrow> u64" where
  "string_to_name_loop i name [] = name"
| "string_to_name_loop i name (c # str) =
     (if i < 12
      then string_to_name_loop (Suc i)
             (name OR push_bit (64 - 5 * (i + 1)) (char_to_name_digit c AND 0x1f)) str
      else name OR (char_to_name_digit c AND 0x0f))"

definition string_to_name :: "byte list \<Rightarrow> u64" where
  "string_to_name str = string_to_name_loop 0 0 str"

definition char_to_name_digit_strict :: "byte \<Rightarrow> u64 option" where
  "char_to_name_digit_strict c =
     (if c \<ge> 97 \<and> c \<le> 122 then Some (ucast (c - 97) + 6)
      else if c \<ge> 49 \<and> c \<le> 53 then Some (ucast (c - 49) + 1)
      else if c = dot then Some 0
      else None)"

text \<open>
  The result is the returned flag and the value left in the reference parameter. The branch at
  position 12 also decides the final test that the string has ended.
\<close>

fun string_to_name_strict_loop :: "nat \<Rightarrow> u64 \<Rightarrow> byte list \<Rightarrow> bool \<times> u64" where
  "string_to_name_strict_loop i name [] = (True, name)"
| "string_to_name_strict_loop i name (c # str) =
     (if i < 12 then
        (case char_to_name_digit_strict c of
           None \<Rightarrow> (False, name)
         | Some x \<Rightarrow>
             string_to_name_strict_loop (Suc i) (name OR push_bit (64 - 5 * (i + 1)) (x AND 0x1f)) str)
      else if i = 12 then
        (case char_to_name_digit_strict c of
           None \<Rightarrow> (False, name)
         | Some x \<Rightarrow> if x \<noteq> x AND 0xf then (False, name) else (str = [], name OR x))
      else (False, name))"

definition string_to_name_strict :: "byte list \<Rightarrow> bool \<times> u64" where
  "string_to_name_strict str = string_to_name_strict_loop 0 0 str"

record name =
  name_value :: u64

text \<open>The constructor from text keeps whatever the parser left when it fails.\<close>

definition name_of_string :: "byte list \<Rightarrow> name" where
  "name_of_string str = \<lparr>name_value = snd (string_to_name_strict str)\<rparr>"

definition char_to_value :: "byte \<Rightarrow> byte" where
  "char_to_value c =
     (if c = dot then 0
      else if c \<ge> 49 \<and> c \<le> 53 then (c - 49) + 1
      else if c \<ge> 97 \<and> c \<le> 122 then (c - 97) + 6
      else 0)"

definition name_length_step :: "nat \<Rightarrow> u64 \<times> nat \<Rightarrow> u64 \<times> nat" where
  "name_length_step i st =
     (case st of (v, l) \<Rightarrow>
        (push_bit 5 v, if v AND 0xF800000000000000 > 0 then i else l))"

definition name_length :: "name \<Rightarrow> nat" where
  "name_length n =
     (if name_value n = 0 then 0 else snd (fold name_length_step [0..<13] (name_value n, 0)) + 1)"

text \<open>\<^verbatim>\<open>suffix\<close>: the loop runs over the bit offsets 59, 54, ..., 4.\<close>

definition suffix_step :: "u64 \<Rightarrow> nat \<Rightarrow> nat \<times> nat \<Rightarrow> nat \<times> nat" where
  "suffix_step v remaining_bits st =
     (case st of (last_dot, tmp) \<Rightarrow>
        if drop_bit remaining_bits v AND 0x1F = 0 then (last_dot, remaining_bits) else (tmp, tmp))"

definition name_suffix :: "name \<Rightarrow> name" where
  "name_suffix n =
     (let v = name_value n;
          (rb, tmp) = fold (suffix_step v) (map (\<lambda>i. 59 - 5 * i) [0..<12]) (0, 0);
          thirteenth = v AND 0x0F;
          rb = (if thirteenth \<noteq> 0 then tmp else rb)
      in if rb = 0 then n
         else let mask = push_bit rb 1 - 16;
                  shift = 64 - rb
              in \<lparr>name_value = push_bit shift (v AND mask) + push_bit (shift - 1) thirteenth\<rparr>)"

text \<open>\<^verbatim>\<open>prefix\<close>: from offset 0 over 4, 9, ..., 59; the break is the early result.\<close>

fun prefix_loop :: "u64 \<Rightarrow> bool \<Rightarrow> nat list \<Rightarrow> u64" where
  "prefix_loop v seen [] = v"
| "prefix_loop v seen (offset # offsets) =
     (if drop_bit offset v AND (if offset = 0 then 0xF else 0x1F) = 0
      then if seen then push_bit offset (drop_bit offset v) else prefix_loop v seen offsets
      else prefix_loop v True offsets)"

definition name_prefix :: "name \<Rightarrow> name" where
  "name_prefix n = \<lparr>name_value = prefix_loop (name_value n) False (0 # map (\<lambda>i. 4 + 5 * i) [0..<12])\<rparr>"

section \<open>Hashing\<close>

text \<open>\<^verbatim>\<open>p[i]\<close> is a signed char that is converted to 64 bits by the OR.\<close>

definition unaligned_load :: "byte list \<Rightarrow> u64" where
  "unaligned_load p = fold (\<lambda>c r. push_bit 8 (r OR scast c)) (take 8 p) 0"

definition load_bytes :: "byte list \<Rightarrow> u64" where
  "load_bytes p = foldr (\<lambda>c r. push_bit 8 r + ucast c) p 0"

definition shift_mix :: "u64 \<Rightarrow> u64" where
  "shift_mix v = v XOR drop_bit 47 v"

definition murmur_mul :: u64 where
  "murmur_mul = push_bit 32 0xc6a4a793 + 0x5bd1e995"

fun murmur_blocks :: "nat \<Rightarrow> byte list \<Rightarrow> u64 \<Rightarrow> u64" where
  "murmur_blocks 0 p hash = hash"
| "murmur_blocks (Suc n) p hash =
     murmur_blocks n (drop 8 p)
       ((hash XOR (shift_mix (unaligned_load p * murmur_mul) * murmur_mul)) * murmur_mul)"

definition murmur64 :: "byte list \<Rightarrow> u64 \<Rightarrow> u64" where
  "murmur64 ptr seed =
     (let len = length ptr;
          blocks = len div 8;
          hash = seed XOR (word_of_nat len * murmur_mul);
          hash = murmur_blocks blocks ptr hash;
          hash = (if len mod 8 \<noteq> 0
                  then (hash XOR load_bytes (drop (8 * blocks) ptr)) * murmur_mul else hash);
          hash = shift_mix hash * murmur_mul
      in shift_mix hash)"

definition hash_name :: "byte list \<Rightarrow> u64" where
  "hash_name str =
     (case string_to_name_strict str of (ok, r) \<Rightarrow> if \<not> ok then murmur64 str 0xbadd00d00 else r)"

section \<open>The digits of a name\<close>

definition dig :: "u64 \<Rightarrow> nat \<Rightarrow> u64" where
  "dig n j = (if j < 12 then take_bit 5 (drop_bit (59 - 5 * j) n) else take_bit 4 n)"

definition name_char :: "u64 \<Rightarrow> nat \<Rightarrow> byte" where
  "name_char n j = charmap ! unat (dig n j)"

lemma digit_char_table:
  "list_all (\<lambda>d. char_to_name_digit_strict (charmap ! d) = Some (word_of_nat d) \<and>
      (charmap ! d = dot \<longleftrightarrow> d = 0)) [0..<32]"
  by (simp add: upt_rec charmap_def char_to_name_digit_strict_def dot_def)

lemma unat_dig_less: "unat (dig n j) < 32"
proof -
  have "unat n mod 16 < 32"
    by (rule less_trans [of _ 16]) simp_all
  then show ?thesis
    by (simp add: dig_def unat_take_bit_mod)
qed

lemma name_char_digit: "char_to_name_digit_strict (name_char n j) = Some (dig n j)"
  and name_char_dot: "name_char n j = dot \<longleftrightarrow> dig n j = 0"
proof -
  have "unat (dig n j) \<in> set [0..<32]"
    using unat_dig_less [of n j] by simp
  with digit_char_table show "char_to_name_digit_strict (name_char n j) = Some (dig n j)"
    "name_char n j = dot \<longleftrightarrow> dig n j = 0"
    unfolding list_all_iff name_char_def by (fastforce simp: unat_eq_0)+
qed

lemma digit_table:
  "list_all (\<lambda>k. case char_to_name_digit_strict (word_of_nat k) of None \<Rightarrow> True
      | Some x \<Rightarrow> x = x AND 0x1f \<and> charmap ! unat x = word_of_nat k) ([97..<123] @ [49..<54] @ [46])"
  by (simp add: upt_rec charmap_def char_to_name_digit_strict_def dot_def word_le_nat_alt)

lemma strict_digit:
  assumes "char_to_name_digit_strict c = Some x"
  shows "take_bit 5 x = x" and "charmap ! unat x = c" and "char_to_name_digit c = x"
proof -
  have "97 \<le> unat c \<and> unat c \<le> 122 \<or> 49 \<le> unat c \<and> unat c \<le> 53 \<or> unat c = 46"
    using assms
    by (auto simp: char_to_name_digit_strict_def dot_def word_le_nat_alt split: if_splits)
  then have "unat c \<in> {97..<123} \<union> ({49..<54} \<union> {46})"
    by auto
  then have "unat c \<in> set ([97..<123] @ [49..<54] @ [46])"
    by (simp only: set_append set_upt list.set)
  moreover have "word_of_nat (unat c) = c"
    by simp
  ultimately show "take_bit 5 x = x" "charmap ! unat x = c"
    using digit_table assms unfolding list_all_iff and_mask_eq by fastforce+
  show "char_to_name_digit c = x"
    using assms by (auto simp: char_to_name_digit_strict_def char_to_name_digit_def split: if_splits)
qed

subsection \<open>From the number to the text\<close>

definition name_chars :: "u64 \<Rightarrow> byte list" where
  "name_chars n = map (name_char n) [0..<13]"

lemma name_to_string_fold:
  "k \<le> 13 \<Longrightarrow> fold name_to_string_step [0..<k] (n, replicate 13 dot) =
     (drop_bit (5 * k - 1) n, replicate (13 - k) dot @ map (name_char n) [13 - k..<13])"
proof (induction k)
  case 0
  then show ?case by simp
next
  case (Suc k)
  have c: "charmap ! unat (drop_bit (5 * k - 1) n AND (if k = 0 then 0x0f else 0x1f)) = name_char n (12 - k)"
  proof (cases "k = 0")
    case False
    then have "59 - 5 * (12 - k) = 5 * k - 1" "12 - k < 12"
      using Suc.prems by simp_all
    with False show ?thesis
      by (simp add: name_char_def dig_def and_mask_eq)
  qed (simp add: name_char_def dig_def and_mask_eq)
  have d: "drop_bit (if k = 0 then 4 else 5) (drop_bit (5 * k - 1) n) = drop_bit (5 * Suc k - 1) n"
    by simp
  have "13 - k = Suc (12 - k)"
    using Suc.prems by simp
  then have r: "replicate (13 - k) dot = replicate (12 - k) dot @ [dot]"
    by (simp only: replicate_Suc replicate_append_same [symmetric])
  have u: "map (name_char n) [13 - Suc k..<13] = name_char n (12 - k) # map (name_char n) [13 - k..<13]"
    using Suc.prems \<open>13 - k = Suc (12 - k)\<close> by (subst upt_conv_Cons) simp_all
  have "fold name_to_string_step [0..<Suc k] (n, replicate 13 dot)
      = name_to_string_step k (drop_bit (5 * k - 1) n, replicate (12 - k) dot @ dot # map (name_char n) [13 - k..<13])"
    using Suc.IH Suc.prems r by simp
  also have "\<dots> = (drop_bit (5 * Suc k - 1) n,
      (replicate (12 - k) dot @ dot # map (name_char n) [13 - k..<13])[12 - k := name_char n (12 - k)])"
    by (simp only: name_to_string_step_def prod.case Let_def c d)
  also have "\<dots> = (drop_bit (5 * Suc k - 1) n, replicate (13 - Suc k) dot @ map (name_char n) [13 - Suc k..<13])"
    by (simp only: u) (simp add: list_update_append)
  finally show ?case .
qed

lemma name_to_string_chars: "name_to_string n = rstrip (name_chars n)"
  using name_to_string_fold [of 13 n] by (simp add: name_to_string_def name_chars_def)

lemma rstrip_snoc: "rstrip (s @ [c]) = (if c = dot then rstrip s else s @ [c])"
  by (simp add: rstrip_def)

lemma rstrip_append_dots: "rstrip (s @ replicate k dot) = rstrip s"
proof (induction k arbitrary: s)
  case (Suc k)
  from Suc [of "s @ [dot]"] show ?case
    by (simp add: rstrip_snoc)
qed simp

lemma rstrip_split: "\<exists>k. s = rstrip s @ replicate k dot"
proof (induction s rule: rev_induct)
  case Nil
  then show ?case by (simp add: rstrip_def)
next
  case (snoc c s)
  then obtain k where "s = rstrip s @ replicate k dot" ..
  then have "s @ [dot] = rstrip s @ replicate (Suc k) dot"
    by (metis append_assoc replicate_Suc replicate_append_same)
  then show ?case
    using rstrip_snoc [of s c] by (metis append_Nil2 replicate_0)
qed

lemma strict_loop_dots:
  "i + length s + k \<le> 13 \<Longrightarrow>
     string_to_name_strict_loop i name (s @ replicate k dot) = string_to_name_strict_loop i name s"
proof (induction s arbitrary: i name)
  case Nil
  have z: "char_to_name_digit_strict dot = Some 0"
    by (simp add: char_to_name_digit_strict_def dot_def)
  from Nil show ?case
    by (induction k arbitrary: i) (auto simp: z)
next
  case (Cons c s)
  then show ?case
    by (auto split: option.splits)
qed

lemma join_digit:
  fixes n :: u64
  shows "push_bit (a + k) (drop_bit (a + k) n) OR push_bit a (take_bit k (drop_bit a n)) = push_bit a (drop_bit a n)"
proof (rule bit_word_eqI)
  fix m
  consider "m < a" | "a \<le> m" "m < a + k" | "a + k \<le> m" by linarith
  then show "bit (push_bit (a + k) (drop_bit (a + k) n) OR push_bit a (take_bit k (drop_bit a n))) m
      = bit (push_bit a (drop_bit a n)) m"
    by cases (auto simp: bit_or_iff bit_push_bit_iff bit_take_bit_iff bit_drop_bit_eq)
qed

lemma strict_loop_chars:
  "i \<le> 12 \<Longrightarrow> string_to_name_strict_loop i (push_bit (64 - 5 * i) (drop_bit (64 - 5 * i) n))
     (map (name_char n) [i..<13]) = (True, n)"
proof (induction "12 - i" arbitrary: i)
  case 0
  then have "i = 12" by simp
  moreover have "push_bit 4 (drop_bit 4 n) OR take_bit 4 n = n"
    using join_digit [of 0 4 n] by simp
  ultimately show ?case
    by (simp add: upt_rec name_char_digit dig_def and_mask_eq)
next
  case (Suc d)
  then have i: "i < 12" "Suc i \<le> 12" "d = 12 - Suc i" by simp_all
  have "push_bit (64 - 5 * i) (drop_bit (64 - 5 * i) n) OR push_bit (59 - 5 * i) (take_bit 5 (drop_bit (59 - 5 * i) n))
      = push_bit (59 - 5 * i) (drop_bit (59 - 5 * i) n)"
    using join_digit [of "59 - 5 * i" 5 n] i by simp
  with Suc.hyps(1) [OF i(3,2)] i show ?case
    by (subst upt_conv_Cons) (simp_all add: name_char_digit dig_def and_mask_eq)
qed

lemma strict_name_to_string: "string_to_name_strict (name_to_string n) = (True, n)"
proof -
  obtain k where k: "name_chars n = name_to_string n @ replicate k dot"
    using rstrip_split [of "name_chars n"] by (auto simp: name_to_string_chars)
  have len: "length (name_chars n) = 13"
    by (simp add: name_chars_def)
  have "string_to_name_strict (name_to_string n) = string_to_name_strict (name_chars n)"
    using k len strict_loop_dots [of 0 "name_to_string n" k 0] by (simp add: string_to_name_strict_def)
  also have "\<dots> = (True, n)"
    using strict_loop_chars [of 0 n] by (simp add: string_to_name_strict_def name_chars_def drop_bit_eq_div)
  finally show ?thesis .
qed

subsection \<open>From the text to the number\<close>

text \<open>\<^verbatim>\<open>low_zero n k\<close>: the digits from position k on are still empty.\<close>

definition low_zero :: "u64 \<Rightarrow> nat \<Rightarrow> bool" where
  "low_zero n k \<longleftrightarrow> take_bit (64 - 5 * k) n = 0"

lemma low_zero_bit: "low_zero n k \<Longrightarrow> m < 64 - 5 * k \<Longrightarrow> \<not> bit n m"
  unfolding low_zero_def by (metis bit_0_eq bit_take_bit_iff bot_apply bot_bool_def)

lemma dig_low_zero:
  assumes "low_zero n k" and "k \<le> j" and "j \<le> 12" and "k \<le> 12"
  shows "dig n j = 0"
proof (rule bit_word_eqI)
  fix m assume "m < LENGTH(64)"
  show "bit (dig n j) m = bit (0 :: u64) m"
  proof (cases "j < 12")
    case True
    have "\<not> bit n (59 - 5 * j + m)" if "m < 5"
      using low_zero_bit [OF assms(1), of "59 - 5 * j + m"] assms True that by simp
    with True show ?thesis
      by (auto simp: dig_def bit_take_bit_iff bit_drop_bit_eq)
  next
    case False
    have "\<not> bit n m" if "m < 4"
      using low_zero_bit [OF assms(1), of m] assms that by simp
    with False show ?thesis
      by (auto simp: dig_def bit_take_bit_iff)
  qed
qed

lemma put_digit:
  assumes "low_zero n k" and "k < 12" and "take_bit 5 x = x"
  defines "n' \<equiv> n OR push_bit (59 - 5 * k) x"
  shows "low_zero n' (Suc k)" and "dig n' k = x" and "j < k \<Longrightarrow> dig n' j = dig n j"
proof -
  have x: "bit x m \<Longrightarrow> m < 5" for m
    using assms(3) by (metis bit_take_bit_iff)
  have b: "bit n' m \<longleftrightarrow> bit n m \<or> (59 - 5 * k \<le> m \<and> m < 64 \<and> bit x (m - (59 - 5 * k)))" for m
    by (auto simp: n'_def bit_or_iff bit_push_bit_iff)
  show "low_zero n' (Suc k)"
    unfolding low_zero_def
  proof (rule bit_word_eqI)
    fix m
    show "bit (take_bit (64 - 5 * Suc k) n') m = bit (0 :: u64) m"
      using low_zero_bit [OF assms(1), of m] assms(2) by (auto simp: bit_take_bit_iff b)
  qed
  show "dig n' k = x"
  proof (rule bit_word_eqI)
    fix m
    have "\<not> bit n (59 - 5 * k + m)" if "m < 5"
      by (rule low_zero_bit [OF assms(1)]) (use that assms(2) in simp)
    then show "bit (dig n' k) m = bit x m"
      using assms(2) x [of m] by (auto simp: dig_def bit_take_bit_iff bit_drop_bit_eq b)
  qed
  show "dig n' j = dig n j" if "j < k"
  proof (rule bit_word_eqI)
    fix m
    show "bit (dig n' j) m = bit (dig n j) m"
      using that assms(2) x [of "59 - 5 * j + m - (59 - 5 * k)"]
      by (auto simp: dig_def bit_take_bit_iff bit_drop_bit_eq b)
  qed
qed

lemma put_last_digit:
  assumes "low_zero n 12" and "take_bit 4 x = x"
  shows "dig (n OR x) 12 = x" and "j < 12 \<Longrightarrow> dig (n OR x) j = dig n j"
proof -
  have x: "bit x m \<Longrightarrow> m < 4" for m
    using assms(2) by (metis bit_take_bit_iff)
  show "dig (n OR x) 12 = x"
  proof (rule bit_word_eqI)
    fix m
    show "bit (dig (n OR x) 12) m = bit x m"
      using low_zero_bit [OF assms(1), of m] x [of m] by (auto simp: dig_def bit_take_bit_iff bit_or_iff)
  qed
  show "dig (n OR x) j = dig n j" if "j < 12"
  proof (rule bit_word_eqI)
    fix m
    show "bit (dig (n OR x) j) m = bit (dig n j) m"
      using that x [of "59 - 5 * j + m"] by (auto simp: dig_def bit_take_bit_iff bit_drop_bit_eq bit_or_iff)
  qed
qed

lemma strict_loop_digits:
  assumes "string_to_name_strict_loop i n s = (True, v)" and "low_zero n i" and "i \<le> 12"
  shows "i + length s \<le> 13 \<and> (\<forall>j < i. dig v j = dig n j) \<and>
    (\<forall>j < length s. name_char v (i + j) = s ! j) \<and>
    (\<forall>j. i + length s \<le> j \<and> j \<le> 12 \<longrightarrow> dig v j = 0)"
  using assms
proof (induction s arbitrary: i n)
  case Nil
  then show ?case
    using dig_low_zero by auto
next
  case (Cons c s)
  then obtain x where c: "char_to_name_digit_strict c = Some x"
    by (auto split: if_splits option.splits)
  note x = strict_digit [OF c]
  show ?case
  proof (cases "i < 12")
    case True
    let ?n = "n OR push_bit (59 - 5 * i) x"
    have "string_to_name_strict_loop (Suc i) ?n s = (True, v)"
      using Cons.prems(1) True c x(1) by (simp add: and_mask_eq)
    from Cons.IH [OF this put_digit(1) [OF Cons.prems(2) True x(1)]] True
    have ih: "Suc i + length s \<le> 13" "\<forall>j < Suc i. dig v j = dig ?n j"
      "\<forall>j < length s. name_char v (Suc i + j) = s ! j"
      "\<forall>j. Suc i + length s \<le> j \<and> j \<le> 12 \<longrightarrow> dig v j = 0"
      by simp_all
    have "name_char v i = c"
      using ih(2) put_digit(2) [OF Cons.prems(2) True x(1)] x(2) by (simp add: name_char_def)
    with ih(3) have "\<forall>j < length (c # s). name_char v (i + j) = (c # s) ! j"
      by (auto simp: less_Suc_eq_0_disj)
    then show ?thesis
      using ih put_digit(3) [OF Cons.prems(2) True x(1)] by auto
  next
    case False
    with Cons.prems have i: "i = 12" "s = []" "v = n OR x" "take_bit 4 x = x"
      using c by (auto simp: and_mask_eq split: if_splits)
    note put = put_last_digit [OF Cons.prems(2) [unfolded i(1)] i(4)]
    have "name_char v 12 = c"
      using put(1) x(2) i(3) by (simp add: name_char_def)
    with i put(2) show ?thesis by auto
  qed
qed

lemma name_to_string_strict:
  assumes "string_to_name_strict s = (True, v)"
  shows "name_to_string v = rstrip s"
proof -
  note d = strict_loop_digits [of 0 0 s v, folded string_to_name_strict_def, OF assms]
  have len: "length s \<le> 13" and ch: "\<And>j. j < length s \<Longrightarrow> name_char v j = s ! j"
    and z: "\<And>j. length s \<le> j \<Longrightarrow> j < 13 \<Longrightarrow> name_char v j = dot"
    using d by (auto simp: low_zero_def name_char_dot)
  have "name_chars v = s @ replicate (13 - length s) dot"
  proof (rule nth_equalityI)
    show "length (name_chars v) = length (s @ replicate (13 - length s) dot)"
      using len by (simp add: name_chars_def)
    fix j assume "j < length (name_chars v)"
    then show "name_chars v ! j = (s @ replicate (13 - length s) dot) ! j"
      using ch z by (simp add: name_chars_def nth_append del: upt_Suc)
  qed
  then show ?thesis
    by (simp add: name_to_string_chars rstrip_append_dots)
qed

lemma string_to_name_agrees:
  "string_to_name_strict_loop i n s = (True, v) \<Longrightarrow> string_to_name_loop i n s = v"
proof (induction s arbitrary: i n)
  case Nil
  then show ?case by simp
next
  case (Cons c s)
  then show ?case
    using strict_digit(3) [of c] by (auto split: if_splits option.splits)
qed

subsection \<open>Length\<close>

lemma top_digit:
  assumes "k < 13"
  shows "push_bit (5 * k) n AND 0xF800000000000000 > 0 \<longleftrightarrow> dig n k \<noteq> 0"
proof -
  have m: "(0xF800000000000000 :: u64) = push_bit 59 (mask 5)"
    by (simp add: mask_eq_exp_minus_1)
  have mb: "bit (0xF800000000000000 :: u64) b \<longleftrightarrow> 59 \<le> b \<and> b < 64" for b
    unfolding m by (auto simp: bit_push_bit_iff bit_mask_iff)
  have "push_bit (5 * k) n AND 0xF800000000000000 = (0 :: u64) \<longleftrightarrow>
      (\<forall>b. 59 \<le> b \<and> b < 64 \<longrightarrow> \<not> (5 * k \<le> b \<and> bit n (b - 5 * k)))"
    by (auto simp: bit_eq_iff [of _ "0 :: u64"] bit_and_iff mb bit_push_bit_iff simp del: bit_numeral_word_iff)
  also have "\<dots> \<longleftrightarrow> dig n k = 0"
  proof (cases "k < 12")
    case True
    have "(\<forall>b. 59 \<le> b \<and> b < 64 \<longrightarrow> \<not> (5 * k \<le> b \<and> bit n (b - 5 * k))) \<longleftrightarrow>
        (\<forall>m. m < 5 \<longrightarrow> \<not> bit n (59 - 5 * k + m))"
    proof (intro iffI allI impI)
      fix m :: nat assume "\<forall>b. 59 \<le> b \<and> b < 64 \<longrightarrow> \<not> (5 * k \<le> b \<and> bit n (b - 5 * k))" "m < 5"
      with True show "\<not> bit n (59 - 5 * k + m)"
        by (auto dest: spec [of _ "59 + m"])
    next
      fix b :: nat assume "\<forall>m. m < 5 \<longrightarrow> \<not> bit n (59 - 5 * k + m)" "59 \<le> b \<and> b < 64"
      with True show "\<not> (5 * k \<le> b \<and> bit n (b - 5 * k))"
        by (auto dest: spec [of _ "b - 59"])
    qed
    with True show ?thesis
      by (auto simp: dig_def bit_eq_iff [of _ "0 :: u64"] bit_take_bit_iff bit_drop_bit_eq)
  next
    case False
    with assms have "k = 12" by simp
    have "(\<forall>b. 59 \<le> b \<and> b < 64 \<longrightarrow> \<not> (60 \<le> b \<and> bit n (b - 60))) \<longleftrightarrow> (\<forall>m. m < 4 \<longrightarrow> \<not> bit n m)"
    proof (intro iffI allI impI)
      fix m :: nat assume "\<forall>b. 59 \<le> b \<and> b < 64 \<longrightarrow> \<not> (60 \<le> b \<and> bit n (b - 60))" "m < 4"
      then show "\<not> bit n m" by (auto dest: spec [of _ "60 + m"])
    next
      fix b :: nat assume "\<forall>m. m < 4 \<longrightarrow> \<not> bit n m" "59 \<le> b \<and> b < 64"
      then show "\<not> (60 \<le> b \<and> bit n (b - 60))" by auto
    qed
    with \<open>k = 12\<close> show ?thesis
      by (auto simp: dig_def bit_eq_iff [of _ "0 :: u64"] bit_take_bit_iff)
  qed
  finally show ?thesis
    by (simp add: word_gt_0_iff)
qed

lemma length_fold:
  assumes "k \<le> 13"
  shows "fst (fold name_length_step [0..<k] (n, 0)) = push_bit (5 * k) n \<and>
    length (rstrip (map (name_char n) [0..<k])) =
      (if \<exists>j < k. dig n j \<noteq> 0 then snd (fold name_length_step [0..<k] (n, 0)) + 1 else 0)"
  using assms
proof (induction k)
  case 0
  show ?case by (simp add: rstrip_def)
next
  case (Suc k)
  obtain v l where f: "fold name_length_step [0..<k] (n, 0) = (v, l)"
    by force
  with Suc have v: "v = push_bit (5 * k) n"
    and l: "length (rstrip (map (name_char n) [0..<k])) = (if \<exists>j < k. dig n j \<noteq> 0 then l + 1 else 0)"
    by simp_all
  have step: "fold name_length_step [0..<Suc k] (n, 0) = (push_bit (5 * Suc k) n, if dig n k \<noteq> 0 then k else l)"
    using top_digit [of k n] Suc.prems by (simp add: f name_length_step_def v)
  show ?case
    unfolding step using l
    by (cases "\<exists>j < k. dig n j \<noteq> 0") (auto simp: rstrip_snoc name_char_dot less_Suc_eq)
qed

lemma name_length_text: "name_length \<lparr>name_value = n\<rparr> = length (name_to_string n)"
proof (cases "n = 0")
  case True
  have "dig 0 j = 0" for j
    by (simp add: dig_def)
  with True show ?thesis
    using length_fold [of 13 0] by (simp add: name_length_def name_to_string_chars name_chars_def)
next
  case False
  have "string_to_name_strict [] = (True, 0)"
    by (simp add: string_to_name_strict_def)
  with False have "name_to_string n \<noteq> []"
    using strict_name_to_string [of n] by auto
  with False length_fold [of 13 n] show ?thesis
    by (auto simp: name_length_def name_to_string_chars name_chars_def split: if_splits)
qed

section \<open>What the hash ignores\<close>

lemma push_bit_twice: "push_bit 64 (x :: u64) = 0"
  by (rule bit_word_eqI) (simp add: bit_push_bit_iff)

lemma unaligned_load_first: "7 \<le> length t \<Longrightarrow> unaligned_load (x # t) = unaligned_load (y # t)"
proof -
  assume "7 \<le> length t"
  then obtain a b c d e f g u where t: "t = a # b # c # d # e # f # g # u"
    by (auto simp: numeral_eq_Suc Suc_le_length_iff)
  have "push_bit 64 (scast x :: u64) = push_bit 64 (scast y)"
    by (simp only: push_bit_twice)
  then show ?thesis
    by (simp add: unaligned_load_def t push_bit_or push_bit_push_bit)
qed

lemma murmur_first:
  assumes "7 \<le> length t"
  shows "murmur64 (x # t) seed = murmur64 (y # t) seed"
proof -
  have "murmur_blocks n (x # t) h = murmur_blocks n (y # t) h" for n h
    using unaligned_load_first [OF assms, of x y] by (cases n) simp_all
  moreover have "0 < Suc (length t) div 8"
    using assms by (simp add: div_greater_zero_iff)
  then have "drop (8 * (Suc (length t) div 8)) (x # t) = drop (8 * (Suc (length t) div 8)) (y # t)"
    by (simp add: drop_Cons')
  ultimately show ?thesis
    by (simp add: murmur64_def Let_def)
qed

lemma strict_loop_long:
  "i \<le> 13 \<Longrightarrow> 13 < i + length s \<Longrightarrow> \<not> fst (string_to_name_strict_loop i n s)"
proof (induction s arbitrary: i n)
  case Nil
  then show ?case by simp
next
  case (Cons c s)
  then show ?case
    by (auto split: option.splits)
qed

section \<open>Properties\<close>

text \<open>
  C22 (round trip): the text of every 64-bit name parses back to that name, with the strict parser
  and with the lenient one.
\<close>

theorem name_roundtrip:
  "string_to_name_strict (name_to_string n) = (True, n) \<and> string_to_name (name_to_string n) = n"
  using strict_name_to_string [of n] string_to_name_agrees [of 0 0 "name_to_string n" n]
  by (simp add: string_to_name_def string_to_name_strict_def)

text \<open>
  A text the strict parser accepts has at most thirteen characters and is the text
  of the parsed name, up to dots at its end; the lenient parser agrees on it.
\<close>

theorem name_text_roundtrip:
  assumes "string_to_name_strict s = (True, v)"
  shows "name_to_string v = rstrip s \<and> string_to_name s = v \<and> length s \<le> 13"
  using assms name_to_string_strict [OF assms] string_to_name_agrees [of 0 0 s v]
    strict_loop_digits [of 0 0 s v]
  by (simp add: string_to_name_def string_to_name_strict_def low_zero_def)

theorem name_text_roundtrip_witness:
  "name_to_string 0x5800000000000000 = rstrip [102, 46] \<and> string_to_name [102, 46] = 0x5800000000000000
    \<and> length [102 :: byte, 46] \<le> 13"
  by (rule name_text_roundtrip)
     (simp add: string_to_name_strict_def char_to_name_digit_strict_def dot_def)

text \<open>
  \<^verbatim>\<open>name::length\<close> is the number of characters of the name's text.
\<close>

theorem name_length_correct: "name_length \<lparr>name_value = n\<rparr> = length (name_to_string n)"
  by (rule name_length_text)

text \<open>
  \<^verbatim>\<open>hash_name\<close> of a string too long for a name does not depend
  on its first character. \<^verbatim>\<open>unaligned_load\<close> shifts after it has added the last byte, so the first
  byte of every block of eight leaves the word.
\<close>

theorem hash_name_collision:
  assumes "13 \<le> length t"
  shows "hash_name (x # t) = hash_name (y # t)"
  using strict_loop_long [of 0 "x # t" 0] strict_loop_long [of 0 "y # t" 0] assms
    murmur_first [of t x _ y]
  by (auto simp: hash_name_def string_to_name_strict_def split: prod.splits)

theorem hash_name_collision_witness:
  "hash_name (97 # replicate 13 98) = hash_name (99 # replicate 13 98)"
  by (rule hash_name_collision) simp

end
