(* ===== verification/Clcrypto_Base58.thy ===== *)
theory Clcrypto_Base58
  imports Clio_Name
begin

text \<open>
  libraries/clcrypto: the base58 text of binary data (base58.cpp), the checksummed text of keys
  (keys.cpp) and the conversions of public keys, private keys and signatures to and from text
  (keys.hpp). The hash of the checksum is \<^verbatim>\<open>murmur64\<close>. The elliptic-curve operations of the fc
  library are not part of the model.
\<close>

section \<open>The alphabet\<close>

text \<open>The array of the string literal ends with the terminating NUL.\<close>

definition base58_chars :: "byte list" where
  "base58_chars = bytes_of ''123456789ABCDEFGHJKLMNPQRSTUVWXYZabcdefghijkmnopqrstuvwxyz'' @ [0]"

text \<open>The table: -1 everywhere, then one store for each of the \<^verbatim>\<open>sizeof(base58_chars)\<close> entries.\<close>

definition create_base58_map :: "byte \<Rightarrow> int" where
  "create_base58_map =
     fold (\<lambda>i m. m(base58_chars ! i := int i)) [0..<length base58_chars] (\<lambda>_. -1)"

definition base58_map :: "byte \<Rightarrow> int" where
  "base58_map c = create_base58_map c"

section \<open>From text to binary\<close>

text \<open>The inner loop: multiply the bytes (least significant first) by 58 and add the carry.\<close>

fun b58_carry_in :: "byte list \<Rightarrow> nat \<Rightarrow> byte list \<times> nat" where
  "b58_carry_in [] carry = ([], carry)"
| "b58_carry_in (b # bs) carry =
     (let x = unat b * 58 + carry;
          (bs', carry') = b58_carry_in bs (x div 256)
      in (word_of_nat x # bs', carry'))"

fun base58_to_binary_loop :: "byte list \<Rightarrow> byte list \<Rightarrow> byte list result" where
  "base58_to_binary_loop result [] = Inr result"
| "base58_to_binary_loop result (src_digit # s) =
     (let carry = base58_map src_digit in
      if carry < 0 then Inl (Runtime_Error ''error parsing base58'')
      else let (result', c) = b58_carry_in result (nat carry)
           in base58_to_binary_loop (if c \<noteq> 0 then result' @ [word_of_nat c] else result') s)"

text \<open>Appends to \<^verbatim>\<open>result\<close>; only the appended part is worked on and reversed.\<close>

definition base58_to_binary :: "byte list \<Rightarrow> byte list \<Rightarrow> byte list result" where
  "base58_to_binary result s =
     rbind (base58_to_binary_loop [] s) (\<lambda>part.
     Inr (result @ rev (part @ map (\<lambda>_. 0) (takeWhile (\<lambda>c. c = 49) s))))"

section \<open>From binary to text\<close>

fun b58_digits_in :: "byte list \<Rightarrow> nat \<Rightarrow> byte list \<times> nat" where
  "b58_digits_in [] carry = ([], carry)"
| "b58_digits_in (d # ds) carry =
     (let x = nat (base58_map d) * 256 + carry;
          (ds', carry') = b58_digits_in ds (x div 58)
      in (base58_chars ! (x mod 58) # ds', carry'))"

fun b58_push_carry :: "nat \<Rightarrow> byte list" where
  "b58_push_carry carry =
     (if carry = 0 then [] else base58_chars ! (carry mod 58) # b58_push_carry (carry div 58))"

declare b58_push_carry.simps [simp del]

fun binary_to_base58_loop :: "byte list \<Rightarrow> byte list \<Rightarrow> byte list" where
  "binary_to_base58_loop result [] = result"
| "binary_to_base58_loop result (b # bin) =
     (let (ds, carry) = b58_digits_in result (unat b)
      in binary_to_base58_loop (ds @ b58_push_carry carry) bin)"

definition binary_to_base58 :: "byte list \<Rightarrow> byte list" where
  "binary_to_base58 bin =
     rev (binary_to_base58_loop [] bin @ map (\<lambda>_. 49) (takeWhile (\<lambda>b. b = 0) bin))"

definition to_base58 :: "byte list \<Rightarrow> byte list" where
  "to_base58 data = binary_to_base58 data"

text \<open>Overwrites the front of the caller's buffer with what fits.\<close>

definition from_base58 :: "byte list \<Rightarrow> byte list \<Rightarrow> byte list result" where
  "from_base58 b58 data =
     rbind (base58_to_binary [] b58) (\<lambda>buf.
     let n = min (length data) (length buf) in Inr (take n buf @ drop n data))"

section \<open>Checksummed text\<close>

definition murmur_seed :: u64 where
  "murmur_seed = 0xbadd00d00"

definition checksum :: "byte list \<Rightarrow> byte list" where
  "checksum data = word_le 4 (ucast (murmur64 data murmur_seed) :: u32)"

definition bytes_to_checksumed_string :: "byte list \<Rightarrow> byte list" where
  "bytes_to_checksumed_string data = to_base58 (data @ checksum data)"

text \<open>\<^verbatim>\<open>junk\<close> is what the uninitialised stack buffer holds, \<^verbatim>\<open>len + 4\<close> bytes of it.\<close>

definition checksumed_string_to_bytes :: "byte list \<Rightarrow> byte list \<Rightarrow> nat \<Rightarrow> byte list result" where
  "checksumed_string_to_bytes junk str len =
     rbind (from_base58 str junk) (\<lambda>buffer.
     if take 4 (drop len buffer) \<noteq> checksum (take len buffer)
     then Inl (Runtime_Error ''base58 checksum mismatch'')
     else Inr (take len buffer))"

section \<open>Keys and signatures\<close>

datatype ecc_curve = k1 | r1

datatype key_kind = Public_key | Private_key | Signature

definition key_size :: "key_kind \<Rightarrow> nat" where
  "key_size k = (case k of Public_key \<Rightarrow> 33 | Private_key \<Rightarrow> 32 | Signature \<Rightarrow> 65)"

definition key_prefix :: "key_kind \<Rightarrow> ecc_curve \<Rightarrow> string" where
  "key_prefix k c =
     (case k of Public_key \<Rightarrow> ''PUB'' | Private_key \<Rightarrow> ''PVT'' | Signature \<Rightarrow> ''SIG'')
     @ (case c of k1 \<Rightarrow> ''K1_'' | r1 \<Rightarrow> ''R1_'')"

text \<open>\<^verbatim>\<open>string_view::find\<close>: the first position, or npos.\<close>

fun find_from :: "nat \<Rightarrow> byte list \<Rightarrow> byte list \<Rightarrow> nat option" where
  "find_from i needle [] = (if needle = [] then Some i else None)"
| "find_from i needle (c # s) =
     (if take (length needle) (c # s) = needle then Some i else find_from (Suc i) needle s)"

definition sv_find :: "byte list \<Rightarrow> byte list \<Rightarrow> nat" where
  "sv_find s needle = (case find_from 0 needle s of Some i \<Rightarrow> i | None \<Rightarrow> 2 ^ 64 - 1)"

definition key_error :: "key_kind \<Rightarrow> string" where
  "key_error k =
     (case k of Public_key \<Rightarrow> ''public_key didn't start with SIGK1_''
      | Private_key \<Rightarrow> ''private_key didn't start with SIGK1_''
      | Signature \<Rightarrow> ''signature didn't start with SIGK1_'')"

text \<open>
  The constructors from text. The condition of both branches is \<^verbatim>\<open>curve == k1\<close>, so the second,
  meant for \<^verbatim>\<open>r1\<close>, is never compiled. Texts shorter than the prefix make the code form a
  view of wrapped-around length; the model takes the rest as empty.
\<close>

definition key_of_string ::
  "key_kind \<Rightarrow> ecc_curve \<Rightarrow> byte list \<Rightarrow> byte list \<Rightarrow> byte list result" where
  "key_of_string k curve junk b58 =
     (if curve = k1 \<and> sv_find b58 (bytes_of (key_prefix k k1)) = 0
      then Inl (Runtime_Error (key_error k))
      else checksumed_string_to_bytes junk (drop 6 b58) (key_size k))"

definition key_to_string :: "key_kind \<Rightarrow> ecc_curve \<Rightarrow> byte list \<Rightarrow> byte list" where
  "key_to_string k curve data = bytes_of (key_prefix k curve) @ bytes_to_checksumed_string data"

text \<open>\<^verbatim>\<open>is_canonical\<close> of elliptic_common.cpp.\<close>

definition is_canonical :: "byte list \<Rightarrow> bool" where
  "is_canonical c \<longleftrightarrow>
     \<not> (c ! 1 AND 0x80 \<noteq> 0) \<and> \<not> (c ! 1 = 0 \<and> \<not> (c ! 2 AND 0x80 \<noteq> 0)) \<and>
     \<not> (c ! 33 AND 0x80 \<noteq> 0) \<and> \<not> (c ! 33 = 0 \<and> \<not> (c ! 34 AND 0x80 \<noteq> 0))"

section \<open>The alphabet is a bijection\<close>

lemma base58_distinct: "distinct base58_chars" and base58_length: "length base58_chars = 59"
  by (simp_all add: base58_chars_def)

lemma table_fold:
  "distinct xs \<Longrightarrow> n \<le> length xs \<Longrightarrow> j < n \<Longrightarrow>
     fold (\<lambda>i m. m(xs ! i := int i)) [0..<n] m0 (xs ! j) = int j"
proof (induction n)
  case 0
  then show ?case by simp
next
  case (Suc n)
  then show ?case
    by (cases "j = n") (auto simp: nth_eq_iff_index_eq)
qed

lemma table_fold_other:
  "n \<le> length xs \<Longrightarrow> c \<notin> set xs \<Longrightarrow> fold (\<lambda>i m. m(xs ! i := int i)) [0..<n] m0 c = m0 c"
  by (induction n) (auto dest: nth_mem)

lemma base58_map_char: "j < 59 \<Longrightarrow> base58_map (base58_chars ! j) = int j"
  unfolding base58_map_def create_base58_map_def
  by (rule table_fold) (simp_all add: base58_distinct base58_length)

lemma base58_map_other: "c \<notin> set base58_chars \<Longrightarrow> base58_map c = -1"
  unfolding base58_map_def create_base58_map_def
  by (subst table_fold_other) simp_all

lemma base58_map_range: "base58_map c < 59"
proof (cases "c \<in> set base58_chars")
  case True
  then obtain j where "j < 59" "c = base58_chars ! j"
    by (metis in_set_conv_nth base58_length)
  then show ?thesis by (simp add: base58_map_char)
qed (simp add: base58_map_other)

text \<open>The terminating NUL is accepted as a digit of value 58.\<close>

lemma base58_nul_digit: "base58_map 0 = 58"
  using base58_map_char [of 58] by (simp add: base58_chars_def)

lemma base58_one: "base58_chars ! 0 = 49"
  by (simp add: base58_chars_def)

section \<open>Positional values\<close>

fun pos_val :: "nat \<Rightarrow> nat list \<Rightarrow> nat" where
  "pos_val B [] = 0"
| "pos_val B (d # ds) = d + B * pos_val B ds"

lemma pos_val_append: "pos_val B (xs @ ys) = pos_val B xs + B ^ length xs * pos_val B ys"
  by (induction xs) (simp_all add: algebra_simps)

lemma pos_val_bound: "(\<And>d. d \<in> set ds \<Longrightarrow> d < B) \<Longrightarrow> pos_val B ds < B ^ length ds"
proof (induction ds)
  case Nil
  then show ?case by simp
next
  case (Cons d ds)
  then have d: "d < B" by simp
  have "pos_val B ds < B ^ length ds"
    using Cons by simp
  then have "Suc (pos_val B ds) \<le> B ^ length ds"
    by simp
  then have "B * Suc (pos_val B ds) \<le> B * B ^ length ds"
    by (rule mult_le_mono2)
  with d show ?case by simp
qed

lemma pos_last:
  assumes "\<And>d. d \<in> set ds \<Longrightarrow> d < B" and "ds \<noteq> []"
  shows "last ds \<noteq> 0 \<longleftrightarrow> B ^ (length ds - 1) \<le> pos_val B ds"
proof -
  have ds: "ds = butlast ds @ [last ds]"
    using assms(2) by simp
  have "pos_val B ds = pos_val B (butlast ds) + B ^ (length ds - 1) * last ds"
    by (subst ds, subst pos_val_append) simp
  moreover have "pos_val B (butlast ds) < B ^ (length ds - 1)"
    using pos_val_bound [of "butlast ds" B] assms(1) in_set_butlastD [of _ ds] by simp
  ultimately show ?thesis
    by (cases "last ds") auto
qed

definition canonical :: "nat list \<Rightarrow> bool" where
  "canonical ds \<longleftrightarrow> ds = [] \<or> last ds \<noteq> 0"

lemma canonical_grow:
  assumes "canonical ds" and "length ds' = length ds" and "\<And>d. d \<in> set ds \<Longrightarrow> d < B"
    and "\<And>d. d \<in> set ds' \<Longrightarrow> d < B" and "pos_val B ds \<le> pos_val B ds'"
  shows "canonical ds'"
proof (cases "ds = []")
  case True
  with assms(2) show ?thesis by (simp add: canonical_def)
next
  case False
  with assms(2) have ne: "ds' \<noteq> []" by auto
  have "B ^ (length ds - 1) \<le> pos_val B ds"
    using pos_last [of ds B] assms(1,3) False by (simp add: canonical_def)
  with assms(2,5) have "B ^ (length ds' - 1) \<le> pos_val B ds'" by simp
  with pos_last [of ds' B] assms(4) ne show ?thesis by (simp add: canonical_def)
qed

lemma canonical_unique:
  "canonical xs \<Longrightarrow> canonical ys \<Longrightarrow> (\<And>d. d \<in> set xs \<union> set ys \<Longrightarrow> d < B) \<Longrightarrow>
     pos_val B xs = pos_val B ys \<Longrightarrow> xs = ys"
proof (induction xs arbitrary: ys)
  case Nil
  show ?case
  proof (rule ccontr)
    assume "[] \<noteq> ys"
    with Nil have "last ys \<noteq> 0" by (simp add: canonical_def)
    with Nil pos_last [of ys B] \<open>[] \<noteq> ys\<close> have "B ^ (length ys - 1) \<le> 0" by auto
    moreover have "0 < B" using Nil(3) [of "last ys"] \<open>[] \<noteq> ys\<close> by fastforce
    ultimately show False by simp
  qed
next
  case (Cons x xs)
  have x: "x < B" using Cons.prems(3) by simp
  show ?case
  proof (cases ys)
    case Nil
    with Cons.prems(1) have "last (x # xs) \<noteq> 0" by (simp only: canonical_def list.distinct simp_thms)
    then have "B ^ (length (x # xs) - 1) \<le> pos_val B (x # xs)"
      using pos_last [of "x # xs" B] Cons.prems(3) by blast
    also have "\<dots> = 0"
      using Cons.prems(4) Nil by (simp del: pos_val.simps(2))
    finally show ?thesis
      using x by simp
  next
    case ys: (Cons y ys')
    have y: "y < B" using Cons.prems(3) ys by simp
    have eq: "x + B * pos_val B xs = y + B * pos_val B ys'"
      using Cons.prems(4) ys by simp
    have "(x + B * pos_val B xs) mod B = x" "(y + B * pos_val B ys') mod B = y"
      using x y by simp_all
    with eq have "x = y" by simp
    moreover from this eq x have "pos_val B xs = pos_val B ys'" by auto
    moreover have "canonical xs" "canonical ys'"
      using Cons.prems(1,2) ys by (auto simp: canonical_def split: if_splits)
    ultimately show ?thesis
      using Cons.IH [of ys'] Cons.prems(3) ys by auto
  qed
qed

section \<open>The two loops compute with values\<close>

definition nats :: "byte list \<Rightarrow> nat list" where
  "nats bs = map unat bs"

definition digits :: "byte list \<Rightarrow> nat list" where
  "digits ds = map (\<lambda>d. nat (base58_map d)) ds"

definition is_digit :: "byte \<Rightarrow> bool" where
  "is_digit d \<longleftrightarrow> 0 \<le> base58_map d \<and> base58_map d < 58"

lemma nats_less: "d \<in> set (nats bs) \<Longrightarrow> d < 256"
  by (auto simp: nats_def)

lemma digits_less: "list_all is_digit ds \<Longrightarrow> d \<in> set (digits ds) \<Longrightarrow> d < 58"
  by (auto simp: digits_def is_digit_def list_all_iff)

lemma is_digit_char: "j < 58 \<Longrightarrow> is_digit (base58_chars ! j)"
  by (simp add: is_digit_def base58_map_char)

lemma carry_in_value:
  "b58_carry_in bs c = (bs', c') \<Longrightarrow> c \<le> 58 \<Longrightarrow>
     length bs' = length bs \<and> c' \<le> 58 \<and>
     pos_val 256 (nats bs') + 256 ^ length bs * c' = 58 * pos_val 256 (nats bs) + c"
proof (induction bs arbitrary: c bs' c')
  case Nil
  then show ?case by (simp add: nats_def)
next
  case (Cons b bs)
  let ?x = "unat b * 58 + c"
  obtain cs c2 where r: "b58_carry_in bs (?x div 256) = (cs, c2)" by force
  have "?x \<le> 255 * 58 + 58"
    using unat_byte_less [of b] Cons.prems(2) by linarith
  then have "?x div 256 \<le> 58"
    by (simp add: div_le_mono order.trans [OF div_le_mono [of _ _ 256]])
  from Cons.IH [OF r this] Cons.prems r
  have ih: "length cs = length bs" "c2 \<le> 58" "bs' = word_of_nat ?x # cs" "c' = c2"
    "pos_val 256 (nats cs) + 256 ^ length bs * c2 = 58 * pos_val 256 (nats bs) + ?x div 256"
    by (auto simp: Let_def)
  have "pos_val 256 (nats bs') + 256 ^ length (b # bs) * c'
      = ?x mod 256 + 256 * (pos_val 256 (nats cs) + 256 ^ length bs * c2)"
    by (simp add: ih(3,4) nats_def unat_word_of_nat_byte algebra_simps del: of_nat_add of_nat_mult)
  also have "\<dots> = 58 * pos_val 256 (nats (b # bs)) + c"
    using mult_div_mod_eq [of 256 ?x] unfolding ih(5) by (simp add: nats_def algebra_simps)
  finally show ?case
    using ih by simp
qed

lemma digits_in_value:
  "b58_digits_in ds c = (ds', c') \<Longrightarrow> list_all is_digit ds \<Longrightarrow>
     length ds' = length ds \<and> list_all is_digit ds' \<and>
     pos_val 58 (digits ds') + 58 ^ length ds * c' = 256 * pos_val 58 (digits ds) + c"
proof (induction ds arbitrary: c ds' c')
  case Nil
  then show ?case by (simp add: digits_def)
next
  case (Cons d ds)
  let ?x = "nat (base58_map d) * 256 + c"
  obtain es c2 where r: "b58_digits_in ds (?x div 58) = (es, c2)" by force
  from Cons.IH [OF r] Cons.prems r
  have ih: "length es = length ds" "list_all is_digit es" "ds' = base58_chars ! (?x mod 58) # es" "c' = c2"
    "pos_val 58 (digits es) + 58 ^ length ds * c2 = 256 * pos_val 58 (digits ds) + ?x div 58"
    by (auto simp: Let_def)
  have "nat (base58_map (base58_chars ! (?x mod 58))) = ?x mod 58"
    by (simp add: base58_map_char)
  then have "pos_val 58 (digits ds') + 58 ^ length (d # ds) * c'
      = ?x mod 58 + 58 * (pos_val 58 (digits es) + 58 ^ length ds * c2)"
    by (simp add: ih(3,4) digits_def algebra_simps)
  also have "\<dots> = 256 * pos_val 58 (digits (d # ds)) + c"
    using mult_div_mod_eq [of 58 ?x] unfolding ih(5) by (simp add: digits_def algebra_simps)
  finally show ?case
    using ih by (simp add: is_digit_char)
qed

lemma push_carry_value:
  "pos_val 58 (digits (b58_push_carry c)) = c \<and> list_all is_digit (b58_push_carry c) \<and>
     canonical (digits (b58_push_carry c))"
proof (induction c rule: b58_push_carry.induct)
  case (1 c)
  show ?case
  proof (cases "c = 0")
    case True
    then show ?thesis by (simp add: b58_push_carry.simps digits_def canonical_def)
  next
    case False
    let ?r = "b58_push_carry (c div 58)"
    have p: "b58_push_carry c = base58_chars ! (c mod 58) # ?r"
      using False by (subst b58_push_carry.simps) simp
    have m: "nat (base58_map (base58_chars ! (c mod 58))) = c mod 58"
      by (simp add: base58_map_char)
    have "canonical (digits (b58_push_carry c))"
    proof (cases "c div 58 = 0")
      case True
      then have "?r = []" by (subst b58_push_carry.simps) simp
      moreover have "c mod 58 \<noteq> 0" using True False by (metis div_mult_mod_eq add_0 mult_0)
      ultimately show ?thesis
        using p m by (simp add: digits_def canonical_def)
    next
      case False
      then have "digits ?r \<noteq> []"
        by (subst b58_push_carry.simps) (simp add: digits_def)
      with "1.IH" \<open>c \<noteq> 0\<close> show ?thesis
        using p by (simp add: digits_def canonical_def)
    qed
    then show ?thesis
      using "1.IH" False p m by (simp add: digits_def is_digit_char)
  qed
qed


definition b58_value :: "byte list \<Rightarrow> nat \<Rightarrow> nat" where
  "b58_value s v = foldl (\<lambda>v d. 58 * v + nat (base58_map d)) v s"

lemma to_binary_value:
  "list_all is_digit s \<Longrightarrow> canonical (nats bs) \<Longrightarrow>
     \<exists>bs'. base58_to_binary_loop bs s = Inr bs' \<and> canonical (nats bs') \<and>
       pos_val 256 (nats bs') = b58_value s (pos_val 256 (nats bs))"
proof (induction s arbitrary: bs)
  case Nil
  then show ?case by (simp add: b58_value_def)
next
  case (Cons d s)
  then have d: "0 \<le> base58_map d" "nat (base58_map d) \<le> 58"
    by (auto simp: is_digit_def)
  obtain bs1 c where r: "b58_carry_in bs (nat (base58_map d)) = (bs1, c)" by force
  note v = carry_in_value [OF r d(2)]
  let ?bs = "if c \<noteq> 0 then bs1 @ [word_of_nat c] else bs1"
  have c: "unat (word_of_nat c :: byte) = c"
    using v by (simp add: unat_word_of_nat_byte)
  have val: "pos_val 256 (nats ?bs) = 58 * pos_val 256 (nats bs) + nat (base58_map d)"
    using v c by (cases "c = 0") (simp_all add: nats_def pos_val_append)
  have "canonical (nats ?bs)"
  proof (cases "c = 0")
    case True
    with val v have "pos_val 256 (nats bs) \<le> pos_val 256 (nats bs1)" by simp
    with True v Cons.prems(2) nats_less show ?thesis
      using canonical_grow [of "nats bs" "nats bs1" 256] by (simp add: nats_def)
  next
    case False
    with c show ?thesis by (simp add: nats_def canonical_def)
  qed
  from Cons.IH [OF _ this] Cons.prems(1) obtain bs' where
    "base58_to_binary_loop ?bs s = Inr bs'" "canonical (nats bs')"
    "pos_val 256 (nats bs') = b58_value s (pos_val 256 (nats ?bs))"
    by auto
  then show ?case
    using d(1) r val by (simp add: b58_value_def)
qed

lemma to_base58_value:
  "list_all is_digit ds \<Longrightarrow> canonical (digits ds) \<Longrightarrow>
     list_all is_digit (binary_to_base58_loop ds bin) \<and> canonical (digits (binary_to_base58_loop ds bin)) \<and>
     pos_val 58 (digits (binary_to_base58_loop ds bin)) = foldl (\<lambda>v b. 256 * v + unat b) (pos_val 58 (digits ds)) bin"
proof (induction bin arbitrary: ds)
  case Nil
  then show ?case by simp
next
  case (Cons b bin)
  obtain ds1 c where r: "b58_digits_in ds (unat b) = (ds1, c)" by force
  note v = digits_in_value [OF r Cons.prems(1)]
  let ?ds = "ds1 @ b58_push_carry c"
  have dig: "list_all is_digit ?ds"
    using v push_carry_value [of c] by simp
  have val: "pos_val 58 (digits ?ds) = 256 * pos_val 58 (digits ds) + unat b"
    using v push_carry_value [of c] by (simp add: digits_def pos_val_append)
  have "canonical (digits ?ds)"
  proof (cases "c = 0")
    case True
    then have e: "b58_push_carry c = []" by (subst b58_push_carry.simps) simp
    with val have "pos_val 58 (digits ds) \<le> pos_val 58 (digits ds1)" by simp
    moreover have "length (digits ds1) = length (digits ds)"
      using v by (simp add: digits_def)
    moreover have "\<And>d. d \<in> set (digits ds) \<Longrightarrow> d < 58" "\<And>d. d \<in> set (digits ds1) \<Longrightarrow> d < 58"
      using digits_less v Cons.prems(1) by blast+
    ultimately have "canonical (digits ds1)"
      by (intro canonical_grow [OF Cons.prems(2)])
    with e show ?thesis by simp
  next
    case False
    then have "b58_push_carry c \<noteq> []" by (subst b58_push_carry.simps) simp
    with push_carry_value [of c] show ?thesis
      by (simp add: digits_def canonical_def)
  qed
  from Cons.IH [OF dig this] show ?case
    using r val by simp
qed

lemma foldl_rev_value: "b58_value (rev ds) 0 = pos_val 58 (digits ds)"
  by (induction ds) (simp_all add: b58_value_def digits_def)

lemma foldl_bytes_value: "foldl (\<lambda>v b. 256 * v + unat b) 0 bin = pos_val 256 (nats (rev bin))"
  by (induction bin rule: rev_induct) (simp_all add: nats_def)

lemma value_leading:
  "pos_val 256 (nats (rev bin)) = pos_val 256 (nats (rev (dropWhile (\<lambda>b. b = 0) bin)))"
proof (induction bin)
  case (Cons b bin)
  then show ?case
    by (cases "b = 0") (simp_all add: nats_def pos_val_append)
qed simp

lemma canonical_stripped: "canonical (nats (rev (dropWhile (\<lambda>b. b = 0) bin)))"
proof (cases "dropWhile (\<lambda>b. b = 0) bin")
  case Nil
  then show ?thesis by (simp add: canonical_def nats_def)
next
  case (Cons b bs)
  then have "b \<noteq> 0"
    using hd_dropWhile [of "\<lambda>b. b = 0" bin] by simp
  with Cons show ?thesis
    by (simp add: canonical_def nats_def unat_eq_0)
qed

lemma takeWhile_map_const: "map (\<lambda>_. a) (takeWhile P xs) = replicate (length (takeWhile P xs)) a"
  by (rule map_replicate_const)

lemma loop_ones: "base58_to_binary_loop [] (replicate k 49 @ s) = base58_to_binary_loop [] s"
  using base58_map_char [of 0] by (induction k) (simp_all add: base58_one)

lemma takeWhile_ones:
  assumes "list_all is_digit ds" and "canonical (digits ds)"
  shows "takeWhile (\<lambda>c. c = 49) (replicate k 49 @ rev ds) = replicate k 49"
proof -
  have "takeWhile (\<lambda>c. c = 49) (rev ds) = []"
  proof (cases "ds = []")
    case False
    then have "nat (base58_map (last ds)) \<noteq> 0"
      using assms(2) by (simp add: canonical_def digits_def last_map)
    then have "last ds \<noteq> 49"
      using base58_map_char [of 0] by (auto simp: base58_one)
    with False show ?thesis
      by (simp add: takeWhile_eq_Nil_iff hd_rev)
  qed simp
  then show ?thesis
    by (induction k) simp_all
qed

lemma base58_back: "base58_to_binary [] (binary_to_base58 bin) = Inr bin"
proof -
  let ?ds = "binary_to_base58_loop [] bin"
  let ?z = "takeWhile (\<lambda>b. b = 0) bin" and ?r = "dropWhile (\<lambda>b. b = 0) bin"
  have ds: "list_all is_digit ?ds" "canonical (digits ?ds)"
    "pos_val 58 (digits ?ds) = pos_val 256 (nats (rev bin))"
    using to_base58_value [of "[]" bin] by (simp_all add: canonical_def digits_def foldl_bytes_value)
  have enc: "binary_to_base58 bin = replicate (length ?z) 49 @ rev ?ds"
    by (simp add: binary_to_base58_def takeWhile_map_const)
  obtain bs where bs: "base58_to_binary_loop [] (rev ?ds) = Inr bs" "canonical (nats bs)"
    "pos_val 256 (nats bs) = b58_value (rev ?ds) 0"
    using to_binary_value [of "rev ?ds" "[]"] ds(1) by (auto simp: canonical_def nats_def)
  have "nats bs = nats (rev ?r)"
  proof (rule canonical_unique [where B = 256])
    show "pos_val 256 (nats bs) = pos_val 256 (nats (rev ?r))"
      unfolding bs(3) foldl_rev_value ds(3) by (rule value_leading)
  qed (use bs(2) canonical_stripped nats_less in auto)
  then have bs': "bs = rev ?r"
    unfolding nats_def by (rule inj_map_eq_map [THEN iffD1, rotated]) (simp add: inj_on_def word_eq_iff_unsigned [where 'a = nat])
  have "?z = replicate (length ?z) 0"
    by (rule replicate_length_same [symmetric]) (auto dest: set_takeWhileD)
  then have "replicate (length ?z) 0 @ ?r = bin"
    by (metis takeWhile_dropWhile_id)
  then show ?thesis
    unfolding base58_to_binary_def enc loop_ones bs(1) takeWhile_ones [OF ds(1,2)]
    by (simp add: bs' map_replicate_const)
qed

lemma from_to_base58: "length junk = length data \<Longrightarrow> from_base58 (to_base58 data) junk = Inr data"
  by (simp add: from_base58_def to_base58_def base58_back)

lemma checksumed_back:
  assumes "length data = len" and "length junk = len + 4"
  shows "checksumed_string_to_bytes junk (bytes_to_checksumed_string data) len = Inr data"
proof -
  have "length (checksum data) = 4"
    by (simp add: checksum_def)
  then show ?thesis
    using assms from_to_base58 [of junk "data @ checksum data"]
    by (simp add: checksumed_string_to_bytes_def bytes_to_checksumed_string_def)
qed

lemma sv_find_prefix: "sv_find (p @ s) p = 0"
proof (cases "p @ s")
  case Nil
  then show ?thesis by (simp add: sv_find_def)
next
  case (Cons c t)
  then have "take (length p) (c # t) = p"
    by (metis append_eq_conv_conj)
  with Cons show ?thesis by (simp add: sv_find_def)
qed

section \<open>Properties\<close>

text \<open>
  C16 (round trip): decoding the base58 text of any data gives the data, leading zero bytes
  included, and \<^verbatim>\<open>from_base58\<close> fills a buffer of its size with it.
\<close>

theorem base58_roundtrip:
  "base58_to_binary [] (binary_to_base58 bin) = Inr bin \<and>
   (length junk = length bin \<longrightarrow> from_base58 (to_base58 bin) junk = Inr bin)"
  by (simp add: base58_back from_to_base58)

theorem base58_roundtrip_witness:
  "base58_to_binary [] (binary_to_base58 [0, 0, 1, 255]) = Inr [0, 0, 1, 255] \<and>
   from_base58 (to_base58 [0, 0, 1, 255]) [7, 7, 7, 7] = Inr [0, 0, 1, 255]"
  using base58_roundtrip [of "[0, 0, 1, 255]" "[7, 7, 7, 7]"] by simp

text \<open>
  The text of an r1 key or signature reads back to the key,
  but the text of every k1 key or signature is refused: \<^verbatim>\<open>find\<close> returns 0 exactly when the prefix
  is there, and the constructor throws on 0.
\<close>

theorem key_text:
  assumes "length data = key_size k" and "length junk = key_size k + 4"
  shows "key_of_string k r1 junk (key_to_string k r1 data) = Inr data \<and>
    key_of_string k k1 junk (key_to_string k k1 data) = Inl (Runtime_Error (key_error k))"
proof -
  have "drop 6 (key_to_string k r1 data) = bytes_to_checksumed_string data"
    by (simp add: key_to_string_def key_prefix_def split: key_kind.splits)
  then show ?thesis
    using checksumed_back [OF assms] sv_find_prefix by (simp add: key_of_string_def key_to_string_def)
qed

theorem key_text_witness:
  "key_of_string Private_key r1 (replicate 36 9) (key_to_string Private_key r1 (replicate 32 5)) = Inr (replicate 32 5) \<and>
   key_of_string Private_key k1 (replicate 36 9) (key_to_string Private_key k1 (replicate 32 5))
     = Inl (Runtime_Error (key_error Private_key))"
  by (rule key_text) (simp_all add: key_size_def)

end
