(* ===== verification/Clio_Compress.thy ===== *)
theory Clio_Compress
  imports Clio_Stream
begin

text \<open>
  The zero-byte compression of compress.hpp (the packing of Cap'n Proto). Both functions are
  written on the bytes between \<^verbatim>\<open>in.pos\<close> and \<^verbatim>\<open>in.end\<close> and return the writes to the output stream.

  A word of eight bytes becomes a tag with one bit per byte and the nonzero bytes. Tag 0 is
  followed by the number of further zero words, tag 0xff by the number of words that follow
  verbatim.
\<close>

section \<open>Packing\<close>

definition is_zero_word :: "byte list \<Rightarrow> bool" where
  "is_zero_word w \<longleftrightarrow> list_all (\<lambda>b. b = 0) w"

text \<open>The loop that counts further zero words: it stops at a nonzero word or after 254.\<close>

function zero_run :: "nat \<Rightarrow> byte list \<Rightarrow> byte list \<Rightarrow> (nat \<times> byte list \<times> byte list) result" where
  "zero_run num_zero next_word bs =
     (if is_zero_word next_word \<and> num_zero < 254
      then rbind (source_read 8 bs) (\<lambda>(next_word, bs). zero_run (Suc num_zero) next_word bs)
      else Inr (num_zero, next_word, bs))"
  by pat_completeness auto
termination
  by (relation "measure (\<lambda>(n, w, bs). 254 - n)") auto

declare zero_run.simps [simp del]

definition word_tag :: "byte list \<Rightarrow> byte" where
  "word_tag w = fold (\<lambda>b zeros. push_bit 1 zeros + of_bool (b \<noteq> 0)) w 0"

definition pack_word :: "byte list \<Rightarrow> byte list" where
  "pack_word w = word_tag w # filter (\<lambda>b. b \<noteq> 0) w"

text \<open>\<^verbatim>\<open>num_raw\<close> is a uint8_t.\<close>

definition num_raw :: "byte list \<Rightarrow> byte" where
  "num_raw bs = word_of_nat (length (takeWhile (\<lambda>b. b \<noteq> 0) bs) div 8)"

text \<open>The tag, the nonzero bytes and, after a full word, the words to copy verbatim.\<close>

definition pack_emit :: "byte list \<Rightarrow> byte list \<Rightarrow> writes \<times> byte list" where
  "pack_emit w bs =
     (if word_tag w = 0xff
      then let n = unat (num_raw bs) * 8
           in ([pack_word w, [num_raw bs], take n bs], drop n bs)
      else ([pack_word w], bs))"

definition pack_step :: "byte list \<Rightarrow> (writes \<times> byte list) result" where
  "pack_step bs =
     rbind (source_read 8 bs) (\<lambda>(next_word, bs).
     if is_zero_word next_word
     then rbind (source_read 8 bs) (\<lambda>(next_word, bs).
          rbind (zero_run 0 next_word bs) (\<lambda>(num_zero, next_word, bs).
          let (ws, bs) = pack_emit next_word bs
          in Inr ([0] # [word_of_nat num_zero] # ws, bs)))
     else Inr (pack_emit next_word bs))"

lemma zero_run_length: "zero_run n w bs = Inr (m, w', bs') \<Longrightarrow> length bs' \<le> length bs"
proof (induction n w bs rule: zero_run.induct)
  case (1 n w bs)
  show ?case
  proof (cases "is_zero_word w \<and> n < 254")
    case True
    with "1.prems" obtain w1 bs1 where r: "source_read 8 bs = Inr (w1, bs1)"
      and z: "zero_run (Suc n) w1 bs1 = Inr (m, w', bs')"
      by (subst (asm) zero_run.simps) (auto simp: rbind_eq_Inr)
    from "1.IH" [OF True, of "(w1, bs1)" w1 bs1] r z have "length bs' \<le> length bs1"
      by simp
    then show ?thesis
      using source_read_shrinks [OF r] by simp
  next
    case False
    with "1.prems" show ?thesis
      by (subst (asm) zero_run.simps) auto
  qed
qed

lemma pack_emit_length: "pack_emit w bs = (ws, bs') \<Longrightarrow> length bs' \<le> length bs"
  by (auto simp: pack_emit_def Let_def split: if_splits)

lemma pack_step_cases:
  assumes "pack_step bs = Inr (st, bs')"
  obtains (nonzero) w b1 where "source_read 8 bs = Inr (w, b1)" "\<not> is_zero_word w" "pack_emit w b1 = (st, bs')"
  | (zeros) w b1 w1 b2 m w2 b3 ws where "source_read 8 bs = Inr (w, b1)" "is_zero_word w"
      "source_read 8 b1 = Inr (w1, b2)" "zero_run 0 w1 b2 = Inr (m, w2, b3)"
      "pack_emit w2 b3 = (ws, bs')" "st = [0] # [word_of_nat m] # ws"
proof -
  obtain w b1 where r: "source_read 8 bs = Inr (w, b1)"
    using assms by (auto simp: pack_step_def rbind_eq_Inr)
  show ?thesis
  proof (cases "is_zero_word w")
    case False
    with assms r nonzero show ?thesis
      by (simp add: pack_step_def)
  next
    case True
    with assms r have eq: "rbind (source_read 8 b1) (\<lambda>(w1, b2).
        rbind (zero_run 0 w1 b2) (\<lambda>(m, w2, b3).
        let (ws, bs) = pack_emit w2 b3 in Inr ([0] # [word_of_nat m] # ws, bs))) = Inr (st, bs')"
      by (simp add: pack_step_def)
    then obtain w1 b2 where r1: "source_read 8 b1 = Inr (w1, b2)"
      by (cases "source_read 8 b1") auto
    with eq obtain m w2 b3 where z: "zero_run 0 w1 b2 = Inr (m, w2, b3)"
      by (cases "zero_run 0 w1 b2") auto
    obtain ws b4 where "pack_emit w2 b3 = (ws, b4)" by force
    with eq r1 z zeros [OF r True r1 z] show ?thesis by simp
  qed
qed

lemma pack_step_length: "pack_step bs = Inr (ws, bs') \<Longrightarrow> length bs' < length bs"
proof (erule pack_step_cases)
  fix w b1 assume r: "source_read 8 bs = Inr (w, b1)" and e: "pack_emit w b1 = (ws, bs')"
  then show ?thesis
    using source_read_shrinks [OF r] pack_emit_length [OF e] by auto
next
  fix w b1 w1 b2 m w2 b3 ws'
  assume r: "source_read 8 bs = Inr (w, b1)" "source_read 8 b1 = Inr (w1, b2)"
    and z: "zero_run 0 w1 b2 = Inr (m, w2, b3)" and e: "pack_emit w2 b3 = (ws', bs')"
  then show ?thesis
    using source_read_shrinks [OF r(1)] source_read_shrinks [OF r(2)] zero_run_length [OF z]
      pack_emit_length [OF e] by auto
qed

function capp_pack :: "byte list \<Rightarrow> writes result" where
  "capp_pack bs =
     (if length bs \<ge> 8
      then rbind (pack_step bs) (\<lambda>(ws, bs). rbind (capp_pack bs) (\<lambda>rest. Inr (ws @ rest)))
      else Inr (if bs = [] then [] else [[0xff], bs]))"
  by pat_completeness auto
termination
  by (relation "measure length") (auto dest: pack_step_length)

declare capp_pack.simps [simp del]

section \<open>Unpacking\<close>

text \<open>The loop over the bits 7 to 0 of the tag.\<close>

fun unpack_word :: "bool list \<Rightarrow> byte list \<Rightarrow> (byte list \<times> byte list) result" where
  "unpack_word [] bs = Inr ([], bs)"
| "unpack_word (b # bits) bs =
     (if b then rbind (source_read 1 bs) (\<lambda>(c, bs).
                rbind (unpack_word bits bs) (\<lambda>(w, bs). Inr (hd c # w, bs)))
      else rbind (unpack_word bits bs) (\<lambda>(w, bs). Inr (0 # w, bs)))"

definition tag_bits :: "byte \<Rightarrow> bool list" where
  "tag_bits t = map (\<lambda>i. t AND push_bit i 1 \<noteq> 0) [7, 6, 5, 4, 3, 2, 1, 0]"

definition zero_word :: "byte list" where
  "zero_word = replicate 8 0"

text \<open>One round of the loop; the flag says whether the function returns.\<close>

definition unpack_step :: "byte list \<Rightarrow> (writes \<times> byte list \<times> bool) result" where
  "unpack_step bs =
     rbind (source_read 1 bs) (\<lambda>(t, bs).
     let word_bits = hd t in
     if word_bits = 0
     then rbind (source_read 1 bs) (\<lambda>(n, bs).
          if bs = [] then Inl (Stream_Error overrun)
          else Inr (zero_word # replicate (unat (hd n)) zero_word, bs, False))
     else if word_bits = 0xff
     then if length bs < 8 then Inr ([bs], [], True)
          else rbind (source_read 8 bs) (\<lambda>(w, bs).
               rbind (source_read 1 bs) (\<lambda>(n, bs).
               let raw = unat (hd n) * 8 in
               if raw \<noteq> 0
               then if length bs < raw then Inl (Stream_Error overrun)
                    else Inr ([w, take raw bs], drop raw bs, False)
               else Inr ([w], bs, False)))
     else rbind (unpack_word (tag_bits word_bits) bs) (\<lambda>(w, bs). Inr ([w], bs, False)))"

lemma unpack_word_length: "unpack_word bits bs = Inr (w, bs') \<Longrightarrow> length bs' \<le> length bs"
  by (induction bits arbitrary: bs w)
     (fastforce simp: rbind_eq_Inr split: if_splits dest!: source_read_shrinks)+

lemma unpack_step_length: "unpack_step bs = Inr (ws, bs', stop) \<Longrightarrow> length bs' < length bs"
  unfolding unpack_step_def
  by (auto simp: rbind_eq_Inr Let_def split: if_splits dest!: source_read_shrinks unpack_word_length)

function capp_unpack :: "byte list \<Rightarrow> writes result" where
  "capp_unpack bs =
     (if bs = [] then Inr []
      else rbind (unpack_step bs) (\<lambda>(ws, bs, stop).
           if stop then Inr ws else rbind (capp_unpack bs) (\<lambda>rest. Inr (ws @ rest))))"
  by pat_completeness auto
termination
  by (relation "measure length") (auto dest: unpack_step_length)

declare capp_unpack.simps [simp del]

definition capn_compress :: "byte list \<Rightarrow> byte list result" where
  "capn_compress c = rbind (capp_pack c) (\<lambda>ws. run_writes vector_stream_write ws [])"

definition capn_uncompress :: "byte list \<Rightarrow> byte list result" where
  "capn_uncompress c = rbind (capp_unpack c) (\<lambda>ws. run_writes vector_stream_write ws [])"

section \<open>One word\<close>

lemma word_tag_bits:
  assumes "length w = 8"
  shows "tag_bits (word_tag w) = map (\<lambda>b. b \<noteq> 0) w"
proof -
  obtain a b c d e f g h where w: "w = [a, b, c, d, e, f, g, h]"
    using assms by (auto simp: numeral_eq_Suc length_Suc_conv)
  have tab: "tag_bits (fold (\<lambda>b z. push_bit 1 z + of_bool b) [p, q, r, s, t, u, v, x] 0) = [p, q, r, s, t, u, v, x]"
    for p q r s t u v x
    by (cases p; cases q; cases r; cases s; cases t; cases u; cases v; cases x) (simp_all add: tag_bits_def)
  show ?thesis
    using tab [of "a \<noteq> 0" "b \<noteq> 0" "c \<noteq> 0" "d \<noteq> 0" "e \<noteq> 0" "f \<noteq> 0" "g \<noteq> 0" "h \<noteq> 0"]
    by (simp add: word_tag_def w)
qed

lemma tag_zero: "length w = 8 \<Longrightarrow> word_tag w = 0 \<longleftrightarrow> is_zero_word w"
proof -
  assume len: "length w = 8"
  then obtain a b c d e f g h where w: "w = [a, b, c, d, e, f, g, h]"
    by (auto simp: numeral_eq_Suc length_Suc_conv)
  show ?thesis
  proof
    assume "word_tag w = 0"
    then have "map (\<lambda>b. b \<noteq> 0) w = tag_bits 0"
      using word_tag_bits [OF len] by simp
    then show "is_zero_word w"
      by (simp add: w tag_bits_def is_zero_word_def)
  qed (simp add: w word_tag_def is_zero_word_def)
qed

lemma tag_full: "length w = 8 \<Longrightarrow> word_tag w = 0xff \<longleftrightarrow> list_all (\<lambda>b. b \<noteq> 0) w"
proof -
  assume len: "length w = 8"
  then obtain a b c d e f g h where w: "w = [a, b, c, d, e, f, g, h]"
    by (auto simp: numeral_eq_Suc length_Suc_conv)
  show ?thesis
  proof
    assume "word_tag w = 0xff"
    then have "map (\<lambda>b. b \<noteq> 0) w = tag_bits 0xff"
      using word_tag_bits [OF len] by simp
    then show "list_all (\<lambda>b. b \<noteq> 0) w"
      by (simp add: w tag_bits_def)
  qed (simp add: w word_tag_def)
qed

lemma unpack_pack_word:
  "unpack_word (map (\<lambda>b. b \<noteq> 0) w) (filter (\<lambda>b. b \<noteq> 0) w @ bs) = Inr (w, bs)"
  by (induction w) auto

section \<open>Runs of zero words\<close>

definition short_runs :: "byte list \<Rightarrow> bool" where
  "short_runs bs \<longleftrightarrow> (\<forall>k. take 2048 (drop (8 * k) bs) \<noteq> replicate 2048 0)"

lemma short_runs_drop: "short_runs bs \<Longrightarrow> short_runs (drop (8 * n) bs)"
  unfolding short_runs_def by (metis add_mult_distrib2 drop_drop add.commute)

lemma short_runs_start: "short_runs bs \<Longrightarrow> bs \<noteq> replicate 2048 0 @ rest"
  unfolding short_runs_def by (metis append_eq_conv_conj drop0 length_replicate mult_0_right)

lemma is_zero_word_replicate: "length w = 8 \<Longrightarrow> is_zero_word w \<Longrightarrow> w = replicate 8 0"
  by (auto simp: is_zero_word_def list_all_iff intro: replicate_eqI)

lemma zero_run_spec:
  "zero_run n w bs = Inr (m, w', bs') \<Longrightarrow> length w = 8 \<Longrightarrow> n \<le> 254 \<Longrightarrow>
     n \<le> m \<and> m \<le> 254 \<and> length w' = 8 \<and> w @ bs = replicate (8 * (m - n)) 0 @ w' @ bs' \<and>
     (is_zero_word w' \<longrightarrow> m = 254)"
proof (induction n w bs rule: zero_run.induct)
  case (1 n w bs)
  show ?case
  proof (cases "is_zero_word w \<and> n < 254")
    case True
    with "1.prems" obtain w1 bs1 where r: "source_read 8 bs = Inr (w1, bs1)"
      and z: "zero_run (Suc n) w1 bs1 = Inr (m, w', bs')"
      by (subst (asm) zero_run.simps) (auto simp: rbind_eq_Inr)
    have bs: "bs = w1 @ bs1" "length w1 = 8"
      using source_read_shrinks [OF r] by simp_all
    have w: "w = replicate 8 0"
      using True "1.prems"(2) is_zero_word_replicate by blast
    from "1.IH" [OF True, of "(w1, bs1)" w1 bs1] r z bs True
    have ih: "Suc n \<le> m" "m \<le> 254" "length w' = 8" "is_zero_word w' \<longrightarrow> m = 254"
      "w1 @ bs1 = replicate (8 * (m - Suc n)) 0 @ w' @ bs'"
      by simp_all
    have "8 * (m - n) = 8 + 8 * (m - Suc n)"
      using ih(1) by simp
    then have "w @ bs = replicate (8 * (m - n)) 0 @ w' @ bs'"
      by (simp only: bs w replicate_add append_assoc ih(5))
    with ih show ?thesis by simp
  next
    case False
    with "1.prems" show ?thesis
      by (subst (asm) zero_run.simps) auto
  qed
qed

lemma concat_zero_words: "concat (replicate n zero_word) = replicate (8 * n) 0"
  by (induction n) (simp_all add: zero_word_def replicate_add)

section \<open>One step back\<close>

lemma unpack_zero_prefix:
  assumes "rest \<noteq> []" and "n \<le> 254"
  shows "capp_unpack (0 # word_of_nat n # rest) =
    rbind (capp_unpack rest) (\<lambda>ws. Inr (zero_word # replicate n zero_word @ ws))"
proof -
  have "unat (word_of_nat n :: byte) = n"
    using assms(2) by (simp add: unat_word_of_nat_byte)
  with assms(1) show ?thesis
    by (subst capp_unpack.simps) (simp add: unpack_step_def)
qed

lemma unpack_plain_word:
  assumes "length w = 8" and "\<not> is_zero_word w" and "word_tag w \<noteq> 0xff"
  shows "capp_unpack (pack_word w @ rest) = rbind (capp_unpack rest) (\<lambda>ws. Inr (w # ws))"
  using assms tag_zero [OF assms(1)]
  by (subst capp_unpack.simps)
     (simp add: unpack_step_def pack_word_def Let_def word_tag_bits unpack_pack_word)

lemma num_raw_le: "unat (num_raw bs) * 8 \<le> length bs"
proof -
  have "length (takeWhile (\<lambda>b. b \<noteq> 0) bs) \<le> length bs"
    by (rule length_takeWhile_le)
  moreover have "unat (num_raw bs) \<le> length (takeWhile (\<lambda>b. b \<noteq> 0) bs) div 8"
    by (simp add: num_raw_def unat_word_of_nat_byte)
  ultimately show ?thesis
    by (meson div_times_less_eq_dividend le_trans mult_le_mono1)
qed

lemma unpack_raw_word:
  assumes "length w = 8" and "word_tag w = 0xff" and "length raw = unat n * 8"
  shows "capp_unpack (pack_word w @ [n] @ raw @ rest) =
    rbind (capp_unpack rest) (\<lambda>ws. Inr ([w] @ (if n = 0 then [] else [raw]) @ ws))"
proof -
  have f: "filter (\<lambda>b. b \<noteq> 0) w = w"
    using assms tag_full by (simp add: list_all_iff)
  have r: "source_read 8 (w @ ys) = Inr (w, ys)" for ys
    using source_read_append' [of 8 w ys] assms(1) by simp
  show ?thesis
    using assms
    by (cases "n = 0"; subst capp_unpack.simps)
       (simp_all add: unpack_step_def pack_word_def f r unat_eq_0 Let_def)
qed

lemma emit_back:
  assumes "length w = 8" and "\<not> is_zero_word w" and "pack_emit w bs = (st, bs')"
  shows "\<exists>us n. w @ bs = concat us @ bs' \<and> bs' = drop (8 * n) bs \<and> concat st \<noteq> [] \<and>
    (\<forall>rest. capp_unpack (concat st @ rest) = rbind (capp_unpack rest) (\<lambda>ws. Inr (us @ ws)))"
proof (cases "word_tag w = 0xff")
  case True
  let ?n = "num_raw bs" and ?m = "unat (num_raw bs) * 8"
  have st: "st = [pack_word w, [?n], take ?m bs]" "bs' = drop ?m bs"
    using assms(3) True by (auto simp: pack_emit_def Let_def)
  let ?us = "[w] @ (if ?n = 0 then [] else [take ?m bs])"
  have "length (take ?m bs) = ?m"
    using num_raw_le by simp
  from unpack_raw_word [OF assms(1) True this]
  have "\<forall>rest. capp_unpack (concat st @ rest) = rbind (capp_unpack rest) (\<lambda>ws. Inr (?us @ ws))"
    by (simp add: st(1))
  moreover have "w @ bs = concat ?us @ bs'"
    by (simp add: st(2))
  ultimately show ?thesis
    using st by (intro exI [of _ ?us] exI [of _ "unat ?n"]) (simp add: mult.commute)
next
  case False
  then have st: "st = [pack_word w]" "bs' = bs"
    using assms(3) by (auto simp: pack_emit_def)
  with unpack_plain_word [OF assms(1,2) False] show ?thesis
    by (intro exI [of _ "[w]"] exI [of _ 0]) (simp add: pack_word_def)
qed

lemma step_back:
  assumes "pack_step bs = Inr (st, bs')" and "short_runs bs"
  shows "\<exists>us n. bs = concat us @ bs' \<and> bs' = drop (8 * n) bs \<and>
    (\<forall>rest. capp_unpack (concat st @ rest) = rbind (capp_unpack rest) (\<lambda>ws. Inr (us @ ws)))"
  using assms(1)
proof (cases rule: pack_step_cases)
  case (nonzero w b1)
  have bs: "bs = w @ b1" "length w = 8"
    using source_read_shrinks [OF nonzero(1)] by simp_all
  from emit_back [OF bs(2) nonzero(2,3)] obtain us n where us: "w @ b1 = concat us @ bs'" "bs' = drop (8 * n) b1"
    "\<forall>rest. capp_unpack (concat st @ rest) = rbind (capp_unpack rest) (\<lambda>ws. Inr (us @ ws))"
    by blast
  have "bs' = drop (8 * Suc n) bs"
    using bs us(2) by simp
  with us bs(1) show ?thesis
    by blast
next
  case (zeros w b1 w1 b2 m w2 b3 ws)
  note r1 = zeros(3) and z = zeros(4) and e = zeros(5) and st = zeros(6)
  have bs: "bs = w @ b1" "length w = 8"
    using source_read_shrinks [OF zeros(1)] by simp_all
    have b1: "b1 = w1 @ b2" "length w1 = 8"
    using source_read_shrinks [OF r1] by simp_all
  from zero_run_spec [OF z b1(2)] have m: "m \<le> 254" "length w2 = 8"
    "w1 @ b2 = replicate (8 * m) 0 @ w2 @ b3" "is_zero_word w2 \<longrightarrow> m = 254"
    by simp_all
  have w: "w = replicate 8 0"
    using is_zero_word_replicate [OF bs(2) zeros(2)] .
  have eq: "bs = replicate (8 * Suc m) 0 @ w2 @ b3"
    by (simp only: bs(1) b1(1) m(3) w mult_Suc_right replicate_add append_assoc)
  have nz: "\<not> is_zero_word w2"
  proof
    assume zw: "is_zero_word w2"
    then have "bs = replicate (8 * Suc 254) 0 @ replicate 8 0 @ b3"
      using eq m(4) is_zero_word_replicate [OF m(2) zw] by simp
    then have "bs = replicate 2048 0 @ b3"
      by (simp only: append_assoc [symmetric] replicate_add [symmetric]) simp
    then show False
      using short_runs_start [OF assms(2)] by blast
  qed
  from emit_back [OF m(2) nz e] obtain us n where us: "w2 @ b3 = concat us @ bs'" "bs' = drop (8 * n) b3"
    "concat ws \<noteq> []"
    "\<forall>rest. capp_unpack (concat ws @ rest) = rbind (capp_unpack rest) (\<lambda>ws. Inr (us @ ws))"
    by blast
  let ?us = "(zero_word # replicate m zero_word) @ us"
  have "\<forall>rest. capp_unpack (concat st @ rest) = rbind (capp_unpack rest) (\<lambda>ws. Inr (?us @ ws))"
    using us(3,4) unpack_zero_prefix [OF _ m(1)] by (simp add: st rbind_assoc)
  moreover have "concat ?us = replicate (8 * Suc m) 0 @ concat us"
    using concat_zero_words [of "Suc m"] by simp
  then have "bs = concat ?us @ bs'"
    using eq us(1) by simp
  moreover have "bs' = drop (8 * (m + 2 + n)) bs"
    using us(2) m(2) by (simp add: eq)
  ultimately show ?thesis
    by blast
qed

lemma capn_compress_concat: "capn_compress c = rbind (capp_pack c) (\<lambda>ws. Inr (concat ws))"
  by (simp add: capn_compress_def vs.run_writes_concat vector_stream_write_def)

lemma capn_uncompress_concat: "capn_uncompress c = rbind (capp_unpack c) (\<lambda>ws. Inr (concat ws))"
  by (simp add: capn_uncompress_def vs.run_writes_concat vector_stream_write_def)

lemma pack_back:
  "short_runs bs \<Longrightarrow> capp_pack bs = Inr ws \<Longrightarrow>
     \<exists>us. capp_unpack (concat ws) = Inr us \<and> concat us = bs"
proof (induction "length bs" arbitrary: bs ws rule: less_induct)
  case less
  show ?case
  proof (cases "8 \<le> length bs")
    case False
    then show ?thesis
      using less.prems(2)
      by (subst (asm) capp_pack.simps) 
         (auto simp: capp_unpack.simps unpack_step_def split: if_splits)
  next
    case True
    with less.prems(2) obtain st bs' tl where st: "pack_step bs = Inr (st, bs')"
      and tl: "capp_pack bs' = Inr tl" and ws: "ws = st @ tl"
      by (subst (asm) capp_pack.simps) (auto simp: rbind_eq_Inr)
    from step_back [OF st less.prems(1)] obtain us n where us: "bs = concat us @ bs'"
      "bs' = drop (8 * n) bs"
      "\<forall>rest. capp_unpack (concat st @ rest) = rbind (capp_unpack rest) (\<lambda>ws. Inr (us @ ws))"
      by blast
    have "short_runs bs'"
      unfolding us(2) by (rule short_runs_drop [OF less.prems(1)])
    from less.hyps [OF pack_step_length [OF st] this tl] obtain vs where
      "capp_unpack (concat tl) = Inr vs" "concat vs = bs'"
      by blast
    with us ws show ?thesis by simp
  qed
qed

section \<open>Where packing fails\<close>

lemma capp_pack_step:
  "8 \<le> length bs \<Longrightarrow> capp_pack bs = rbind (pack_step bs) (\<lambda>(ws, bs). rbind (capp_pack bs) (\<lambda>rest. Inr (ws @ rest)))"
  by (subst capp_pack.simps) simp

lemma capp_unpack_step:
  "bs \<noteq> [] \<Longrightarrow> capp_unpack bs = rbind (unpack_step bs) (\<lambda>(ws, bs, stop).
           if stop then Inr ws else rbind (capp_unpack bs) (\<lambda>rest. Inr (ws @ rest)))"
  by (subst capp_unpack.simps) simp

lemma capp_pack_Nil: "capp_pack [] = Inr []"
  by (subst capp_pack.simps) simp

lemma zero_run_full: "n + k = 254 \<Longrightarrow> zero_run n zero_word (replicate (8 * k) 0 @ rest) = Inr (254, zero_word, rest)"
proof (induction k arbitrary: n)
  case 0
  then show ?case by (subst zero_run.simps) simp
next
  case (Suc k)
  have "source_read 8 (replicate (8 * Suc k) 0 @ rest) = Inr (zero_word, replicate (8 * k) 0 @ rest)"
    using source_read_append' [of 8 zero_word "replicate (8 * k) 0 @ rest"]
    by (simp add: zero_word_def replicate_add)
  moreover have "is_zero_word zero_word"
    by (simp add: is_zero_word_def zero_word_def list_all_iff)
  ultimately show ?case
    using Suc by (subst zero_run.simps) simp
qed

lemma eight: "replicate 8 b = [b, b, b, b, b, b, b, b]"
  by (simp add: numeral_eq_Suc)

lemma ones_step:
  assumes "takeWhile (\<lambda>b. b \<noteq> 0) xs = []"
  shows "pack_step (replicate 8 1 @ xs) = Inr ([0xff # replicate 8 1, [0], []], xs)"
proof -
  have r: "source_read 8 (replicate 8 1 @ xs) = Inr (replicate 8 1, xs)"
    by (rule source_read_append') simp
  have e: "pack_emit (replicate 8 1) xs = ([0xff # replicate 8 1, [0], []], xs)"
    using assms by (simp add: pack_emit_def word_tag_def pack_word_def num_raw_def eight)
  show ?thesis
    unfolding pack_step_def r by (simp add: is_zero_word_def eight e [unfolded eight])
qed

lemma pack_ones: "capp_pack (replicate 8 1) = Inr [0xff # replicate 8 1, [0], []]"
  using ones_step [of "[]"] by (subst capp_pack_step) (simp_all add: capp_pack_Nil)

lemma pack_long_run:
  "capn_compress (replicate 2048 0 @ replicate 8 1) = Inr ([0, 254, 0, 0xff] @ replicate 8 1 @ [0])"
proof -
  let ?bs = "replicate 2048 0 @ replicate 8 1 :: byte list"
  have bs: "?bs = zero_word @ zero_word @ replicate (8 * 254) 0 @ replicate 8 1"
    unfolding zero_word_def by (simp only: append_assoc [symmetric] replicate_add [symmetric]) simp
  have r: "source_read 8 (zero_word @ xs) = Inr (zero_word, xs)" for xs
    by (rule source_read_append') (simp add: zero_word_def)
  have z: "is_zero_word zero_word"
    by (simp add: is_zero_word_def zero_word_def list_all_iff)
  have e: "pack_emit zero_word xs = ([[0]], xs)" for xs
    by (simp add: pack_emit_def word_tag_def zero_word_def pack_word_def eight)
  have "pack_step ?bs = Inr ([[0], [254], [0]], replicate 8 1)"
    using zero_run_full [of 0 254 "replicate 8 1"] unfolding bs pack_step_def by (simp add: r z e)
  then have "capp_pack ?bs = Inr ([[0], [254], [0]] @ [0xff # replicate 8 1, [0], []])"
    by (subst capp_pack_step) (simp_all add: pack_ones)
  then show ?thesis
    by (simp add: capn_compress_concat)
qed

lemma unpack_long_run: "capn_uncompress ([0, 254, 0, 0xff] @ replicate 8 1 @ [0]) = Inl (Stream_Error overrun)"
proof -
  have a: "capp_unpack [0] = Inl (Stream_Error overrun)"
    by (subst capp_unpack_step) (simp_all add: unpack_step_def source_read_def)
  have b: "capp_unpack (1 # 1 # xs) = rbind (capp_unpack xs) (\<lambda>rest. Inr ([[0, 0, 0, 0, 0, 0, 0, 1]] @ rest))" for xs
    by (subst capp_unpack_step) (simp_all add: unpack_step_def tag_bits_def)
  have c: "capp_unpack (replicate 8 1 @ [0]) = Inl (Stream_Error overrun)"
    by (simp add: eight a b)
  have d: "capp_unpack ([0, 0xff] @ replicate 8 1 @ [0]) = Inl (Stream_Error overrun)"
    by (subst capp_unpack_step) (simp_all add: unpack_step_def c)
  have "capp_unpack ([0, 254, 0, 0xff] @ replicate 8 1 @ [0]) = Inl (Stream_Error overrun)"
    using d unpack_zero_prefix [of "[0, 0xff] @ replicate 8 1 @ [0]" 254] by simp
  then show ?thesis
    by (simp add: capn_uncompress_concat)
qed

section \<open>Properties\<close>

text \<open>
  C39 (round trip): unless the data holds 256 zero words in a row, whatever \<^verbatim>\<open>capn_compress\<close>
  returns uncompresses to the data.
\<close>

theorem capp_roundtrip:
  assumes "short_runs c" and "capn_compress c = Inr z"
  shows "capn_uncompress z = Inr c"
  using pack_back [OF assms(1)] assms(2)
  by (auto simp: capn_compress_concat capn_uncompress_concat rbind_eq_Inr)

theorem capp_roundtrip_witness: "capn_uncompress (0xff # replicate 8 1 @ [0]) = Inr (replicate 8 1)"
proof (rule capp_roundtrip)
  have "replicate 2048 0 \<noteq> take 2048 (drop (8 * k) (replicate 8 1 :: byte list))" for k
    by (rule notI, drule arg_cong [of _ _ length]) simp
  then show "short_runs (replicate 8 1)"
    unfolding short_runs_def by metis
  show "capn_compress (replicate 8 1) = Inr (0xff # replicate 8 1 @ [0])"
    by (simp add: capn_compress_concat pack_ones)
qed

text \<open>
  Compression is not total and not lossless. Data whose last whole
  word is zero is refused with \<^verbatim>\<open>overrun\<close>, and a run of 256 zero words is written with a tag 0
  that has no count, which cannot be read back.
\<close>

theorem capp_defects:
  "capn_compress (replicate 8 1 @ replicate 8 0) = Inl (Stream_Error overrun) \<and>
   (\<exists>z. capn_compress (replicate 2048 0 @ replicate 8 1) = Inr z \<and>
        capn_uncompress z = Inl (Stream_Error overrun))"
proof -
  have "is_zero_word (replicate 8 0)" "source_read 8 [] = Inl (Stream_Error overrun)"
    by (simp_all add: is_zero_word_def source_read_def list_all_iff)
  moreover have "source_read 8 (replicate 8 0) = Inr (replicate 8 0, [])"
    by (simp add: source_read_def)
  ultimately have "pack_step (replicate 8 0) = Inl (Stream_Error overrun)"
    by (simp add: pack_step_def)
  then have "capp_pack (replicate 8 0) = Inl (Stream_Error overrun)"
    by (subst capp_pack_step) simp_all
  moreover have "takeWhile (\<lambda>b. b \<noteq> 0) (replicate 8 0) = ([] :: byte list)"
    by (simp add: eight)
  note ones_step [OF this]
  ultimately have "capp_pack (replicate 8 1 @ replicate 8 0) = Inl (Stream_Error overrun)"
    by (subst capp_pack_step) simp_all
  then show ?thesis
    using pack_long_run unpack_long_run by (simp add: capn_compress_concat)
qed

end
