(* ===== verification/Appbase_Lifecycle.thy ===== *)
theory Appbase_Lifecycle
  imports Clio_Prelude
begin

text \<open>
  The plugin lifecycle of appbase: the state machine of \<^verbatim>\<open>plugin<Impl>\<close> and the tables of
  \<^verbatim>\<open>application\<close> (application.hpp, application.cpp, plugin.hpp).

  A plugin is known by its name. What a plugin class declares is a parameter: the plugins its
  \<^verbatim>\<open>plugin_requires\<close> visits, in order, and whether its \<^verbatim>\<open>plugin_initialize\<close> and \<^verbatim>\<open>plugin_startup\<close>
  return or throw. Operations return whether they returned normally together with the state at
  that point, so that what an exception leaves behind is part of the model. The recursion over
  required plugins carries fuel; the number of plugins that are not yet initialized is shown to
  be enough, so the properties speak about runs that return.
\<close>

section \<open>State\<close>

datatype plugin_state = registered | initialized | started | stopped

datatype phase = Initialize | Startup

datatype 'p hook = Hook phase 'p | Shutdown_hook 'p

record 'p application =
  plugins :: "'p \<Rightarrow> plugin_state option"
  initialized_plugins :: "'p list"
  running_plugins :: "'p list"
  quiting :: bool
  hook_calls :: "'p hook list"       \<comment> \<open>calls of the plugins' own hooks, oldest first\<close>

record 'p plugin_impl =
  requires :: "'p \<Rightarrow> 'p list"
  returns :: "phase \<Rightarrow> 'p \<Rightarrow> bool"    \<comment> \<open>the hook returns and does not throw\<close>

definition application_new :: "'p application" where
  "application_new = \<lparr>plugins = (\<lambda>_. None), initialized_plugins = [], running_plugins = [],
     quiting = False, hook_calls = []\<rparr>"

definition set_state :: "'p \<Rightarrow> plugin_state \<Rightarrow> 'p application \<Rightarrow> 'p application" where
  "set_state p st a = a\<lparr>plugins := (plugins a)(p \<mapsto> st)\<rparr>"

section \<open>Registration\<close>

type_synonym 'p step = "'p \<Rightarrow> 'p application \<Rightarrow> (bool \<times> 'p application) option"

text \<open>A loop over plugins that an exception leaves at once.\<close>

fun each :: "'p step \<Rightarrow> 'p list \<Rightarrow> 'p application \<Rightarrow> (bool \<times> 'p application) option" where
  "each f [] a = Some (True, a)"
| "each f (p # ps) a =
     Option.bind (f p a) (\<lambda>(ok, a). if ok then each f ps a else Some (False, a))"

text \<open>\<^verbatim>\<open>register_plugin\<close> enters the plugin before it visits the required ones.\<close>

fun register_plugin :: "'p plugin_impl \<Rightarrow> nat \<Rightarrow> 'p step" where
  "register_plugin I 0 p a = None"
| "register_plugin I (Suc n) p a =
     (if plugins a p \<noteq> None then Some (True, a)
      else each (register_plugin I n) (requires I p) (set_state p registered a))"

definition find_plugin :: "'p \<Rightarrow> 'p application \<Rightarrow> plugin_state option" where
  "find_plugin p a = plugins a p"

section \<open>Initialization and startup\<close>

text \<open>
  \<^verbatim>\<open>plugin::initialize\<close> and \<^verbatim>\<open>plugin::startup\<close> differ in the states, the hook and the list of the
  application that is extended at the end. The asserts are compiled out.
\<close>

definition from_state :: "phase \<Rightarrow> plugin_state" where
  "from_state ph = (case ph of Initialize \<Rightarrow> registered | Startup \<Rightarrow> initialized)"

definition to_state :: "phase \<Rightarrow> plugin_state" where
  "to_state ph = (case ph of Initialize \<Rightarrow> initialized | Startup \<Rightarrow> started)"

definition done_list :: "phase \<Rightarrow> 'p application \<Rightarrow> 'p list" where
  "done_list ph a = (case ph of Initialize \<Rightarrow> initialized_plugins a | Startup \<Rightarrow> running_plugins a)"

definition notify_done :: "phase \<Rightarrow> 'p \<Rightarrow> 'p application \<Rightarrow> 'p application" where
  "notify_done ph p a =
     (case ph of
        Initialize \<Rightarrow> a\<lparr>initialized_plugins := initialized_plugins a @ [p]\<rparr>
      | Startup \<Rightarrow> a\<lparr>running_plugins := running_plugins a @ [p]\<rparr>)"

fun advance :: "'p plugin_impl \<Rightarrow> phase \<Rightarrow> nat \<Rightarrow> 'p step" where
  "advance I ph 0 p a = None"
| "advance I ph (Suc n) p a =
     (if plugins a p = Some (from_state ph) then
        Option.bind
          (each (\<lambda>q a. Option.bind (register_plugin I n q a) (\<lambda>(ok, a). advance I ph n q a))
             (requires I p) (set_state p (to_state ph) a))
          (\<lambda>(ok, a).
             if ok then
               let a = a\<lparr>hook_calls := hook_calls a @ [Hook ph p]\<rparr>
               in if returns I ph p then Some (True, notify_done ph p a) else Some (False, a)
             else Some (False, a))
      else Some (True, a))"

definition plugin_initialize :: "'p plugin_impl \<Rightarrow> nat \<Rightarrow> 'p step" where
  "plugin_initialize I n p a = advance I Initialize n p a"

definition plugin_startup :: "'p plugin_impl \<Rightarrow> nat \<Rightarrow> 'p step" where
  "plugin_startup I n p a = advance I Startup n p a"

definition plugin_shutdown :: "'p \<Rightarrow> 'p application \<Rightarrow> 'p application" where
  "plugin_shutdown p a =
     (if plugins a p = Some started
      then (set_state p stopped a)\<lparr>hook_calls := hook_calls a @ [Shutdown_hook p]\<rparr>
      else a)"

section \<open>The application\<close>

definition quit :: "'p application \<Rightarrow> 'p application" where
  "quit a = a\<lparr>quiting := True\<rparr>"

text \<open>The part of \<^verbatim>\<open>initialize_impl\<close> that initializes plugins: those named in the options, where
  an unknown name throws, then those that start automatically, where an exception makes it
  return false.\<close>

datatype init_result = Init_returned bool | Init_threw

definition initialize_plugins ::
  "'p plugin_impl \<Rightarrow> nat \<Rightarrow> 'p list \<Rightarrow> 'p option list \<Rightarrow> 'p application \<Rightarrow>
     (init_result \<times> 'p application) option" where
  "initialize_plugins I n names autostart a =
     Option.bind
       (each (\<lambda>p a. if find_plugin p a = None then Some (False, a) else plugin_initialize I n p a) names a)
       (\<lambda>(ok, a).
          if \<not> ok then Some (Init_threw, a)
          else Option.bind
            (each (\<lambda>q a. if find_plugin q a = Some registered then plugin_initialize I n q a else Some (True, a))
               (map the (filter (\<lambda>q. q \<noteq> None) autostart)) a)
            (\<lambda>(ok, a). Some (Init_returned ok, a)))"

definition shutdown :: "'p application \<Rightarrow> 'p application" where
  "shutdown a =
     (let a = fold plugin_shutdown (rev (running_plugins a)) a;
          a = a\<lparr>plugins := (\<lambda>_. None), running_plugins := [], initialized_plugins := []\<rparr>
      in quit a)"

text \<open>
  \<^verbatim>\<open>startup\<close>: the loop stops when the application is quitting (the signal thread may set the flag at any
  time: \<^verbatim>\<open>quit_at\<close> tells before which plugins it was seen set). An exception shuts down and
  escapes, which the flag of the result says.
\<close>

fun startup_loop ::
  "'p plugin_impl \<Rightarrow> nat \<Rightarrow> ('p \<Rightarrow> bool) \<Rightarrow> 'p list \<Rightarrow> 'p application \<Rightarrow> (bool \<times> 'p application) option" where
  "startup_loop I n quit_at [] a = Some (True, a)"
| "startup_loop I n quit_at (p # ps) a =
     (if quiting a \<or> quit_at p then Some (True, a)
      else Option.bind (plugin_startup I n p a) (\<lambda>(ok, a).
           if ok then startup_loop I n quit_at ps a else Some (False, a)))"

definition startup ::
  "'p plugin_impl \<Rightarrow> nat \<Rightarrow> ('p \<Rightarrow> bool) \<Rightarrow> 'p application \<Rightarrow> (bool \<times> 'p application) option" where
  "startup I n quit_at a =
     Option.bind (startup_loop I n quit_at (initialized_plugins a) a) (\<lambda>(ok, a).
       if ok then Some (True, a) else Some (False, shutdown a))"

section \<open>Loops over plugins\<close>

lemma each_returns:
  assumes "\<And>p a. p \<in> set ps \<Longrightarrow> P a \<Longrightarrow> \<exists>ok a'. f p a = Some (ok, a') \<and> (ok \<or> throws) \<and> P a'" and "P a"
  shows "\<exists>ok a'. each f ps a = Some (ok, a') \<and> (ok \<or> throws) \<and> P a'"
  using assms
proof (induction ps arbitrary: a)
  case (Cons p ps)
  obtain ok a' where f: "f p a = Some (ok, a')" "ok \<or> throws" and P: "P a'"
    using Cons.prems(1) [of p a] Cons.prems(2) by auto
  show ?case
  proof (cases ok)
    case True
    have "\<exists>ok a''. each f ps a' = Some (ok, a'') \<and> (ok \<or> throws) \<and> P a''"
      by (rule Cons.IH) (use Cons.prems(1) P in auto)
    with f True show ?thesis by simp
  qed (use f P in auto)
qed auto

text \<open>An exception leaves a state of the weak invariant \<open>Q\<close>; a loop that ends has \<open>P\<close>, and each
  element has its own stable fact \<open>R\<close>.\<close>

lemma each_invariant:
  assumes "each f ps a = Some (ok, a')" and "P a"
    and "\<And>p a ok a'. p \<in> set ps \<Longrightarrow> P a \<Longrightarrow> f p a = Some (ok, a') \<Longrightarrow>
           (if ok then P a' \<and> R p a' else Q a') \<and> (\<forall>q. R q a \<longrightarrow> R q a')"
  shows "(if ok then P a' \<and> (\<forall>p \<in> set ps. R p a') else Q a') \<and> (\<forall>q. R q a \<longrightarrow> R q a')"
  using assms
proof (induction ps arbitrary: a)
  case (Cons p ps)
  obtain ok1 a1 where f: "f p a = Some (ok1, a1)"
    using Cons.prems(1) by (cases "f p a") auto
  note s = Cons.prems(3) [of p a ok1 a1, OF _ Cons.prems(2) f]
  show ?case
  proof (cases ok1)
    case True
    with f Cons.prems(1) have e: "each f ps a1 = Some (ok, a')" by simp
    from s True have P: "P a1" and R: "R p a1" and st: "\<forall>q. R q a \<longrightarrow> R q a1" by auto
    have "(if ok then P a' \<and> (\<forall>p \<in> set ps. R p a') else Q a') \<and> (\<forall>q. R q a1 \<longrightarrow> R q a')"
      by (rule Cons.IH [OF e P]) (rule Cons.prems(3), simp_all)
    with R st show ?thesis by auto
  next
    case False
    with f Cons.prems(1) have "ok = False" "a' = a1" by auto
    with s False show ?thesis by auto
  qed
qed simp

section \<open>Every operation returns\<close>

text \<open>The plugins that an operation may still have to enter.\<close>

definition pending_states :: "phase \<Rightarrow> plugin_state option set" where
  "pending_states ph =
     (case ph of Initialize \<Rightarrow> {None, Some registered}
      | Startup \<Rightarrow> {None, Some registered, Some initialized})"

definition pending :: "'p set \<Rightarrow> phase \<Rightarrow> 'p application \<Rightarrow> 'p set" where
  "pending U ph a = {p \<in> U. plugins a p \<in> pending_states ph}"

definition unregistered :: "'p set \<Rightarrow> 'p application \<Rightarrow> 'p set" where
  "unregistered U a = {p \<in> U. plugins a p = None}"

definition closed_under :: "('p \<Rightarrow> 'p list) \<Rightarrow> 'p set \<Rightarrow> bool" where
  "closed_under R U \<longleftrightarrow> (\<forall>p \<in> U. set (R p) \<subseteq> U)"

lemma set_state_simps [simp]:
  "plugins (set_state p st a) = (plugins a)(p \<mapsto> st)"
  "initialized_plugins (set_state p st a) = initialized_plugins a"
  "running_plugins (set_state p st a) = running_plugins a"
  "quiting (set_state p st a) = quiting a"
  "hook_calls (set_state p st a) = hook_calls a"
  by (simp_all add: set_state_def)

text \<open>What registering may change: plugins that were unknown become registered.\<close>

definition registers :: "'p application \<Rightarrow> 'p application \<Rightarrow> bool" where
  "registers a a' \<longleftrightarrow>
     initialized_plugins a' = initialized_plugins a \<and> running_plugins a' = running_plugins a \<and>
     quiting a' = quiting a \<and> hook_calls a' = hook_calls a \<and>
     (\<forall>q. plugins a' q = plugins a q \<or> plugins a q = None \<and> plugins a' q = Some registered)"

lemma registers_refl [simp]: "registers a a"
  by (simp add: registers_def)

lemma registers_trans: "registers a b \<Longrightarrow> registers b c \<Longrightarrow> registers a c"
  unfolding registers_def by (metis option.distinct(1))

lemma registers_known: "registers a a' \<Longrightarrow> plugins a p \<noteq> None \<Longrightarrow> plugins a' p = plugins a p"
  by (auto simp: registers_def)

lemma registers_set_state: "plugins a p = None \<Longrightarrow> registers a (set_state p registered a)"
  by (simp add: registers_def set_state_def)

lemma registers_unregistered: "registers a a' \<Longrightarrow> unregistered U a' \<subseteq> unregistered U a"
proof
  fix q assume "registers a a'" and "q \<in> unregistered U a'"
  then show "q \<in> unregistered U a"
    using registers_known [of a a' q] by (cases "plugins a q") (auto simp: unregistered_def)
qed

lemma registers_pending: "registers a a' \<Longrightarrow> pending U ph a' \<subseteq> pending U ph a"
  unfolding registers_def pending_def pending_states_def
  by (cases ph) (auto, (metis option.distinct(1) option.inject)+)

lemma registers_done_list: "registers a a' \<Longrightarrow> done_list ph a' = done_list ph a"
  by (simp add: registers_def done_list_def split: phase.splits)

lemma register_plugin_returns:
  assumes "finite U" "closed_under (requires I) U" "p \<in> U" "card (unregistered U a) < n"
  shows "\<exists>a'. register_plugin I n p a = Some (True, a') \<and> registers a a' \<and> plugins a' p \<noteq> None"
  using assms(3,4)
proof (induction n arbitrary: p a)
  case (Suc n)
  show ?case
  proof (cases "plugins a p")
    case None
    let ?b = "set_state p registered a"
    have sub: "unregistered U ?b \<subset> unregistered U a"
      using None Suc.prems(1) by (auto simp: unregistered_def)
    have fin: "finite (unregistered U a)" using assms(1) by (simp add: unregistered_def)
    have n: "card (unregistered U ?b) < n"
      using psubset_card_mono [OF fin sub] Suc.prems(2) by simp
    have req: "set (requires I p) \<subseteq> U" using assms(2) Suc.prems(1) by (auto simp: closed_under_def)
    have "\<exists>ok a'. each (register_plugin I n) (requires I p) ?b = Some (ok, a') \<and> (ok \<or> False) \<and>
            registers ?b a'"
    proof (rule each_returns)
      fix q c assume q: "q \<in> set (requires I p)" and c: "registers ?b c"
      have "unregistered U c \<subseteq> unregistered U ?b" by (rule registers_unregistered [OF c])
      then have "card (unregistered U c) < n"
        using n sub fin by (meson card_mono finite_subset le_less_trans psubset_imp_subset)
      with Suc.IH [of q c] q req c registers_trans
      show "\<exists>ok a'. register_plugin I n q c = Some (ok, a') \<and> (ok \<or> False) \<and> registers ?b a'" by blast
    qed simp
    then obtain a' where e: "each (register_plugin I n) (requires I p) ?b = Some (True, a')"
      and r: "registers ?b a'" by auto
    show ?thesis
      using e r None registers_trans [OF registers_set_state [of a p] r] registers_known [OF r, of p]
      by simp
  qed simp
qed simp

text \<open>The entry of a plugin.\<close>

definition enter :: "'p plugin_impl \<Rightarrow> phase \<Rightarrow> nat \<Rightarrow> 'p step" where
  "enter I ph n q a = Option.bind (register_plugin I n q a) (\<lambda>(ok, a). advance I ph n q a)"

lemma advance_Suc:
  "advance I ph (Suc n) p a =
     (if plugins a p = Some (from_state ph) then
        Option.bind (each (enter I ph n) (requires I p) (set_state p (to_state ph) a))
          (\<lambda>(ok, a).
             if ok then
               let a = a\<lparr>hook_calls := hook_calls a @ [Hook ph p]\<rparr>
               in if returns I ph p then Some (True, notify_done ph p a) else Some (False, a)
             else Some (False, a))
      else Some (True, a))"
  by (simp add: enter_def [abs_def])

lemma plugins_notify_done [simp]: "plugins (notify_done ph p a) = plugins a"
  by (simp add: notify_done_def split: phase.splits)

lemma pending_notify [simp]:
  "pending U ph (notify_done ph' p a) = pending U ph a"
  "pending U ph (a\<lparr>hook_calls := h\<rparr>) = pending U ph a"
  by (simp_all add: pending_def)

lemma unregistered_pending: "unregistered U a \<subseteq> pending U ph a"
  by (auto simp: unregistered_def pending_def pending_states_def split: phase.splits)

lemma pending_set_state:
  "p \<in> U \<Longrightarrow> plugins a p = Some (from_state ph) \<Longrightarrow> pending U ph (set_state p (to_state ph) a) \<subset> pending U ph a"
  by (cases ph) (auto simp: pending_def pending_states_def from_state_def to_state_def)

lemma advance_returns:
  assumes U: "finite U" "closed_under (requires I) U" and "p \<in> U" "card (pending U ph a) < n"
  shows "\<exists>ok a'. advance I ph n p a = Some (ok, a') \<and> pending U ph a' \<subseteq> pending U ph a"
  using assms(3,4)
proof (induction n arbitrary: p a)
  case (Suc n)
  have fin: "\<And>c. finite (pending U ph c)" using U by (simp add: pending_def)
  show ?case
  proof (cases "plugins a p = Some (from_state ph)")
    case True
    let ?b = "set_state p (to_state ph) a"
    have sub: "pending U ph ?b \<subset> pending U ph a" by (rule pending_set_state [OF Suc.prems(1) True])
    have n: "card (pending U ph ?b) < n"
      using psubset_card_mono [OF fin sub] Suc.prems(2) by simp
    have req: "set (requires I p) \<subseteq> U" using U(2) Suc.prems(1) by (auto simp: closed_under_def)
    have "\<exists>ok a'. each (enter I ph n) (requires I p) ?b = Some (ok, a') \<and> (ok \<or> True) \<and>
            pending U ph a' \<subseteq> pending U ph ?b"
    proof (rule each_returns)
      fix q c assume q: "q \<in> set (requires I p)" and c: "pending U ph c \<subseteq> pending U ph ?b"
      have nc: "card (pending U ph c) < n" using card_mono [OF fin c] n by simp
      have "card (unregistered U c) < n"
        using card_mono [OF fin unregistered_pending] nc le_less_trans by blast
      then obtain d where d: "register_plugin I n q c = Some (True, d)" and r: "registers c d"
        using register_plugin_returns [OF U, of q c n] q req by auto
      have nd: "card (pending U ph d) < n"
        using card_mono [OF fin registers_pending [OF r]] nc le_less_trans by blast
      from q req have "q \<in> U" by auto
      from Suc.IH [OF this nd] d registers_pending [OF r, of U ph] c
      show "\<exists>ok a'. enter I ph n q c = Some (ok, a') \<and> (ok \<or> True) \<and> pending U ph a' \<subseteq> pending U ph ?b"
        by (fastforce simp: enter_def)
    qed simp
    then obtain ok a' where e: "each (enter I ph n) (requires I p) ?b = Some (ok, a')"
      and r: "pending U ph a' \<subseteq> pending U ph a" using sub by auto
    then show ?thesis
      unfolding advance_Suc using True by (cases "ok \<and> returns I ph p") (auto simp: Let_def)
  qed (auto simp: advance_Suc simp del: advance.simps)
qed simp

section \<open>Requirements first\<close>

text \<open>In a list of plugins each one comes after all plugins it requires.\<close>

definition requirements_first :: "('p \<Rightarrow> 'p list) \<Rightarrow> 'p list \<Rightarrow> bool" where
  "requirements_first R xs \<longleftrightarrow> (\<forall>ys p zs. xs = ys @ p # zs \<longrightarrow> set (R p) \<subseteq> set ys)"

lemma requirements_first_Nil [simp]: "requirements_first R []"
  by (simp add: requirements_first_def)

lemma requirements_first_snoc:
  "requirements_first R xs \<Longrightarrow> set (R p) \<subseteq> set xs \<Longrightarrow> requirements_first R (xs @ [p])"
  unfolding requirements_first_def
  by (auto simp: append_eq_append_conv2 Cons_eq_append_conv append_eq_Cons_conv)

text \<open>No plugin requires itself, directly or through others.\<close>

definition acyclic_requires :: "('p \<Rightarrow> 'p list) \<Rightarrow> bool" where
  "acyclic_requires R \<longleftrightarrow> (\<forall>p. \<not> (\<lambda>q p. q \<in> set (R p))\<^sup>+\<^sup>+ p p)"

definition ready :: "phase \<Rightarrow> 'p application \<Rightarrow> 'p \<Rightarrow> bool" where
  "ready ph a p \<longleftrightarrow> plugins a p \<in> {Some (from_state ph), Some (to_state ph)}"

text \<open>
  The state between two calls of \<^verbatim>\<open>initialize\<close> or \<^verbatim>\<open>startup\<close> while the plugins of \<open>D\<close> are on the call
  stack: they have the new state and are not in the list yet.
\<close>

definition hooks_of :: "phase \<Rightarrow> 'p application \<Rightarrow> 'p list" where
  "hooks_of ph a = concat (map (\<lambda>h. case h of Hook ph' p \<Rightarrow> if ph' = ph then [p] else [] | _ \<Rightarrow> []) (hook_calls a))"

definition phase_ok :: "'p plugin_impl \<Rightarrow> phase \<Rightarrow> 'p application \<Rightarrow> bool" where
  "phase_ok I ph a \<longleftrightarrow>
     (case ph of
        Initialize \<Rightarrow> (\<forall>p. plugins a p \<noteq> None \<longrightarrow> ready Initialize a p)
      | Startup \<Rightarrow> (\<forall>p. ready Startup a p \<longrightarrow> (\<forall>q \<in> set (requires I p). ready Startup a q)))"

definition settled :: "'p plugin_impl \<Rightarrow> phase \<Rightarrow> 'p set \<Rightarrow> 'p application \<Rightarrow> bool" where
  "settled I ph D a \<longleftrightarrow>
     distinct (done_list ph a) \<and> requirements_first (requires I) (done_list ph a) \<and>
     set (done_list ph a) \<inter> D = {} \<and>
     (\<forall>p. plugins a p = Some (to_state ph) \<longleftrightarrow> p \<in> set (done_list ph a) \<or> p \<in> D) \<and>
     phase_ok I ph a"

lemma ready_state: "ready ph a p \<Longrightarrow> plugins a p = Some (from_state ph) \<or> plugins a p = Some (to_state ph)"
  by (simp add: ready_def)

lemma registers_ready: "registers a b \<Longrightarrow> ready ph a p \<Longrightarrow> ready ph b p"
  using registers_known [of a b p] by (auto simp: ready_def)

lemma registers_cases:
  "registers a b \<Longrightarrow> plugins b p = plugins a p \<or> plugins a p = None \<and> plugins b p = Some registered"
  by (simp add: registers_def)

lemma registers_ready_Startup: "registers a b \<Longrightarrow> ready Startup b p \<longleftrightarrow> ready Startup a p"
  using registers_cases [of a b p] by (auto simp: ready_def from_state_def to_state_def)

lemma registers_to_state: "registers a b \<Longrightarrow> plugins b p = Some (to_state ph) \<longleftrightarrow> plugins a p = Some (to_state ph)"
  using registers_cases [of a b p] by (auto simp: to_state_def split: phase.splits)

lemma settled_registers:
  assumes "settled I ph D a" "registers a b"
  shows "settled I ph D b"
proof -
  have "phase_ok I ph b"
  proof (cases ph)
    case Initialize
    have "ready Initialize b p" if "plugins b p \<noteq> None" for p
    proof (cases "plugins a p = None")
      case True
      with registers_cases [OF assms(2), of p] that show ?thesis by (auto simp: ready_def from_state_def)
    next
      case False
      with assms registers_ready [OF assms(2)] show ?thesis by (auto simp: settled_def phase_ok_def Initialize)
    qed
    then show ?thesis by (simp add: phase_ok_def Initialize)
  next
    case Startup
    then show ?thesis
      using assms registers_ready_Startup [OF assms(2)] by (simp add: settled_def phase_ok_def)
  qed
  then show ?thesis
    using assms by (simp add: settled_def registers_done_list registers_to_state)
qed

lemma ready_set_state [simp]:
  "ready ph (set_state p (to_state ph) a) q \<longleftrightarrow> q = p \<or> ready ph a q"
  by (auto simp: ready_def)

lemma done_list_set_state [simp]: "done_list ph (set_state p st a) = done_list ph a"
  by (simp add: done_list_def split: phase.splits)

lemma settled_push:
  assumes "settled I ph D a" "plugins a p = Some (from_state ph)"
  shows "settled I ph (insert p D) (set_state p (to_state ph) a)"
proof -
  have "from_state ph \<noteq> to_state ph" by (simp add: from_state_def to_state_def split: phase.splits)
  moreover have "ready ph a p" using assms(2) by (simp add: ready_def)
  moreover have "phase_ok I ph (set_state p (to_state ph) a)"
    using assms(1) \<open>ready ph a p\<close>
    by (cases ph) (auto simp: settled_def phase_ok_def)
  moreover have "plugins a p = Some (to_state ph)" if "p \<in> set (done_list ph a)"
    using assms(1) that unfolding settled_def by blast
  ultimately show ?thesis using assms by (auto simp: settled_def)
qed

lemma ready_notify [simp]: "ready ph (notify_done ph' p a) q = ready ph a q"
  by (simp add: ready_def)

lemma done_list_notify [simp]: "done_list ph (notify_done ph p a) = done_list ph a @ [p]"
  by (simp add: done_list_def notify_done_def split: phase.splits)

lemma phase_ok_cong: "plugins a = plugins b \<Longrightarrow> phase_ok I ph a = phase_ok I ph b"
  by (simp add: phase_ok_def ready_def split: phase.splits)

lemma settled_pop:
  assumes "settled I ph (insert p D) a" "p \<notin> D" "set (requires I p) \<subseteq> set (done_list ph a)"
  shows "settled I ph D (notify_done ph p a)"
  using assms requirements_first_snoc [of "requires I" "done_list ph a" p]
    phase_ok_cong [of "notify_done ph p a" a I ph]
  by (auto simp: settled_def)

lemma hooks_of_set_state [simp]: "hooks_of ph (set_state p st a) = hooks_of ph a"
  by (simp add: hooks_of_def)

lemma hooks_of_registers: "registers a b \<Longrightarrow> hooks_of ph b = hooks_of ph a"
  by (simp add: registers_def hooks_of_def)

lemma settled_hook_calls [simp]: "settled I ph D (a\<lparr>hook_calls := h\<rparr>) = settled I ph D a"
  by (simp add: settled_def phase_ok_def ready_def done_list_def split: phase.splits)

lemma notify_done_hooks:
  "hooks_of ph (notify_done ph p (a\<lparr>hook_calls := hook_calls a @ [Hook ph p]\<rparr>)) = hooks_of ph a @ [p]"
  "hooks_of ph (a\<lparr>hook_calls := hook_calls a @ [Hook ph p]\<rparr>) = hooks_of ph a @ [p]"
  by (simp_all add: hooks_of_def notify_done_def split: phase.splits)

text \<open>What holds when a step returned, and when it threw: then the plugin whose hook threw is the
  only one whose hook ran without its entering the list.\<close>

definition in_order :: "'p plugin_impl \<Rightarrow> phase \<Rightarrow> 'p set \<Rightarrow> 'p application \<Rightarrow> bool" where
  "in_order I ph D a \<longleftrightarrow> settled I ph D a \<and> hooks_of ph a = done_list ph a"

definition threw :: "'p plugin_impl \<Rightarrow> phase \<Rightarrow> 'p application \<Rightarrow> bool" where
  "threw I ph a \<longleftrightarrow>
     (\<exists>D p. settled I ph D a \<and> p \<in> D \<and> \<not> returns I ph p \<and> hooks_of ph a = done_list ph a @ [p])"

definition below :: "'p plugin_impl \<Rightarrow> 'p \<Rightarrow> 'p \<Rightarrow> bool" where
  "below I = (\<lambda>q p. q \<in> set (requires I p))\<^sup>+\<^sup>+"

lemma register_plugin_registers:
  "register_plugin I n p a = Some (ok, b) \<Longrightarrow> ok \<and> registers a b \<and> plugins b p \<noteq> None"
proof (induction n arbitrary: p a ok b)
  case (Suc n)
  show ?case
  proof (cases "plugins a p")
    case None
    let ?b = "set_state p registered a"
    have e: "each (register_plugin I n) (requires I p) ?b = Some (ok, b)" using Suc.prems None by simp
    have "(if ok then registers ?b b \<and> (\<forall>q \<in> set (requires I p). True) else False) \<and>
          (\<forall>q::'a. True \<longrightarrow> True)"
    proof (rule each_invariant [OF e, where P = "registers ?b" and Q = "\<lambda>_. False" and R = "\<lambda>_ _. True"])
      fix q c ok d
      assume "registers ?b c" "register_plugin I n q c = Some (ok, d)"
      with Suc.IH [of q c ok d] registers_trans [of ?b c d]
      show "(if ok then registers ?b d \<and> True else False) \<and> (\<forall>q::'a. True \<longrightarrow> True)" by auto
    qed simp
    then have ok: "ok" and r: "registers ?b b" by (auto split: if_splits)
    show ?thesis
      using ok registers_trans [OF registers_set_state [OF None] r] registers_known [OF r, of p] by simp
  qed (use Suc.prems in auto)
qed simp

lemma in_order_registers: "in_order I ph D a \<Longrightarrow> registers a b \<Longrightarrow> in_order I ph D b"
  using settled_registers [of I ph D a b] by (simp add: in_order_def hooks_of_registers registers_done_list)

text \<open>A required plugin is ready once it has been registered.\<close>

lemma required_ready:
  assumes "in_order I ph D c" "p \<in> D" "q \<in> set (requires I p)" "registers c d" "plugins d q \<noteq> None"
  shows "ready ph d q"
proof (cases ph)
  case Initialize
  have "phase_ok I ph d" using in_order_registers [OF assms(1,4)] by (simp add: in_order_def settled_def)
  then show ?thesis using assms(5) by (simp add: phase_ok_def Initialize)
next
  case Startup
  have "ready ph c p" using assms(1,2) by (simp add: in_order_def settled_def ready_def)
  moreover have "phase_ok I ph c" using assms(1) by (simp add: in_order_def settled_def)
  ultimately have "ready ph c q" using assms(3) by (simp add: phase_ok_def Startup)
  then show ?thesis by (rule registers_ready [OF assms(4)])
qed

lemma done_list_hook_calls [simp]: "done_list ph (a\<lparr>hook_calls := h\<rparr>) = done_list ph a"
  by (simp add: done_list_def split: phase.splits)

text \<open>After the required plugins: the hook and the notification.\<close>

lemma advance_hook:
  assumes "(if ok1 then
              let a = c\<lparr>hook_calls := hook_calls c @ [Hook ph p]\<rparr>
              in if returns I ph p then Some (True, notify_done ph p a) else Some (False, a)
            else Some (False, c)) = Some (ok, a')"
    and "if ok1 then in_order I ph (insert p D) c \<and> set (requires I p) \<subseteq> set (done_list ph c) else threw I ph c"
    and "set (done_list ph a) \<subseteq> set (done_list ph c)" "p \<notin> D"
  shows "(if ok then in_order I ph D a' \<and> p \<in> set (done_list ph a') else threw I ph a') \<and>
         (\<forall>q. q \<in> set (done_list ph a) \<longrightarrow> q \<in> set (done_list ph a'))"
proof -
  let ?h = "c\<lparr>hook_calls := hook_calls c @ [Hook ph p]\<rparr>"
  consider "\<not> ok1" "a' = c" "\<not> ok" | "ok1" "returns I ph p" "ok" "a' = notify_done ph p ?h"
    | "ok1" "\<not> returns I ph p" "\<not> ok" "a' = ?h"
    using assms(1) by (auto simp: Let_def split: if_splits)
  then show ?thesis
  proof cases
    case 1
    with assms show ?thesis by auto
  next
    case 2
    have "settled I ph D a'"
      unfolding 2 by (rule settled_pop) (use assms 2 in \<open>auto simp: in_order_def\<close>)
    with assms 2 show ?thesis by (auto simp: in_order_def notify_done_hooks)
  next
    case 3
    have "settled I ph (insert p D) a'" using assms 3 by (simp add: in_order_def)
    with assms 3 show ?thesis
      by (auto simp: threw_def in_order_def notify_done_hooks intro!: exI [of _ "insert p D"] exI [of _ p])
  qed
qed

lemma advance_in_order:
  assumes "acyclic_requires (requires I)"
    and "advance I ph n p a = Some (ok, a')" "in_order I ph D a" "\<forall>d \<in> D. below I p d" "ready ph a p"
  shows "(if ok then in_order I ph D a' \<and> p \<in> set (done_list ph a') else threw I ph a') \<and>
         (\<forall>q. q \<in> set (done_list ph a) \<longrightarrow> q \<in> set (done_list ph a'))"
  using assms(2-)
proof (induction n arbitrary: p a D ok a')
  case (Suc n)
  note adv = Suc.prems(1)[unfolded advance_Suc]
  have pD: "p \<notin> D" using Suc.prems(3) assms(1) by (auto simp: acyclic_requires_def below_def)
  show ?case
  proof (cases "plugins a p = Some (from_state ph)")
    case True
    let ?b = "set_state p (to_state ph) a"
    let ?D = "insert p D"
    obtain ok1 c where e: "each (enter I ph n) (requires I p) ?b = Some (ok1, c)"
      using adv True by (cases "each (enter I ph n) (requires I p) ?b") (auto split: prod.splits)
    have "(if ok1 then in_order I ph ?D c \<and> (\<forall>q \<in> set (requires I p). q \<in> set (done_list ph c))
           else threw I ph c) \<and>
          (\<forall>q. q \<in> set (done_list ph ?b) \<longrightarrow> q \<in> set (done_list ph c))"
    proof (rule each_invariant [OF e, where R = "\<lambda>q a. q \<in> set (done_list ph a)"])
      show "in_order I ph ?D ?b"
        using Suc.prems(2) settled_push [OF _ True] by (simp add: in_order_def)
      fix q c ok d
      assume q: "q \<in> set (requires I p)" and c: "in_order I ph ?D c"
        and en: "enter I ph n q c = Some (ok, d)"
      obtain okr r where r: "register_plugin I n q c = Some (okr, r)" "advance I ph n q r = Some (ok, d)"
        using en by (cases "register_plugin I n q c") (auto simp: enter_def)
      note reg = register_plugin_registers [OF r(1)]
      have qp: "below I q p" using q by (auto simp: below_def)
      have "\<forall>d \<in> ?D. below I q d"
        using qp Suc.prems(3) by (auto simp: below_def)
      from Suc.IH [OF r(2) in_order_registers [OF c] this required_ready [OF c, of p]] reg q
      show "(if ok then in_order I ph ?D d \<and> q \<in> set (done_list ph d) else threw I ph d) \<and>
            (\<forall>r. r \<in> set (done_list ph c) \<longrightarrow> r \<in> set (done_list ph d))"
        by (auto simp: registers_done_list)
    qed
    then have c: "if ok1 then in_order I ph ?D c \<and> set (requires I p) \<subseteq> set (done_list ph c) else threw I ph c"
      and sub: "set (done_list ph a) \<subseteq> set (done_list ph c)" by auto
    show ?thesis
      by (rule advance_hook [OF _ c sub pD]) (use adv True e in simp)
  next
    case False
    then have "plugins a p = Some (to_state ph)" using Suc.prems(4) by (simp add: ready_def)
    then have "p \<in> set (done_list ph a)" using Suc.prems(2) pD by (auto simp: in_order_def settled_def)
    with adv False Suc.prems(2) show ?thesis by auto
  qed
qed simp

text \<open>What every elementary change of a phase keeps, the phase keeps.\<close>

lemma advance_keeps:
  assumes reg: "\<And>a b. registers a b \<Longrightarrow> P a \<Longrightarrow> P b"
    and set: "\<And>a q. P a \<Longrightarrow> plugins a q = Some (from_state ph) \<Longrightarrow> P (set_state q (to_state ph) a)"
    and hook: "\<And>a q. P a \<Longrightarrow> P (a\<lparr>hook_calls := hook_calls a @ [Hook ph q]\<rparr>)"
    and done_: "\<And>a q. P a \<Longrightarrow> P (notify_done ph q a)"
    and "advance I ph n p a = Some (ok, a')" "P a"
  shows "P a'"
  using assms(5,6)
proof (induction n arbitrary: p a ok a')
  case (Suc n)
  note adv = Suc.prems(1)[unfolded advance_Suc]
  show ?case
  proof (cases "plugins a p = Some (from_state ph)")
    case True
    let ?b = "set_state p (to_state ph) a"
    obtain ok1 c where e: "each (enter I ph n) (requires I p) ?b = Some (ok1, c)"
      using adv True by (cases "each (enter I ph n) (requires I p) ?b") (auto split: prod.splits)
    have "(if ok1 then P c \<and> (\<forall>q \<in> set (requires I p). True) else P c) \<and> (\<forall>q::'a. True \<longrightarrow> True)"
    proof (rule each_invariant [OF e, where R = "\<lambda>_ _. True"])
      show "P ?b" by (rule set [OF Suc.prems(2) True])
      fix q c ok d
      assume "P c" "enter I ph n q c = Some (ok, d)"
      then obtain r where "registers c r" "advance I ph n q r = Some (ok, d)"
        using register_plugin_registers
        by (cases "register_plugin I n q c") (force simp: enter_def)+
      with reg \<open>P c\<close> Suc.IH have "P d" by blast
      then show "(if ok then P d \<and> True else P d) \<and> (\<forall>q::'a. True \<longrightarrow> True)" by simp
    qed
    then have c: "P c" by (simp split: if_splits)
    show ?thesis
      using adv True e c hook [OF c] done_ [OF hook [OF c]] by (auto simp: Let_def split: if_splits)
  qed (use adv Suc.prems in auto)
qed simp

definition shutdown_hooks :: "'p application \<Rightarrow> 'p list" where
  "shutdown_hooks a = concat (map (\<lambda>h. case h of Shutdown_hook p \<Rightarrow> [p] | _ \<Rightarrow> []) (hook_calls a))"

lemma advance_known: "advance I ph n p a = Some (ok, b) \<Longrightarrow> plugins a q \<noteq> None \<Longrightarrow> plugins b q \<noteq> None"
  by (rule advance_keeps [where P = "\<lambda>a. plugins a q \<noteq> None"]) (auto dest: registers_known)

lemma advance_no_shutdown: "advance I ph n p a = Some (ok, b) \<Longrightarrow> shutdown_hooks a = [] \<Longrightarrow> shutdown_hooks b = []"
  by (rule advance_keeps [where P = "\<lambda>a. shutdown_hooks a = []"])
    (auto simp: shutdown_hooks_def registers_def notify_done_def split: phase.splits)

text \<open>Initialization does not touch what startup builds, and the reverse.\<close>

definition other_phase :: "phase \<Rightarrow> phase" where
  "other_phase ph = (case ph of Initialize \<Rightarrow> Startup | Startup \<Rightarrow> Initialize)"

lemma advance_other_phase:
  assumes "advance I ph n p a = Some (ok, b)"
  shows "done_list (other_phase ph) b = done_list (other_phase ph) a \<and>
         hooks_of (other_phase ph) b = hooks_of (other_phase ph) a \<and> quiting b = quiting a"
  by (rule advance_keeps [where P = "\<lambda>b. done_list (other_phase ph) b = done_list (other_phase ph) a \<and>
         hooks_of (other_phase ph) b = hooks_of (other_phase ph) a \<and> quiting b = quiting a", OF _ _ _ _ assms])
    (auto simp: registers_done_list hooks_of_registers notify_done_def other_phase_def hooks_of_def
       done_list_def registers_def split: phase.splits)

lemma ready_hook_calls [simp]: "ready ph (a\<lparr>hook_calls := h\<rparr>) q = ready ph a q"
  by (simp add: ready_def)

lemma ready_from: "plugins a p = Some (from_state ph) \<Longrightarrow> ready ph a p"
  by (simp add: ready_def)

text \<open>While plugins start, those that are initialized or started stay the same.\<close>

lemma startup_ready:
  assumes "advance I Startup n p a = Some (ok, b)"
  shows "ready Startup b q \<longleftrightarrow> ready Startup a q"
  by (rule advance_keeps [where P = "\<lambda>b. ready Startup b q = ready Startup a q", OF _ _ _ _ assms])
    (auto simp: registers_ready_Startup ready_from)

section \<open>Initialization\<close>

lemma in_order_registered:
  assumes "registers application_new a"
  shows "in_order I Initialize {} a" "running_plugins a = []" "hooks_of Startup a = []" "shutdown_hooks a = []"
  using assms
  by (auto simp: in_order_def settled_def phase_ok_def done_list_def registers_def application_new_def
      hooks_of_def shutdown_hooks_def ready_def from_state_def to_state_def)
    (metis option.distinct(1) plugin_state.distinct(1) option.inject)+

text \<open>What initialization keeps of the rest of the application.\<close>

definition untouched :: "'p application \<Rightarrow> 'p application \<Rightarrow> bool" where
  "untouched a b \<longleftrightarrow> running_plugins b = running_plugins a \<and> hooks_of Startup b = hooks_of Startup a \<and>
     quiting b = quiting a \<and> (shutdown_hooks a = [] \<longrightarrow> shutdown_hooks b = []) \<and>
     (\<forall>q. plugins a q \<noteq> None \<longrightarrow> plugins b q \<noteq> None)"

lemma untouched_refl [simp]: "untouched a a"
  by (simp add: untouched_def)

lemma untouched_trans: "untouched a b \<Longrightarrow> untouched b c \<Longrightarrow> untouched a c"
  by (simp add: untouched_def)

lemma initialize_untouched: "advance I Initialize n p a = Some (ok, b) \<Longrightarrow> untouched a b"
  using advance_other_phase [of I Initialize n p a ok b] advance_no_shutdown [of I Initialize n p a ok b]
    advance_known [of I Initialize n p a ok b]
  by (simp add: untouched_def other_phase_def done_list_def)

lemma plugin_initialize_in_order:
  assumes "acyclic_requires (requires I)" "plugin_initialize I n p a = Some (ok, b)"
    and "in_order I Initialize {} a" "plugins a p \<noteq> None"
  shows "(if ok then in_order I Initialize {} b \<and> p \<in> set (initialized_plugins b) else True) \<and>
         (\<forall>q. q \<in> set (initialized_plugins a) \<longrightarrow> q \<in> set (initialized_plugins b)) \<and> untouched a b"
proof -
  have "ready Initialize a p" using assms(3,4) by (simp add: in_order_def settled_def phase_ok_def)
  with advance_in_order [OF assms(1) assms(2)[unfolded plugin_initialize_def] assms(3)]
    initialize_untouched [OF assms(2)[unfolded plugin_initialize_def]]
  show ?thesis by (auto simp: done_list_def)
qed

lemma initialize_plugins_in_order:
  assumes "acyclic_requires (requires I)" "in_order I Initialize {} a"
    and "initialize_plugins I n names autostart a = Some (Init_returned True, b)"
    and "\<forall>q. Some q \<in> set autostart \<longrightarrow> plugins a q \<noteq> None"
  shows "in_order I Initialize {} b \<and> untouched a b \<and>
         (\<forall>p. p \<in> set names \<or> Some p \<in> set autostart \<longrightarrow> p \<in> set (initialized_plugins b))"
proof -
  let ?R = "\<lambda>q b. q \<in> set (initialized_plugins b)"
  let ?P = "\<lambda>b. in_order I Initialize {} b \<and> untouched a b"
  let ?f = "\<lambda>p a. if find_plugin p a = None then Some (False, a) else plugin_initialize I n p a"
  let ?g = "\<lambda>q a. if find_plugin q a = Some registered then plugin_initialize I n q a else Some (True, a)"
  let ?auto = "map the (filter (\<lambda>q. q \<noteq> None) autostart)"
  obtain c where 1: "each ?f names a = Some (True, c)" and 2: "each ?g ?auto c = Some (True, b)"
    using assms(3) unfolding initialize_plugins_def
    by (cases "each ?f names a"; cases "each ?g ?auto (snd (the (each ?f names a)))")
      (auto split: if_splits)
  have "(if True then ?P c \<and> (\<forall>p \<in> set names. ?R p c) else True) \<and> (\<forall>q. ?R q a \<longrightarrow> ?R q c)"
  proof (rule each_invariant [OF 1])
    fix p a1 ok a2 assume "?P a1" "?f p a1 = Some (ok, a2)"
    then show "(if ok then ?P a2 \<and> ?R p a2 else True) \<and> (\<forall>q. ?R q a1 \<longrightarrow> ?R q a2)"
      using plugin_initialize_in_order [OF assms(1), of n p a1 ok a2] untouched_trans [of a a1 a2]
      by (auto simp: find_plugin_def split: if_splits)
  qed (use assms in simp)
  then have c: "?P c" "\<forall>p \<in> set names. ?R p c" by auto
  have "(if True then ?P b \<and> (\<forall>p \<in> set ?auto. ?R p b) else True) \<and> (\<forall>q. ?R q c \<longrightarrow> ?R q b)"
  proof (rule each_invariant [OF 2])
    fix p a1 ok a2 assume p: "p \<in> set ?auto" and P: "?P a1" and g: "?g p a1 = Some (ok, a2)"
    have known: "plugins a1 p \<noteq> None" using p P assms(4) by (auto simp: untouched_def)
    show "(if ok then ?P a2 \<and> ?R p a2 else True) \<and> (\<forall>q. ?R q a1 \<longrightarrow> ?R q a2)"
    proof (cases "plugins a1 p = Some registered")
      case True
      with g P known show ?thesis
        using plugin_initialize_in_order [OF assms(1), of n p a1 ok a2] untouched_trans [of a a1 a2]
        by (auto simp: find_plugin_def split: if_splits)
    next
      case False
      have "plugins a1 p = Some initialized"
        using P known False by (auto simp: in_order_def settled_def phase_ok_def ready_def from_state_def to_state_def)
      then have "?R p a1" using P by (auto simp: in_order_def settled_def to_state_def done_list_def)
      with g P False show ?thesis by (auto simp: find_plugin_def)
    qed
  qed (use c in simp)
  then have "?P b" and au: "\<forall>p \<in> set ?auto. ?R p b" and st: "\<forall>q. ?R q c \<longrightarrow> ?R q b" by auto
  have "?R p b" if "Some p \<in> set autostart" for p
    using au that by force
  with \<open>?P b\<close> st c(2) show ?thesis by blast
qed

section \<open>Startup\<close>

lemma in_order_Startup:
  assumes "in_order I Initialize {} a" "running_plugins a = []" "hooks_of Startup a = []"
  shows "in_order I Startup {} a" and "ready Startup a p \<longleftrightarrow> p \<in> set (initialized_plugins a)"
proof -
  have st: "plugins a p = Some initialized \<longleftrightarrow> p \<in> set (initialized_plugins a)"
    and ns: "plugins a p \<noteq> Some started" for p
    using assms(1)
    by (auto simp: in_order_def settled_def phase_ok_def done_list_def ready_def from_state_def to_state_def)
  show r: "ready Startup a p \<longleftrightarrow> p \<in> set (initialized_plugins a)" for p
    using st ns by (simp add: ready_def from_state_def to_state_def)
  have "set (requires I q) \<subseteq> set (initialized_plugins a)" if q: "q \<in> set (initialized_plugins a)" for q
  proof -
    obtain ys zs where "initialized_plugins a = ys @ q # zs" using split_list [OF q] by blast
    then show ?thesis
      using assms(1) unfolding in_order_def settled_def requirements_first_def done_list_def by auto
  qed
  then have "phase_ok I Startup a" using r by (auto simp: phase_ok_def)
  then show "in_order I Startup {} a"
    using assms ns by (simp add: in_order_def settled_def done_list_def to_state_def)
qed

definition started_inv :: "'p plugin_impl \<Rightarrow> 'p list \<Rightarrow> 'p application \<Rightarrow> bool" where
  "started_inv I xs a \<longleftrightarrow> initialized_plugins a = xs \<and> (\<forall>p. ready Startup a p \<longleftrightarrow> p \<in> set xs) \<and>
     hooks_of Initialize a = xs \<and> shutdown_hooks a = []"

lemma advance_started_inv:
  assumes "advance I Startup n p a = Some (ok, b)" "started_inv I xs a"
  shows "started_inv I xs b \<and> quiting b = quiting a"
  using assms(2) advance_other_phase [OF assms(1)] startup_ready [OF assms(1)] advance_no_shutdown [OF assms(1)]
  by (simp add: started_inv_def other_phase_def done_list_def)

lemma startup_loop_in_order:
  assumes "acyclic_requires (requires I)" "startup_loop I n quit_at ps a = Some (ok, b)"
    and "in_order I Startup {} a" "started_inv I xs a" "set ps \<subseteq> set xs"
  shows "(if ok then in_order I Startup {} b \<and>
            (\<not> quiting a \<and> (\<forall>p \<in> set ps. \<not> quit_at p) \<longrightarrow> set ps \<subseteq> set (running_plugins b))
          else threw I Startup b) \<and>
         set (running_plugins a) \<subseteq> set (running_plugins b) \<and> started_inv I xs b"
  using assms(2-)
proof (induction ps arbitrary: a)
  case (Cons p ps)
  show ?case
  proof (cases "quiting a \<or> quit_at p")
    case False
    then obtain ok1 c where c: "advance I Startup n p a = Some (ok1, c)"
      using Cons.prems(1) by (cases "plugin_startup I n p a") (auto simp: plugin_startup_def)
    have "ready Startup a p" using Cons.prems(3,4) by (simp add: started_inv_def)
    note o = advance_in_order [OF assms(1) c Cons.prems(2) _ this]
    note k = advance_started_inv [OF c Cons.prems(3)]
    show ?thesis
    proof (cases ok1)
      case True
      have "startup_loop I n quit_at ps c = Some (ok, b)"
        using Cons.prems(1) False c True by (simp add: plugin_startup_def)
      from Cons.IH [OF this] o k True Cons.prems(4) show ?thesis
        by (auto simp: done_list_def)
    next
      case thr: False
      then have "b = c" "\<not> ok" using Cons.prems(1) False c by (simp_all add: plugin_startup_def)
      with o k thr show ?thesis by (auto simp: done_list_def)
    qed
  qed (use Cons.prems in auto)
qed simp

section \<open>Shutdown\<close>

lemma plugin_shutdown_simps:
  "initialized_plugins (plugin_shutdown p a) = initialized_plugins a"
  "running_plugins (plugin_shutdown p a) = running_plugins a"
  "hooks_of ph (plugin_shutdown p a) = hooks_of ph a"
  by (simp_all add: plugin_shutdown_def hooks_of_def)

lemma fold_plugin_shutdown:
  assumes "distinct ps" "\<forall>p \<in> set ps. plugins a p = Some started"
  shows "shutdown_hooks (fold plugin_shutdown ps a) = shutdown_hooks a @ ps \<and>
         hooks_of ph (fold plugin_shutdown ps a) = hooks_of ph a"
  using assms
proof (induction ps arbitrary: a)
  case (Cons p ps)
  have *: "\<forall>q \<in> set ps. plugins (plugin_shutdown p a) q = Some started"
    using Cons.prems by (auto simp: plugin_shutdown_def)
  have "shutdown_hooks (plugin_shutdown p a) = shutdown_hooks a @ [p]"
    using Cons.prems(2) by (simp add: plugin_shutdown_def shutdown_hooks_def)
  with Cons.IH [OF _ *] Cons.prems(1) show ?case by (simp add: plugin_shutdown_simps)
qed simp

lemma shutdown_result:
  "shutdown_hooks (shutdown a) = shutdown_hooks (fold plugin_shutdown (rev (running_plugins a)) a)"
  "hooks_of ph (shutdown a) = hooks_of ph (fold plugin_shutdown (rev (running_plugins a)) a)"
  "plugins (shutdown a) = (\<lambda>_. None)" "running_plugins (shutdown a) = []"
  "initialized_plugins (shutdown a) = []" "quiting (shutdown a)"
  by (simp_all add: shutdown_def quit_def Let_def shutdown_hooks_def hooks_of_def)

lemma settled_shutdown:
  assumes "settled I Startup D a"
  shows "shutdown_hooks (shutdown a) = shutdown_hooks a @ rev (running_plugins a)"
    and "hooks_of ph (shutdown a) = hooks_of ph a"
  using assms fold_plugin_shutdown [of "rev (running_plugins a)" a]
  by (auto simp: shutdown_result settled_def done_list_def to_state_def)

section \<open>Properties\<close>

lemma initialized_start:
  assumes "acyclic_requires (requires I)"
    and "registers application_new a" "\<forall>q. Some q \<in> set autostart \<longrightarrow> plugins a q \<noteq> None"
    and "initialize_plugins I n names autostart a = Some (Init_returned True, b)"
  shows "in_order I Initialize {} b" "in_order I Startup {} b" "started_inv I (initialized_plugins b) b"
    and "\<not> quiting b" and "\<forall>p. p \<in> set names \<or> Some p \<in> set autostart \<longrightarrow> p \<in> set (initialized_plugins b)"
proof -
  note r = in_order_registered [OF assms(2)]
  have b: "in_order I Initialize {} b" "untouched a b"
    and "\<forall>p. p \<in> set names \<or> Some p \<in> set autostart \<longrightarrow> p \<in> set (initialized_plugins b)"
    using initialize_plugins_in_order [OF assms(1) r(1) assms(4,3)] by auto
  then show "in_order I Initialize {} b"
    and "\<forall>p. p \<in> set names \<or> Some p \<in> set autostart \<longrightarrow> p \<in> set (initialized_plugins b)" by auto
  have e: "running_plugins b = []" "hooks_of Startup b = []" "shutdown_hooks b = []" "\<not> quiting b"
    using b(2) r assms(2) by (simp_all add: untouched_def registers_def application_new_def)
  note s = in_order_Startup [OF b(1) e(1,2)]
  show "in_order I Startup {} b" "\<not> quiting b" by (fact s(1), fact e(4))
  have "hooks_of Initialize b = initialized_plugins b"
    using b(1) by (simp add: in_order_def done_list_def)
  then show "started_inv I (initialized_plugins b) b"
    using s(2) e(3) by (simp add: started_inv_def)
qed

definition cleared :: "'p application \<Rightarrow> bool" where
  "cleared a \<longleftrightarrow> plugins a = (\<lambda>_. None) \<and> initialized_plugins a = [] \<and> running_plugins a = [] \<and> quiting a"

text \<open>
  C7 (invariant): Whenever an application whose plugins were registered initializes and starts without
  an exception, every plugin's hooks ran after those of all the plugins it requires, each once, in both
  phases; the named and the autostarted plugins were initialized, and all initialized plugins were
  started unless the application was quitting. Shutting down then calls the shutdown hook of every
  started plugin once, in the reverse order, and clears the tables.
\<close>

theorem lifecycle_order:
  assumes "acyclic_requires (requires I)"
    and "registers application_new a" "\<forall>q. Some q \<in> set autostart \<longrightarrow> plugins a q \<noteq> None"
    and "initialize_plugins I n names autostart a = Some (Init_returned True, b)"
    and "startup I m quit_at b = Some (True, c)"
  shows "requirements_first (requires I) (hooks_of Initialize c) \<and> distinct (hooks_of Initialize c) \<and>
         requirements_first (requires I) (hooks_of Startup c) \<and> distinct (hooks_of Startup c) \<and>
         (\<forall>p. p \<in> set names \<or> Some p \<in> set autostart \<longrightarrow> p \<in> set (hooks_of Initialize c)) \<and>
         set (hooks_of Startup c) \<subseteq> set (hooks_of Initialize c) \<and>
         ((\<forall>p. \<not> quit_at p) \<longrightarrow> set (hooks_of Startup c) = set (hooks_of Initialize c)) \<and>
         shutdown_hooks (shutdown c) = rev (hooks_of Startup c) \<and> cleared (shutdown c)"
proof -
  note b = initialized_start [OF assms(1-4)]
  have "startup_loop I m quit_at (initialized_plugins b) b = Some (True, c)"
    using assms(5) by (auto simp: startup_def split: Option.bind_splits if_splits)
  note l = startup_loop_in_order [OF assms(1) this b(2,3) order_refl]
  have c: "settled I Startup {} c" "hooks_of Startup c = running_plugins c"
    "hooks_of Initialize c = initialized_plugins b" "shutdown_hooks c = []"
    using l by (simp_all add: in_order_def started_inv_def done_list_def)
  have sub: "set (running_plugins c) \<subseteq> set (initialized_plugins b)"
    using c(1) l by (auto simp: settled_def done_list_def started_inv_def ready_def)
  have ib: "distinct (initialized_plugins b)" "requirements_first (requires I) (initialized_plugins b)"
    using b(1) by (simp_all add: in_order_def settled_def done_list_def)
  show ?thesis
    using c sub ib b(4,5) l settled_shutdown [OF c(1)]
    by (auto simp: settled_def done_list_def cleared_def shutdown_result)
qed

text \<open>
  C23 (error): When a plugin's startup hook throws, startup shuts the application down before the
  exception escapes: the plugins that had started get their shutdown hook once each, in the reverse
  order, the tables are cleared, and the plugin that threw is not shut down.
\<close>

theorem startup_exception:
  assumes "acyclic_requires (requires I)"
    and "registers application_new a" "\<forall>q. Some q \<in> set autostart \<longrightarrow> plugins a q \<noteq> None"
    and "initialize_plugins I n names autostart a = Some (Init_returned True, b)"
    and "startup I m quit_at b = Some (False, c)"
  shows "\<exists>rs p. hooks_of Startup c = rs @ [p] \<and> \<not> returns I Startup p \<and> p \<notin> set rs \<and>
           requirements_first (requires I) rs \<and> distinct rs \<and> shutdown_hooks c = rev rs \<and> cleared c"
proof -
  note b = initialized_start [OF assms(1-4)]
  obtain d where d: "startup_loop I m quit_at (initialized_plugins b) b = Some (False, d)" "c = shutdown d"
    using assms(5) by (auto simp: startup_def split: Option.bind_splits if_splits)
  note l = startup_loop_in_order [OF assms(1) d(1) b(2,3) order_refl]
  obtain D p where t: "settled I Startup D d" "p \<in> D" "\<not> returns I Startup p"
    "hooks_of Startup d = running_plugins d @ [p]"
    using l by (auto simp: threw_def done_list_def)
  show ?thesis
    using t settled_shutdown [OF t(1)] l d(2)
    by (intro exI [of _ "running_plugins d"] exI [of _ p])
      (auto simp: settled_def done_list_def started_inv_def cleared_def shutdown_result)
qed

text \<open>
  Registering, initializing and starting plugins always returns, also when the
  plugins require each other in a cycle: a call needs no deeper recursion than there are plugins.
\<close>

theorem lifecycle_returns:
  assumes "finite U" "closed_under (requires I) U" "card U < n"
    and "set names \<subseteq> U" "\<forall>q. Some q \<in> set autostart \<longrightarrow> q \<in> U" "set (initialized_plugins b) \<subseteq> U"
  shows "(\<forall>p \<in> U. \<exists>b. register_plugin I n p a = Some (True, b)) \<and>
         (\<exists>r b. initialize_plugins I n names autostart a = Some (r, b)) \<and>
         (\<exists>ok c. startup I n quit_at b = Some (ok, c))"
proof -
  have n: "card (pending U ph a) < n" "card (unregistered U a) < n" for ph a
    using assms(1,3) card_mono [of U "pending U ph a"] card_mono [of U "unregistered U a"]
    by (auto simp: pending_def unregistered_def)
  have adv: "\<exists>ok b. advance I ph n p a = Some (ok, b)" if "p \<in> U" for p ph a
    using advance_returns [OF assms(1,2) that n(1)] by blast
  let ?f = "\<lambda>p a. if find_plugin p a = None then Some (False, a) else plugin_initialize I n p a"
  let ?g = "\<lambda>q a. if find_plugin q a = Some registered then plugin_initialize I n q a else Some (True, a)"
  have "\<exists>ok c. each ?f names a = Some (ok, c) \<and> (ok \<or> True) \<and> True"
    by (rule each_returns) (use assms(4) adv in \<open>auto simp: plugin_initialize_def\<close>)
  then obtain ok c where c: "each ?f names a = Some (ok, c)" by blast
  have "\<exists>ok d. each ?g (map the (filter (\<lambda>q. q \<noteq> None) autostart)) c = Some (ok, d) \<and> (ok \<or> True) \<and> True"
    by (rule each_returns) (use assms(5) adv in \<open>auto simp: plugin_initialize_def\<close>)
  then have init: "\<exists>r b. initialize_plugins I n names autostart a = Some (r, b)"
    using c by (auto simp: initialize_plugins_def)
  have "\<exists>ok c. startup_loop I n quit_at ps b = Some (ok, c)" if "set ps \<subseteq> U" for ps b
    using that
  proof (induction ps arbitrary: b)
    case (Cons p ps)
    then obtain ok c where "plugin_startup I n p b = Some (ok, c)"
      using adv by (fastforce simp: plugin_startup_def)
    with Cons show ?case by auto
  qed auto
  from this [OF assms(6), of b] have "\<exists>ok c. startup I n quit_at b = Some (ok, c)"
    by (auto simp: startup_def)
  with init show ?thesis
    using register_plugin_returns [OF assms(1,2) _ n(2)] by blast
qed

text \<open>Three plugins in a chain, in which the first one may throw on startup.\<close>

definition chain :: "bool \<Rightarrow> nat plugin_impl" where
  "chain ok = \<lparr>requires = (\<lambda>p. if p = 2 then [0, 1] else if p = 1 then [0] else []),
     returns = (\<lambda>ph p. ok \<or> ph = Initialize \<or> p \<noteq> 1)\<rparr>"

definition chain_registered :: "nat application" where
  "chain_registered = snd (the (register_plugin (chain True) 4 2 application_new))"

definition chain_initialized :: "nat application" where
  "chain_initialized = snd (the (initialize_plugins (chain True) 4 [2] [None, Some 1] chain_registered))"

lemmas chain_eval = chain_def chain_registered_def chain_initialized_def application_new_def startup_def
  initialize_plugins_def plugin_initialize_def plugin_startup_def find_plugin_def eval_nat_numeral
  set_state_def from_state_def to_state_def notify_done_def

lemma chain_acyclic: "acyclic_requires (requires (chain ok))"
proof -
  have "(\<lambda>q p. q \<in> set (requires (chain ok) p))\<^sup>+\<^sup>+ x y \<Longrightarrow> x < y" for x y
    by (induction rule: tranclp_induct) (auto simp: chain_def split: if_splits)
  then show ?thesis by (auto simp: acyclic_requires_def)
qed

lemma chain_init:
  "registers application_new chain_registered"
  "plugins chain_registered 1 \<noteq> None"
  "initialize_plugins (chain ok) 4 [2] [None, Some 1] chain_registered = Some (Init_returned True, chain_initialized)"
  by (cases ok; simp add: chain_eval registers_def)+

theorem lifecycle_order_witness:
  "\<exists>c. startup (chain True) 4 (\<lambda>_. False) chain_initialized = Some (True, c) \<and>
       hooks_of Startup c = [0, 1, 2] \<and> shutdown_hooks (shutdown c) = rev (hooks_of Startup c)"
proof -
  have "\<exists>c. startup (chain True) 4 (\<lambda>_. False) chain_initialized = Some (True, c) \<and> hooks_of Startup c = [0, 1, 2]"
    by (simp add: chain_eval hooks_of_def)
  then show ?thesis
    using lifecycle_order [OF chain_acyclic chain_init(1) _ chain_init(3)] chain_init(2) by auto
qed

theorem startup_exception_witness:
  "\<exists>c. startup (chain False) 4 (\<lambda>_. False) chain_initialized = Some (False, c) \<and>
       (\<exists>rs p. hooks_of Startup c = rs @ [p] \<and> shutdown_hooks c = rev rs \<and> cleared c)"
proof -
  have "\<exists>c. startup (chain False) 4 (\<lambda>_. False) chain_initialized = Some (False, c)"
    by (simp add: chain_eval)
  then show ?thesis
    using startup_exception [OF chain_acyclic chain_init(1) _ chain_init(3)] chain_init(2) by fastforce
qed

text \<open>Two plugins that require each other.\<close>

definition ring :: "bool plugin_impl" where
  "ring = \<lparr>requires = (\<lambda>p. [\<not> p]), returns = (\<lambda>_ _. True)\<rparr>"

theorem lifecycle_returns_witness:
  "\<exists>r b. initialize_plugins ring 3 [True, False] [] application_new = Some (r, b)"
proof -
  have "finite (UNIV :: bool set)" "closed_under (requires ring) UNIV" "card (UNIV :: bool set) < 3"
    by (simp_all add: closed_under_def)
  from lifecycle_returns [OF this, of "[True, False]" "[]" application_new application_new]
  show ?thesis by auto
qed

end
