(* ===== verification/Appbase_Queue.thy ===== *)
theory Appbase_Queue
  imports Clio_Prelude "HOL-Library.Multiset"
begin

text \<open>
  appbase::execution_priority_queue (execution_priority_queue.hpp): handlers with a priority and a
  counter that decreases with every \<^verbatim>\<open>add\<close>, kept in a \<^verbatim>\<open>std::priority_queue\<close> ordered by both.

  The library queue is the list of its elements, largest first. What a handler does when it is
  executed is a parameter: the handlers it adds to the queue itself, in order. The locale
  \<^verbatim>\<open>max_queue\<close> states what the class needs of its container.
\<close>

section \<open>The container\<close>

record 'f queued_handler =
  h_priority :: int
  h_order :: u64
  h_function :: 'f

text \<open>\<^verbatim>\<open>operator<\<close>: the tuple of priority and order.\<close>

definition handler_less :: "'f queued_handler \<Rightarrow> 'f queued_handler \<Rightarrow> bool" where
  "handler_less a b \<longleftrightarrow>
     h_priority a < h_priority b \<or> h_priority a = h_priority b \<and> h_order a < h_order b"

fun pq_push :: "'f queued_handler \<Rightarrow> 'f queued_handler list \<Rightarrow> 'f queued_handler list" where
  "pq_push x [] = [x]"
| "pq_push x (y # ys) = (if handler_less y x then x # y # ys else y # pq_push x ys)"

definition pq_top :: "'f queued_handler list \<Rightarrow> 'f queued_handler" where
  "pq_top q = hd q"

definition pq_pop :: "'f queued_handler list \<Rightarrow> 'f queued_handler list" where
  "pq_pop q = tl q"

text \<open>The contract of a priority queue: no element is lost and the top is a largest one.\<close>

locale max_queue =
  fixes push :: "'a \<Rightarrow> 'q \<Rightarrow> 'q"
    and top_of :: "'q \<Rightarrow> 'a"
    and pop :: "'q \<Rightarrow> 'q"
    and elems :: "'q \<Rightarrow> 'a list"
    and less_of :: "'a \<Rightarrow> 'a \<Rightarrow> bool"
    and ok :: "'q \<Rightarrow> bool"
  assumes push_ok: "ok q \<Longrightarrow> ok (push x q)"
    and push_elems: "ok q \<Longrightarrow> mset (elems (push x q)) = add_mset x (mset (elems q))"
    and pop_ok: "ok q \<Longrightarrow> elems q \<noteq> [] \<Longrightarrow> ok (pop q)"
    and top_pop: "ok q \<Longrightarrow> elems q \<noteq> [] \<Longrightarrow> elems q = top_of q # elems (pop q)"
    and top_max: "ok q \<Longrightarrow> x \<in> set (elems q) \<Longrightarrow> \<not> less_of (top_of q) x"
begin

lemma push_pop_elems:
  assumes "ok q"
  shows "mset (elems (pop (push x q))) = add_mset x (mset (elems q)) - {#top_of (push x q)#}"
proof -
  have ne: "elems (push x q) \<noteq> []"
    using push_elems [OF assms, of x] by auto
  have "add_mset (top_of (push x q)) (mset (elems (pop (push x q)))) = mset (elems (push x q))"
    using arg_cong [OF top_pop [OF push_ok [OF assms] ne], of mset] by simp
  then show ?thesis
    unfolding push_elems [OF assms] by (metis add_mset_remove_trivial)
qed

end

definition pq_ok :: "'f queued_handler list \<Rightarrow> bool" where
  "pq_ok q \<longleftrightarrow> sorted_wrt (\<lambda>x y. \<not> handler_less x y) q"

lemma handler_less_trans: "handler_less a b \<Longrightarrow> handler_less b c \<Longrightarrow> handler_less a c"
  by (auto simp: handler_less_def)

lemma handler_less_neg_trans: "\<not> handler_less a b \<Longrightarrow> \<not> handler_less b c \<Longrightarrow> \<not> handler_less a c"
  by (auto simp: handler_less_def)

lemma handler_less_asym: "handler_less a b \<Longrightarrow> \<not> handler_less b a"
  by (auto simp: handler_less_def)

lemma set_pq_push [simp]: "set (pq_push x q) = insert x (set q)"
  by (induction q) auto

lemma mset_pq_push: "mset (pq_push x q) = add_mset x (mset q)"
  by (induction q) auto

lemma pq_push_ok: "pq_ok q \<Longrightarrow> pq_ok (pq_push x q)"
proof (induction q)
  case Nil
  then show ?case by (simp add: pq_ok_def)
next
  case (Cons y q)
  then show ?case
    by (auto simp: pq_ok_def dest: handler_less_asym handler_less_neg_trans)
qed

interpretation pq: max_queue pq_push pq_top pq_pop "\<lambda>q. q" handler_less pq_ok
proof unfold_locales
  show "pq_ok q \<Longrightarrow> x \<in> set q \<Longrightarrow> \<not> handler_less (pq_top q) x" for q x
    by (cases q) (auto simp: pq_ok_def pq_top_def handler_less_def)
  show "pq_ok q \<Longrightarrow> q \<noteq> [] \<Longrightarrow> pq_ok (pq_pop q)" for q
    by (cases q) (auto simp: pq_ok_def pq_pop_def)
qed (auto simp: pq_push_ok mset_pq_push pq_pop_def pq_top_def)

section \<open>The queue\<close>

record 'f execution_priority_queue =
  handlers :: "'f queued_handler list"
  order_counter :: u64

definition epq_new :: "'f execution_priority_queue" where
  "epq_new = \<lparr>handlers = [], order_counter = - 1\<rparr>"

definition epq_add :: "int \<Rightarrow> 'f \<Rightarrow> 'f execution_priority_queue \<Rightarrow> 'f execution_priority_queue" where
  "epq_add priority function q =
     (let order = order_counter q - 1
      in \<lparr>handlers = pq_push \<lparr>h_priority = priority, h_order = order, h_function = function\<rparr> (handlers q),
          order_counter = order\<rparr>)"

definition epq_size :: "'f execution_priority_queue \<Rightarrow> nat" where
  "epq_size q = length (handlers q)"

text \<open>
  Executing a handler runs its function, which may add handlers to the queue. \<^verbatim>\<open>execute_one\<close> is
  the body both loops share: execute the top, then pop whatever is on top afterwards. The result
  names the function that was run.
\<close>

definition run_function ::
  "('f \<Rightarrow> (int \<times> 'f) list) \<Rightarrow> 'f \<Rightarrow> 'f execution_priority_queue \<Rightarrow> 'f execution_priority_queue" where
  "run_function adds f q = fold (\<lambda>(p, g). epq_add p g) (adds f) q"

definition execute_one ::
  "('f \<Rightarrow> (int \<times> 'f) list) \<Rightarrow> 'f execution_priority_queue \<Rightarrow> 'f \<times> 'f execution_priority_queue" where
  "execute_one adds q =
     (let f = h_function (pq_top (handlers q));
          q = run_function adds f q
      in (f, q\<lparr>handlers := pq_pop (handlers q)\<rparr>))"

definition execute_highest ::
  "('f \<Rightarrow> (int \<times> 'f) list) \<Rightarrow> 'f execution_priority_queue \<Rightarrow>
     'f list \<times> bool \<times> 'f execution_priority_queue" where
  "execute_highest adds q =
     (let (run, q) = (if handlers q \<noteq> [] then (case execute_one adds q of (f, q) \<Rightarrow> ([f], q)) else ([], q))
      in (run, handlers q \<noteq> [], q))"

text \<open>The loop does not end when every handler adds another; None is that case.\<close>

partial_function (option) execute_all ::
  "('f \<Rightarrow> (int \<times> 'f) list) \<Rightarrow> 'f execution_priority_queue \<Rightarrow>
     ('f list \<times> 'f execution_priority_queue) option" where
  "execute_all adds q =
     (if handlers q \<noteq> []
      then (case execute_one adds q of (f, q) \<Rightarrow>
              Option.bind (execute_all adds q) (\<lambda>(run, q). Some (f # run, q)))
      else Some ([], q))"

declare execute_all.simps [code]

section \<open>The executor\<close>

text \<open>\<^verbatim>\<open>dispatch\<close>, \<^verbatim>\<open>post\<close> and \<^verbatim>\<open>defer\<close> are the same; two executors of one queue are equal
  when their priorities are.\<close>

datatype executor = Executor (ex_context: nat) (ex_priority: int)

definition executor_post ::
  "executor \<Rightarrow> 'f \<Rightarrow> (nat \<Rightarrow> 'f execution_priority_queue) \<Rightarrow> (nat \<Rightarrow> 'f execution_priority_queue)" where
  "executor_post ex f qs = qs(ex_context ex := epq_add (ex_priority ex) f (qs (ex_context ex)))"

definition executor_eq :: "executor \<Rightarrow> executor \<Rightarrow> bool" where
  "executor_eq a b \<longleftrightarrow> ex_context a = ex_context b \<and> ex_priority a = ex_priority b"

section \<open>Order of execution\<close>

definition entries :: "'f execution_priority_queue \<Rightarrow> (int \<times> 'f) list" where
  "entries q = map (\<lambda>h. (h_priority h, h_function h)) (handlers q)"

definition epq_add_all :: "(int \<times> 'f) list \<Rightarrow> 'f execution_priority_queue \<Rightarrow> 'f execution_priority_queue" where
  "epq_add_all xs q = fold (\<lambda>(p, f). epq_add p f) xs q"

text \<open>Handlers in the queue are older, so their order is larger than the counter.\<close>

definition epq_inv :: "'f execution_priority_queue \<Rightarrow> bool" where
  "epq_inv q \<longleftrightarrow> pq_ok (handlers q) \<and> (\<forall>h \<in> set (handlers q). order_counter q \<le> h_order h)"

fun insert_after :: "(int \<times> 'f) \<Rightarrow> (int \<times> 'f) list \<Rightarrow> (int \<times> 'f) list" where
  "insert_after x [] = [x]"
| "insert_after x (y # ys) = (if fst y < fst x then x # y # ys else y # insert_after x ys)"

lemma insert_after_sort:
  "insert_after x (sort_key (\<lambda>e. - fst e) xs) = sort_key (\<lambda>e. - fst e) (xs @ [x])"
proof (rule properties_for_sort_key [symmetric])
  let ?f = "\<lambda>e :: int \<times> 'a. - fst e"
  have m: "mset (insert_after x ys) = add_mset x (mset ys)" for ys
    by (induction ys) auto
  show "mset (insert_after x (sort_key ?f xs)) = mset (xs @ [x])"
    by (simp add: m)
  have s: "sorted (map ?f ys) \<Longrightarrow> sorted (map ?f (insert_after x ys))" for ys
  proof (induction ys)
    case (Cons y ys)
    have "set (insert_after x ys) = insert x (set ys)"
      by (metis m set_mset_add_mset_insert set_mset_mset)
    with Cons show ?case by auto
  qed simp
  show "sorted (map ?f (insert_after x (sort_key ?f xs)))"
    by (rule s) simp
  have fl: "sorted (map ?f ys) \<Longrightarrow> filter (\<lambda>e. ?f k = ?f e) (insert_after x ys) = filter (\<lambda>e. ?f k = ?f e) (ys @ [x])" for ys k
  proof (induction ys)
    case (Cons y ys)
    show ?case
    proof (cases "fst y < fst x")
      case True
      with Cons.prems have "\<forall>z \<in> set (y # ys). fst z < fst x" by auto
      then have "fst k = fst x \<Longrightarrow> filter (\<lambda>e. ?f k = ?f e) (y # ys) = []"
        by (auto simp: filter_empty_conv)
      with True show ?thesis by auto
    next
      case False
      with Cons show ?thesis by auto
    qed
  qed simp
  show "filter (\<lambda>e. ?f k = ?f e) (insert_after x (sort_key ?f xs)) = filter (\<lambda>e. ?f k = ?f e) (xs @ [x])"
    if "k \<in> set (insert_after x (sort_key ?f xs))" for k
    using sort_key_stable [of ?f "?f k" xs] by (subst fl) (simp_all add: eq_commute)
qed


lemma word_dec_le: "c \<noteq> (0 :: u64) \<Longrightarrow> c - 1 < c"
  by (simp add: word_less_nat_alt unat_minus_one unat_gt_0)

lemma add_entries:
  assumes "epq_inv q" and "order_counter q \<noteq> 0"
  shows "epq_inv (epq_add p f q)" and "entries (epq_add p f q) = insert_after (p, f) (entries q)"
proof -
  let ?c = "order_counter q - 1"
  have c: "?c < order_counter q"
    using word_dec_le [OF assms(2)] .
  then have old: "\<forall>h \<in> set (handlers q). ?c < h_order h"
    using assms(1) by (auto simp: epq_inv_def)
  then show "epq_inv (epq_add p f q)"
    using assms(1) by (auto simp: epq_inv_def epq_add_def Let_def pq_push_ok less_imp_le)
  have "map (\<lambda>h. (h_priority h, h_function h)) (pq_push \<lparr>h_priority = p, h_order = ?c, h_function = f\<rparr> hs)
      = insert_after (p, f) (map (\<lambda>h. (h_priority h, h_function h)) hs)"
    if "\<forall>h \<in> set hs. ?c < h_order h" for hs
    using that by (induction hs) (auto simp: handler_less_def)
  from this [OF old] show "entries (epq_add p f q) = insert_after (p, f) (entries q)"
    by (simp add: entries_def epq_add_def Let_def)
qed

lemma add_all_entries:
  assumes "length xs < 2 ^ 64"
  shows "epq_inv (epq_add_all xs epq_new) \<and> entries (epq_add_all xs epq_new) = sort_key (\<lambda>e. - fst e) xs \<and>
    order_counter (epq_add_all xs epq_new) = - 1 - word_of_nat (length xs)"
  using assms
proof (induction xs rule: rev_induct)
  case Nil
  then show ?case by (simp add: epq_add_all_def epq_new_def epq_inv_def pq_ok_def entries_def)
next
  case (snoc x xs)
  obtain p f where x: "x = (p, f)" by force
  let ?q = "epq_add_all xs epq_new"
  have ih: "epq_inv ?q" "entries ?q = sort_key (\<lambda>e. - fst e) xs" "order_counter ?q = - 1 - word_of_nat (length xs)"
    using snoc by simp_all
  have "(- 1 :: u64) - word_of_nat (length xs) \<noteq> 0"
  proof
    assume "(- 1 :: u64) - word_of_nat (length xs) = 0"
    then have "word_of_nat (length xs) = (- 1 :: u64)" by simp
    then have "unat (word_of_nat (length xs) :: u64) = 2 ^ 64 - 1"
      by (simp add: unsigned_minus_1_eq_mask mask_eq_exp_minus_1)
    with snoc.prems show False by (simp add: unat_of_nat)
  qed
  then have nz: "order_counter ?q \<noteq> 0" unfolding ih(3) .
  have step: "epq_add_all (xs @ [x]) epq_new = epq_add p f ?q"
    by (simp add: epq_add_all_def x)
  show ?case
    unfolding step using add_entries [OF ih(1) nz, of p f] ih
    by (simp add: x insert_after_sort) (simp add: epq_add_def Let_def)
qed

text \<open>Functions that add nothing themselves are run in the order of the queue.\<close>

lemma execute_all_plain:
  assumes "\<And>f. adds f = []"
  shows "execute_all adds q = Some (map h_function (handlers q), q\<lparr>handlers := []\<rparr>)"
proof (induction "handlers q" arbitrary: q)
  case Nil
  then show ?case by (subst execute_all.simps) simp
next
  case (Cons h hs)
  have one: "execute_one adds q = (h_function h, q\<lparr>handlers := hs\<rparr>)"
    using Cons.hyps(2) [symmetric] by (simp add: execute_one_def run_function_def assms pq_top_def pq_pop_def)
  have "execute_all adds (q\<lparr>handlers := hs\<rparr>) = Some (map h_function hs, q\<lparr>handlers := []\<rparr>)"
    using Cons.hyps(1) [of "q\<lparr>handlers := hs\<rparr>"] by simp
  then show ?case
    using Cons.hyps(2) [symmetric] one by (subst execute_all.simps) simp
qed

lemma functions_of_entries: "map h_function (handlers q) = map snd (entries q)"
  by (simp add: entries_def)

section \<open>Properties\<close>



text \<open>
  A handler that adds one of higher priority to the queue while it is
  executed makes \<^verbatim>\<open>execute_highest\<close> pop the new handler instead of itself: the new one is never run
  and the old one stays in the queue, to be run again.
\<close>

theorem execute_highest_reentrant:
  assumes "epq_inv q" and "handlers q = h # hs" and "adds (h_function h) = [(p, g)]" and "h_priority h < p"
  shows "\<exists>q'. execute_highest adds q = ([h_function h], True, q') \<and> handlers q' = h # hs"
proof -
  let ?x = "\<lparr>h_priority = p, h_order = order_counter q - 1, h_function = g\<rparr>"
  have "handler_less h ?x"
    using assms(4) by (simp add: handler_less_def)
  then have "pq_pop (pq_push ?x (h # hs)) = h # hs"
    by (simp add: pq_pop_def)
  then show ?thesis
    using assms(2,3)
    by (simp add: execute_highest_def execute_one_def run_function_def epq_add_def pq_top_def Let_def)
qed

theorem execute_highest_reentrant_witness:
  "\<exists>q'. execute_highest (\<lambda>f. if f = ''a'' then [(100, ''b'')] else []) (epq_add 10 ''a'' epq_new)
      = ([''a''], True, q') \<and> handlers q' = handlers (epq_add 10 ''a'' epq_new)"
proof -
  let ?h = "\<lparr>h_priority = 10, h_order = - 2, h_function = ''a''\<rparr>"
  have "\<exists>q'. execute_highest (\<lambda>f. if f = ''a'' then [(100, ''b'')] else []) (epq_add 10 ''a'' epq_new)
      = ([h_function ?h], True, q') \<and> handlers q' = ?h # []"
    by (rule execute_highest_reentrant [where p = 100 and g = "''b''"])
       (simp_all add: epq_add_def epq_new_def epq_inv_def pq_ok_def)
  then show ?thesis
    by (simp add: epq_add_def epq_new_def)
qed

end
