(* ===== verification/Appbase_Dispatch.thy ===== *)
theory Appbase_Dispatch
  imports Appbase_Queue
begin

text \<open>
  The dispatch policies of appbase's methods and channels (method.hpp, channel.hpp) and the
  publication of messages on a channel.

  A policy gets an iterator over the providers in call order; dereferencing the iterator runs the
  provider. A provider is a function of the state it shares with the others: it returns a result or
  throws, in which case \<^verbatim>\<open>Inl\<close> holds its diagnostic text. Which providers are connected, and their
  order, is up to the signal library: the list is a parameter.
\<close>

type_synonym ('s, 'r) provider = "'s \<Rightarrow> (string + 'r) \<times> 's"

datatype policy_error =
    Length_error string         \<comment> \<open>\<^verbatim>\<open>std::length_error\<close> with its text\<close>
  | Provider_error string       \<comment> \<open>what the provider threw\<close>

section \<open>Methods\<close>

definition no_result_message :: "string \<Rightarrow> string" where
  "no_result_message err = ''No Result Available, All providers returned exceptions['' @ err @ '']''"

definition append_error :: "string \<Rightarrow> string \<Rightarrow> string" where
  "append_error err e = (if err \<noteq> [] then err @ [CHR 0x22, CHR 0x2C, CHR 0x22] else err) @ e"

text \<open>\<^verbatim>\<open>first_success_policy<Ret(Args...)>::operator()\<close>; \<open>err\<close> is the text collected so far.\<close>

fun first_success_loop :: "string \<Rightarrow> ('s, 'r) provider list \<Rightarrow> 's \<Rightarrow> (policy_error + 'r) \<times> 's" where
  "first_success_loop err [] s = (Inl (Length_error (no_result_message err)), s)"
| "first_success_loop err (f # fs) s =
     (case f s of
        (Inr r, s) \<Rightarrow> (Inr r, s)
      | (Inl e, s) \<Rightarrow> first_success_loop (append_error err e) fs s)"

definition first_success_policy :: "('s, 'r) provider list \<Rightarrow> 's \<Rightarrow> (policy_error + 'r) \<times> 's" where
  "first_success_policy fs s = first_success_loop [] fs s"

text \<open>\<^verbatim>\<open>first_success_policy<void(Args...)>\<close>: there is no return after the call.\<close>

fun first_success_void_loop :: "string \<Rightarrow> ('s, unit) provider list \<Rightarrow> 's \<Rightarrow> (policy_error + unit) \<times> 's" where
  "first_success_void_loop err [] s = (Inl (Length_error (no_result_message err)), s)"
| "first_success_void_loop err (f # fs) s =
     (case f s of
        (Inr _, s) \<Rightarrow> first_success_void_loop err fs s
      | (Inl e, s) \<Rightarrow> first_success_void_loop (append_error err e) fs s)"

definition first_success_policy_void :: "('s, unit) provider list \<Rightarrow> 's \<Rightarrow> (policy_error + unit) \<times> 's" where
  "first_success_policy_void fs s = first_success_void_loop [] fs s"

text \<open>\<^verbatim>\<open>first_provider_policy\<close> dereferences the first iterator without a test: with no provider the
  behaviour is undefined, which is None.\<close>

definition first_provider_policy :: "('s, 'r) provider list \<Rightarrow> 's \<Rightarrow> ((policy_error + 'r) \<times> 's) option" where
  "first_provider_policy fs s =
     (case fs of
        [] \<Rightarrow> None
      | f # _ \<Rightarrow> Some (case f s of (Inl e, s) \<Rightarrow> (Inl (Provider_error e), s) | (Inr r, s) \<Rightarrow> (Inr r, s)))"

section \<open>Channels\<close>

fun drop_exceptions :: "('s, unit) provider list \<Rightarrow> 's \<Rightarrow> 's" where
  "drop_exceptions [] s = s"
| "drop_exceptions (f # fs) s = drop_exceptions fs (case f s of (Inr _, s) \<Rightarrow> s | (Inl _, s) \<Rightarrow> s)"

text \<open>A channel is known by its subscribers; publishing posts a handler that dispatches the copied
  data to whoever is subscribed when it runs. The handler is named by its channel and data;
  the io service that \<^verbatim>\<open>application::post\<close> goes through hands it to the queue.\<close>

definition has_subscribers :: "nat \<Rightarrow> bool" where
  "has_subscribers num_slots \<longleftrightarrow> num_slots > 0"

definition publish ::
  "('c \<Rightarrow> nat) \<Rightarrow> 'c \<Rightarrow> int \<Rightarrow> 'd \<Rightarrow> ('c \<times> 'd) execution_priority_queue \<Rightarrow> ('c \<times> 'd) execution_priority_queue" where
  "publish num_slots ch priority d q =
     (if has_subscribers (num_slots ch) then epq_add priority (ch, d) q else q)"

section \<open>What a provider does\<close>

text \<open>The state after the providers of a list ran in turn, and the texts of those that threw.\<close>

fun run_all :: "('s, 'r) provider list \<Rightarrow> 's \<Rightarrow> string list \<times> 's" where
  "run_all [] s = ([], s)"
| "run_all (f # fs) s =
     (case f s of
        (Inr _, s) \<Rightarrow> run_all fs s
      | (Inl e, s) \<Rightarrow> (case run_all fs s of (es, s) \<Rightarrow> (e # es, s)))"

definition all_throw :: "('s, 'r) provider list \<Rightarrow> 's \<Rightarrow> bool" where
  "all_throw fs s \<longleftrightarrow> length (fst (run_all fs s)) = length fs"

lemma run_all_length: "length (fst (run_all fs s)) \<le> length fs"
proof (induction fs arbitrary: s)
  case (Cons f fs)
  obtain x s1 where f: "f s = (x, s1)" by fastforce
  with Cons.IH [of s1] show ?case by (cases x) (auto split: prod.splits)
qed simp

lemma all_throw_Nil [simp]: "all_throw [] s"
  by (simp add: all_throw_def)

lemma all_throw_Cons: "all_throw (f # fs) s \<longleftrightarrow> (\<exists>e s'. f s = (Inl e, s') \<and> all_throw fs s')"
  using run_all_length [of fs "snd (f s)"]
  by (auto simp: all_throw_def split: prod.splits sum.splits)

lemma first_success_loop_all:
  "all_throw fs s \<Longrightarrow> first_success_loop err fs s =
     (Inl (Length_error (no_result_message (foldl append_error err (fst (run_all fs s))))), snd (run_all fs s))"
  by (induction fs arbitrary: s err) (auto simp: all_throw_Cons split: prod.splits)

lemma first_success_loop_skip:
  "all_throw fs s \<Longrightarrow> f (snd (run_all fs s)) = (Inr r, s') \<Longrightarrow>
     first_success_loop err (fs @ f # gs) s = (Inr r, s')"
  by (induction fs arbitrary: s err) (auto simp: all_throw_Cons split: prod.splits)

lemma first_success_void_loop_all:
  "first_success_void_loop err fs s =
     (Inl (Length_error (no_result_message (foldl append_error err (fst (run_all fs s))))), snd (run_all fs s))"
  by (induction fs arbitrary: s err) (auto split: prod.splits sum.splits)

lemma drop_exceptions_run_all: "drop_exceptions fs s = snd (run_all fs s)"
  by (induction fs arbitrary: s) (auto split: prod.splits sum.splits)

text \<open>Either all providers throw or the list splits at the first that does not.\<close>

lemma first_success_cases:
  "all_throw fs s \<or> (\<exists>us f gs r s'. fs = us @ f # gs \<and> all_throw us s \<and> f (snd (run_all us s)) = (Inr r, s'))"
proof (induction fs arbitrary: s)
  case (Cons f fs)
  obtain x s1 where f: "f s = (x, s1)" by fastforce
  show ?case
  proof (cases x)
    case (Inl e)
    show ?thesis
      using Cons.IH [of s1]
    proof
      assume "\<exists>us g gs r s'. fs = us @ g # gs \<and> all_throw us s1 \<and> g (snd (run_all us s1)) = (Inr r, s')"
      then obtain us g gs r s' where "fs = us @ g # gs" "all_throw us s1" "g (snd (run_all us s1)) = (Inr r, s')"
        by blast
      then have "f # fs = (f # us) @ g # gs" "all_throw (f # us) s" "g (snd (run_all (f # us) s)) = (Inr r, s')"
        using f Inl by (auto simp: all_throw_Cons split: prod.splits)
      then show ?thesis by blast
    qed (use f Inl in \<open>simp add: all_throw_Cons\<close>)
  next
    case (Inr r)
    then have "f # fs = [] @ f # fs" "all_throw [] s" "f (snd (run_all [] s)) = (Inr r, s1)" using f by simp_all
    then show ?thesis by blast
  qed
qed simp

section \<open>Properties\<close>

text \<open>
  A method with a result returns what its first provider that does not throw returns,
  after running exactly the providers before it, and throws a length error with the joined texts when
  all of them throw. One of the two cases always applies.
\<close>

theorem first_success_correct:
  "(\<exists>us f gs r s'. fs = us @ f # gs \<and> all_throw us s \<and> f (snd (run_all us s)) = (Inr r, s') \<and>
      first_success_policy fs s = (Inr r, s')) \<or>
   (all_throw fs s \<and> first_success_policy fs s =
      (Inl (Length_error (no_result_message (foldl append_error [] (fst (run_all fs s))))), snd (run_all fs s)))"
  using first_success_cases [of fs s]
proof
  assume "\<exists>us f gs r s'. fs = us @ f # gs \<and> all_throw us s \<and> f (snd (run_all us s)) = (Inr r, s')"
  then obtain us f gs r s' where "fs = us @ f # gs" "all_throw us s" "f (snd (run_all us s)) = (Inr r, s')"
    by blast
  with first_success_loop_skip [of us s f r s' "[]" gs] show ?thesis
    unfolding first_success_policy_def by blast
qed (simp add: first_success_policy_def first_success_loop_all)

text \<open>
  A method without a result never succeeds: every call runs all providers, also after one
  that returned, and then throws the length error that says all of them threw.
\<close>

theorem first_success_void_throws:
  "first_success_policy_void fs s =
     (Inl (Length_error (no_result_message (foldl append_error [] (fst (run_all fs s))))), snd (run_all fs s))"
  by (simp add: first_success_policy_void_def first_success_void_loop_all)

text \<open>The publications of a list, in order.\<close>

definition publish_all ::
  "('c \<Rightarrow> nat) \<Rightarrow> ('c \<times> int \<times> 'd) list \<Rightarrow> ('c \<times> 'd) execution_priority_queue \<Rightarrow> ('c \<times> 'd) execution_priority_queue" where
  "publish_all num_slots ms q = foldl (\<lambda>q (ch, p, d). publish num_slots ch p d q) q ms"

definition delivered :: "('c \<Rightarrow> nat) \<Rightarrow> ('c \<times> int \<times> 'd) list \<Rightarrow> (int \<times> 'c \<times> 'd) list" where
  "delivered num_slots ms = map (\<lambda>(ch, p, d). (p, ch, d)) (filter (\<lambda>(ch, _, _). has_subscribers (num_slots ch)) ms)"

lemma publish_all_adds: "publish_all num_slots ms q = epq_add_all (delivered num_slots ms) q"
  by (induction ms arbitrary: q)
    (auto simp: publish_all_def delivered_def publish_def epq_add_all_def)

text \<open>
  The messages published on channels with subscribers are all dispatched, once each,
  higher priorities first and in the order of publication within a priority; the others are dropped
  when they are published.
\<close>

theorem channel_delivery:
  assumes "length ms < 2 ^ 64"
  shows "\<exists>q. execute_all (\<lambda>_. []) (publish_all num_slots ms epq_new) =
               Some (map snd (sort_key (\<lambda>e. - fst e) (delivered num_slots ms)), q) \<and> epq_size q = 0"
proof -
  have "length (delivered num_slots ms) < 2 ^ 64"
    using assms le_less_trans [OF length_filter_le] by (auto simp: delivered_def)
  from add_all_entries [OF this] show ?thesis
    by (simp add: publish_all_adds execute_all_plain functions_of_entries epq_size_def)
qed

theorem channel_delivery_witness:
  "\<exists>q. execute_all (\<lambda>_. []) (publish_all (\<lambda>c. if c = ''news'' then 2 else 0)
          [(''news'', 10, ''a''), (''void'', 50, ''b''), (''news'', 100, ''c'')] epq_new) =
        Some ([(''news'', ''c''), (''news'', ''a'')], q) \<and> epq_size q = 0"
  using channel_delivery [of "[(''news'', 10, ''a''), (''void'', 50, ''b''), (''news'', 100, ''c'')]"
      "\<lambda>c. if c = ''news'' then 2 else 0"]
  by (simp add: delivered_def has_subscribers_def)

end
