(* ===== verification/Net_Session.thy ===== *)
theory Net_Session
  imports Clio_Prelude "HOL-Library.Multiset"
begin

text \<open>
  The WebSocket sessions of the node and the state they share (websocket_session.cpp,
  shared_state.cpp): the send queue of a session, the table of connected sessions and the broadcast
  of every message read to all of them.

  The handlers of one session run one at a time, in the order they were posted (its strand); the
  handlers of different sessions interleave. An asynchronous operation in flight keeps its session
  alive. A session is destroyed in two steps, the expiry of its weak pointers and the destructor,
  which leaves the table. The loop of a broadcast interleaves with everything else, also with
  the next read of the same session, so the steps include every order the program can run in. The fields marked as history are not part of the program.
\<close>

section \<open>A session\<close>

record 'm session =
  reading :: bool                 \<comment> \<open>an accept or a read is in flight\<close>
  posted :: "'m list"             \<comment> \<open>\<^verbatim>\<open>on_send\<close> handlers waiting on the strand\<close>
  queue :: "'m list"
  writing :: "'m option"          \<comment> \<open>the write in flight\<close>
  written :: "'m list"            \<comment> \<open>history: messages whose write completed\<close>
  write_failed :: bool            \<comment> \<open>history: a write completed with an error\<close>

definition new_session :: "'m session" where
  "new_session = \<lparr>reading = True, posted = [], queue = [], writing = None, written = [], write_failed = False\<rparr>"

definition async_write :: "'m session \<Rightarrow> 'm session" where
  "async_write s = s\<lparr>writing := Some (hd (queue s))\<rparr>"

definition send :: "'m \<Rightarrow> 'm session \<Rightarrow> 'm session" where
  "send m s = s\<lparr>posted := posted s @ [m]\<rparr>"

definition on_send :: "'m \<Rightarrow> 'm session \<Rightarrow> 'm session" where
  "on_send m s =
     (let s = s\<lparr>queue := queue s @ [m]\<rparr>
      in if length (queue s) > 1 then s else async_write s)"

text \<open>The completion of the write in flight; \<open>ec\<close> is an error.\<close>

definition on_write :: "bool \<Rightarrow> 'm session \<Rightarrow> 'm session" where
  "on_write ec s =
     (if ec then s\<lparr>writing := None, write_failed := True\<rparr>
      else
        let s = s\<lparr>queue := tl (queue s), written := written s @ [the (writing s)], writing := None\<rparr>
        in if queue s \<noteq> [] then async_write s else s)"

section \<open>The shared state\<close>

record ('i, 'm) node =
  alive :: "'i \<Rightarrow> 'm session option"
  dying :: "'i set"                        \<comment> \<open>expired, the destructor has not run yet\<close>
  sessions :: "'i set"
  flights :: "('m \<times> 'i list) list"         \<comment> \<open>broadcasts after their snapshot: the weak pointers left\<close>
  used :: "'i set"                         \<comment> \<open>history: objects constructed\<close>
  broadcasts :: "('m \<times> 'i set) list"       \<comment> \<open>history: messages with their snapshots\<close>

definition node_new :: "('i, 'm) node" where
  "node_new = \<lparr>alive = (\<lambda>_. None), dying = {}, sessions = {}, flights = [], used = {}, broadcasts = []\<rparr>"

definition join :: "'i \<Rightarrow> ('i, 'm) node \<Rightarrow> ('i, 'm) node" where
  "join i n = n\<lparr>sessions := insert i (sessions n)\<rparr>"

definition leave :: "'i \<Rightarrow> ('i, 'm) node \<Rightarrow> ('i, 'm) node" where
  "leave i n = n\<lparr>sessions := sessions n - {i}\<rparr>"

definition on_session :: "'i \<Rightarrow> 'm session \<Rightarrow> ('i, 'm) node \<Rightarrow> ('i, 'm) node" where
  "on_session i s n = n\<lparr>alive := (alive n)(i \<mapsto> s)\<rparr>"

text \<open>\<^verbatim>\<open>shared_state::send\<close>: the snapshot under the lock, in the order the table is iterated, and one
  step of the loop after it.\<close>

definition snapshot :: "'m \<Rightarrow> 'i list \<Rightarrow> ('i, 'm) node \<Rightarrow> ('i, 'm) node" where
  "snapshot m ids n = n\<lparr>flights := flights n @ [(m, ids)], broadcasts := broadcasts n @ [(m, set ids)]\<rparr>"

definition send_next :: "nat \<Rightarrow> ('i, 'm) node \<Rightarrow> ('i, 'm) node" where
  "send_next k n =
     (case flights n ! k of
        (m, []) \<Rightarrow> n
      | (m, i # is) \<Rightarrow>
          let n = n\<lparr>flights := (flights n)[k := (m, is)]\<rparr>
          in (case alive n i of None \<Rightarrow> n | Some s \<Rightarrow> on_session i (send m s) n))"

text \<open>The completion handlers \<^verbatim>\<open>on_accept\<close> and \<^verbatim>\<open>on_read\<close>.\<close>

definition on_accept :: "bool \<Rightarrow> 'i \<Rightarrow> 'm session \<Rightarrow> ('i, 'm) node \<Rightarrow> ('i, 'm) node" where
  "on_accept ec i s n = (if ec then on_session i (s\<lparr>reading := False\<rparr>) n else join i n)"

definition on_read :: "'m option \<Rightarrow> 'i list \<Rightarrow> 'i \<Rightarrow> 'm session \<Rightarrow> ('i, 'm) node \<Rightarrow> ('i, 'm) node" where
  "on_read m ids i s n =
     (case m of
        None \<Rightarrow> on_session i (s\<lparr>reading := False\<rparr>) n
      | Some m \<Rightarrow> snapshot m ids n)"

text \<open>Nothing holds a session any more.\<close>

definition unreferenced :: "'m session \<Rightarrow> bool" where
  "unreferenced s \<longleftrightarrow> \<not> reading s \<and> posted s = [] \<and> writing s = None"

section \<open>Steps\<close>

inductive step :: "('i, 'm) node \<Rightarrow> ('i, 'm) node \<Rightarrow> bool" where
  Construct: "i \<notin> used n \<Longrightarrow>
    step n (on_session i new_session (n\<lparr>used := insert i (used n)\<rparr>))"
| Accept: "alive n i = Some s \<Longrightarrow> i \<notin> sessions n \<Longrightarrow> reading s \<Longrightarrow> step n (on_accept ec i s n)"
| Read: "alive n i = Some s \<Longrightarrow> i \<in> sessions n \<Longrightarrow> reading s \<Longrightarrow> distinct ids \<Longrightarrow> set ids = sessions n \<Longrightarrow>
    step n (on_read m ids i s n)"
| Send_next: "k < length (flights n) \<Longrightarrow> step n (send_next k n)"
| Run_posted: "alive n i = Some s \<Longrightarrow> posted s = m # ms \<Longrightarrow>
    step n (on_session i (on_send m (s\<lparr>posted := ms\<rparr>)) n)"
| Write: "alive n i = Some s \<Longrightarrow> writing s \<noteq> None \<Longrightarrow> step n (on_session i (on_write ec s) n)"
| Expire: "alive n i = Some s \<Longrightarrow> unreferenced s \<Longrightarrow>
    step n (n\<lparr>alive := (alive n)(i := None), dying := insert i (dying n)\<rparr>)"
| Destroy: "i \<in> dying n \<Longrightarrow> step n (leave i (n\<lparr>dying := dying n - {i}\<rparr>))"

definition reachable :: "('i, 'm) node \<Rightarrow> bool" where
  "reachable n \<longleftrightarrow> step\<^sup>*\<^sup>* node_new n"

section \<open>The session invariant\<close>

text \<open>The write in flight is the head of the queue; without a failed write, the queue is empty when
  none is in flight.\<close>

definition session_ok :: "'m session \<Rightarrow> bool" where
  "session_ok s \<longleftrightarrow>
     (case writing s of
        Some m \<Rightarrow> queue s \<noteq> [] \<and> m = hd (queue s) \<and> \<not> write_failed s
      | None \<Rightarrow> (queue s \<noteq> []) = write_failed s)"

text \<open>All that was handed to the session, in order.\<close>

definition accepted :: "'m session \<Rightarrow> 'm list" where
  "accepted s = written s @ queue s @ posted s"

lemma session_ok_new [simp]: "session_ok new_session" "accepted new_session = []"
  by (simp_all add: session_ok_def new_session_def accepted_def)

lemma session_ok_send [simp]: "session_ok (send m s) = session_ok s" "accepted (send m s) = accepted s @ [m]"
  by (simp_all add: session_ok_def send_def accepted_def split: option.splits)

lemma session_ok_reading [simp]: "session_ok (s\<lparr>reading := b\<rparr>) = session_ok s" "accepted (s\<lparr>reading := b\<rparr>) = accepted s"
  by (simp_all add: session_ok_def accepted_def split: option.splits)

lemma session_ok_on_send:
  assumes "session_ok s" "posted s = m # ms"
  shows "session_ok (on_send m (s\<lparr>posted := ms\<rparr>)) \<and> accepted (on_send m (s\<lparr>posted := ms\<rparr>)) = accepted s"
  using assms by (cases "queue s") (auto simp: session_ok_def on_send_def async_write_def accepted_def split: option.splits)

lemma session_ok_on_write:
  assumes "session_ok s" "writing s \<noteq> None"
  shows "session_ok (on_write ec s) \<and> accepted (on_write ec s) = accepted s"
  using assms
  by (cases "queue s") (auto simp: session_ok_def on_write_def async_write_def accepted_def Let_def split: option.splits)

section \<open>The node invariant\<close>

definition in_flight :: "'i \<Rightarrow> ('m \<times> 'i list) list \<Rightarrow> 'm multiset" where
  "in_flight i fs = mset (map fst (filter (\<lambda>f. i \<in> set (snd f)) fs))"

definition owed :: "'i \<Rightarrow> ('m \<times> 'i set) list \<Rightarrow> 'm multiset" where
  "owed i bs = mset (map fst (filter (\<lambda>b. i \<in> snd b) bs))"

definition table_ok :: "('i, 'm) node \<Rightarrow> bool" where
  "table_ok n \<longleftrightarrow> sessions n \<subseteq> dom (alive n) \<union> dying n \<and> dom (alive n) \<union> dying n \<subseteq> used n \<and>
     dom (alive n) \<inter> dying n = {}"

definition flights_ok :: "('i, 'm) node \<Rightarrow> bool" where
  "flights_ok n \<longleftrightarrow> (\<forall>f \<in> set (flights n). distinct (snd f) \<and> set (snd f) \<subseteq> used n) \<and>
     (\<forall>b \<in> set (broadcasts n). snd b \<subseteq> used n)"

definition delivery_ok :: "('i, 'm) node \<Rightarrow> bool" where
  "delivery_ok n \<longleftrightarrow> (\<forall>i s. alive n i = Some s \<longrightarrow> session_ok s \<and>
     mset (accepted s) + in_flight i (flights n) = owed i (broadcasts n))"

definition node_ok :: "('i, 'm) node \<Rightarrow> bool" where
  "node_ok n \<longleftrightarrow> table_ok n \<and> flights_ok n \<and> delivery_ok n"

lemma in_flight_update:
  "k < length fs \<Longrightarrow> fs ! k = (m, i # is) \<Longrightarrow> i \<notin> set is \<Longrightarrow>
     in_flight j fs = (if j = i then {#m#} else {#}) + in_flight j (fs[k := (m, is)])"
proof (induction fs arbitrary: k)
  case (Cons f fs)
  then show ?case by (cases k) (auto simp: in_flight_def)
qed simp

lemma in_flight_unused: "\<forall>f \<in> set fs. i \<notin> set (snd f) \<Longrightarrow> in_flight i fs = {#}"
  by (simp add: in_flight_def)

lemma owed_unused: "\<forall>b \<in> set bs. i \<notin> snd b \<Longrightarrow> owed i bs = {#}"
  by (simp add: owed_def)

lemma in_flight_snoc: "in_flight i (fs @ [(m, is)]) = in_flight i fs + (if i \<in> set is then {#m#} else {#})"
  by (simp add: in_flight_def)

lemma owed_snoc: "owed i (bs @ [(m, S)]) = owed i bs + (if i \<in> S then {#m#} else {#})"
  by (simp add: owed_def)

lemma on_session_simps [simp]:
  "alive (on_session i s n) = (alive n)(i \<mapsto> s)" "dying (on_session i s n) = dying n"
  "sessions (on_session i s n) = sessions n" "flights (on_session i s n) = flights n"
  "used (on_session i s n) = used n" "broadcasts (on_session i s n) = broadcasts n"
  by (simp_all add: on_session_def)

lemma node_ok_session:
  assumes "node_ok n" "alive n i = Some s" "session_ok s'" "accepted s' = accepted s"
  shows "node_ok (on_session i s' n)"
proof -
  have "table_ok (on_session i s' n)" using assms(1,2) by (auto simp: node_ok_def table_ok_def)
  moreover have "flights_ok (on_session i s' n)" using assms(1) by (simp add: node_ok_def flights_ok_def)
  moreover have "delivery_ok (on_session i s' n)" using assms by (simp add: node_ok_def delivery_ok_def)
  ultimately show ?thesis by (simp add: node_ok_def)
qed

lemma node_ok_construct:
  assumes "node_ok n" "i \<notin> used n"
  shows "node_ok (on_session i new_session (n\<lparr>used := insert i (used n)\<rparr>))" (is "node_ok ?n")
proof -
  have "in_flight i (flights n) = {#}" "owed i (broadcasts n) = {#}"
    using assms by (auto simp: node_ok_def flights_ok_def intro!: in_flight_unused owed_unused)
  then have "delivery_ok ?n" using assms(1) by (simp add: node_ok_def delivery_ok_def)
  moreover have "table_ok ?n" using assms by (auto simp: node_ok_def table_ok_def)
  moreover have "flights_ok ?n" using assms(1) by (auto simp: node_ok_def flights_ok_def)
  ultimately show ?thesis by (simp add: node_ok_def)
qed

lemma node_ok_snapshot:
  assumes "node_ok n" "distinct ids" "set ids \<subseteq> sessions n"
  shows "node_ok (snapshot m ids n)"
proof -
  have "set ids \<subseteq> used n" using assms unfolding node_ok_def table_ok_def by blast
  then have "flights_ok (snapshot m ids n)"
    using assms(1,2) by (auto simp: node_ok_def flights_ok_def snapshot_def)
  moreover have "delivery_ok (snapshot m ids n)"
    using assms(1) by (simp add: node_ok_def delivery_ok_def snapshot_def in_flight_snoc owed_snoc)
  moreover have "table_ok (snapshot m ids n)"
    using assms(1) by (simp add: node_ok_def table_ok_def snapshot_def)
  ultimately show ?thesis by (simp add: node_ok_def)
qed

lemma node_ok_send_next:
  assumes "node_ok n" "k < length (flights n)"
  shows "node_ok (send_next k n)"
proof -
  obtain m ids where k: "flights n ! k = (m, ids)" by fastforce
  show ?thesis
  proof (cases ids)
    case Nil
    with assms k show ?thesis by (simp add: send_next_def)
  next
    case (Cons i "is")
    let ?fs = "(flights n)[k := (m, is)]"
    have "(m, i # is) \<in> set (flights n)" using nth_mem [OF assms(2)] k Cons by simp
    with assms(1) have "distinct (i # is) \<and> set (i # is) \<subseteq> used n"
      by (force simp: node_ok_def flights_ok_def)
    then have d: "i \<notin> set is" "distinct is" "set is \<subseteq> used n" by auto
    have fl: "in_flight j (flights n) = (if j = i then {#m#} else {#}) + in_flight j ?fs" for j
      using in_flight_update [OF assms(2) _ d(1)] k Cons by simp
    have "\<forall>f \<in> set ?fs. distinct (snd f) \<and> set (snd f) \<subseteq> used n"
    proof
      fix f assume "f \<in> set ?fs"
      then have "f = (m, is) \<or> f \<in> set (flights n)" using set_update_subset_insert by fast
      then show "distinct (snd f) \<and> set (snd f) \<subseteq> used n"
        using assms(1) d(2,3) unfolding node_ok_def flights_ok_def by fastforce
    qed
    then have fo: "flights_ok (send_next k n)"
      using assms(1) k Cons by (simp add: node_ok_def flights_ok_def send_next_def Let_def split: option.splits)
    have to_: "table_ok (send_next k n)"
      using assms(1) k Cons by (auto simp: node_ok_def table_ok_def send_next_def Let_def split: option.splits)
    have "delivery_ok (send_next k n)"
    proof (cases "alive n i")
      case None
      have "in_flight j ?fs = in_flight j (flights n)" if "alive n j = Some s" for j s
        using fl [of j] None that by auto
      with None show ?thesis
        using assms(1) k Cons by (simp add: node_ok_def delivery_ok_def send_next_def Let_def)
    next
      case (Some s)
      then have "session_ok s" "mset (accepted s) + in_flight i (flights n) = owed i (broadcasts n)"
        using assms(1) by (auto simp: node_ok_def delivery_ok_def)
      moreover have "in_flight j ?fs = in_flight j (flights n)" if "j \<noteq> i" for j
        using fl [of j] that by simp
      ultimately show ?thesis
        using assms(1) k Cons fl [of i] Some by (auto simp: node_ok_def delivery_ok_def send_next_def Let_def)
    qed
    with fo to_ show ?thesis by (simp add: node_ok_def)
  qed
qed

lemma node_ok_join:
  assumes "node_ok n" "alive n i = Some s"
  shows "node_ok (join i n)"
  using assms by (auto simp: node_ok_def join_def table_ok_def flights_ok_def delivery_ok_def)

lemma node_ok_expire:
  assumes "node_ok n" "alive n i = Some s"
  shows "node_ok (n\<lparr>alive := (alive n)(i := None), dying := insert i (dying n)\<rparr>)"
  using assms by (auto simp: node_ok_def table_ok_def flights_ok_def delivery_ok_def)

lemma node_ok_destroy:
  assumes "node_ok n" "i \<in> dying n"
  shows "node_ok (leave i (n\<lparr>dying := dying n - {i}\<rparr>))"
  using assms by (auto simp: node_ok_def table_ok_def flights_ok_def delivery_ok_def leave_def)

lemma node_ok_sessionD: "node_ok n \<Longrightarrow> alive n i = Some s \<Longrightarrow> session_ok s"
  by (simp add: node_ok_def delivery_ok_def)

lemma node_ok_step:
  assumes "step n n'" "node_ok n"
  shows "node_ok n'"
  using assms(1)
proof (cases rule: step.cases)
  case (Construct i)
  with node_ok_construct [OF assms(2)] show ?thesis by simp
next
  case (Accept i s ec)
  then show ?thesis
    using node_ok_session [OF assms(2) Accept(2), of "s\<lparr>reading := False\<rparr>"] node_ok_join [OF assms(2) Accept(2)]
      node_ok_sessionD [OF assms(2) Accept(2)]
    by (simp add: on_accept_def)
next
  case (Read i s ids m)
  then show ?thesis
    using node_ok_session [OF assms(2) Read(2), of "s\<lparr>reading := False\<rparr>"] node_ok_snapshot [OF assms(2) Read(5)]
      node_ok_sessionD [OF assms(2) Read(2)]
    by (simp add: on_read_def split: option.splits)
next
  case (Send_next k)
  with node_ok_send_next [OF assms(2)] show ?thesis by simp
next
  case (Run_posted i s m ms)
  with session_ok_on_send [OF node_ok_sessionD [OF assms(2) Run_posted(2)] Run_posted(3)]
  show ?thesis using node_ok_session [OF assms(2) Run_posted(2)] by simp
next
  case (Write i s ec)
  with session_ok_on_write [OF node_ok_sessionD [OF assms(2) Write(2)] Write(3)]
  show ?thesis using node_ok_session [OF assms(2) Write(2)] by simp
next
  case (Expire i s)
  with node_ok_expire [OF assms(2)] show ?thesis by simp
next
  case (Destroy i)
  with node_ok_destroy [OF assms(2)] show ?thesis by simp
qed

lemma node_ok_reachable: "reachable n \<Longrightarrow> node_ok n"
  unfolding reachable_def
proof (induction rule: rtranclp_induct)
  case base
  show ?case by (simp add: node_ok_def table_ok_def flights_ok_def delivery_ok_def node_new_def)
qed (rule node_ok_step)

section \<open>What a step does to a session\<close>

text \<open>A live session only ever gets messages at the end; one whose write failed writes no more.\<close>

definition session_extends :: "'m session \<Rightarrow> 'm session \<Rightarrow> bool" where
  "session_extends s s' \<longleftrightarrow> (\<exists>ms. accepted s' = accepted s @ ms) \<and> (\<exists>ws. written s' = written s @ ws) \<and>
     (write_failed s \<longrightarrow> write_failed s' \<and> writing s' = None \<and> written s' = written s \<and>
        (\<exists>ms. queue s' = queue s @ ms))"

lemma session_extends_same:
  "session_ok s \<Longrightarrow> posted s' = posted s \<Longrightarrow> queue s' = queue s \<Longrightarrow> writing s' = writing s \<Longrightarrow>
     written s' = written s \<Longrightarrow> write_failed s' = write_failed s \<Longrightarrow> session_extends s s'"
  by (auto simp: session_extends_def accepted_def session_ok_def split: option.splits)

lemma session_extends_trans: "session_extends a b \<Longrightarrow> session_extends b c \<Longrightarrow> session_extends a c"
  unfolding session_extends_def by (metis append_assoc)

lemma session_extends_send: "session_ok s \<Longrightarrow> session_extends s (send m s)"
  by (auto simp: session_extends_def send_def accepted_def session_ok_def split: option.splits)

lemma session_extends_on_send:
  "session_ok s \<Longrightarrow> posted s = m # ms \<Longrightarrow> session_extends s (on_send m (s\<lparr>posted := ms\<rparr>))"
  by (cases "queue s")
    (auto simp: session_extends_def on_send_def accepted_def session_ok_def async_write_def split: option.splits)

lemma session_extends_on_write:
  "session_ok s \<Longrightarrow> writing s \<noteq> None \<Longrightarrow> session_extends s (on_write ec s)"
  by (cases "queue s")
    (auto simp: session_extends_def on_write_def accepted_def session_ok_def async_write_def Let_def split: option.splits)

lemma alive_used: "node_ok n \<Longrightarrow> alive n i = Some s \<Longrightarrow> i \<in> used n"
  unfolding node_ok_def table_ok_def by blast

lemma alive_node_simps [simp]:
  "alive (snapshot m ids n) = alive n" "alive (join i n) = alive n" "alive (leave i n) = alive n"
  "used (snapshot m ids n) = used n" "used (join i n) = used n" "used (leave i n) = used n"
  by (simp_all add: snapshot_def join_def leave_def)

lemma send_next_alive:
  "used (send_next k n) = used n \<and> (alive (send_next k n) = alive n \<or>
     (\<exists>i s m. alive n i = Some s \<and> alive (send_next k n) = (alive n)(i \<mapsto> send m s)))"
  by (auto simp: send_next_def Let_def split: prod.splits list.splits option.splits)

lemma step_session:
  assumes "step n n'" "node_ok n" "alive n' i = Some s'" "i \<in> used n"
  shows "\<exists>s. alive n i = Some s \<and> session_extends s s'"
proof -
  have same: "session_extends s s" if "alive n j = Some s" for j s
    using node_ok_sessionD [OF assms(2) that] by (intro session_extends_same) auto
  have ok: "\<And>j s. alive n j = Some s \<Longrightarrow> session_ok s" by (rule node_ok_sessionD [OF assms(2)])
  have upd: "\<exists>s. alive n i = Some s \<and> session_extends s s'"
    if "alive n' = (alive n)(j \<mapsto> t')" "alive n j = Some t" "session_extends t t'" for j t t'
    using that assms(3) same by (cases "i = j") auto
  from assms(1) show ?thesis
  proof (cases rule: step.cases)
    case (Construct j)
    with assms(3,4) same show ?thesis by (cases "i = j") auto
  next
    case (Accept j s ec)
    with assms(3) same ok [OF Accept(2)] upd [of j "s\<lparr>reading := False\<rparr>" s] session_extends_same [of s "s\<lparr>reading := False\<rparr>"]
    show ?thesis by (cases ec) (auto simp: on_accept_def)
  next
    case (Read j s ids m)
    with assms(3) same ok [OF Read(2)] upd [of j "s\<lparr>reading := False\<rparr>" s] session_extends_same [of s "s\<lparr>reading := False\<rparr>"]
    show ?thesis by (cases m) (auto simp: on_read_def)
  next
    case (Send_next k)
    with send_next_alive [of k n] assms(3) same ok upd session_extends_send show ?thesis by metis
  next
    case (Run_posted j s m ms)
    then show ?thesis using upd session_extends_on_send [OF ok] by simp
  next
    case (Write j s ec)
    then show ?thesis using upd session_extends_on_write [OF ok] by simp
  next
    case (Expire j s)
    with assms(3) same show ?thesis by (cases "i = j") auto
  next
    case (Destroy j)
    with assms(3) same show ?thesis by auto
  qed
qed

lemma step_used: "step n n' \<Longrightarrow> used n \<subseteq> used n'"
  by (induction rule: step.induct)
    (auto simp: on_accept_def on_read_def send_next_alive split: option.splits)

lemma steps_session:
  assumes "step\<^sup>*\<^sup>* n n'" "node_ok n" "alive n' i = Some s'" "i \<in> used n"
  shows "\<exists>s. alive n i = Some s \<and> session_extends s s'"
  using assms(1,3)
proof (induction arbitrary: s' rule: rtranclp_induct)
  case base
  with node_ok_sessionD [OF assms(2)] show ?case by (auto intro: session_extends_same)
next
  case (step y z)
  have y: "node_ok y" "used n \<subseteq> used y"
    using step.hyps(1) assms(2) step_used node_ok_step by (induction rule: rtranclp_induct) blast+
  from step_session [OF step.hyps(2) y(1) step.prems] y(2) assms(4)
  obtain t where "alive y i = Some t" "session_extends t s'" by blast
  with step.IH session_extends_trans show ?case by blast
qed

section \<open>Properties\<close>


text \<open>
  The table of sessions never holds a pointer to a destroyed session: each one is alive
  or its destructor, which removes it, has still to run.
\<close>

theorem sessions_not_dangling:
  assumes "reachable n" "i \<in> sessions n"
  shows "(\<exists>s. alive n i = Some s) \<or> i \<in> dying n"
  using node_ok_reachable [OF assms(1)] assms(2) unfolding node_ok_def table_ok_def by blast

text \<open>
  Sessions are first in, first out: as long as a session lives, what it was handed and
  what it has written only grow at the end. After a failed write it never writes again, and
  what it is handed piles up in its queue.
\<close>

theorem session_fifo:
  assumes "reachable n" "alive n i = Some s" "step\<^sup>*\<^sup>* n n'" "alive n' i = Some s'"
  shows "(\<exists>ms. accepted s' = accepted s @ ms) \<and> (\<exists>ws. written s' = written s @ ws) \<and>
         (write_failed s \<longrightarrow> writing s' = None \<and> written s' = written s \<and> (\<exists>ms. queue s' = queue s @ ms))"
proof -
  note ok = node_ok_reachable [OF assms(1)]
  from steps_session [OF assms(3) ok assms(4) alive_used [OF ok assms(2)]] assms(2)
  have "session_extends s s'" by simp
  then show ?thesis by (auto simp: session_extends_def)
qed

text \<open>A session that is accepted, reads a message and writes it back to itself.\<close>

definition echo_node :: "(nat, string) node" where
  "echo_node = on_session 0 (on_send ''hi'' (new_session :: string session))
     (send_next 0 (snapshot ''hi'' [0] (join 0 (on_session 0 new_session (node_new\<lparr>used := {0}\<rparr>)))))"

lemma echo_steps: "step\<^sup>*\<^sup>* node_new echo_node"
proof -
  let ?s = "new_session :: string session"
  let ?n1 = "on_session 0 ?s (node_new\<lparr>used := {0}\<rparr>) :: (nat, string) node"
  let ?n2 = "join 0 ?n1"
  let ?n3 = "snapshot ''hi'' [0] ?n2"
  let ?n4 = "send_next 0 ?n3"
  have s1: "step node_new ?n1"
    using step.Construct [of 0 "node_new :: (nat, string) node"] by (simp add: node_new_def)
  have s2: "step ?n1 ?n2"
    using step.Accept [of ?n1 0 ?s False] by (simp add: node_new_def new_session_def on_accept_def)
  have s3: "step ?n2 ?n3"
    using step.Read [of ?n2 0 ?s "[0]" "Some ''hi''"]
    by (simp add: node_new_def new_session_def on_read_def join_def)
  have s4: "step ?n3 ?n4"
    by (rule step.Send_next) (simp add: snapshot_def)
  have s5: "step ?n4 echo_node"
    using step.Run_posted [of ?n4 0 "send ''hi'' ?s" "''hi''" "[]"]
    by (simp add: echo_node_def send_next_def snapshot_def join_def node_new_def send_def new_session_def)
  note c = converse_rtranclp_into_rtranclp [of step]
  show ?thesis by (rule c [OF s1 c [OF s2 c [OF s3 c [OF s4 r_into_rtranclp [of step, OF s5]]]]])
qed

lemma echo_session:
  "alive echo_node 0 = Some \<lparr>reading = True, posted = [], queue = [''hi''], writing = Some ''hi'', written = [],
     write_failed = False\<rparr>" "sessions echo_node = {0}"
  by (simp_all add: echo_node_def on_send_def async_write_def new_session_def send_next_def snapshot_def
      join_def node_new_def)


theorem sessions_not_dangling_witness: "(\<exists>s. alive echo_node 0 = Some s) \<or> 0 \<in> dying echo_node"
  using sessions_not_dangling [of echo_node 0] echo_steps echo_session(2) by (simp add: reachable_def)

theorem session_fifo_witness:
  "\<exists>ms. accepted (the (alive echo_node 0)) = accepted (the (alive echo_node 0)) @ ms"
  using session_fifo [OF _ echo_session(1) rtranclp.rtrancl_refl echo_session(1)] echo_steps echo_session(1)
  by (simp add: reachable_def)

end
