(* ===== verification/Net_Http.thy ===== *)
theory Net_Http
  imports Clio_Prelude "HOL-Library.Sublist"
begin

text \<open>
  The HTTP side of the node (http_session.cpp): the content type of a path, the mapping of a request
  target to a file, the response to a request and the life of a connection.

  The file system is a parameter: what opening a path gives. Header fields that do not depend on the
  request (the server name) are left out.
\<close>

section \<open>Content types\<close>

definition lower_char :: "char \<Rightarrow> char" where
  "lower_char c = (let n = of_char c :: nat in if 65 \<le> n \<and> n \<le> 90 then char_of (n + 32) else c)"

definition iequals :: "string \<Rightarrow> string \<Rightarrow> bool" where
  "iequals a b \<longleftrightarrow> map lower_char a = map lower_char b"

text \<open>From the last dot on; empty when there is none.\<close>

definition extension :: "string \<Rightarrow> string" where
  "extension path =
     (let r = rev path; e = takeWhile (\<lambda>c. c \<noteq> CHR ''.'') r
      in if length e = length r then [] else CHR ''.'' # rev e)"

definition mime_types :: "(string \<times> string) list" where
  "mime_types =
     [(''.htm'', ''text/html''), (''.html'', ''text/html''), (''.php'', ''text/html''),
      (''.css'', ''text/css''), (''.txt'', ''text/plain''), (''.js'', ''application/javascript''),
      (''.json'', ''application/json''), (''.xml'', ''application/xml''),
      (''.swf'', ''application/x-shockwave-flash''), (''.flv'', ''video/x-flv''),
      (''.png'', ''image/png''), (''.jpe'', ''image/jpeg''), (''.jpeg'', ''image/jpeg''),
      (''.jpg'', ''image/jpeg''), (''.gif'', ''image/gif''), (''.bmp'', ''image/bmp''),
      (''.ico'', ''image/vnd.microsoft.icon''), (''.tiff'', ''image/tiff''), (''.tif'', ''image/tiff''),
      (''.svg'', ''image/svg+xml''), (''.svgz'', ''image/svg+xml'')]"

definition mime_type :: "string \<Rightarrow> string" where
  "mime_type path =
     (case find (\<lambda>(e, _). iequals (extension path) e) mime_types of
        Some (_, t) \<Rightarrow> t
      | None \<Rightarrow> ''application/text'')"

section \<open>Paths\<close>

definition path_cat :: "string \<Rightarrow> string \<Rightarrow> string" where
  "path_cat base path =
     (if base = [] then path
      else (if last base = CHR ''/'' then butlast base else base) @ path)"

definition contains :: "string \<Rightarrow> string \<Rightarrow> bool" where
  "contains pat s \<longleftrightarrow> list_ex (\<lambda>i. take (length pat) (drop i s) = pat) [0..<Suc (length s)]"

definition legal_target :: "string \<Rightarrow> bool" where
  "legal_target t \<longleftrightarrow> t \<noteq> [] \<and> hd t = CHR ''/'' \<and> \<not> contains ''..'' t"

definition request_path :: "string \<Rightarrow> string \<Rightarrow> string" where
  "request_path doc_root t =
     (let path = path_cat doc_root t in if last t = CHR ''/'' then path @ ''index.html'' else path)"

text \<open>What \<^verbatim>\<open>open(path.c_str())\<close> sees.\<close>

definition c_str :: "string \<Rightarrow> string" where
  "c_str s = takeWhile (\<lambda>c. c \<noteq> CHR 0x00) s"

section \<open>Requests and responses\<close>

datatype verb = Get | Head | Other_verb

record request =
  req_verb :: verb
  target :: string
  version :: nat
  req_keep_alive :: bool

datatype file_open = Opened string | No_such_file | Open_error string

datatype status = Ok_status | Bad_request | Not_found | Internal_server_error

datatype body = String_body string | Empty_body nat | File_body string

record response =
  res_status :: status
  res_version :: nat
  content_type :: string
  res_keep_alive :: bool
  res_body :: body

text \<open>\<^verbatim>\<open>prepare_payload\<close> and \<^verbatim>\<open>content_length\<close> set the length of the body.\<close>

definition content_length :: "response \<Rightarrow> nat" where
  "content_length r = (case res_body r of String_body b \<Rightarrow> length b | Empty_body n \<Rightarrow> n | File_body b \<Rightarrow> length b)"

definition error_response :: "status \<Rightarrow> string \<Rightarrow> request \<Rightarrow> response" where
  "error_response st msg req =
     \<lparr>res_status = st, res_version = version req, content_type = ''text/html'',
      res_keep_alive = req_keep_alive req, res_body = String_body msg\<rparr>"

definition bad_request :: "string \<Rightarrow> request \<Rightarrow> response" where
  "bad_request why req = error_response Bad_request why req"

definition not_found :: "string \<Rightarrow> request \<Rightarrow> response" where
  "not_found t req = error_response Not_found (''The resource '' @ [CHR 0x27] @ t @ [CHR 0x27] @ '' was not found.'') req"

definition server_error :: "string \<Rightarrow> request \<Rightarrow> response" where
  "server_error what req =
     error_response Internal_server_error (''An error occurred: '' @ [CHR 0x27] @ what @ [CHR 0x27]) req"

definition handle_request :: "(string \<Rightarrow> file_open) \<Rightarrow> string \<Rightarrow> request \<Rightarrow> response" where
  "handle_request fs doc_root req =
     (if req_verb req \<noteq> Get \<and> req_verb req \<noteq> Head then bad_request ''Unknown HTTP-method'' req
      else if \<not> legal_target (target req) then bad_request ''Illegal request-target'' req
      else
        let path = request_path doc_root (target req)
        in (case fs (c_str path) of
              No_such_file \<Rightarrow> not_found (target req) req
            | Open_error msg \<Rightarrow> server_error msg req
            | Opened contents \<Rightarrow>
                \<lparr>res_status = Ok_status, res_version = version req, content_type = mime_type path,
                 res_keep_alive = req_keep_alive req,
                 res_body = (if req_verb req = Head then Empty_body (length contents) else File_body contents)\<rparr>))"

section \<open>A connection\<close>

datatype http_state = Http_reading | Http_writing response | Http_done

datatype read_result = End_of_stream | Read_error | Request request bool   \<comment> \<open>is it an upgrade\<close>

datatype http_action =
    Async_read | Async_write response | Shutdown_send | Start_websocket request | Report_failure

definition on_read ::
  "(string \<Rightarrow> file_open) \<Rightarrow> string \<Rightarrow> read_result \<Rightarrow> http_state \<times> http_action" where
  "on_read fs doc_root r =
     (case r of
        End_of_stream \<Rightarrow> (Http_done, Shutdown_send)
      | Read_error \<Rightarrow> (Http_done, Report_failure)
      | Request req upgrade \<Rightarrow>
          if upgrade then (Http_done, Start_websocket req)
          else let res = handle_request fs doc_root req in (Http_writing res, Async_write res))"

text \<open>Whether a response needs the connection closed is the HTTP library's \<^verbatim>\<open>need_eof\<close>.\<close>

definition on_write :: "bool \<Rightarrow> bool \<Rightarrow> http_state \<times> http_action" where
  "on_write ec close =
     (if ec then (Http_done, Report_failure)
      else if close then (Http_done, Shutdown_send)
      else (Http_reading, Async_read))"

datatype http_event = Read_done read_result | Write_done bool

text \<open>The completions of a connection, from its first read on: what it starts after each.\<close>

fun http_run ::
  "(response \<Rightarrow> bool) \<Rightarrow> (string \<Rightarrow> file_open) \<Rightarrow> string \<Rightarrow> http_state \<Rightarrow> http_event list \<Rightarrow> http_action list" where
  "http_run need_eof fs doc_root st [] = []"
| "http_run need_eof fs doc_root st (ev # evs) =
     (case (st, ev) of
        (Http_reading, Read_done r) \<Rightarrow>
          (case on_read fs doc_root r of (st, a) \<Rightarrow> a # http_run need_eof fs doc_root st evs)
      | (Http_writing res, Write_done ec) \<Rightarrow>
          (case on_write ec (need_eof res) of (st, a) \<Rightarrow> a # http_run need_eof fs doc_root st evs)
      | _ \<Rightarrow> [])"

section \<open>Paths under the document root\<close>

fun components :: "string \<Rightarrow> string list" where
  "components [] = [[]]"
| "components (c # cs) =
     (if c = CHR ''/'' then [] # components cs
      else (case components cs of w # ws \<Rightarrow> (c # w) # ws | [] \<Rightarrow> [[c]]))"

lemma component_sublist: "w \<in> set (components s) \<Longrightarrow> sublist w s"
proof -
  have "(\<forall>w \<in> set (components s). sublist w s) \<and> components s \<noteq> [] \<and> prefix (hd (components s)) s"
  proof (induction s)
    case (Cons c s)
    then show ?case
      by (cases "components s") (auto simp: sublist_Cons_right)
  qed simp
  then show "w \<in> set (components s) \<Longrightarrow> sublist w s" by blast
qed

lemma contains_sublist: "contains pat s \<longleftrightarrow> sublist pat s"
proof
  assume "contains pat s"
  then obtain i where "take (length pat) (drop i s) = pat" by (auto simp: contains_def list_ex_iff)
  then show "sublist pat s" by (metis sublist_drop sublist_order.order_trans sublist_take)
next
  assume "sublist pat s"
  then obtain ps ss where s: "s = ps @ pat @ ss" by (auto simp: sublist_def)
  then have "take (length pat) (drop (length ps) s) = pat" by simp
  moreover have "length ps \<in> set [0..<Suc (length s)]" using s by simp
  ultimately show "contains pat s" unfolding contains_def list_ex_iff by blast
qed

text \<open>A path of the root followed by one that never climbs out of it.\<close>

definition under :: "string \<Rightarrow> string \<Rightarrow> bool" where
  "under doc_root p \<longleftrightarrow>
     (\<exists>r. p = path_cat doc_root (CHR ''/'' # r) \<and> ''..'' \<notin> set (components (CHR ''/'' # r)))"

lemma c_str_append: "CHR 0x00 \<notin> set a \<Longrightarrow> c_str (a @ b) = a @ c_str b"
  by (induction a) (auto simp: c_str_def)

lemma c_str_sublist: "sublist w (c_str s) \<Longrightarrow> sublist w s"
  unfolding c_str_def using takeWhile_is_prefix prefix_imp_sublist sublist_order.order_trans by metis

lemma dots_index: "last t = CHR ''/'' \<Longrightarrow> sublist ''..'' (t @ ''index.html'') \<Longrightarrow> sublist ''..'' t"
proof -
  assume last: "last t = CHR ''/''" and "sublist ''..'' (t @ ''index.html'')"
  then consider "sublist ''..'' t" | "sublist ''..'' ''index.html''"
    | u v where "''..'' = u @ v" "suffix u t" "prefix v ''index.html''"
    unfolding sublist_append by blast
  then show "sublist ''..'' t"
  proof cases
    case 2
    then show ?thesis by (simp add: sublist_Cons_right)
  next
    case (3 u v)
    then have "u = [] \<and> v = ''..'' \<or> u = ''.'' \<and> v = ''.'' \<or> u = ''..''"
      by (auto simp: append_eq_Cons_conv Cons_eq_append_conv)
    moreover have "\<not> suffix ''.'' t" using last by (auto simp: suffix_def)
    ultimately show ?thesis using 3 by (auto intro: suffix_imp_sublist)
  qed
qed

lemma request_path_under:
  assumes "doc_root \<noteq> []" "CHR 0x00 \<notin> set doc_root" "legal_target t"
  shows "under doc_root (c_str (request_path doc_root t))"
proof -
  let ?t = "if last t = CHR ''/'' then t @ ''index.html'' else t"
  let ?b = "if last doc_root = CHR ''/'' then butlast doc_root else doc_root"
  have "CHR 0x00 \<notin> set ?b" using assms(2) by (auto dest: in_set_butlastD)
  moreover have p: "request_path doc_root t = ?b @ ?t"
    using assms(1) by (simp add: request_path_def path_cat_def Let_def)
  ultimately have c: "c_str (request_path doc_root t) = ?b @ c_str ?t" by (simp add: c_str_append)
  obtain r where r: "?t = CHR ''/'' # r" using assms(3) by (cases t; cases "last t = CHR ''/''") (auto simp: legal_target_def)
  have "\<not> sublist ''..'' t" using assms(3) by (simp add: legal_target_def contains_sublist)
  then have "\<not> sublist ''..'' ?t" using dots_index by auto
  then have n: "''..'' \<notin> set (components (c_str ?t))" using component_sublist c_str_sublist by blast
  have "c_str ?t = CHR ''/'' # c_str r" unfolding r by (simp add: c_str_def)
  then show ?thesis
    unfolding under_def using c n assms(1) by (auto simp: path_cat_def)
qed

section \<open>Properties\<close>

text \<open>
  C24 (safety): A request can only make the server open files under its document root, by paths without
  a dot-dot component: the response to any request is the same for two file systems that agree there.
  (With an empty document root the target itself is the path.)
\<close>

theorem handle_request_confined:
  assumes "doc_root \<noteq> []" "CHR 0x00 \<notin> set doc_root"
    and "\<And>p. under doc_root p \<Longrightarrow> fs p = fs' p"
  shows "handle_request fs doc_root req = handle_request fs' doc_root req"
  using assms(3) [OF request_path_under [OF assms(1,2)]]
  by (simp add: handle_request_def Let_def)

text \<open>A secret outside of the root.\<close>

theorem handle_request_confined_witness:
  "handle_request (\<lambda>p. if p = ''/etc/passwd'' then Opened ''root'' else No_such_file) ''/www/''
     \<lparr>req_verb = Get, target = ''//etc/passwd'', version = 11, req_keep_alive = True\<rparr> =
   handle_request (\<lambda>p. No_such_file) ''/www/''
     \<lparr>req_verb = Get, target = ''//etc/passwd'', version = 11, req_keep_alive = True\<rparr>"
proof (rule handle_request_confined)
  fix p assume "under ''/www/'' p"
  then obtain r where "p = ''/www'' @ CHR ''/'' # r" by (auto simp: under_def path_cat_def)
  then show "(if p = ''/etc/passwd'' then Opened ''root'' else No_such_file) = No_such_file" by auto
qed simp_all

text \<open>
  A HEAD request is answered like the GET request for the same target, with the same
  status, content type and length, and without the file's content.
\<close>

theorem head_like_get:
  "req_verb req = Get \<Longrightarrow>
     (let g = handle_request fs doc_root req; h = handle_request fs doc_root (req\<lparr>req_verb := Head\<rparr>)
      in h = g\<lparr>res_body := res_body h\<rparr> \<and> content_length h = content_length g \<and>
         (res_status g = Ok_status \<longleftrightarrow> res_body h = Empty_body (content_length g)))"
  by (cases "fs (c_str (request_path doc_root (target req)))")
    (auto simp: handle_request_def content_length_def bad_request_def not_found_def server_error_def
      error_response_def Let_def)

theorem head_like_get_witness:
  "res_body (handle_request (\<lambda>_. Opened ''abc'') ''.''
     \<lparr>req_verb = Head, target = ''/a.txt'', version = 11, req_keep_alive = True\<rparr>) = Empty_body 3"
proof -
  let ?r = "\<lparr>req_verb = Get, target = ''/a.txt'', version = 11, req_keep_alive = True\<rparr>"
  have l: "legal_target ''/a.txt''" by (simp add: legal_target_def contains_def upt_rec)
  have "res_status (handle_request (\<lambda>_. Opened ''abc'') ''.'' ?r) = Ok_status"
    "content_length (handle_request (\<lambda>_. Opened ''abc'') ''.'' ?r) = 3"
    using l by (simp_all add: handle_request_def content_length_def)
  then show ?thesis using head_like_get [of ?r "\<lambda>_. Opened ''abc''" "''.''"] by (simp add: Let_def)
qed

end
