(* ===== verification/Spec2Isabelle.thy ===== *)
theory Spec2Isabelle
  imports Clio_Schema_Props Clintrinsics_Object Clintrinsics_Task_Props Clio_Flatbuf_View Clio_Json_Any Clio_Protobuf_Props Clio_Fracpack_Props Clio_Bin Clio_Key Clio_Name Clcrypto_Base58 Clio_Compress Clio_Json_Read Appbase_Lifecycle Appbase_Dispatch
    Net_Session Net_Http
begin

text \<open>
  A verification development for the libraries of Clarion.
\<close>

end
